(* ===== verification/Go_Strings.thy ===== *)
theory Go_Strings
  imports Go_Prelude
begin

text \<open>
  The parts of Go's \<open>strings\<close>, \<open>unicode\<close>, \<open>utf8\<close>, \<open>path\<close> and \<open>net/url\<close>
  packages the modelled code calls. A Go string is its bytes, so it is a \<open>string\<close>
  whose characters are bytes. Case mapping (\<open>ToLower\<close>, \<open>ToUpper\<close>,
  \<open>EqualFold\<close>) is modelled on ASCII letters; other bytes stay as they are.
\<close>

subsection \<open>Bytes\<close>

abbreviation byte :: "char \<Rightarrow> nat" where
  "byte c \<equiv> of_char c"

definition is_lower :: "char \<Rightarrow> bool" where
  "is_lower c \<longleftrightarrow> 97 \<le> byte c \<and> byte c \<le> 122"

definition is_upper :: "char \<Rightarrow> bool" where
  "is_upper c \<longleftrightarrow> 65 \<le> byte c \<and> byte c \<le> 90"

definition is_digit :: "char \<Rightarrow> bool" where
  "is_digit c \<longleftrightarrow> 48 \<le> byte c \<and> byte c \<le> 57"

definition is_alnum :: "char \<Rightarrow> bool" where
  "is_alnum c \<longleftrightarrow> is_lower c \<or> is_upper c \<or> is_digit c"

definition lower_char :: "char \<Rightarrow> char" where
  "lower_char c = (if is_upper c then char_of (byte c + 32) else c)"

definition upper_char :: "char \<Rightarrow> char" where
  "upper_char c = (if is_lower c then char_of (byte c - 32) else c)"

definition to_lower :: "string \<Rightarrow> string" where
  "to_lower s = map lower_char s"

definition to_upper :: "string \<Rightarrow> string" where
  "to_upper s = map upper_char s"

definition equal_fold :: "string \<Rightarrow> string \<Rightarrow> bool" where
  "equal_fold s t \<longleftrightarrow> to_lower s = to_lower t"

lemmas char_class_defs = is_lower_def is_upper_def is_digit_def is_alnum_def

lemma byte_lower_char:
  "byte (lower_char c) = (if is_upper c then byte c + 32 else byte c)"
  by (simp add: lower_char_def is_upper_def)

lemma lower_char_idem [simp]: "lower_char (lower_char c) = lower_char c"
  by (simp add: lower_char_def is_upper_def)

lemma to_lower_idem [simp]: "to_lower (to_lower s) = to_lower s"
  by (simp add: to_lower_def)

lemma to_lower_append [simp]: "to_lower (s @ t) = to_lower s @ to_lower t"
  by (simp add: to_lower_def)

lemma to_lower_Nil [simp]: "to_lower [] = []"
  by (simp add: to_lower_def)

lemma to_lower_eq_Nil [simp]: "to_lower s = [] \<longleftrightarrow> s = []"
  by (simp add: to_lower_def)

lemma length_to_lower [simp]: "length (to_lower s) = length s"
  by (simp add: to_lower_def)

lemma equal_fold_refl [simp]: "equal_fold s s"
  by (simp add: equal_fold_def)

lemma equal_fold_sym: "equal_fold s t \<longleftrightarrow> equal_fold t s"
  by (auto simp: equal_fold_def)

lemma equal_fold_trans: "equal_fold s t \<Longrightarrow> equal_fold t u \<Longrightarrow> equal_fold s u"
  by (simp add: equal_fold_def)

subsection \<open>Searching and trimming\<close>

definition has_prefix :: "string \<Rightarrow> string \<Rightarrow> bool" where
  "has_prefix s p \<longleftrightarrow> take (length p) s = p"

definition has_suffix :: "string \<Rightarrow> string \<Rightarrow> bool" where
  "has_suffix s p \<longleftrightarrow> has_prefix (rev s) (rev p)"

definition contains_char :: "string \<Rightarrow> char \<Rightarrow> bool" where
  "contains_char s c \<longleftrightarrow> c \<in> set s"

definition contains_any :: "string \<Rightarrow> string \<Rightarrow> bool" where
  "contains_any s cs \<longleftrightarrow> list_ex (\<lambda>c. c \<in> set cs) s"

text \<open>\<open>strings.Trim(s, cutset)\<close> for an ASCII cutset.\<close>

definition trim_set :: "string \<Rightarrow> string \<Rightarrow> string" where
  "trim_set s cs =
     rev (dropWhile (\<lambda>c. c \<in> set cs) (rev (dropWhile (\<lambda>c. c \<in> set cs) s)))"

lemma trim_set_Nil_iff: "trim_set s cs = [] \<longleftrightarrow> set s \<subseteq> set cs"
proof -
  have "trim_set s cs = [] \<longleftrightarrow> set (dropWhile (\<lambda>c. c \<in> set cs) s) \<subseteq> set cs"
    by (auto simp: trim_set_def dropWhile_eq_Nil_conv)
  also have "\<dots> \<longleftrightarrow> dropWhile (\<lambda>c. c \<in> set cs) s = []"
    by (induction s) (auto split: if_splits)
  also have "\<dots> \<longleftrightarrow> set s \<subseteq> set cs"
    by (auto simp: dropWhile_eq_Nil_conv)
  finally show ?thesis .
qed

subsection \<open>Split and join on one separator\<close>

fun split_on :: "char \<Rightarrow> string \<Rightarrow> string list" where
  "split_on c [] = [[]]"
| "split_on c (x # xs) =
     (if x = c then [] # split_on c xs
      else (case split_on c xs of [] \<Rightarrow> [[x]] | y # ys \<Rightarrow> (x # y) # ys))"

fun join_with :: "char \<Rightarrow> string list \<Rightarrow> string" where
  "join_with c [] = []"
| "join_with c [s] = s"
| "join_with c (s # t # ss) = s @ c # join_with c (t # ss)"

lemma split_on_not_Nil [simp]: "split_on c s \<noteq> []"
  by (induction s) (auto split: list.splits)

lemma join_with_Cons: "ss \<noteq> [] \<Longrightarrow> join_with c (s # ss) = s @ c # join_with c ss"
  by (cases ss) auto

lemma join_split: "join_with c (split_on c s) = s"
proof (induction s)
  case (Cons x xs)
  show ?case
  proof (cases "x = c")
    case True
    with Cons show ?thesis by (simp add: join_with_Cons)
  next
    case False
    obtain y ys where *: "split_on c xs = y # ys"
      by (cases "split_on c xs") auto
    with Cons False show ?thesis
      by (cases ys) (auto simp: *)
  qed
qed simp

lemma split_on_no_sep: "seg \<in> set (split_on c s) \<Longrightarrow> c \<notin> set seg"
  by (induction s arbitrary: seg) (auto split: if_splits list.splits)

lemma split_on_subset: "seg \<in> set (split_on c s) \<Longrightarrow> set seg \<subseteq> set s"
  by (induction s arbitrary: seg) (fastforce split: if_splits list.splits)+

lemma split_on_inject: "split_on c s = split_on c t \<longleftrightarrow> s = t"
  by (metis join_split)

lemma split_on_map:
  assumes "\<And>x. (f x = c) = (x = c)"
  shows "split_on c (map f s) = map (map f) (split_on c s)"
  using assms by (induction s) (auto split: list.splits)

lemma lower_char_slash: "lower_char x = CHR ''/'' \<longleftrightarrow> x = CHR ''/''"
proof
  assume "lower_char x = CHR ''/''"
  then have "byte (lower_char x) = 47" by simp
  then have "byte x = 47"
    by (auto simp: byte_lower_char is_upper_def split: if_splits)
  then have "byte x = byte CHR ''/''" by simp
  then show "x = CHR ''/''" by (simp only: of_char_eq_iff)
qed (simp add: lower_char_def is_upper_def)

lemma split_to_lower: "split_on CHR ''/'' (to_lower s) = map to_lower (split_on CHR ''/'' s)"
  unfolding to_lower_def by (rule split_on_map) (rule lower_char_slash)

subsection \<open>Runes\<close>

text \<open>
  How \<open>range\<close>, \<open>strings.IndexFunc\<close> and \<open>utf8\<close> read a string: \<open>rune_len s\<close>
  is the number of bytes of the first rune (1 for a byte that starts no valid
  encoding), \<open>runes s\<close> the string cut into its runes.
\<close>

definition is_cont :: "char \<Rightarrow> bool" where
  "is_cont c \<longleftrightarrow> 128 \<le> byte c \<and> byte c \<le> 191"

fun rune_len :: "string \<Rightarrow> nat" where
  "rune_len (a # b # c # d # _) =
     (if 194 \<le> byte a \<and> byte a \<le> 223 \<and> is_cont b then 2
      else if (byte a = 224 \<and> 160 \<le> byte b \<and> is_cont b
               \<or> byte a = 237 \<and> 128 \<le> byte b \<and> byte b \<le> 159
               \<or> (225 \<le> byte a \<and> byte a \<le> 236 \<or> 238 \<le> byte a \<and> byte a \<le> 239) \<and> is_cont b)
              \<and> is_cont c then 3
      else if (byte a = 240 \<and> 144 \<le> byte b \<and> is_cont b
               \<or> byte a = 244 \<and> 128 \<le> byte b \<and> byte b \<le> 143
               \<or> 241 \<le> byte a \<and> byte a \<le> 243 \<and> is_cont b)
              \<and> is_cont c \<and> is_cont d then 4
      else 1)"
| "rune_len [a, b, c] =
     (if 194 \<le> byte a \<and> byte a \<le> 223 \<and> is_cont b then 2
      else if (byte a = 224 \<and> 160 \<le> byte b \<and> is_cont b
               \<or> byte a = 237 \<and> 128 \<le> byte b \<and> byte b \<le> 159
               \<or> (225 \<le> byte a \<and> byte a \<le> 236 \<or> 238 \<le> byte a \<and> byte a \<le> 239) \<and> is_cont b)
              \<and> is_cont c then 3
      else 1)"
| "rune_len [a, b] = (if 194 \<le> byte a \<and> byte a \<le> 223 \<and> is_cont b then 2 else 1)"
| "rune_len [a] = 1"
| "rune_len [] = 0"

function runes :: "string \<Rightarrow> string list" where
  "runes [] = []"
| "runes (b # bs) = take (rune_len (b # bs)) (b # bs) # runes (drop (rune_len (b # bs) - 1) bs)"
  by pat_completeness auto
termination
  by (relation "measure length") auto

text \<open>A rune cut out by \<open>runes\<close> is valid when it is one ASCII byte or longer than one.\<close>

definition valid_rune :: "string \<Rightarrow> bool" where
  "valid_rune r \<longleftrightarrow> length r > 1 \<or> (\<exists>c. r = [c] \<and> byte c < 128)"

definition valid_rune_code :: "string \<Rightarrow> bool" where
  "valid_rune_code r = (case r of [] \<Rightarrow> False | [c] \<Rightarrow> byte c < 128 | _ \<Rightarrow> True)"

lemma valid_rune_code [code]: "valid_rune r = valid_rune_code r"
  by (auto simp: valid_rune_def valid_rune_code_def split: list.splits)

definition valid_utf8 :: "string \<Rightarrow> bool" where
  "valid_utf8 s \<longleftrightarrow> list_all valid_rune (runes s)"

text \<open>\<open>unicode.IsControl\<close>: U+0000 to U+001F and U+007F to U+009F.\<close>

definition is_control :: "string \<Rightarrow> bool" where
  "is_control r = (case r of
     [c] \<Rightarrow> byte c < 32 \<or> byte c = 127
   | [a, b] \<Rightarrow> byte a = 194 \<and> byte b \<le> 159
   | _ \<Rightarrow> False)"

text \<open>\<open>unicode.IsSpace\<close>: the Latin-1 spaces and the White_Space code points above.\<close>

definition is_space :: "string \<Rightarrow> bool" where
  "is_space r = (case r of
     [c] \<Rightarrow> 9 \<le> byte c \<and> byte c \<le> 13 \<or> byte c = 32
   | [a, b] \<Rightarrow> byte a = 194 \<and> (byte b = 133 \<or> byte b = 160)
   | [a, b, c] \<Rightarrow>
       byte a = 225 \<and> byte b = 154 \<and> byte c = 128
       \<or> byte a = 226 \<and> byte b = 128 \<and>
           (byte c \<le> 138 \<or> byte c = 168 \<or> byte c = 169 \<or> byte c = 175)
       \<or> byte a = 226 \<and> byte b = 129 \<and> byte c = 159
       \<or> byte a = 227 \<and> byte b = 128 \<and> byte c = 128
   | _ \<Rightarrow> False)"

definition has_control :: "string \<Rightarrow> bool" where
  "has_control s \<longleftrightarrow> list_ex is_control (runes s)"

definition has_space :: "string \<Rightarrow> bool" where
  "has_space s \<longleftrightarrow> list_ex is_space (runes s)"

definition trim_space :: "string \<Rightarrow> string" where
  "trim_space s =
     concat (rev (dropWhile is_space (rev (dropWhile is_space (runes s)))))"

lemma rune_len_pos: "rune_len (b # bs) \<ge> 1"
  by (induction "b # bs" rule: rune_len.induct) auto

lemma rune_len_ascii: "byte b < 128 \<Longrightarrow> rune_len (b # bs) = 1"
  by (induction "b # bs" rule: rune_len.induct) auto

lemma concat_runes: "concat (runes s) = s"
proof (induction s rule: runes.induct)
  case (2 b bs)
  obtain n where n: "rune_len (b # bs) = Suc n"
    using rune_len_pos [of b bs] by (cases "rune_len (b # bs)") auto
  with 2 show ?case by simp
qed simp

lemma runes_ascii: "\<forall>c \<in> set s. byte c < 128 \<Longrightarrow> runes s = map (\<lambda>c. [c]) s"
proof (induction s)
  case (Cons b bs)
  then show ?case by (simp add: rune_len_ascii)
qed simp

lemma valid_utf8_ascii: "\<forall>c \<in> set s. byte c < 128 \<Longrightarrow> valid_utf8 s"
  by (auto simp: valid_utf8_def runes_ascii list_all_iff valid_rune_def)

lemma no_control_ascii:
  "\<forall>c \<in> set s. byte c < 128 \<Longrightarrow> has_control s \<longleftrightarrow> (\<exists>c \<in> set s. byte c < 32 \<or> byte c = 127)"
  by (auto simp: has_control_def runes_ascii list_ex_iff is_control_def)

lemma rune_len_two: "rune_len [a, b] > 1 \<Longrightarrow> rune_len (a # b # u) = rune_len [a, b]"
proof -
  assume "rune_len [a, b] > 1"
  then have h: "194 \<le> byte a" "byte a \<le> 223" "is_cont b" by (simp_all split: if_splits)
  show ?thesis
  proof (cases u)
    case (Cons c v)
    show ?thesis using h by (cases v) (simp_all add: Cons)
  qed simp
qed

lemma rune_len_three: "rune_len [a, b, c] > 1 \<Longrightarrow> rune_len (a # b # c # u) = rune_len [a, b, c]"
proof (cases u)
  case (Cons d v)
  have if3: "(1 :: nat) < (if p then 2 else if q then 3 else 1) \<Longrightarrow>
      (if p then 2 else if q then 3 else if r then 4 else 1) = (if p then 2 else if q then 3 else (1 :: nat))" for p q r
    by (cases p; cases q) simp_all
  assume "rune_len [a, b, c] > 1"
  then show ?thesis unfolding Cons rune_len.simps by (rule if3)
qed simp

lemma rune_len_le: "rune_len (b # bs) \<le> length (b # bs)"
  by (cases "b # bs" rule: rune_len.cases) simp_all

lemma rune_len_append: "rune_len s > 1 \<Longrightarrow> rune_len (s @ t) = rune_len s"
proof (cases s rule: rune_len.cases)
  case (1 a b c d u)
  then show ?thesis by simp
next
  case (2 a b c)
  assume "rune_len s > 1"
  with 2 show ?thesis using rune_len_three [of a b c t] by (simp only: append.simps)
next
  case (3 a b)
  assume "rune_len s > 1"
  with 3 show ?thesis using rune_len_two [of a b t] by (simp only: append.simps)
qed simp_all

lemma runes_append: "valid_utf8 s \<Longrightarrow> runes (s @ t) = runes s @ runes t"
proof (induction s rule: runes.induct)
  case (2 b bs)
  let ?n = "rune_len (b # bs)"
  have v: "valid_rune (take ?n (b # bs))" "valid_utf8 (drop (?n - 1) bs)"
    using 2 by (simp_all add: valid_utf8_def)
  have le: "?n \<le> length (b # bs)" by (rule rune_len_le)
  have n: "rune_len (b # bs @ t) = ?n"
  proof (cases "?n > 1")
    case True
    then show ?thesis using rune_len_append [of "b # bs" t] by simp
  next
    case False
    then have "?n = 1" using rune_len_pos [of b bs] by simp
    with v(1) have "byte b < 128" by (simp add: valid_rune_def)
    then show ?thesis by (simp add: rune_len_ascii)
  qed
  have "runes (drop (?n - 1) bs @ t) = runes (drop (?n - 1) bs) @ runes t" using 2 v(2) by simp
  moreover have "take ?n (b # bs @ t) = take ?n (b # bs)" using le by (metis append_Cons take_append diff_is_0_eq' take0 append_Nil2)
  ultimately show ?case using le by (simp add: n)
qed simp

lemma valid_utf8_append: "valid_utf8 s \<Longrightarrow> valid_utf8 t \<Longrightarrow> valid_utf8 (s @ t)"
  using runes_append [of s t] by (simp add: valid_utf8_def)

lemma valid_utf8_join: "byte c < 128 \<Longrightarrow> \<forall>s \<in> set ss. valid_utf8 s \<Longrightarrow> valid_utf8 (join_with c ss)"
proof (induction c ss rule: join_with.induct)
  case (3 c s t ss)
  have "valid_utf8 [c]" using 3 by (intro valid_utf8_ascii) simp
  then show ?case using 3 valid_utf8_append [of s "c # join_with c (t # ss)"] valid_utf8_append [of "[c]" "join_with c (t # ss)"] by simp
qed (simp_all add: valid_utf8_ascii)

lemma rune_len_cut:
  assumes "rune_len (s @ t) \<le> length s" and "s \<noteq> []"
  shows "rune_len s = rune_len (s @ t)"
proof (cases "rune_len s > 1")
  case True
  then show ?thesis by (simp add: rune_len_append)
next
  case False
  have pos: "rune_len (b # bs) \<ge> 1" for b bs by (rule rune_len_pos)
  from assms(2) have one: "rune_len s = 1" using False pos [of "hd s" "tl s"] by simp
  have three: "rune_len (a # b # c # u) > 3 \<or> rune_len (a # b # c # u) = rune_len [a, b, c]" for a b c u
  proof (cases u)
    case (Cons d v)
    have if4: "(if p then 2 else if q then 3 else if r then 4 else 1) > (3 :: nat) \<or>
        (if p then 2 else if q then 3 else if r then 4 else 1) = (if p then 2 else if q then 3 else (1 :: nat))" for p q r
      by (cases p; cases q; cases r) simp_all
    show ?thesis unfolding Cons rune_len.simps by (rule if4)
  qed simp
  have two: "rune_len (a # b # u) > 2 \<or> rune_len (a # b # u) = rune_len [a, b]" for a b u
  proof (cases u)
    case (Cons c v)
    have if2: "(if p then 2 else if q then 3 else 1) > (2 :: nat) \<or>
        (if p then 2 else if q then 3 else 1) = (if p then 2 else (1 :: nat))" for p q
      by (cases p; cases q) simp_all
    have "rune_len [a, b, c] > 2 \<or> rune_len [a, b, c] = rune_len [a, b]" unfolding rune_len.simps by (rule if2)
    with three [of a b c v] show ?thesis by (auto simp: Cons)
  qed simp
  show ?thesis
  proof (cases s rule: rune_len.cases)
    case (1 a b c d u)
    then show ?thesis by simp
  next
    case (2 a b c)
    then show ?thesis using three [of a b c t] assms(1) by auto
  next
    case (3 a b)
    then show ?thesis using two [of a b t] assms(1) by auto
  next
    case (4 a)
    then have "rune_len (s @ t) \<le> 1" using assms(1) by simp
    moreover have "rune_len (s @ t) \<ge> 1" using pos 4 by simp
    ultimately show ?thesis using one by simp
  qed (use assms(2) in simp)
qed

lemma runes_take: "runes (concat (take k (runes s))) = take k (runes s)"
proof (induction s arbitrary: k rule: runes.induct)
  case (2 b bs)
  show ?case
  proof (cases k)
    case (Suc j)
    let ?n = "rune_len (b # bs)"
    obtain n where n: "?n = Suc n" using rune_len_pos [of b bs] by (cases ?n) auto
    have le: "?n \<le> length (b # bs)" by (rule rune_len_le)
    define u where "u = concat (take j (runes (drop n bs)))"
    define rest where "rest = concat (drop j (runes (drop n bs)))"
    have "u @ rest = drop n bs" by (simp add: u_def rest_def concat_append [symmetric] concat_runes del: concat_append)
    then have s: "(b # take n bs @ u) @ rest = b # bs" by simp
    have "?n \<le> length (b # take n bs @ u)" using le n by simp
    then have "rune_len (b # take n bs @ u) = Suc n" using rune_len_cut [of "b # take n bs @ u" rest] n unfolding s by simp
    moreover have "length (take n bs) = n" using le n by simp
    ultimately have "runes (b # take n bs @ u) = (b # take n bs) # runes u" by simp
    moreover have "runes u = take j (runes (drop n bs))" using 2 n by (simp add: u_def)
    ultimately show ?thesis by (simp add: Suc n u_def)
  qed simp
qed simp

lemma runes_drop: "runes (concat (drop k (runes s))) = drop k (runes s)"
proof (induction s arbitrary: k rule: runes.induct)
  case (2 b bs)
  show ?case
  proof (cases k)
    case 0
    then show ?thesis by (simp only: drop_0 concat_runes)
  qed (use 2 in simp)
qed simp

lemma dropWhile_is_drop: "\<exists>k. dropWhile P xs = drop k xs"
  by (metis dropWhile_eq_drop)

lemma rev_dropWhile_is_take: "\<exists>k. rev (dropWhile P (rev xs)) = take k xs"
  by (metis dropWhile_eq_drop rev_drop rev_rev_ident length_rev)

lemma runes_trim: "runes (trim_space s) = rev (dropWhile is_space (rev (dropWhile is_space (runes s))))"
proof -
  obtain j where j: "dropWhile is_space (runes s) = drop j (runes s)" using dropWhile_is_drop by blast
  define v where "v = concat (drop j (runes s))"
  have v: "runes v = drop j (runes s)" by (simp add: v_def runes_drop)
  obtain k where k: "rev (dropWhile is_space (rev (runes v))) = take k (runes v)" using rev_dropWhile_is_take by blast
  show ?thesis using k runes_take [of k v] by (simp add: trim_space_def j v)
qed

lemma trim_space_idem [simp]: "trim_space (trim_space s) = trim_space s"
proof -
  define rs where "rs = dropWhile is_space (rev (dropWhile is_space (runes s)))"
  have r: "runes (trim_space s) = rev rs" by (simp add: runes_trim rs_def)
  have "dropWhile is_space rs = rs" by (simp add: rs_def)
  moreover have "dropWhile is_space (rev rs) = rev rs"
  proof (cases "rev rs")
    case (Cons x xs)
    obtain k where k: "rev rs = take k (dropWhile is_space (runes s))"
      using rev_dropWhile_is_take [of is_space "dropWhile is_space (runes s)"] by (auto simp: rs_def)
    have ne: "dropWhile is_space (runes s) \<noteq> []" "k > 0" using k Cons by (metis Cons list.distinct(1) take_Nil, metis Cons gr0I list.distinct(1) take0)
    then have "hd (rev rs) = hd (dropWhile is_space (runes s))" by (simp add: k)
    then have "\<not> is_space (hd (rev rs))" using hd_dropWhile [OF ne(1)] by simp
    with Cons show ?thesis by simp
  qed simp
  ultimately show ?thesis by (simp add: trim_space_def [of "trim_space s"] r) (simp add: trim_space_def rs_def)
qed

subsection \<open>URL paths\<close>

definition hex_val :: "char \<Rightarrow> nat option" where
  "hex_val c =
     (if is_digit c then Some (byte c - 48)
      else if 97 \<le> byte c \<and> byte c \<le> 102 then Some (byte c - 87)
      else if 65 \<le> byte c \<and> byte c \<le> 70 then Some (byte c - 55)
      else None)"

text \<open>\<open>url.PathUnescape\<close>; \<open>None\<close> is its error.\<close>

fun path_unescape :: "string \<Rightarrow> string option" where
  "path_unescape [] = Some []"
| "path_unescape (c # s) =
     (if c = CHR ''%'' then
        (case s of
           a # b # t \<Rightarrow>
             (case (hex_val a, hex_val b) of
                (Some x, Some y) \<Rightarrow> map_option (Cons (char_of (16 * x + y))) (path_unescape t)
              | _ \<Rightarrow> None)
         | _ \<Rightarrow> None)
      else map_option (Cons c) (path_unescape s))"

lemma path_unescape_length: "path_unescape s = Some t \<Longrightarrow> length t \<le> length s"
  by (induction s arbitrary: t rule: path_unescape.induct)
     (fastforce split: if_splits list.splits option.splits)+

lemma path_unescape_fixed: "path_unescape s = Some s \<longleftrightarrow> CHR ''%'' \<notin> set s"
proof
  show "path_unescape s = Some s \<Longrightarrow> CHR ''%'' \<notin> set s"
  proof (induction s rule: path_unescape.induct)
    case (2 c s)
    then show ?case
      by (auto split: if_splits list.splits option.splits dest: path_unescape_length)
  qed simp
  show "CHR ''%'' \<notin> set s \<Longrightarrow> path_unescape s = Some s"
    by (induction s rule: path_unescape.induct) auto
qed

text \<open>
  \<open>(&url.URL{Path: p}).EscapedPath()\<close>: every byte but the unreserved ones and the
  delimiters a path may hold is percent-encoded.
\<close>

definition path_byte_ok :: "char \<Rightarrow> bool" where
  "path_byte_ok c \<longleftrightarrow> is_alnum c \<or> c \<in> set ''-_.~$&+,/:;=@''"

definition hex_digit :: "nat \<Rightarrow> char" where
  "hex_digit n = (if n < 10 then char_of (48 + n) else char_of (55 + n))"

definition escape_byte :: "char \<Rightarrow> string" where
  "escape_byte c =
     (if path_byte_ok c then [c]
      else [CHR ''%'', hex_digit (byte c div 16), hex_digit (byte c mod 16)])"

definition escaped_path :: "string \<Rightarrow> string" where
  "escaped_path p = (if p = ''*'' then p else concat (map escape_byte p))"

lemma length_escape: "length (concat (map escape_byte p)) \<ge> length p"
  by (induction p) (auto simp: escape_byte_def)

lemma escape_fixed: "concat (map escape_byte p) = p \<longleftrightarrow> list_all path_byte_ok p"
proof (induction p)
  case (Cons c p)
  show ?case
  proof (cases "path_byte_ok c")
    case True
    with Cons show ?thesis by (simp add: escape_byte_def)
  next
    case False
    have "length (concat (map escape_byte (c # p))) > length (c # p)"
      using length_escape [of p] False by (simp add: escape_byte_def)
    then show ?thesis using False by (metis less_irrefl list.pred_inject(2))
  qed
qed simp

lemma escaped_path_fixed: "escaped_path p = p \<longleftrightarrow> p = ''*'' \<or> list_all path_byte_ok p"
  by (simp add: escaped_path_def escape_fixed)

lemma path_byte_ascii: "path_byte_ok c \<Longrightarrow> byte c < 128"
  by (auto simp: path_byte_ok_def char_class_defs)

lemma path_byte_lower: "path_byte_ok c \<Longrightarrow> path_byte_ok (lower_char c)"
  by (cases "is_upper c") (auto simp: lower_char_def path_byte_ok_def char_class_defs)

subsection \<open>path.Clean\<close>

text \<open>
  The lexical rules of \<open>path.Clean\<close>: empty and dot elements go, a double dot
  removes the element before it, or is dropped at the root and kept at the start of
  a relative path. \<open>clean_elems r out es\<close> keeps its output reversed.
\<close>

fun clean_elems :: "bool \<Rightarrow> string list \<Rightarrow> string list \<Rightarrow> string list" where
  "clean_elems r out [] = rev out"
| "clean_elems r out (e # es) =
     (if e = [] \<or> e = ''.'' then clean_elems r out es
      else if e = ''..'' then
        (case out of
           [] \<Rightarrow> clean_elems r (if r then [] else [''..'']) es
         | p # ps \<Rightarrow> clean_elems r (if p = ''..'' then ''..'' # out else ps) es)
      else clean_elems r (e # out) es)"

definition path_clean :: "string \<Rightarrow> string" where
  "path_clean p =
     (let rooted = has_prefix p ''/'';
          body = join_with CHR ''/'' (clean_elems rooted [] (split_on CHR ''/'' p))
      in if rooted then CHR ''/'' # body else if body = [] then ''.'' else body)"

lemma split_join:
  "ss \<noteq> [] \<Longrightarrow> \<forall>s \<in> set ss. c \<notin> set s \<Longrightarrow> split_on c (join_with c ss) = ss"
proof (induction c ss rule: join_with.induct)
  case (2 c s)
  then show ?case by (induction s) auto
next
  case (3 c s t ss)
  have "split_on c (u @ c # v) = u # split_on c v" if "c \<notin> set u" for u v
    using that by (induction u) auto
  with 3 show ?case by simp
qed simp

definition proper_elem :: "string \<Rightarrow> bool" where
  "proper_elem e \<longleftrightarrow> e \<noteq> [] \<and> e \<noteq> ''.'' \<and> e \<noteq> ''..''"

lemma clean_elems_rooted:
  "list_all proper_elem out \<Longrightarrow> list_all proper_elem (clean_elems True out es)"
proof (induction es arbitrary: out)
  case (Cons e es)
  consider "e = [] \<or> e = ''.''" | "e = ''..''" | "proper_elem e"
    unfolding proper_elem_def by blast
  then show ?case
  proof cases
    case 2
    show ?thesis
    proof (cases out)
      case (Cons p ps)
      with Cons.prems have "p \<noteq> ''..''" by (simp add: proper_elem_def)
      with 2 Cons Cons.IH [of ps] Cons.prems show ?thesis by simp
    qed (use 2 Cons.IH [of "[]"] in simp)
  next
    case 3
    then have "\<not> (e = [] \<or> e = ''.'')" "e \<noteq> ''..''" by (auto simp: proper_elem_def)
    with 3 Cons.IH [of "e # out"] Cons.prems show ?thesis by simp
  qed (use Cons in auto)
qed (simp add: list_all_iff)

lemma clean_elems_subset: "set (clean_elems r out es) \<subseteq> set out \<union> set es \<union> {''..''}"
  by (induction r out es rule: clean_elems.induct) (fastforce split: list.splits if_splits)+

text \<open>
  A rooted path that \<open>path.Clean\<close> leaves alone is the root, or has only proper
  elements: no empty, dot or double-dot segment.
\<close>

lemma path_clean_fixed_rooted:
  assumes clean: "path_clean p = p" and root: "has_prefix p ''/''" and ne: "p \<noteq> ''/''"
  shows "\<exists>es. split_on CHR ''/'' p = [] # es \<and> es \<noteq> [] \<and> list_all proper_elem es"
proof -
  let ?es = "clean_elems True [] (split_on CHR ''/'' p)"
  have p: "p = CHR ''/'' # join_with CHR ''/'' ?es"
    using clean root by (simp add: path_clean_def)
  have good: "list_all proper_elem ?es"
    by (rule clean_elems_rooted) simp
  have nosep: "\<forall>e \<in> set ?es. CHR ''/'' \<notin> set e"
    using clean_elems_subset [of True "[]" "split_on CHR ''/'' p"]
    by (auto dest: split_on_no_sep)
  have nonempty: "?es \<noteq> []"
    using p ne by auto
  have "split_on CHR ''/'' p = [] # split_on CHR ''/'' (join_with CHR ''/'' ?es)"
    by (subst (1) p) simp
  then have "split_on CHR ''/'' p = [] # ?es"
    using split_join [OF nonempty nosep] by simp
  with nonempty good show ?thesis by blast
qed

end
