(* ===== verification/Refusals.thy ===== *)
theory Refusals
  imports Go_Strings "HOL-Library.List_Lexorder" "HOL-Library.Char_ord"
begin

text \<open>
  Errors and what they prove about a call: \<open>sandbox/dispatch.go\<close> (the mark that
  nothing ran), the isolation tiers of \<open>sandbox/sandbox.go\<close>, the software rules of
  \<open>sandbox/software.go\<close> and the request validation of \<open>sandbox/validation.go\<close>.
  Error texts are not modelled: an error is its chain of wrapped sentinels and marks.
\<close>

subsection \<open>Error values\<close>

text \<open>
  \<open>Wrap es\<close> is an error that wraps the errors \<open>es\<close> (\<open>fmt.Errorf\<close> with
  \<open>%w\<close>, \<open>errors.Join\<close>), \<open>Opaque n\<close> any error of another package.
\<close>

datatype sentinel =
    ErrInvalidRequest | ErrDisabled | ErrUnsupported | ErrInsufficientIsolation
  | ErrIsolationEvidenceMismatch | ErrAtCapacity | ErrSoftwareMismatch
  | ErrGrantNotForSessions | ErrNoBackend | ErrEnvironmentMismatch | ErrNotRecorded
  | ErrSessionEnded | ErrProtocolMismatch | ErrAnswerNotBound | DeadlineExceeded | Canceled

datatype refusal =
    RefusalUnknown | RefusalRequest | RefusalPermission | RefusalProtocol
  | RefusalUnsupported | RefusalIsolation | RefusalCapacity | RefusalEnvironment

text \<open>Why a session ended (\<open>sandbox/internal/sessionkit/life.go\<close>): the error a call on it gives.\<close>

datatype session_end =
    SessionOpen | SessionClosed | SessionExpired | SessionDiskExceeded | SessionMainProcessEnded
  | SessionBoundaryFailed | SessionSandboxChanged | SessionShutdown | SessionReplaced
  | SessionNotFound | SessionUnclaimed | SessionUnknown

record ended =
  ee_Reason :: session_end
  ee_Detail :: string
  ee_Public :: bool

datatype goerr =
    Sentinel sentinel
  | Opaque nat
  | EndedErr ended
  | Wrap "goerr list"
  | NotDispatchedError refusal goerr
  | PrivateError goerr

text \<open>\<open>errors.Is\<close> on a sentinel, and \<open>errors.As\<close> on \<open>*NotDispatchedError\<close>.\<close>

fun err_is :: "goerr \<Rightarrow> sentinel \<Rightarrow> bool" where
  "err_is (Sentinel s) t = (s = t)"
| "err_is (Opaque n) t = False"
| "err_is (EndedErr e) t = (t = ErrSessionEnded)"
| "err_is (Wrap es) t = list_ex (\<lambda>e. err_is e t) es"
| "err_is (NotDispatchedError r e) t = err_is e t"
| "err_is (PrivateError e) t = err_is e t"

fun as_not_dispatched :: "goerr \<Rightarrow> refusal option"
  and as_not_dispatched_list :: "goerr list \<Rightarrow> refusal option" where
  "as_not_dispatched (Sentinel s) = None"
| "as_not_dispatched (Opaque n) = None"
| "as_not_dispatched (EndedErr e) = None"
| "as_not_dispatched (Wrap es) = as_not_dispatched_list es"
| "as_not_dispatched (NotDispatchedError r e) = Some r"
| "as_not_dispatched (PrivateError e) = as_not_dispatched e"
| "as_not_dispatched_list [] = None"
| "as_not_dispatched_list (e # es) =
     (case as_not_dispatched e of Some r \<Rightarrow> Some r | None \<Rightarrow> as_not_dispatched_list es)"

definition refusal_string :: "refusal \<Rightarrow> string" where
  "refusal_string r = (case r of
     RefusalUnknown \<Rightarrow> ''unknown'' | RefusalRequest \<Rightarrow> ''request''
   | RefusalPermission \<Rightarrow> ''permission'' | RefusalProtocol \<Rightarrow> ''protocol''
   | RefusalUnsupported \<Rightarrow> ''unsupported'' | RefusalIsolation \<Rightarrow> ''isolation''
   | RefusalCapacity \<Rightarrow> ''capacity'' | RefusalEnvironment \<Rightarrow> ''environment'')"

definition not_dispatched :: "refusal \<Rightarrow> goerr option \<Rightarrow> goerr option" where
  "not_dispatched reason err =
     (case err of None \<Rightarrow> None | Some e \<Rightarrow> Some (NotDispatchedError reason e))"

definition not_dispatched_reason :: "goerr option \<Rightarrow> refusal \<times> bool" where
  "not_dispatched_reason err =
     (case err of None \<Rightarrow> (RefusalUnknown, False)
      | Some e \<Rightarrow> (case as_not_dispatched e of
                     Some r \<Rightarrow> (r, True) | None \<Rightarrow> (RefusalUnknown, False)))"

definition refused :: "goerr option \<Rightarrow> goerr option" where
  "refused err = (case err of
     None \<Rightarrow> None
   | Some e \<Rightarrow>
       if err_is e ErrInvalidRequest then not_dispatched RefusalRequest err
       else if err_is e ErrUnsupported \<or> err_is e ErrDisabled then
         not_dispatched RefusalUnsupported err
       else if err_is e ErrInsufficientIsolation then not_dispatched RefusalIsolation err
       else if err_is e ErrAtCapacity then not_dispatched RefusalCapacity err
       else if err_is e ErrSoftwareMismatch then not_dispatched RefusalEnvironment err
       else err)"

definition pre_dispatch :: "sentinel set" where
  "pre_dispatch = {ErrInvalidRequest, ErrUnsupported, ErrDisabled, ErrInsufficientIsolation,
     ErrAtCapacity, ErrSoftwareMismatch}"

lemma refused_None [simp]: "refused err = None \<longleftrightarrow> err = None"
  by (auto simp: refused_def not_dispatched_def split: option.splits)

lemma refused_keeps_sentinel:
  "refused (Some e) = Some e' \<Longrightarrow> err_is e' t = err_is e t"
  by (auto simp: refused_def not_dispatched_def split: if_splits)

text \<open>
  \<open>refused\<close> marks exactly the errors that wrap a pre-dispatch sentinel; any other
  error keeps the mark it had, and so the reading that the call may have run.
\<close>

lemma refused_marks_iff:
  assumes "as_not_dispatched e = None"
  shows "snd (not_dispatched_reason (refused (Some e))) \<longleftrightarrow> (\<exists>s \<in> pre_dispatch. err_is e s)"
  using assms
  by (auto simp: refused_def not_dispatched_def not_dispatched_reason_def pre_dispatch_def)

subsection \<open>Isolation tiers\<close>

text \<open>\<open>IsolationClass\<close> is a Go \<open>int\<close>, so a request may carry a value that names no tier.\<close>

type_synonym isolation_class = int

definition IsolationUnknown :: isolation_class where "IsolationUnknown = 0"
definition IsolationNone :: isolation_class where "IsolationNone = 1"
definition IsolationProcess :: isolation_class where "IsolationProcess = 2"
definition IsolationContainer :: isolation_class where "IsolationContainer = 3"
definition IsolationKernel :: isolation_class where "IsolationKernel = 4"
definition IsolationVM :: isolation_class where "IsolationVM = 5"

lemmas isolation_defs = IsolationUnknown_def IsolationNone_def IsolationProcess_def
  IsolationContainer_def IsolationKernel_def IsolationVM_def

definition Meets :: "isolation_class \<Rightarrow> isolation_class \<Rightarrow> bool" where
  "Meets c m \<longleftrightarrow> c \<ge> IsolationNone \<and> c \<le> IsolationVM \<and>
     m \<ge> IsolationNone \<and> m \<le> IsolationVM \<and> c \<ge> m"

definition isolation_string :: "isolation_class \<Rightarrow> string" where
  "isolation_string c =
     (if c = IsolationNone then ''none''
      else if c = IsolationProcess then ''process''
      else if c = IsolationContainer then ''container''
      else if c = IsolationKernel then ''kernel''
      else if c = IsolationVM then ''vm''
      else ''unknown'')"

definition ParseIsolationClass :: "string \<Rightarrow> isolation_class" where
  "ParseIsolationClass s =
     (if s = ''none'' then IsolationNone
      else if s = ''process'' then IsolationProcess
      else if s = ''container'' then IsolationContainer
      else if s = ''kernel'' then IsolationKernel
      else if s = ''vm'' then IsolationVM
      else IsolationUnknown)"

lemma parse_isolation_string:
  "ParseIsolationClass (isolation_string c) =
     (if IsolationNone \<le> c \<and> c \<le> IsolationVM then c else IsolationUnknown)"
proof (cases "IsolationNone \<le> c \<and> c \<le> IsolationVM")
  case True
  then have "c \<in> {1, 2, 3, 4, 5}" by (auto simp: isolation_defs)
  then show ?thesis
    by (auto simp: isolation_defs isolation_string_def ParseIsolationClass_def)
next
  case False
  then have "isolation_string c = ''unknown''"
    by (auto simp: isolation_defs isolation_string_def)
  with False show ?thesis by (auto simp: ParseIsolationClass_def isolation_defs)
qed

definition validateMinimumIsolation :: "isolation_class \<Rightarrow> goerr option" where
  "validateMinimumIsolation minimum =
     (if minimum = IsolationUnknown then None
      else if minimum < IsolationProcess \<or> minimum > IsolationVM
        then Some (Wrap [Sentinel ErrInvalidRequest])
      else None)"

definition CheckMinimumIsolation :: "isolation_class \<Rightarrow> isolation_class \<Rightarrow> goerr option" where
  "CheckMinimumIsolation actual minimum =
     (case validateMinimumIsolation minimum of
        Some e \<Rightarrow> refused (Some e)
      | None \<Rightarrow>
          if minimum = IsolationUnknown then None
          else if \<not> Meets actual minimum
            then refused (Some (Wrap [Sentinel ErrInsufficientIsolation]))
          else None)"

definition CheckResultIsolation :: "isolation_class \<Rightarrow> isolation_class \<Rightarrow> goerr option" where
  "CheckResultIsolation actual minimum =
     (case validateMinimumIsolation minimum of
        Some e \<Rightarrow> Some e
      | None \<Rightarrow>
          if minimum = IsolationUnknown then None
          else if \<not> Meets actual minimum
            then Some (Wrap [Sentinel ErrIsolationEvidenceMismatch])
          else None)"

lemma CheckMinimumIsolation_None:
  "CheckMinimumIsolation actual minimum = None \<longleftrightarrow>
     minimum = IsolationUnknown \<or>
     IsolationProcess \<le> minimum \<and> minimum \<le> actual \<and> actual \<le> IsolationVM"
  by (auto simp: CheckMinimumIsolation_def validateMinimumIsolation_def Meets_def isolation_defs
        split: if_splits)

lemma CheckMinimumIsolation_marked:
  "CheckMinimumIsolation actual minimum = Some e \<Longrightarrow> \<exists>r. as_not_dispatched e = Some r"
  by (auto simp: CheckMinimumIsolation_def validateMinimumIsolation_def refused_def
        not_dispatched_def split: if_splits option.splits)

lemma CheckResultIsolation_unmarked:
  "CheckResultIsolation actual minimum = Some e \<Longrightarrow> as_not_dispatched e = None"
  by (auto simp: CheckResultIsolation_def validateMinimumIsolation_def
        split: if_splits option.splits)

lemma Meets_trans: "Meets a b \<Longrightarrow> Meets b c \<Longrightarrow> Meets a c"
  by (auto simp: Meets_def)

lemma Meets_unknown [simp]: "\<not> Meets IsolationUnknown m"
  by (simp add: Meets_def isolation_defs)

subsection \<open>Properties\<close>

text \<open>The isolation floor. A placement passes the check before dispatch exactly when no
  floor is asked for or the floor is a tier from process up and the runner's tier is a real
  tier at or above it; a failed check proves nothing ran, and the same check on a finished
  result never claims that.\<close>

theorem isolation_floor:
  "(CheckMinimumIsolation actual minimum = None \<longleftrightarrow>
      minimum = IsolationUnknown \<or>
      IsolationProcess \<le> minimum \<and> minimum \<le> actual \<and> actual \<le> IsolationVM) \<and>
   (CheckResultIsolation actual minimum = None \<longleftrightarrow> CheckMinimumIsolation actual minimum = None) \<and>
   (snd (not_dispatched_reason (CheckMinimumIsolation actual minimum)) \<longleftrightarrow>
      CheckMinimumIsolation actual minimum \<noteq> None) \<and>
   \<not> snd (not_dispatched_reason (CheckResultIsolation actual minimum))"
  apply (intro conjI)
  subgoal by (rule CheckMinimumIsolation_None)
  subgoal by (auto simp: CheckResultIsolation_def CheckMinimumIsolation_def split: option.splits)
  subgoal
    using CheckMinimumIsolation_marked [of actual minimum]
    by (cases "CheckMinimumIsolation actual minimum") (auto simp: not_dispatched_reason_def)
  subgoal
    using CheckResultIsolation_unmarked [of actual minimum]
    by (cases "CheckResultIsolation actual minimum") (auto simp: not_dispatched_reason_def)
  done

end
