(* ===== verification/Requests.thy ===== *)
theory Requests
  imports Refusals
begin

text \<open>
  What a request must be before any of it runs: the software rules of
  \<open>sandbox/software.go\<close> and the payload checks of \<open>sandbox/validation.go\<close> and
  \<open>sandbox/session.go\<close>. Every check returns \<open>None\<close> or the error of the source's
  return statement.
\<close>

abbreviation invalid_request :: goerr where
  "invalid_request \<equiv> Wrap [Sentinel ErrInvalidRequest]"

subsection \<open>Software rules\<close>

text \<open>\<open>SoftwareMode\<close> is a Go string: any other string than the two modes is malformed.\<close>

definition SoftwareExact :: string where "SoftwareExact = ''exact''"
definition SoftwareApproved :: string where "SoftwareApproved = ''approved''"

record software_rule =
  sr_Mode :: string
  sr_Identities :: "string list"

definition no_software_rule :: software_rule where
  "no_software_rule = \<lparr>sr_Mode = '''', sr_Identities = []\<rparr>"

definition identity_char :: "char \<Rightarrow> bool" where
  "identity_char c \<longleftrightarrow> is_lower c \<or> is_upper c \<or> is_digit c \<or> c \<in> set ''._:/@+-''"

fun check_identities :: "string list \<Rightarrow> string list \<Rightarrow> goerr option" where
  "check_identities seen [] = None"
| "check_identities seen (i # ids) =
     (if length i = 0 \<or> length i > 256 \<or> i \<in> set seen
        then not_dispatched RefusalRequest (Some invalid_request)
      else if \<not> list_all identity_char i
        then not_dispatched RefusalRequest (Some invalid_request)
      else check_identities (i # seen) ids)"

definition software_Validate :: "software_rule \<Rightarrow> goerr option" where
  "software_Validate r =
     (if sr_Mode r = '''' \<and> length (sr_Identities r) = 0 then None
      else if (sr_Mode r \<noteq> SoftwareExact \<and> sr_Mode r \<noteq> SoftwareApproved)
              \<or> length (sr_Identities r) = 0 \<or> length (sr_Identities r) > 32
              \<or> (sr_Mode r = SoftwareExact \<and> length (sr_Identities r) \<noteq> 1)
        then not_dispatched RefusalRequest (Some invalid_request)
      else check_identities [] (sr_Identities r))"

definition software_Allows :: "software_rule \<Rightarrow> string \<Rightarrow> bool" where
  "software_Allows r identity =
     (if sr_Mode r = '''' then True
      else identity \<noteq> '''' \<and> identity \<in> set (sr_Identities r))"

definition software_Check :: "software_rule \<Rightarrow> string \<Rightarrow> goerr option" where
  "software_Check r identity =
     (case software_Validate r of
        Some e \<Rightarrow> Some e
      | None \<Rightarrow>
          if \<not> software_Allows r identity
            then not_dispatched RefusalEnvironment (Some (Wrap [Sentinel ErrSoftwareMismatch]))
          else None)"

text \<open>\<open>sha256_hex\<close> stands for the hash of the joined identities, in hexadecimal.\<close>

definition software_ID :: "(string \<Rightarrow> string) \<Rightarrow> software_rule \<Rightarrow> string" where
  "software_ID sha256_hex r =
     (if sr_Mode r = '''' then ''''
      else if length (sr_Identities r) = 1 then ''exact:'' @ sr_Identities r ! 0
      else ''approved:sha256:'' @
        sha256_hex (join_with (char_of (0::nat)) (sort (sr_Identities r))))"

definition MergeSoftwareRules :: "software_rule \<Rightarrow> software_rule \<Rightarrow> goerr + software_rule" where
  "MergeSoftwareRules a b =
     (case software_Validate a of Some e \<Rightarrow> Inl e | None \<Rightarrow>
      case software_Validate b of Some e \<Rightarrow> Inl e | None \<Rightarrow>
        if sr_Mode a = '''' then Inr b
        else if sr_Mode b = '''' then Inr a
        else
          let ids = filter (\<lambda>i. i \<in> set (sr_Identities b)) (sr_Identities a)
          in if length ids = 0
               then Inl (the (not_dispatched RefusalRequest (Some invalid_request)))
             else Inr \<lparr>sr_Mode = (if length ids = 1 then SoftwareExact else SoftwareApproved),
                       sr_Identities = ids\<rparr>)"

lemma check_identities_None:
  "check_identities seen ids = None \<longleftrightarrow>
     distinct ids \<and> set seen \<inter> set ids = {} \<and>
     (\<forall>i \<in> set ids. i \<noteq> '''' \<and> length i \<le> 256 \<and> list_all identity_char i)"
  by (induction seen ids rule: check_identities.induct) (auto simp: not_dispatched_def)

definition software_rule_ok :: "software_rule \<Rightarrow> bool" where
  "software_rule_ok r \<longleftrightarrow>
     r = no_software_rule \<or>
     distinct (sr_Identities r) \<and> sr_Identities r \<noteq> [] \<and> length (sr_Identities r) \<le> 32 \<and>
     (sr_Mode r = SoftwareApproved \<or> sr_Mode r = SoftwareExact \<and> length (sr_Identities r) = 1) \<and>
     (\<forall>i \<in> set (sr_Identities r). i \<noteq> '''' \<and> length i \<le> 256 \<and> list_all identity_char i)"

lemma software_Validate_iff: "software_Validate r = None \<longleftrightarrow> software_rule_ok r"
  by (cases r)
     (auto simp: software_Validate_def software_rule_ok_def no_software_rule_def
        check_identities_None not_dispatched_def SoftwareExact_def SoftwareApproved_def)

lemma merge_ok_cases:
  assumes "MergeSoftwareRules a b = Inr r"
  shows "software_rule_ok a" "software_rule_ok b"
    and "sr_Mode a = '''' \<and> r = b \<or> sr_Mode a \<noteq> '''' \<and> sr_Mode b = '''' \<and> r = a
      \<or> sr_Mode a \<noteq> '''' \<and> sr_Mode b \<noteq> '''' \<and> sr_Identities r \<noteq> [] \<and>
        sr_Identities r = filter (\<lambda>i. i \<in> set (sr_Identities b)) (sr_Identities a) \<and>
        sr_Mode r = (if length (sr_Identities r) = 1 then SoftwareExact else SoftwareApproved)"
  using assms
  by (auto simp: MergeSoftwareRules_def software_Validate_iff [symmetric] Let_def
        split: option.splits if_splits)

lemma merge_allows:
  assumes "MergeSoftwareRules a b = Inr r"
  shows "software_Allows r i \<longleftrightarrow> software_Allows a i \<and> software_Allows b i"
  using merge_ok_cases(3) [OF assms]
  by (auto simp: software_Allows_def SoftwareExact_def SoftwareApproved_def split: if_splits)

lemma merge_valid:
  assumes "MergeSoftwareRules a b = Inr r"
  shows "software_Validate r = None"
proof -
  note c = merge_ok_cases [OF assms]
  from c(3) show ?thesis
  proof (elim disjE conjE)
    assume ids: "sr_Identities r = filter (\<lambda>i. i \<in> set (sr_Identities b)) (sr_Identities a)"
      and ne: "sr_Identities r \<noteq> []" and am: "sr_Mode a \<noteq> ''''"
      and m: "sr_Mode r = (if length (sr_Identities r) = 1 then SoftwareExact else SoftwareApproved)"
    from c(1) am have a: "distinct (sr_Identities a)" "length (sr_Identities a) \<le> 32"
      "\<forall>i \<in> set (sr_Identities a). i \<noteq> '''' \<and> length i \<le> 256 \<and> list_all identity_char i"
      by (auto simp: software_rule_ok_def no_software_rule_def)
    have "length (sr_Identities r) \<le> 32"
      using ids a(2) by (metis le_trans length_filter_le)
    with ids ne m a show ?thesis
      unfolding software_Validate_iff software_rule_ok_def by (auto simp: distinct_filter)
  qed (use c in \<open>auto simp: software_Validate_iff\<close>)
qed

lemma software_ID_perm:
  assumes "mset (sr_Identities r) = mset (sr_Identities s)"
    and "sr_Mode r = '''' \<longleftrightarrow> sr_Mode s = ''''"
  shows "software_ID h r = software_ID h s"
proof -
  have sort: "sort (sr_Identities r) = sort (sr_Identities s)"
    using assms(1) by (simp add: properties_for_sort)
  have len: "length (sr_Identities r) = length (sr_Identities s)"
    using assms(1) by (metis size_mset)
  show ?thesis
  proof (cases "length (sr_Identities s) = 1")
    case True
    then obtain i where "sr_Identities s = [i]" by (auto simp: length_Suc_conv)
    moreover with assms(1) have "sr_Identities r = [i]" by simp
    ultimately show ?thesis using assms(2) by (simp add: software_ID_def)
  qed (use sort len assms(2) in \<open>simp add: software_ID_def\<close>)
qed

subsection \<open>Paths a request may name\<close>

definition MaxCodeBytes :: nat where "MaxCodeBytes = 262144"
definition MaxProjectBytes :: nat where "MaxProjectBytes = 4194304"
definition MaxProjectFiles :: nat where "MaxProjectFiles = 200"
definition MaxProjectSteps :: nat where "MaxProjectSteps = 20"
definition MaxProjectArtifacts :: nat where "MaxProjectArtifacts = 100"
definition MaxProjectPathBytes :: nat where "MaxProjectPathBytes = 1024"
definition MaxProjectStepBytes :: nat where "MaxProjectStepBytes = 16384"

lemmas request_limits = MaxCodeBytes_def MaxProjectBytes_def MaxProjectFiles_def
  MaxProjectSteps_def MaxProjectArtifacts_def MaxProjectPathBytes_def MaxProjectStepBytes_def

definition validateProjectPath :: "string \<Rightarrow> goerr option" where
  "validateProjectPath name =
     (if length name > MaxProjectPathBytes then Some invalid_request
      else
        let clean = path_clean name
        in if \<not> valid_utf8 name \<or> name = '''' \<or> clean \<noteq> name \<or> clean = ''.'' \<or>
              has_prefix name ''/'' \<or> clean = ''..'' \<or> has_prefix clean ''../'' \<or>
              has_control name \<or> contains_char name (CHR 0x5C)
           then Some invalid_request
           else None)"

text \<open>
  A relative path that \<open>path.Clean\<close> leaves alone starts with some double dots and goes
  on with proper elements, so one that starts with none has proper elements only.
\<close>

definition dots_then_proper :: "string list \<Rightarrow> bool" where
  "dots_then_proper es \<longleftrightarrow> list_all proper_elem (dropWhile (\<lambda>e. e = ''..'') es)"

lemma dots_then_proper_snoc:
  "dots_then_proper es \<Longrightarrow> proper_elem e \<Longrightarrow> dots_then_proper (es @ [e])"
  by (induction es) (auto simp: dots_then_proper_def proper_elem_def)

lemma dots_then_proper_butlast:
  "dots_then_proper (es @ [e]) \<Longrightarrow> dots_then_proper es"
  by (induction es) (auto simp: dots_then_proper_def split: if_splits)

lemma dots_then_proper_dots:
  "dots_then_proper (es @ [''..'']) \<Longrightarrow> set es \<subseteq> {''..''}"
  by (induction es) (auto simp: dots_then_proper_def proper_elem_def split: if_splits)

lemma dots_then_proper_all_dots: "set es \<subseteq> {''..''} \<Longrightarrow> dots_then_proper es"
  by (induction es) (auto simp: dots_then_proper_def)

lemma clean_elems_relative:
  "dots_then_proper (rev out) \<Longrightarrow> dots_then_proper (clean_elems False out es)"
proof (induction es arbitrary: out)
  case (Cons e es)
  consider "e = [] \<or> e = ''.''" | "e = ''..''" | "proper_elem e"
    unfolding proper_elem_def by blast
  then show ?case
  proof cases
    case 1
    with Cons show ?thesis by auto
  next
    case 2
    show ?thesis
    proof (cases out)
      case Nil
      have "dots_then_proper (rev [''..''])" by (simp add: dots_then_proper_def)
      with Cons.IH [of "[''..'']"] 2 Nil show ?thesis by simp
    next
      case out: (Cons p ps)
      have popped: "dots_then_proper (rev ps)"
        using Cons.prems out by (auto dest: dots_then_proper_butlast)
      have pushed: "dots_then_proper (rev (''..'' # out))" if "p = ''..''"
        using Cons.prems out that dots_then_proper_dots [of "rev ps"]
        by (auto intro!: dots_then_proper_all_dots)
      show ?thesis
        using Cons.IH [OF popped] Cons.IH [OF pushed] 2 out by simp
    qed
  next
    case 3
    then have "\<not> (e = [] \<or> e = ''.'')" "e \<noteq> ''..''" by (auto simp: proper_elem_def)
    with 3 Cons.IH [of "e # out"] Cons.prems show ?thesis
      by (simp add: dots_then_proper_snoc)
  qed
qed simp

lemma path_clean_fixed_relative:
  assumes clean: "path_clean p = p" and rel: "\<not> has_prefix p ''/''" and ne: "p \<noteq> ''.''"
    and nodots: "p \<noteq> ''..''" "\<not> has_prefix p ''../''"
  shows "list_all proper_elem (split_on CHR ''/'' p)"
proof -
  let ?es = "clean_elems False [] (split_on CHR ''/'' p)"
  have p: "p = join_with CHR ''/'' ?es" and nonempty: "?es \<noteq> []"
    using clean rel ne by (auto simp: path_clean_def Let_def split: if_splits)
  have nosep: "\<forall>e \<in> set ?es. CHR ''/'' \<notin> set e"
    using clean_elems_subset [of False "[]" "split_on CHR ''/'' p"]
    by (auto dest: split_on_no_sep)
  have split: "split_on CHR ''/'' p = ?es"
    using split_join [OF nonempty nosep] p by simp
  have shape: "dots_then_proper ?es"
    by (rule clean_elems_relative) (simp add: dots_then_proper_def)
  obtain e es where es: "?es = e # es"
    using nonempty by (cases ?es) auto
  have "e \<noteq> ''..''"
  proof
    assume "e = ''..''"
    with p es nodots show False
      by (cases es) (auto simp: has_prefix_def)
  qed
  with shape es have "list_all proper_elem ?es"
    by (simp add: dots_then_proper_def)
  with split show ?thesis by simp
qed

lemma validateProjectPath_safe:
  assumes "validateProjectPath name = None"
  shows "list_all proper_elem (split_on CHR ''/'' name)"
    and "\<not> has_prefix name ''/''" and "CHR 0x5C \<notin> set name" and "length name \<le> 1024"
proof -
  from assms have *: "path_clean name = name" "\<not> has_prefix name ''/''" "name \<noteq> ''.''"
      "name \<noteq> ''..''" "\<not> has_prefix name ''../''" "CHR 0x5C \<notin> set name" "length name \<le> 1024"
    by (auto simp: validateProjectPath_def Let_def request_limits contains_char_def split: if_splits)
  then show "list_all proper_elem (split_on CHR ''/'' name)"
    by (intro path_clean_fixed_relative) auto
  from * show "\<not> has_prefix name ''/''" "CHR 0x5C \<notin> set name" "length name \<le> 1024" by auto
qed

subsection \<open>Payloads\<close>

record project_file =
  f_Path :: string
  f_Content :: string

record request =
  rq_Code :: string
  rq_Timeout :: duration
  rq_MinimumIsolation :: isolation_class
  rq_Software :: software_rule

record cell_request =
  cr_Language :: string
  cr_Code :: string
  cr_Files :: "project_file list"
  cr_Timeout :: duration
  cr_MinimumIsolation :: isolation_class
  cr_Software :: software_rule

record project_request =
  pr_Files :: "project_file list"
  pr_Steps :: "string list"
  pr_Timeout :: duration
  pr_Artifacts :: "string list"
  pr_MinimumIsolation :: isolation_class
  pr_Software :: software_rule

definition Languages :: "string list" where
  "Languages = [''javascript'', ''python'']"

definition Language_Known :: "string \<Rightarrow> bool" where
  "Language_Known l \<longleftrightarrow> l \<in> set Languages"

text \<open>The check of a code text that \<open>validateRequest\<close> and \<open>validateCellRequest\<close> share.\<close>

definition check_code :: "string \<Rightarrow> goerr option" where
  "check_code code =
     (if code = '''' then Some invalid_request
      else if \<not> valid_utf8 code \<or> contains_char code (char_of (0::nat)) then Some invalid_request
      else if length code > MaxCodeBytes then Some invalid_request
      else None)"

definition validateRequest :: "request \<Rightarrow> goerr option" where
  "validateRequest req =
     or_err (validateMinimumIsolation (rq_MinimumIsolation req)) (check_code (rq_Code req))"

definition ValidateRequest :: "request \<Rightarrow> goerr option" where
  "ValidateRequest req = refused (validateRequest req)"

text \<open>The loop of \<open>validateFiles\<close>: the paths seen and the bytes so far are its state.\<close>

fun check_files :: "string list \<Rightarrow> nat \<Rightarrow> project_file list \<Rightarrow> goerr option" where
  "check_files seen sofar [] = None"
| "check_files seen sofar (f # fs) =
     or_err (validateProjectPath (f_Path f))
       (if \<not> valid_utf8 (f_Content f) then Some invalid_request
        else if f_Path f \<in> set seen then Some invalid_request
        else if length (f_Content f) > MaxProjectBytes - sofar then Some invalid_request
        else check_files (f_Path f # seen) (sofar + length (f_Content f)) fs)"

definition validateFiles :: "project_file list \<Rightarrow> goerr option" where
  "validateFiles files =
     (if length files > MaxProjectFiles then Some invalid_request
      else check_files [] 0 files)"

definition validateCellRequest :: "cell_request \<Rightarrow> goerr option" where
  "validateCellRequest req =
     or_err (validateMinimumIsolation (cr_MinimumIsolation req))
       (if \<not> Language_Known (cr_Language req) then Some invalid_request
        else or_err (check_code (cr_Code req)) (validateFiles (cr_Files req)))"

definition ValidateCellRequest :: "cell_request \<Rightarrow> goerr option" where
  "ValidateCellRequest req = refused (validateCellRequest req)"

definition check_step :: "string \<Rightarrow> goerr option" where
  "check_step step =
     (if \<not> valid_utf8 step \<or> contains_char step (char_of (0::nat)) then Some invalid_request
      else if length step > MaxProjectStepBytes then Some invalid_request
      else None)"

fun check_artifacts :: "string list \<Rightarrow> string list \<Rightarrow> goerr option" where
  "check_artifacts seen [] = None"
| "check_artifacts seen (a # as) =
     or_err (validateProjectPath a)
       (if a \<in> set seen then Some invalid_request else check_artifacts (a # seen) as)"

definition validateProjectRequest :: "project_request \<Rightarrow> goerr option" where
  "validateProjectRequest req =
     or_err (validateMinimumIsolation (pr_MinimumIsolation req))
       (if length (pr_Steps req) = 0 then Some invalid_request
        else if length (pr_Steps req) > MaxProjectSteps then Some invalid_request
        else or_err (first_err check_step (pr_Steps req))
          (or_err (validateFiles (pr_Files req))
            (if length (pr_Artifacts req) > MaxProjectArtifacts then Some invalid_request
             else check_artifacts [] (pr_Artifacts req))))"

definition ValidateProjectRequest :: "project_request \<Rightarrow> goerr option" where
  "ValidateProjectRequest req = refused (validateProjectRequest req)"

definition SessionLanguages :: "string list \<Rightarrow> string list \<Rightarrow> goerr + string list" where
  "SessionLanguages hint stated =
     (if list_ex (\<lambda>l. \<not> Language_Known l) hint
        then Inl (NotDispatchedError RefusalRequest invalid_request)
      else if length stated = 0
        then Inr (fold (\<lambda>l out. if l \<in> set out then out else out @ [l]) hint [])
      else Inr (filter (\<lambda>l. l \<in> set hint) stated))"

text \<open>What the loops accept.\<close>

lemma check_files_None:
  assumes "check_files seen sofar fs = None" and "sofar \<le> MaxProjectBytes"
  shows "distinct (map f_Path fs) \<and> set seen \<inter> f_Path ` set fs = {} \<and>
     sofar + sum_list (map (length \<circ> f_Content) fs) \<le> MaxProjectBytes \<and>
     (\<forall>f \<in> set fs. validateProjectPath (f_Path f) = None \<and> valid_utf8 (f_Content f))"
  using assms
proof (induction seen sofar fs rule: check_files.induct)
  case (2 seen sofar f fs)
  then have "f_Path f \<notin> set seen" "length (f_Content f) \<le> MaxProjectBytes - sofar"
    "valid_utf8 (f_Content f)" "validateProjectPath (f_Path f) = None"
    "check_files (f_Path f # seen) (sofar + length (f_Content f)) fs = None"
    by (auto split: if_splits)
  moreover from this 2(3) have "sofar + length (f_Content f) \<le> MaxProjectBytes" by simp
  ultimately show ?case using 2 by (auto simp: add.assoc)
qed simp

lemma check_artifacts_None:
  "check_artifacts seen as = None \<longleftrightarrow>
     distinct as \<and> set seen \<inter> set as = {} \<and> (\<forall>a \<in> set as. validateProjectPath a = None)"
  by (induction seen as rule: check_artifacts.induct) auto

text \<open>Every error of the payload checks wraps the invalid-request sentinel.\<close>

definition only_invalid :: "goerr option \<Rightarrow> bool" where
  "only_invalid e \<longleftrightarrow> (\<forall>x. e = Some x \<longrightarrow> x = invalid_request)"

lemma only_invalid_intros [intro]:
  "only_invalid None" "only_invalid (Some invalid_request)"
  "only_invalid a \<Longrightarrow> only_invalid b \<Longrightarrow> only_invalid (or_err a b)"
  "only_invalid (validateMinimumIsolation m)" "only_invalid (validateProjectPath p)"
  "only_invalid (check_code c)" "only_invalid (check_step c)"
  by (auto simp: only_invalid_def or_err_def validateMinimumIsolation_def validateProjectPath_def
        check_code_def check_step_def Let_def split: option.splits)

lemma only_invalid_loops [intro]:
  "only_invalid (check_files seen sofar fs)" "only_invalid (check_artifacts seen as)"
  "only_invalid (first_err check_step ss)"
  subgoal by (induction seen sofar fs rule: check_files.induct) auto
  subgoal by (induction seen as rule: check_artifacts.induct) auto
  subgoal by (induction ss) auto
  done

lemma only_invalid_validate [intro]:
  "only_invalid (validateRequest rq)" "only_invalid (validateFiles fs)"
  "only_invalid (validateCellRequest cr)" "only_invalid (validateProjectRequest pr)"
proof -
  show files: "only_invalid (validateFiles fs)" for fs
    unfolding validateFiles_def by auto
  show "only_invalid (validateRequest rq)"
    unfolding validateRequest_def by (intro only_invalid_intros)
  show "only_invalid (validateCellRequest cr)"
    unfolding validateCellRequest_def using files by (auto intro!: only_invalid_intros)
  show "only_invalid (validateProjectRequest pr)"
    unfolding validateProjectRequest_def using files by (auto intro!: only_invalid_intros)
qed

lemma refused_only_invalid:
  "only_invalid e \<Longrightarrow> refused e = Some x \<Longrightarrow> not_dispatched_reason (Some x) = (RefusalRequest, True)"
  by (auto simp: only_invalid_def refused_def not_dispatched_def not_dispatched_reason_def
        split: option.splits)

subsection \<open>Properties\<close>

text \<open>Merging two software rules. Where the merge succeeds, the merged rule is well formed
  and allows exactly the identities both rules allow.\<close>

theorem merge_is_intersection:
  assumes "MergeSoftwareRules a b = Inr r"
  shows "software_Validate r = None \<and>
     (\<forall>i. software_Allows r i \<longleftrightarrow> software_Allows a i \<and> software_Allows b i)"
  using merge_valid [OF assms] merge_allows [OF assms] by blast

theorem merge_is_intersection_witness:
  "\<exists>r. MergeSoftwareRules \<lparr>sr_Mode = ''approved'', sr_Identities = [''a:1'', ''b:2'']\<rparr>
          \<lparr>sr_Mode = ''approved'', sr_Identities = [''b:2'', ''c:3'']\<rparr> = Inr r \<and>
       software_Validate r = None \<and> software_Allows r ''b:2'' \<and> \<not> software_Allows r ''a:1''"
proof -
  let ?a = "\<lparr>sr_Mode = ''approved'', sr_Identities = [''a:1'', ''b:2'']\<rparr>"
  let ?b = "\<lparr>sr_Mode = ''approved'', sr_Identities = [''b:2'', ''c:3'']\<rparr>"
  have "MergeSoftwareRules ?a ?b = Inr \<lparr>sr_Mode = ''exact'', sr_Identities = [''b:2'']\<rparr>"
    by code_simp
  moreover have "software_Allows ?a ''b:2'' \<and> software_Allows ?b ''b:2'' \<and> \<not> software_Allows ?b ''a:1''"
    by (simp add: software_Allows_def)
  ultimately show ?thesis
    using merge_is_intersection [of ?a ?b "\<lparr>sr_Mode = ''exact'', sr_Identities = [''b:2'']\<rparr>"] by blast
qed

lemma project_request_checks:
  assumes "ValidateProjectRequest req = None"
  shows "1 \<le> length (pr_Steps req) \<and> length (pr_Steps req) \<le> 20"
    and "\<forall>s \<in> set (pr_Steps req). length s \<le> 16384"
    and "length (pr_Files req) \<le> 200 \<and> sum_list (map (length \<circ> f_Content) (pr_Files req)) \<le> 4194304"
    and "distinct (map f_Path (pr_Files req)) \<and> distinct (pr_Artifacts req)"
    and "\<forall>p \<in> f_Path ` set (pr_Files req) \<union> set (pr_Artifacts req). validateProjectPath p = None"
proof -
  have v: "validateProjectRequest req = None"
    using assms by (simp add: ValidateProjectRequest_def)
  then have files: "check_files [] 0 (pr_Files req) = None" "length (pr_Files req) \<le> MaxProjectFiles"
    and steps: "pr_Steps req \<noteq> []" "length (pr_Steps req) \<le> MaxProjectSteps"
      "\<forall>s \<in> set (pr_Steps req). check_step s = None"
    and arts: "check_artifacts [] (pr_Artifacts req) = None"
    by (auto simp: validateProjectRequest_def validateFiles_def split: if_splits)
  note f = check_files_None [OF files(1)]
  show "1 \<le> length (pr_Steps req) \<and> length (pr_Steps req) \<le> 20"
    using steps by (cases "pr_Steps req") (auto simp: request_limits)
  show "\<forall>s \<in> set (pr_Steps req). length s \<le> 16384"
    using steps(3) by (auto simp: check_step_def request_limits split: if_splits)
  show "length (pr_Files req) \<le> 200 \<and> sum_list (map (length \<circ> f_Content) (pr_Files req)) \<le> 4194304"
    using f files(2) by (auto simp: request_limits)
  show "distinct (map f_Path (pr_Files req)) \<and> distinct (pr_Artifacts req)"
    using f arts by (simp add: check_artifacts_None)
  show "\<forall>p \<in> f_Path ` set (pr_Files req) \<union> set (pr_Artifacts req). validateProjectPath p = None"
    using f arts by (auto simp: check_artifacts_None)
qed

text \<open>A project request that passes validation is bounded and stays inside its directory:
  at most 200 files of at most 4 MiB together, distinct relative paths of at most 1024 bytes
  with no empty, \<open>.\<close> or \<open>..\<close> element and no backslash, the same for artifacts, and at
  most 20 steps of at most 16 KiB.\<close>

theorem project_request_confined:
  assumes "ValidateProjectRequest req = None"
  shows "1 \<le> length (pr_Steps req) \<and> length (pr_Steps req) \<le> 20 \<and>
    (\<forall>s \<in> set (pr_Steps req). length s \<le> 16384) \<and>
    length (pr_Files req) \<le> 200 \<and> sum_list (map (length \<circ> f_Content) (pr_Files req)) \<le> 4194304 \<and>
    distinct (map f_Path (pr_Files req)) \<and> distinct (pr_Artifacts req) \<and>
    (\<forall>p \<in> f_Path ` set (pr_Files req) \<union> set (pr_Artifacts req).
      list_all proper_elem (split_on CHR ''/'' p) \<and> \<not> has_prefix p ''/'' \<and>
      CHR 0x5C \<notin> set p \<and> length p \<le> 1024)"
  using project_request_checks [OF assms] validateProjectPath_safe by blast

definition demo_project :: project_request where
  "demo_project = \<lparr>pr_Files = [\<lparr>f_Path = ''src/a.c'', f_Content = ''int a;''\<rparr>], pr_Steps = [''make''],
     pr_Timeout = 0, pr_Artifacts = [''out/a.o''], pr_MinimumIsolation = IsolationContainer, pr_Software = no_software_rule\<rparr>"

theorem project_request_confined_witness:
  "ValidateProjectRequest demo_project = None \<and> length (pr_Files demo_project) \<le> 200 \<and>
   list_all proper_elem (split_on CHR ''/'' ''src/a.c'')"
proof -
  have v: "ValidateProjectRequest demo_project = None" by code_simp
  from project_request_confined [OF v] v show ?thesis
    by (auto simp: demo_project_def)
qed

text \<open>A payload check that fails proves nothing ran: every error of request, cell and
  project validation carries the mark with the reason of a bad request.\<close>

theorem validation_errors_marked:
  "(ValidateRequest rq \<noteq> None \<longrightarrow> not_dispatched_reason (ValidateRequest rq) = (RefusalRequest, True)) \<and>
   (ValidateCellRequest cr \<noteq> None \<longrightarrow> not_dispatched_reason (ValidateCellRequest cr) = (RefusalRequest, True)) \<and>
   (ValidateProjectRequest pr \<noteq> None \<longrightarrow> not_dispatched_reason (ValidateProjectRequest pr) = (RefusalRequest, True))"
proof -
  have "refused e \<noteq> None \<longrightarrow> not_dispatched_reason (refused e) = (RefusalRequest, True)"
    if "only_invalid e" for e
    using refused_only_invalid [OF that] by (cases "refused e") auto
  then show ?thesis
    unfolding ValidateRequest_def ValidateCellRequest_def ValidateProjectRequest_def
    using only_invalid_validate by blast
qed

theorem validation_errors_marked_witness:
  "not_dispatched_reason (ValidateCellRequest
     \<lparr>cr_Language = ''python'', cr_Code = ''1'', cr_Files = [\<lparr>f_Path = ''../x'', f_Content = ''''\<rparr>],
      cr_Timeout = 0, cr_MinimumIsolation = 0, cr_Software = no_software_rule\<rparr>) = (RefusalRequest, True)"
proof -
  have "ValidateCellRequest
     \<lparr>cr_Language = ''python'', cr_Code = ''1'', cr_Files = [\<lparr>f_Path = ''../x'', f_Content = ''''\<rparr>],
      cr_Timeout = 0, cr_MinimumIsolation = 0, cr_Software = no_software_rule\<rparr> \<noteq> None" by code_simp
  with validation_errors_marked show ?thesis by blast
qed

end
