(* ===== verification/Grant.thy ===== *)
theory Grant
  imports Requests
begin

text \<open>
  The host-API capability of \<open>sandbox/capability.go\<close>: the grant, what makes one
  valid, and the decision whether a method and a raw target are permitted.
  \<open>url.Parse\<close>, \<open>net.ParseIP\<close> and the \<open>mime\<close> functions are arguments
  (\<open>net_lib\<close>, \<open>mime_lib\<close>): nothing proved here depends on what they return.
  A nil-able \<open>*HostAPIGrant\<close> is a \<open>grant option\<close>.
\<close>

subsection \<open>Data\<close>

record host_route =
  hr_Method :: string
  hr_Path :: string

text \<open>What \<open>url.Parse\<close> returned: \<open>u_User\<close> says whether there is userinfo.\<close>

record url =
  u_Scheme :: string
  u_User :: bool
  u_Host :: string
  u_Hostname :: string
  u_Port :: string
  u_Path :: string
  u_RawPath :: string
  u_RawQuery :: string
  u_Fragment :: string
  u_ForceQuery :: bool

text \<open>
  \<open>ip_IsLoopback h\<close> is \<open>None\<close> when \<open>net.ParseIP(h)\<close> is nil, \<open>addr_String h\<close> the
  canonical text of \<open>netip.ParseAddr(h)\<close>, unmapped.
\<close>

record net_lib =
  url_Parse :: "string \<Rightarrow> url option"
  ip_IsLoopback :: "string \<Rightarrow> bool option"
  addr_String :: "string \<Rightarrow> string option"

record mime_lib =
  ParseMediaType :: "string \<Rightarrow> (string \<times> (string, string) gomap) option"
  FormatMediaType :: "string \<Rightarrow> (string, string) gomap \<Rightarrow> string"

record mint_scope =
  ms_BaseURL :: string
  ms_Allow :: "host_route list"
  ms_Scopes :: "string list"
  ms_TTL :: duration
  ms_Subject :: string

record minted_token =
  mt_Value :: string
  mt_ExpiresAt :: "gotime option"

text \<open>
  A \<open>TokenMinter\<close>: what it mints for a scope, and its answer to
  \<open>RequiresSubject\<close> (\<open>None\<close>: it does not implement the optional interface).
\<close>

record minter =
  m_Mint :: "mint_scope \<Rightarrow> goerr + minted_token"
  m_RequiresSubject :: "bool option"

record grant =
  g_BaseURL :: string
  g_Allow :: "host_route list"
  g_Minter :: "minter option"
  g_Scopes :: "string list"
  g_Global :: string
  g_Preamble :: string
  g_HealthCheck :: "host_route option"
  g_MaxCalls :: int
  g_RouteMaxCalls :: "(host_route, int) gomap"
  g_AllowInSessions :: bool
  g_PassHeaders :: "string list"
  g_SetHeaders :: "(string, string) gomap"
  g_SDKEnv :: "(string, string) gomap"
  g_RouteMaxRequestBytes :: "(host_route, int) gomap"
  g_RouteContentTypes :: "(host_route, string list) gomap"
  g_MaxRequestBytes :: int

definition maxHostRequestBytes :: int where "maxHostRequestBytes = 2 ^ 20"
definition maxHostResponseBytes :: int where "maxHostResponseBytes = 4 * 2 ^ 20"
definition maxHostConcurrent :: nat where "maxHostConcurrent = 16"
definition MaxRouteRequestBytes :: int where "MaxRouteRequestBytes = 512 * 2 ^ 20"
definition DefaultMaxRequestBytes :: int where "DefaultMaxRequestBytes = 256 * 2 ^ 20"
definition MaxRequestBytesCeiling :: int where "MaxRequestBytesCeiling = 2 ^ 30"
definition DefaultMaxHostCalls :: int where "DefaultMaxHostCalls = 256"
definition MaxHostCallsCeiling :: int where "MaxHostCallsCeiling = 100000"
definition maxPassHeaderValueBytes :: nat where "maxPassHeaderValueBytes = 1024"
definition maxSDKEnvValueBytes :: nat where "maxSDKEnvValueBytes = 1024"

lemmas grant_limits = maxHostRequestBytes_def maxHostResponseBytes_def maxHostConcurrent_def
  MaxRouteRequestBytes_def DefaultMaxRequestBytes_def MaxRequestBytesCeiling_def
  DefaultMaxHostCalls_def MaxHostCallsCeiling_def maxPassHeaderValueBytes_def
  maxSDKEnvValueBytes_def

subsection \<open>Budgets and body types\<close>

definition requestLimit :: "grant option \<Rightarrow> host_route \<Rightarrow> int" where
  "requestLimit g route =
     (case g of
        None \<Rightarrow> maxHostRequestBytes
      | Some g \<Rightarrow>
          (let n = lookup0 (g_RouteMaxRequestBytes g) route
           in if n > 0 then n else maxHostRequestBytes))"

definition requestBudget :: "grant option \<Rightarrow> int" where
  "requestBudget g =
     (case g of
        None \<Rightarrow> DefaultMaxRequestBytes
      | Some g \<Rightarrow> if g_MaxRequestBytes g > 0 then g_MaxRequestBytes g else DefaultMaxRequestBytes)"

definition CallBudget :: "grant option \<Rightarrow> int" where
  "CallBudget g =
     (case g of
        None \<Rightarrow> DefaultMaxHostCalls
      | Some g \<Rightarrow> if g_MaxCalls g \<le> 0 then DefaultMaxHostCalls else g_MaxCalls g)"

definition boundary_char :: "char \<Rightarrow> bool" where
  "boundary_char c \<longleftrightarrow> is_alnum c \<or> c \<in> set [CHR 0x27] \<or> c \<in> set ''()+_,-./:=? ''"

definition validBoundary :: "string \<Rightarrow> bool" where
  "validBoundary v =
     (if v = '''' \<or> length v > 70 \<or> has_suffix v '' '' then False
      else list_all boundary_char v)"

definition token_char :: "char \<Rightarrow> bool" where
  "token_char c \<longleftrightarrow> \<not> (byte c \<le> 32 \<or> byte c \<ge> 127 \<or>
     c \<in> set [CHR 0x22, CHR 0x5C] \<or> c \<in> set ''(),/:;<=>?@[]{}'')"

definition isToken :: "string \<Rightarrow> bool" where
  "isToken v = (if v = '''' then False else list_all token_char v)"

text \<open>\<open>strings.Cut(t, "/")\<close>: the text before and after the first slash.\<close>

definition cut_slash :: "string \<Rightarrow> (string \<times> string) option" where
  "cut_slash t =
     (if contains_char t CHR ''/''
        then Some (takeWhile (\<lambda>c. c \<noteq> CHR ''/'') t, tl (dropWhile (\<lambda>c. c \<noteq> CHR ''/'') t))
      else None)"

definition validRequestMediaType :: "string \<Rightarrow> bool" where
  "validRequestMediaType t =
     (case cut_slash t of
        None \<Rightarrow> False
      | Some (kind, sub) \<Rightarrow>
          if \<not> isToken kind \<or> \<not> isToken sub \<or> to_lower t \<noteq> t \<or> contains_char t CHR ''*''
            then False
          else t \<noteq> ''application/json'' \<and> t \<noteq> ''multipart/byteranges'' \<and> kind \<noteq> ''message'')"

definition requestContentType :: "mime_lib \<Rightarrow> grant \<Rightarrow> host_route \<Rightarrow> string \<Rightarrow> string option" where
  "requestContentType ml g route guest =
     (let types = (case map_of (g_RouteContentTypes g) route of None \<Rightarrow> [] | Some ts \<Rightarrow> ts)
      in if length types = 0 \<or> trim_space guest = '''' then Some ''application/json''
         else
           (case ParseMediaType ml guest of
              None \<Rightarrow> None
            | Some (mediaType, params) \<Rightarrow>
                if mediaType = ''application/json'' then Some ''application/json''
                else if mediaType \<notin> set types then None
                else
                  (case map_of params ''boundary'' of
                     Some v \<Rightarrow> if \<not> validBoundary v then None else Some [(''boundary'', v)]
                   | None \<Rightarrow> Some []) \<bind> (\<lambda>kept.
                  (case map_of params ''charset'' of
                     Some v \<Rightarrow> if v = '''' \<or> length v > 40 \<or> \<not> isToken v then None
                               else Some (kept @ [(''charset'', v)])
                   | None \<Rightarrow> Some kept) \<bind> (\<lambda>kept.
                  Some (FormatMediaType ml mediaType kept)))))"

subsection \<open>Headers and the SDK environment\<close>

definition providerKeyHeaders :: "string list" where
  "providerKeyHeaders = [''x-api-key'', ''x-goog-api-key'', ''api-key'', ''ocp-apim-subscription-key'']"

definition field_name_char :: "char \<Rightarrow> bool" where
  "field_name_char c \<longleftrightarrow> is_alnum c \<or> c \<in> set [CHR 0x27, CHR 0x60] \<or> c \<in> set ''!#$%&*+-.^_|~''"

definition validFieldName :: "string \<Rightarrow> bool" where
  "validFieldName name = (if name = '''' then False else list_all field_name_char name)"

definition field_value_char :: "char \<Rightarrow> bool" where
  "field_value_char c \<longleftrightarrow> byte c = 9 \<or> (32 \<le> byte c \<and> byte c \<le> 126)"

definition validFieldValue :: "string \<Rightarrow> bool" where
  "validFieldValue v =
     (if length v > maxPassHeaderValueBytes then False else list_all field_value_char v)"

definition passHeaderRefused :: "string \<Rightarrow> bool" where
  "passHeaderRefused name =
     (if \<not> validFieldName name then True
      else
        let lower = to_lower name
        in if lower \<in> set [''authorization'', ''proxy-authorization'', ''cookie'', ''host'',
                ''content-length'', ''content-type'', ''transfer-encoding'', ''connection'',
                ''upgrade'', ''te'', ''trailer'', ''keep-alive'', ''expect'', ''forwarded'', ''via'',
                ''accept-encoding''] then True
           else if lower \<in> set providerKeyHeaders then True
           else has_prefix lower ''x-forwarded-'' \<or> has_prefix lower ''x-plimsoll-'' \<or>
                has_prefix lower ''proxy-'')"

text \<open>
  The guest's header map in \<open>passedHeaders\<close> is ranged over and the first entry that
  fits is taken, so the list order is the iteration order.
\<close>

definition passed_value :: "(string, string list) gomap \<Rightarrow> string \<Rightarrow> string option" where
  "passed_value guest name =
     (case find (\<lambda>(k, vs). \<not> (\<not> equal_fold k name \<or> length vs = 0 \<or> \<not> validFieldValue (vs ! 0))) guest of
        None \<Rightarrow> None
      | Some (k, vs) \<Rightarrow> Some (vs ! 0))"

definition passedHeaders :: "grant option \<Rightarrow> (string, string list) gomap \<Rightarrow> (string, string) gomap" where
  "passedHeaders g guest =
     (case g of
        None \<Rightarrow> []
      | Some g \<Rightarrow>
          if length (g_PassHeaders g) = 0 \<or> length guest = 0 then []
          else fold (\<lambda>name out. case passed_value guest name of
                        None \<Rightarrow> out | Some v \<Rightarrow> AList.update name v out)
                 (g_PassHeaders g) [])"

definition sdkEnvNameRefused :: "string \<Rightarrow> bool" where
  "sdkEnvNameRefused name =
     (if name = '''' \<or> is_digit (name ! 0) then True
      else if \<not> list_all (\<lambda>c. is_upper c \<or> is_digit c \<or> c = CHR ''_'') name then True
      else if name \<in> set [''PATH'', ''HOME'', ''HOSTNAME'', ''NODE_OPTIONS'', ''GLIBC_TUNABLES'',
                ''LOCPATH'', ''NLSPATH'', ''GCONV_PATH'', ''HOST_API_SOCKET'', ''HOST_API_LISTEN'']
        then True
      else has_prefix name ''LD_'' \<or> has_prefix name ''PLIMSOLL_'' \<or> has_prefix name ''NODE_'')"

definition WantsLoopback :: "grant option \<Rightarrow> bool" where
  "WantsLoopback g = (case g of None \<Rightarrow> False | Some g \<Rightarrow> length (g_SDKEnv g) > 0)"

definition CheckSessionGrant :: "grant option \<Rightarrow> goerr option" where
  "CheckSessionGrant g =
     (case g of
        None \<Rightarrow> None
      | Some gr \<Rightarrow>
          if WantsLoopback g
            then not_dispatched RefusalUnsupported (Some (Wrap [Sentinel ErrUnsupported]))
          else if g_AllowInSessions gr then None
          else not_dispatched RefusalPermission (Some (Wrap [Sentinel ErrGrantNotForSessions])))"

end
