(* ===== verification/Routes.thy ===== *)
theory Routes
  imports Grant
begin

text \<open>
  Route matching (\<open>sandbox/capability.go\<close>: \<open>matchRoute\<close>, \<open>pathMatches\<close>,
  \<open>cappedRoutesMatching\<close>, \<open>widensFixedSegment\<close>) and the checks on route
  patterns. The lemmas say what a match means segment by segment, and that no entry
  of a grant without a widening entry lets a call around a route's cap.
\<close>

abbreviation segments :: "string \<Rightarrow> string list" where
  "segments p \<equiv> split_on CHR ''/'' p"

subsection \<open>Matching\<close>

definition upstreamNeutralSegments :: "string list \<Rightarrow> bool" where
  "upstreamNeutralSegments segs \<longleftrightarrow>
     list_all (\<lambda>s. \<not> (contains_char s CHR '';'' \<or> (s \<noteq> '''' \<and> trim_set s ''.'' = ''''))) segs"

definition unreservedChars :: string where
  "unreservedChars = ''ABCDEFGHIJKLMNOPQRSTUVWXYZabcdefghijklmnopqrstuvwxyz0123456789-._~''"

definition unreservedSegment :: "string \<Rightarrow> bool" where
  "unreservedSegment s \<longleftrightarrow> s \<noteq> '''' \<and> trim_set s unreservedChars = ''''"

fun segments_match :: "string list \<Rightarrow> string list \<Rightarrow> bool" where
  "segments_match (p # ps) (s # ss) =
     (if p = ''*'' then (if \<not> unreservedSegment s then False else segments_match ps ss)
      else if p \<noteq> s then False else segments_match ps ss)"
| "segments_match _ _ = True"

definition pathMatches :: "string \<Rightarrow> string list \<Rightarrow> bool" where
  "pathMatches pattern segs =
     (let ps = segments pattern
      in if length ps \<noteq> length segs then False else segments_match ps segs)"

definition matchRoute :: "grant \<Rightarrow> string \<Rightarrow> string \<Rightarrow> host_route option" where
  "matchRoute g method requestPath =
     (case path_unescape requestPath of
        None \<Rightarrow> None
      | Some decoded \<Rightarrow>
          if decoded \<noteq> requestPath then None
          else if requestPath = '''' \<or> \<not> has_prefix requestPath ''/'' \<or>
                  contains_char requestPath (CHR 0x5C) \<or> contains_any requestPath ''?#'' \<or>
                  has_control requestPath \<or> path_clean requestPath \<noteq> requestPath \<or>
                  escaped_path requestPath \<noteq> requestPath then None
          else
            let segs = segments requestPath
            in if \<not> upstreamNeutralSegments segs then None
               else find (\<lambda>r. equal_fold (hr_Method r) method \<and> pathMatches (hr_Path r) segs)
                      (g_Allow g))"

definition routeAllowed :: "grant \<Rightarrow> string \<Rightarrow> string \<Rightarrow> bool" where
  "routeAllowed g method requestPath \<longleftrightarrow> matchRoute g method requestPath \<noteq> None"

definition cappedRoutesMatching :: "grant \<Rightarrow> string \<Rightarrow> string \<Rightarrow> host_route list" where
  "cappedRoutesMatching g method requestPath =
     (if length (g_RouteMaxCalls g) = 0 then []
      else
        let segs = segments (to_lower requestPath)
        in filter (\<lambda>r. equal_fold (hr_Method r) method \<and> pathMatches (to_lower (hr_Path r)) segs)
             (map fst (g_RouteMaxCalls g)))"

text \<open>The loop of \<open>widensFixedSegment\<close>; \<open>None\<close> is its early \<open>return false\<close>.\<close>

fun widens_loop :: "bool \<Rightarrow> string list \<Rightarrow> string list \<Rightarrow> bool option" where
  "widens_loop wider (w # ws) (c # cs) =
     (if w = ''*'' \<and> c \<noteq> ''*'' then widens_loop True ws cs
      else if w \<noteq> ''*'' \<and> c \<noteq> ''*'' \<and> \<not> equal_fold w c then None
      else widens_loop wider ws cs)"
| "widens_loop wider _ _ = Some wider"

definition widensFixedSegment :: "host_route \<Rightarrow> host_route \<Rightarrow> bool" where
  "widensFixedSegment w capped =
     (if \<not> equal_fold (hr_Method w) (hr_Method capped) then False
      else
        let ws = segments (hr_Path w); cs = segments (hr_Path capped)
        in if length ws \<noteq> length cs then False
           else (case widens_loop False ws cs of None \<Rightarrow> False | Some b \<Rightarrow> b))"

subsection \<open>Segment-wise meaning\<close>

text \<open>One pattern segment accepts one path segment: a wildcard binds a non-empty run of
  unreserved characters, anything else only itself.\<close>

definition seg_accepts :: "string \<Rightarrow> string \<Rightarrow> bool" where
  "seg_accepts p s \<longleftrightarrow> (if p = ''*'' then unreservedSegment s else p = s)"

lemma segments_match_iff:
  "length ps = length ss \<Longrightarrow> segments_match ps ss \<longleftrightarrow> list_all2 seg_accepts ps ss"
  by (induction ps ss rule: list_induct2) (auto simp: seg_accepts_def)

lemma pathMatches_iff: "pathMatches pattern segs \<longleftrightarrow> list_all2 seg_accepts (segments pattern) segs"
  using segments_match_iff [of "segments pattern" segs]
  by (auto simp: pathMatches_def Let_def dest: list_all2_lengthD)

lemma alnum_chars: "map (char_of::nat\<Rightarrow>char) ([65..<91] @ [97..<123] @ [48..<58]) = ''ABCDEFGHIJKLMNOPQRSTUVWXYZabcdefghijklmnopqrstuvwxyz0123456789''"
  by code_simp
lemma alnum_set: "set ''ABCDEFGHIJKLMNOPQRSTUVWXYZabcdefghijklmnopqrstuvwxyz0123456789'' = {c. is_alnum c}"
proof -
  let ?B = "{65..<91} \<union> {97..<123} \<union> {48..<58} :: nat set"
  have B: "byte c \<in> ?B \<longleftrightarrow> is_alnum c" for c
    unfolding char_class_defs atLeastLessThan_iff Un_iff by arith
  have "n mod 256 = n" if "n \<in> ?B" for n :: nat
    using that unfolding Un_iff atLeastLessThan_iff by (intro mod_less) linarith
  then have "byte (char_of n) \<in> ?B" if "n \<in> ?B" for n
    using that by (simp only: of_char_of)
  then have "(char_of :: nat \<Rightarrow> char) ` ?B \<subseteq> {c. is_alnum c}"
    using B by blast
  moreover have "c \<in> (char_of :: nat \<Rightarrow> char) ` ?B" if "is_alnum c" for c
    using that B [of c] char_of_char [of c] by (metis image_eqI)
  ultimately have "(char_of :: nat \<Rightarrow> char) ` ?B = {c. is_alnum c}"
    by blast
  moreover have "(char_of :: nat \<Rightarrow> char) ` ?B = set (map char_of ([65..<91] @ [97..<123] @ [48..<58]))"
    by (simp only: set_map set_append set_upt Un_assoc)
  ultimately show ?thesis by (simp only: alnum_chars)
qed

lemma unreservedSegment_iff:
  "unreservedSegment s \<longleftrightarrow> s \<noteq> [] \<and> (\<forall>c \<in> set s. is_alnum c \<or> c \<in> set ''-._~'')"
proof -
  have "unreservedChars =
      ''ABCDEFGHIJKLMNOPQRSTUVWXYZabcdefghijklmnopqrstuvwxyz0123456789'' @ ''-._~''"
    by (simp add: unreservedChars_def)
  then have "set unreservedChars = {c. is_alnum c} \<union> set ''-._~''"
    by (simp only: set_append [symmetric] alnum_set [symmetric])
  then show ?thesis
    unfolding unreservedSegment_def trim_set_Nil_iff by blast
qed

lemma lower_char_alnum: "is_alnum (lower_char c) \<longleftrightarrow> is_alnum c"
  by (cases "is_upper c") (auto simp: lower_char_def char_class_defs)

lemma lower_char_other: "\<not> is_upper c \<Longrightarrow> lower_char c = c"
  by (simp add: lower_char_def)

lemma lower_char_eqD: "lower_char c = d \<Longrightarrow> \<not> is_lower d \<Longrightarrow> c = d"
  by (auto simp: lower_char_def is_upper_def is_lower_def split: if_splits)

lemma unreserved_char_lower:
  "is_alnum (lower_char c) \<or> lower_char c \<in> set ''-._~'' \<longleftrightarrow> is_alnum c \<or> c \<in> set ''-._~''"
proof (cases "is_upper c")
  case True
  then have "is_alnum c" by (simp add: is_alnum_def)
  then show ?thesis by (simp add: lower_char_alnum)
qed (simp add: lower_char_other)

lemma unreservedSegment_lower [simp]: "unreservedSegment (to_lower s) = unreservedSegment s"
  unfolding unreservedSegment_iff
  by (auto simp: to_lower_def unreserved_char_lower simp del: set_simps)

lemma lower_char_star: "lower_char c = CHR ''*'' \<longleftrightarrow> c = CHR ''*''"
  by (auto simp: lower_char_other is_upper_def dest!: lower_char_eqD simp: is_lower_def)

lemma to_lower_star [simp]: "to_lower s = ''*'' \<longleftrightarrow> s = ''*''"
  by (auto simp: to_lower_def lower_char_star map_eq_Cons_conv)

lemma seg_accepts_lower: "seg_accepts p s \<Longrightarrow> seg_accepts (to_lower p) (to_lower s)"
  by (auto simp: seg_accepts_def)

lemma matchRoute_SomeD:
  assumes "matchRoute g m p = Some r"
  shows "r \<in> set (g_Allow g)" "equal_fold (hr_Method r) m"
    and "list_all2 seg_accepts (segments (hr_Path r)) (segments p)"
    and "CHR ''%'' \<notin> set p" "has_prefix p ''/''" "path_clean p = p" "escaped_path p = p"
    and "upstreamNeutralSegments (segments p)" "\<not> contains_any p ''?#''" "\<not> has_control p"
    and "\<not> contains_char p (CHR 0x5C)"
  using assms
  by (auto simp: matchRoute_def Let_def pathMatches_iff path_unescape_fixed [symmetric]
        split: option.splits if_splits dest!: find_Some_mem)

subsection \<open>No spelling gets around a cap\<close>

lemma widens_loop_Some:
  "length ws = length cs \<Longrightarrow> widens_loop b ws cs = Some r \<longleftrightarrow>
     list_all2 (\<lambda>w c. w \<noteq> ''*'' \<longrightarrow> c \<noteq> ''*'' \<longrightarrow> equal_fold w c) ws cs \<and>
     (r \<longleftrightarrow> b \<or> \<not> list_all2 (\<lambda>w c. w = ''*'' \<longrightarrow> c = ''*'') ws cs)"
  by (induction ws cs arbitrary: b rule: list_induct2) auto

text \<open>One segment: where the wildcard of \<open>w\<close> stands over a wildcard of \<open>c\<close> and some
  segment \<open>s\<close> fits both, whatever fits \<open>w\<close> fits \<open>c\<close> without regard to case.\<close>

lemma seg_narrow:
  assumes "w = ''*'' \<longrightarrow> c = ''*''" and "seg_accepts w s" and "seg_accepts (to_lower c) (to_lower s)"
    and "seg_accepts w t"
  shows "seg_accepts (to_lower c) (to_lower t)"
  using assms by (auto simp: seg_accepts_def split: if_splits)

lemma seg_overlap_fold:
  "seg_accepts w s \<Longrightarrow> seg_accepts (to_lower c) (to_lower s) \<Longrightarrow> w \<noteq> ''*'' \<Longrightarrow> c \<noteq> ''*'' \<Longrightarrow>
    equal_fold w c"
  by (auto simp: seg_accepts_def equal_fold_def)

lemma not_widens_narrow:
  assumes nw: "\<not> widensFixedSegment w c" and m: "equal_fold (hr_Method w) (hr_Method c)"
    and ws: "list_all2 seg_accepts (segments (hr_Path w)) ss"
    and cs: "list_all2 seg_accepts (map to_lower (segments (hr_Path c))) (map to_lower ss)"
    and wt: "list_all2 seg_accepts (segments (hr_Path w)) ts"
  shows "list_all2 seg_accepts (map to_lower (segments (hr_Path c))) (map to_lower ts)"
proof -
  let ?W = "segments (hr_Path w)" and ?C = "segments (hr_Path c)"
  have len: "length ?W = length ss" "length ?C = length ss" "length ?W = length ts"
    using ws cs wt by (auto dest: list_all2_lengthD)
  have nth: "seg_accepts (?W ! i) (ss ! i)" "seg_accepts (?W ! i) (ts ! i)"
      "seg_accepts (to_lower (?C ! i)) (to_lower (ss ! i))" if "i < length ss" for i
    using list_all2_nthD [OF ws, of i] list_all2_nthD [OF wt, of i] list_all2_nthD [OF cs, of i]
      that len by simp_all
  have "list_all2 (\<lambda>x y. x \<noteq> ''*'' \<longrightarrow> y \<noteq> ''*'' \<longrightarrow> equal_fold x y) ?W ?C"
  proof (rule list_all2_all_nthI)
    fix i assume "i < length ?W"
    with len nth [of i] show "?W ! i \<noteq> ''*'' \<longrightarrow> ?C ! i \<noteq> ''*'' \<longrightarrow> equal_fold (?W ! i) (?C ! i)"
      using seg_overlap_fold by metis
  qed (use len in simp)
  then have "list_all2 (\<lambda>x y. x = ''*'' \<longrightarrow> y = ''*'') ?W ?C"
    using nw m len widens_loop_Some [of ?W ?C False True]
    by (auto simp: widensFixedSegment_def Let_def split: option.splits)
  then have star: "?W ! i = ''*'' \<longrightarrow> ?C ! i = ''*''" if "i < length ss" for i
    using list_all2_nthD that len by fastforce
  show ?thesis
  proof (rule list_all2_all_nthI)
    fix i assume "i < length (map to_lower ?C)"
    with len have i: "i < length ss" by simp
    have "seg_accepts (to_lower (?C ! i)) (to_lower (ts ! i))"
      by (rule seg_narrow [OF star [OF i] nth(1) [OF i] nth(3) [OF i] nth(2) [OF i]])
    with i len show "seg_accepts (map to_lower ?C ! i) (map to_lower ts ! i)" by simp
  qed (use len in simp)
qed

lemma cappedRoutesMatching_iff:
  "c \<in> set (cappedRoutesMatching g m p) \<longleftrightarrow>
     c \<in> fst ` set (g_RouteMaxCalls g) \<and> equal_fold (hr_Method c) m \<and>
     list_all2 seg_accepts (map to_lower (segments (hr_Path c))) (map to_lower (segments p))"
  by (auto simp: cappedRoutesMatching_def Let_def pathMatches_iff split_to_lower)

subsection \<open>Route patterns\<close>

datatype pattern_error =
    PathNotAbsolute | PathBadByte | PathNotDecoded | PathBadSegment | PathNeedsEncoding
  | PathPartialWildcard

definition validateRoutePattern :: "string \<Rightarrow> pattern_error option" where
  "validateRoutePattern pattern =
     (if pattern = '''' \<or> \<not> has_prefix pattern ''/'' then Some PathNotAbsolute
      else if contains_char pattern (CHR 0x5C) \<or> contains_any pattern ''?#'' \<or> has_control pattern
        then Some PathBadByte
      else if path_unescape pattern \<noteq> Some pattern then Some PathNotDecoded
      else if path_clean pattern \<noteq> pattern \<or> \<not> upstreamNeutralSegments (segments pattern)
        then Some PathBadSegment
      else
        let wireExample = map (\<lambda>c. if c = CHR ''*'' then CHR ''x'' else c) pattern
        in if escaped_path wireExample \<noteq> wireExample then Some PathNeedsEncoding
           else first_err (\<lambda>segment.
                  guard_err (contains_char segment CHR ''*'' \<and> segment \<noteq> ''*'') PathPartialWildcard)
                (segments pattern))"

definition grant_methods :: "string list" where
  "grant_methods = [''GET'', ''PUT'', ''POST'', ''DELETE'', ''PATCH'']"

datatype route_error = RouteMethodUnknown | RoutePathNotUTF8 | RouteBadPattern pattern_error

definition ValidateHostRoute :: "host_route \<Rightarrow> route_error option" where
  "ValidateHostRoute route =
     (if hr_Method route \<notin> set grant_methods then Some RouteMethodUnknown
      else if \<not> valid_utf8 (hr_Path route) then Some RoutePathNotUTF8
      else map_option RouteBadPattern (validateRoutePattern (hr_Path route)))"

text \<open>
  A concrete path of a pattern the checks accept is a path the broker can match: a
  pattern without wildcards is itself a request path that passes every guard.
\<close>

lemma validateRoutePattern_concrete:
  assumes "validateRoutePattern p = None" and "CHR ''*'' \<notin> set p"
    and "r \<in> set (g_Allow g)" and "hr_Path r = p" and "equal_fold (hr_Method r) m"
  shows "\<exists>r'. matchRoute g m p = Some r'"
proof -
  have nostar: "map (\<lambda>c. if c = CHR ''*'' then CHR ''x'' else c) p = p"
    using assms(2) by (auto intro: map_idI)
  have guards: "path_unescape p = Some p" "p \<noteq> ''''" "has_prefix p ''/''"
      "\<not> contains_char p (CHR 0x5C)" "\<not> contains_any p ''?#''" "\<not> has_control p"
      "path_clean p = p" "upstreamNeutralSegments (segments p)" "escaped_path p = p"
    using assms(1) nostar by (auto simp: validateRoutePattern_def Let_def split: if_splits)
  have "\<forall>s \<in> set (segments p). s \<noteq> ''*''"
    using assms(2) split_on_subset by fastforce
  then have "list_all2 seg_accepts (segments p) (segments p)"
    by (auto simp: list_all2_same seg_accepts_def)
  then have "find (\<lambda>r. equal_fold (hr_Method r) m \<and> pathMatches (hr_Path r) (segments p)) (g_Allow g) \<noteq> None"
    using assms(3,4,5) by (auto simp: find_None_iff pathMatches_iff)
  with guards show ?thesis
    unfolding matchRoute_def Let_def by (simp del: not_None_eq) blast
qed

end
