(* ===== verification/Grant_Valid.thy ===== *)
theory Grant_Valid
  imports Routes
begin

text \<open>
  \<open>HostAPIGrant.Validate\<close> and \<open>credential\<close> of \<open>sandbox/capability.go\<close>, one
  definition per block of \<open>Validate\<close> in its order, one \<open>grant_error\<close> per return
  statement. A map the source ranges over is a \<open>gomap\<close>, so which of several errors is
  reported follows the list order, as it follows Go's iteration order.
\<close>

datatype grant_error =
    BaseURLRequired | TextNotUTF8 | MaxCallsRange | BaseURLInvalid | SchemeInvalid | SchemeNotHTTPS
  | BaseURLNotOrigin | ScopeInvalid | ScopeForbidden | RouteNotUTF8 | RouteMethodSpace
  | RouteMethodInvalid | RoutePatternInvalid pattern_error | RouteDuplicate
  | CapUnknownRoute | CapRange | CapWidened
  | MaxRequestBytesRange | BytesUnknownRoute | BytesRange | BytesOverBudget
  | TypesUnknownRoute | TypesEmpty | TypeInvalid | TypeDuplicate
  | PassHeaderInvalid | PassHeaderDuplicate
  | SetHeaderInvalid | SetHeaderValueInvalid | HeaderTwoOwners | SetHeaderDuplicate
  | SDKEnvNameInvalid | SDKEnvValueInvalid
  | HealthNotUTF8 | HealthMethodSpace | HealthNotGET | HealthWildcard
  | HealthPatternInvalid pattern_error

definition check_base :: "net_lib \<Rightarrow> grant \<Rightarrow> grant_error option" where
  "check_base nl g =
     (if \<not> valid_utf8 (g_BaseURL g) \<or> trim_space (g_BaseURL g) = '''' then Some BaseURLRequired
      else if \<not> valid_utf8 (g_Global g) \<or> \<not> valid_utf8 (g_Preamble g) then Some TextNotUTF8
      else if g_MaxCalls g < 0 \<or> g_MaxCalls g > MaxHostCallsCeiling then Some MaxCallsRange
      else
        (case url_Parse nl (g_BaseURL g) of
           None \<Rightarrow> Some BaseURLInvalid
         | Some u \<Rightarrow>
             if u_Hostname u = '''' then Some BaseURLInvalid
             else if u_Scheme u \<noteq> ''http'' \<and> u_Scheme u \<noteq> ''https'' then Some SchemeInvalid
             else if u_Scheme u = ''http'' \<and> \<not> equal_fold (u_Hostname u) ''localhost'' \<and>
                     ip_IsLoopback nl (u_Hostname u) \<noteq> Some True then Some SchemeNotHTTPS
             else if u_User u \<or> u_Path u \<noteq> '''' \<or> u_RawPath u \<noteq> '''' \<or> u_RawQuery u \<noteq> '''' \<or>
                     u_Fragment u \<noteq> '''' \<or> u_ForceQuery u then Some BaseURLNotOrigin
             else None))"

definition forbiddenGrantScopes :: "string list" where
  "forbiddenGrantScopes = [''code:run'', ''*'']"

definition check_scope :: "string \<Rightarrow> grant_error option" where
  "check_scope s =
     (if \<not> valid_utf8 s \<or> s = '''' \<or> has_space s then Some ScopeInvalid
      else if s \<in> set forbiddenGrantScopes then Some ScopeForbidden
      else None)"

fun check_routes :: "string list \<Rightarrow> host_route list \<Rightarrow> grant_error option" where
  "check_routes seen [] = None"
| "check_routes seen (route # rs) =
     (if \<not> valid_utf8 (hr_Method route) \<or> \<not> valid_utf8 (hr_Path route) then Some RouteNotUTF8
      else if hr_Method route \<noteq> trim_space (hr_Method route) then Some RouteMethodSpace
      else if to_upper (hr_Method route) \<notin> set grant_methods then Some RouteMethodInvalid
      else or_err (map_option RoutePatternInvalid (validateRoutePattern (hr_Path route)))
        (let key = to_upper (hr_Method route) @ '' '' @ hr_Path route
         in if key \<in> set seen then Some RouteDuplicate else check_routes (key # seen) rs))"

definition check_route_cap :: "grant \<Rightarrow> host_route \<times> int \<Rightarrow> grant_error option" where
  "check_route_cap g e =
     (case e of (route, n) \<Rightarrow>
        if route \<notin> set (g_Allow g) then Some CapUnknownRoute
        else if n < 1 \<or> n > MaxHostCallsCeiling then Some CapRange
        else first_err (\<lambda>w. guard_err (widensFixedSegment w route) CapWidened) (g_Allow g))"

definition check_max_request_bytes :: "grant \<Rightarrow> grant_error option" where
  "check_max_request_bytes g =
     guard_err (g_MaxRequestBytes g < 0 \<or> g_MaxRequestBytes g > MaxRequestBytesCeiling)
       MaxRequestBytesRange"

definition check_route_bytes :: "grant \<Rightarrow> host_route \<times> int \<Rightarrow> grant_error option" where
  "check_route_bytes g e =
     (case e of (route, n) \<Rightarrow>
        if route \<notin> set (g_Allow g) then Some BytesUnknownRoute
        else if n < 1 \<or> n > MaxRouteRequestBytes then Some BytesRange
        else if n > requestBudget (Some g) then Some BytesOverBudget
        else None)"

fun check_types :: "string list \<Rightarrow> string list \<Rightarrow> grant_error option" where
  "check_types seen [] = None"
| "check_types seen (t # ts) =
     (if \<not> valid_utf8 t \<or> \<not> validRequestMediaType t then Some TypeInvalid
      else if t \<in> set seen then Some TypeDuplicate
      else check_types (seen @ [t]) ts)"

definition check_route_types :: "grant \<Rightarrow> host_route \<times> string list \<Rightarrow> grant_error option" where
  "check_route_types g e =
     (case e of (route, types) \<Rightarrow>
        if route \<notin> set (g_Allow g) then Some TypesUnknownRoute
        else if length types = 0 then Some TypesEmpty
        else check_types [] types)"

fun check_pass_headers :: "string list \<Rightarrow> string list \<Rightarrow> grant_error option" where
  "check_pass_headers seen [] = None"
| "check_pass_headers seen (name # ns) =
     (if \<not> valid_utf8 name \<or> passHeaderRefused name then Some PassHeaderInvalid
      else if to_lower name \<in> set seen then Some PassHeaderDuplicate
      else check_pass_headers (to_lower name # seen) ns)"

fun check_set_headers :: "string list \<Rightarrow> string list \<Rightarrow> (string, string) gomap \<Rightarrow> grant_error option" where
  "check_set_headers passed seen [] = None"
| "check_set_headers passed seen ((name, value) # hs) =
     (if \<not> valid_utf8 name \<or> passHeaderRefused name then Some SetHeaderInvalid
      else if value = '''' \<or> \<not> validFieldValue value \<or>
              trim_set value [CHR '' '', char_of (9::nat)] \<noteq> value then Some SetHeaderValueInvalid
      else if to_lower name \<in> set passed then Some HeaderTwoOwners
      else if to_lower name \<in> set seen then Some SetHeaderDuplicate
      else check_set_headers passed (to_lower name # seen) hs)"

definition check_sdk_env :: "string \<times> string \<Rightarrow> grant_error option" where
  "check_sdk_env e =
     (case e of (name, value) \<Rightarrow>
        if \<not> valid_utf8 name \<or> sdkEnvNameRefused name then Some SDKEnvNameInvalid
        else if \<not> valid_utf8 value \<or> length value > maxSDKEnvValueBytes \<or> has_control value
          then Some SDKEnvValueInvalid
        else None)"

definition check_health :: "grant \<Rightarrow> grant_error option" where
  "check_health g =
     (case g_HealthCheck g of
        None \<Rightarrow> None
      | Some hc \<Rightarrow>
          if \<not> valid_utf8 (hr_Method hc) \<or> \<not> valid_utf8 (hr_Path hc) then Some HealthNotUTF8
          else if hr_Method hc \<noteq> trim_space (hr_Method hc) then Some HealthMethodSpace
          else if to_upper (hr_Method hc) \<noteq> ''GET'' then Some HealthNotGET
          else if contains_char (hr_Path hc) CHR ''*'' then Some HealthWildcard
          else map_option HealthPatternInvalid (validateRoutePattern (hr_Path hc)))"

definition Validate :: "net_lib \<Rightarrow> grant \<Rightarrow> grant_error option" where
  "Validate nl g =
     or_err (check_base nl g)
    (or_err (first_err check_scope (g_Scopes g))
    (or_err (check_routes [] (g_Allow g))
    (or_err (first_err (check_route_cap g) (g_RouteMaxCalls g))
    (or_err (check_max_request_bytes g)
    (or_err (first_err (check_route_bytes g) (g_RouteMaxRequestBytes g))
    (or_err (first_err (check_route_types g) (g_RouteContentTypes g))
    (or_err (check_pass_headers [] (g_PassHeaders g))
    (or_err (check_set_headers (map to_lower (g_PassHeaders g)) [] (g_SetHeaders g))
    (or_err (first_err check_sdk_env (g_SDKEnv g))
       (check_health g))))))))))"

subsection \<open>What a valid grant guarantees\<close>

lemma Validate_caps:
  assumes "Validate nl g = None" and "(c, n) \<in> set (g_RouteMaxCalls g)"
  shows "c \<in> set (g_Allow g)" "1 \<le> n" "n \<le> MaxHostCallsCeiling"
    and "w \<in> set (g_Allow g) \<Longrightarrow> \<not> widensFixedSegment w c"
proof -
  have "check_route_cap g (c, n) = None"
    using assms by (auto simp: Validate_def)
  then show "c \<in> set (g_Allow g)" "1 \<le> n" "n \<le> MaxHostCallsCeiling"
    and "w \<in> set (g_Allow g) \<Longrightarrow> \<not> widensFixedSegment w c"
    by (auto simp: check_route_cap_def split: if_splits)
qed

lemma Validate_budgets:
  assumes "Validate nl g = None"
  shows "1 \<le> CallBudget (Some g)" "CallBudget (Some g) \<le> MaxHostCallsCeiling"
    and "1 \<le> requestBudget (Some g)" "requestBudget (Some g) \<le> MaxRequestBytesCeiling"
  using assms
  by (auto simp: Validate_def check_base_def CallBudget_def requestBudget_def grant_limits
        check_max_request_bytes_def split: if_splits)

lemma requestLimit_bounds:
  assumes "Validate nl g = None"
  shows "1 \<le> requestLimit (Some g) r" "requestLimit (Some g) r \<le> MaxRouteRequestBytes"
    and "requestLimit (Some g) r > maxHostRequestBytes \<Longrightarrow> requestLimit (Some g) r \<le> requestBudget (Some g)"
proof -
  have "check_route_bytes g e = None" if "e \<in> set (g_RouteMaxRequestBytes g)" for e
    using assms that by (auto simp: Validate_def)
  then have e: "1 \<le> n \<and> n \<le> MaxRouteRequestBytes \<and> n \<le> requestBudget (Some g)"
    if "map_of (g_RouteMaxRequestBytes g) r = Some n" for n
    using map_of_SomeD [OF that] by (fastforce simp: check_route_bytes_def split: if_splits)
  show "1 \<le> requestLimit (Some g) r" "requestLimit (Some g) r \<le> MaxRouteRequestBytes"
    and "requestLimit (Some g) r > maxHostRequestBytes \<Longrightarrow> requestLimit (Some g) r \<le> requestBudget (Some g)"
    using e by (auto simp: requestLimit_def lookup0_def Let_def grant_limits split: option.splits)
qed

lemma Validate_scopes:
  assumes "Validate nl g = None" and "s \<in> set (g_Scopes g)"
  shows "s \<noteq> ''code:run''" "s \<noteq> ''*''" "\<not> has_space s"
  using assms by (auto simp: Validate_def check_scope_def forbiddenGrantScopes_def split: if_splits)

lemma check_pass_headers_None:
  "check_pass_headers seen ns = None \<Longrightarrow>
     (\<forall>n \<in> set ns. \<not> passHeaderRefused n) \<and> distinct (map to_lower ns)
     \<and> set seen \<inter> to_lower ` set ns = {}"
  by (induction seen ns rule: check_pass_headers.induct) (auto split: if_splits)

lemma check_set_headers_None:
  "check_set_headers passed seen hs = None \<Longrightarrow>
     (\<forall>(n, v) \<in> set hs. \<not> passHeaderRefused n \<and> v \<noteq> '''' \<and> validFieldValue v
        \<and> to_lower n \<notin> set passed)
     \<and> distinct (map (to_lower \<circ> fst) hs) \<and> set seen \<inter> (to_lower \<circ> fst) ` set hs = {}"
  by (induction passed seen hs rule: check_set_headers.induct) (auto split: if_splits)

lemma Validate_headers:
  assumes "Validate nl g = None"
  shows "n \<in> set (g_PassHeaders g) \<Longrightarrow> \<not> passHeaderRefused n"
    and "(h, v) \<in> set (g_SetHeaders g) \<Longrightarrow>
      \<not> passHeaderRefused h \<and> validFieldValue v \<and> to_lower h \<notin> to_lower ` set (g_PassHeaders g)"
proof -
  have p: "check_pass_headers [] (g_PassHeaders g) = None"
    and s: "check_set_headers (map to_lower (g_PassHeaders g)) [] (g_SetHeaders g) = None"
    using assms by (auto simp: Validate_def)
  show "n \<in> set (g_PassHeaders g) \<Longrightarrow> \<not> passHeaderRefused n"
    using check_pass_headers_None [OF p] by blast
  show "(h, v) \<in> set (g_SetHeaders g) \<Longrightarrow>
      \<not> passHeaderRefused h \<and> validFieldValue v \<and> to_lower h \<notin> to_lower ` set (g_PassHeaders g)"
    using check_set_headers_None [OF s] by fastforce
qed

lemma passHeaderRefused_owned:
  "to_lower n \<in> {''authorization'', ''content-type'', ''content-length'', ''host'', ''x-api-key'',
     ''transfer-encoding'', ''cookie''} \<Longrightarrow> passHeaderRefused n"
  by (auto simp: passHeaderRefused_def Let_def providerKeyHeaders_def)

lemma check_routes_None:
  "check_routes seen rs = None \<Longrightarrow>
     \<forall>r \<in> set rs. to_upper (hr_Method r) \<in> set grant_methods \<and> validateRoutePattern (hr_Path r) = None"
  by (induction seen rs rule: check_routes.induct) (auto split: if_splits simp: Let_def)

lemma Validate_routes:
  "Validate nl g = None \<Longrightarrow> r \<in> set (g_Allow g) \<Longrightarrow>
    to_upper (hr_Method r) \<in> set grant_methods \<and> validateRoutePattern (hr_Path r) = None"
  using check_routes_None [of "[]" "g_Allow g"] by (auto simp: Validate_def)

subsection \<open>The credential\<close>

datatype credential_error = SubjectRequired | MintFailed goerr | TokenInvalid | TokenExpired

definition RequiresSubject :: "grant option \<Rightarrow> bool" where
  "RequiresSubject g =
     (case g of None \<Rightarrow> False
      | Some g \<Rightarrow> (case g_Minter g of None \<Rightarrow> False | Some m \<Rightarrow> m_RequiresSubject m = Some True))"

definition bearer_char :: "char \<Rightarrow> bool" where
  "bearer_char c \<longleftrightarrow> 33 \<le> byte c \<and> byte c \<le> 126"

text \<open>\<open>credential\<close> with the context's subject and the clock as arguments.\<close>

definition credential :: "gotime \<Rightarrow> string \<Rightarrow> grant option \<Rightarrow> duration \<Rightarrow> credential_error + string" where
  "credential now subject g budget =
     (case g of None \<Rightarrow> Inr ''''
      | Some gr \<Rightarrow>
        (case g_Minter gr of None \<Rightarrow> Inr ''''
         | Some m \<Rightarrow>
             if RequiresSubject g \<and>
                (\<not> valid_utf8 subject \<or> subject = '''' \<or> subject = ''*'' \<or>
                 subject \<noteq> trim_space subject \<or> has_control subject)
               then Inl SubjectRequired
             else
               (case m_Mint m \<lparr>ms_BaseURL = g_BaseURL gr, ms_Allow = g_Allow gr,
                    ms_Scopes = g_Scopes gr, ms_TTL = budget, ms_Subject = subject\<rparr> of
                  Inl e \<Rightarrow> Inl (MintFailed e)
                | Inr tok \<Rightarrow>
                    if mt_Value tok = '''' \<or> list_ex (\<lambda>c. \<not> bearer_char c) (mt_Value tok)
                      then Inl TokenInvalid
                    else if (case mt_ExpiresAt tok of None \<Rightarrow> False | Some t \<Rightarrow> \<not> t > now)
                      then Inl TokenExpired
                    else Inr (mt_Value tok))))"

lemma credential_sound:
  assumes "credential now subject g budget = Inr tok"
  shows "tok = '''' \<or> list_all bearer_char tok"
    and "RequiresSubject g \<Longrightarrow> subject \<noteq> '''' \<and> subject \<noteq> ''*'' \<and> \<not> has_control subject"
  using assms
  by (auto simp: credential_def RequiresSubject_def list_ex_iff list_all_iff
        split: option.splits if_splits sum.splits)

subsection \<open>A concrete grant\<close>

definition demo_url :: url where
  "demo_url = \<lparr>u_Scheme = ''https'', u_User = False, u_Host = ''api.example.com'',
     u_Hostname = ''api.example.com'', u_Port = '''', u_Path = '''', u_RawPath = '''',
     u_RawQuery = '''', u_Fragment = '''', u_ForceQuery = False\<rparr>"

definition demo_net :: net_lib where
  "demo_net = \<lparr>url_Parse = (\<lambda>s. if s = ''https://api.example.com'' then Some demo_url else None),
     ip_IsLoopback = (\<lambda>h. None), addr_String = (\<lambda>h. None)\<rparr>"

definition demo_post :: host_route where "demo_post = \<lparr>hr_Method = ''POST'', hr_Path = ''/v1/orders/*''\<rparr>"
definition demo_get :: host_route where "demo_get = \<lparr>hr_Method = ''GET'', hr_Path = ''/v1/items''\<rparr>"

definition demo_grant :: grant where
  "demo_grant = \<lparr>g_BaseURL = ''https://api.example.com'', g_Allow = [demo_post, demo_get],
     g_Minter = Some \<lparr>m_Mint = (\<lambda>s. Inr \<lparr>mt_Value = ''tok-1'', mt_ExpiresAt = None\<rparr>), m_RequiresSubject = Some True\<rparr>,
     g_Scopes = [''orders:write''], g_Global = '''', g_Preamble = '''',
     g_HealthCheck = Some \<lparr>hr_Method = ''GET'', hr_Path = ''/health''\<rparr>, g_MaxCalls = 10,
     g_RouteMaxCalls = [(demo_post, 2)], g_AllowInSessions = True, g_PassHeaders = [''x-trace''],
     g_SetHeaders = [(''x-tenant'', ''acme'')], g_SDKEnv = [], g_RouteMaxRequestBytes = [(demo_post, 2000000)],
     g_RouteContentTypes = [(demo_post, [''text/csv''])], g_MaxRequestBytes = 3000000\<rparr>"

lemma demo_valid: "Validate demo_net demo_grant = None"
  by code_simp

subsection \<open>Properties\<close>

text \<open>C8: What a match means. A request that matches a grant entry has the entry's method
  without regard to case, every segment of the path is the entry's segment or fills a
  wildcard with unreserved characters, and the path is already in the one spelling an
  upstream can read: no escapes, query, fragment, control character or backslash, and
  below the root no segment is empty or made only of dots.\<close>

theorem match_is_exact:
  assumes "matchRoute g m p = Some r"
  shows "r \<in> set (g_Allow g) \<and> equal_fold (hr_Method r) m \<and>
    list_all2 seg_accepts (segments (hr_Path r)) (segments p) \<and>
    CHR ''%'' \<notin> set p \<and> \<not> contains_any p ''?#'' \<and> \<not> has_control p \<and> CHR 0x5C \<notin> set p \<and>
    escaped_path p = p \<and> (\<forall>s \<in> set (segments p). CHR '';'' \<notin> set s) \<and>
    (p = ''/'' \<or> (\<exists>es. segments p = [] # es \<and> es \<noteq> [] \<and> list_all proper_elem es \<and> list_all (\<lambda>e. \<not> set e \<subseteq> {CHR ''.''}) es))"
proof -
  note m = matchRoute_SomeD [OF assms]
  have "\<forall>s \<in> set (segments p). s = [] \<or> \<not> set s \<subseteq> {CHR ''.''}"
    using m(8) by (auto simp: upstreamNeutralSegments_def list_all_iff trim_set_Nil_iff)
  then have "p = ''/'' \<or> (\<exists>es. segments p = [] # es \<and> es \<noteq> [] \<and> list_all proper_elem es \<and> list_all (\<lambda>e. \<not> set e \<subseteq> {CHR ''.''}) es)"
    using path_clean_fixed_rooted [OF m(6,5)] by (fastforce simp: list_all_iff proper_elem_def)
  moreover have "\<forall>s \<in> set (segments p). CHR '';'' \<notin> set s"
    using m(8) by (auto simp: upstreamNeutralSegments_def list_all_iff contains_char_def)
  ultimately show ?thesis using m by (auto simp: contains_char_def)
qed

theorem match_is_exact_witness:
  "matchRoute demo_grant ''post'' ''/v1/orders/a-7'' = Some demo_post \<and>
   escaped_path ''/v1/orders/a-7'' = ''/v1/orders/a-7''"
proof -
  have "matchRoute demo_grant ''post'' ''/v1/orders/a-7'' = Some demo_post" by code_simp
  with match_is_exact [OF this] show ?thesis by blast
qed

text \<open>C9: No other spelling of a request gets around a route's call cap. In a grant that
  validates, where an allowed entry admits two paths and one of them counts against a
  capped route, the other counts against it too; so a call cannot reach a capped
  endpoint through a wider entry that is sometimes uncounted.\<close>

theorem cap_covers_every_spelling:
  assumes "Validate nl g = None" and "w \<in> set (g_Allow g)" and "equal_fold (hr_Method w) m"
    and "pathMatches (hr_Path w) (segments p)" and "pathMatches (hr_Path w) (segments q)"
    and "c \<in> set (cappedRoutesMatching g m p)"
  shows "c \<in> set (cappedRoutesMatching g m q)"
proof -
  from assms(6) obtain n where n: "(c, n) \<in> set (g_RouteMaxCalls g)"
    and cm: "equal_fold (hr_Method c) m"
    and cp: "list_all2 seg_accepts (map to_lower (segments (hr_Path c))) (map to_lower (segments p))"
    by (auto simp: cappedRoutesMatching_iff)
  have "\<not> widensFixedSegment w c"
    using Validate_caps(4) [OF assms(1) n assms(2)] .
  moreover have "equal_fold (hr_Method w) (hr_Method c)"
    using assms(3) cm by (simp add: equal_fold_def)
  ultimately have "list_all2 seg_accepts (map to_lower (segments (hr_Path c))) (map to_lower (segments q))"
    using not_widens_narrow [of w c "segments p" "segments q"] assms(4,5) cp
    by (simp add: pathMatches_iff)
  moreover have "c \<in> fst ` set (g_RouteMaxCalls g)" using n by force
  ultimately show ?thesis using cm by (simp add: cappedRoutesMatching_iff)
qed

theorem cap_covers_every_spelling_witness:
  "demo_post \<in> set (cappedRoutesMatching demo_grant ''POST'' ''/v1/orders/zz'')"
proof -
  have w: "demo_post \<in> set (g_Allow demo_grant)" "equal_fold (hr_Method demo_post) ''POST''"
    "pathMatches (hr_Path demo_post) (segments ''/v1/orders/a'')"
    "pathMatches (hr_Path demo_post) (segments ''/v1/orders/zz'')"
    "demo_post \<in> set (cappedRoutesMatching demo_grant ''POST'' ''/v1/orders/a'')"
    by code_simp+
  show ?thesis
    by (rule cap_covers_every_spelling [OF demo_valid w])
qed

text \<open>A call that the grant matches to a capped entry is always one that is counted
  against that entry, whatever the case of its path and method.\<close>

theorem capped_match_is_counted:
  assumes "matchRoute g m p = Some r" and "r \<in> fst ` set (g_RouteMaxCalls g)"
  shows "r \<in> set (cappedRoutesMatching g m p)"
proof -
  note m = matchRoute_SomeD [OF assms(1)]
  have "list_all2 seg_accepts (map to_lower (segments (hr_Path r))) (map to_lower (segments p))"
    using m(3) by (auto simp: list_all2_conv_all_nth seg_accepts_lower)
  with m(2) assms(2) show ?thesis by (simp add: cappedRoutesMatching_iff)
qed

theorem capped_match_is_counted_witness:
  "demo_post \<in> set (cappedRoutesMatching demo_grant ''post'' ''/v1/orders/a-7'')"
proof (rule capped_match_is_counted)
  show "matchRoute demo_grant ''post'' ''/v1/orders/a-7'' = Some demo_post" by code_simp
  show "demo_post \<in> fst ` set (g_RouteMaxCalls demo_grant)" by (simp add: demo_grant_def)
qed

text \<open>Headers of a valid grant. What the guest may pass and what the grant sets never
  name a credential, hop or framing header, in any spelling; the two sets are disjoint
  without regard to case, and a set value has no control byte.\<close>

theorem grant_headers_never_owned:
  assumes "Validate nl g = None" and "n \<in> set (g_PassHeaders g) \<or> n \<in> fst ` set (g_SetHeaders g)"
  shows "to_lower n \<notin> {''authorization'', ''content-type'', ''content-length'', ''host'', ''x-api-key'',
      ''transfer-encoding'', ''cookie''}"
proof -
  have "\<not> passHeaderRefused n"
    using Validate_headers [OF assms(1)] assms(2) by (auto simp: image_iff)
  then show ?thesis using passHeaderRefused_owned by blast
qed

theorem grant_headers_never_owned_witness:
  "Validate demo_net demo_grant = None \<and> to_lower ''x-tenant'' \<noteq> ''authorization''"
  using grant_headers_never_owned [OF demo_valid, of "''x-tenant''"] demo_valid
  by (simp add: demo_grant_def)

text \<open>Bounds a valid grant cannot exceed: one run makes between 1 and 100000 calls and
  sends at most 1 GiB, one body is at most 512 MiB, every capped route has a cap from 1 to
  the call ceiling and is an entry of the grant, and no scope is the run permission or the
  wildcard.\<close>

theorem grant_bounds:
  assumes "Validate nl g = None"
  shows "1 \<le> CallBudget (Some g) \<and> CallBudget (Some g) \<le> 100000 \<and>
    1 \<le> requestBudget (Some g) \<and> requestBudget (Some g) \<le> 2 ^ 30 \<and>
    1 \<le> requestLimit (Some g) r \<and> requestLimit (Some g) r \<le> 512 * 2 ^ 20 \<and>
    (\<forall>(c, n) \<in> set (g_RouteMaxCalls g). c \<in> set (g_Allow g) \<and> 1 \<le> n \<and> n \<le> 100000) \<and>
    ''code:run'' \<notin> set (g_Scopes g) \<and> ''*'' \<notin> set (g_Scopes g)"
  using Validate_budgets [OF assms] requestLimit_bounds [OF assms, of r] Validate_caps [OF assms]
    Validate_scopes(1,2) [OF assms]
  unfolding grant_limits by blast

theorem grant_bounds_witness:
  "CallBudget (Some demo_grant) \<le> 100000 \<and> requestLimit (Some demo_grant) demo_get \<le> 512 * 2 ^ 20"
  using grant_bounds [OF demo_valid, of demo_get] by blast

text \<open>The minted credential. A token that reaches the broker consists of visible ASCII
  bytes, had not expired when it was minted, and where the minter needs a subject the
  subject was a single concrete one.\<close>

theorem credential_is_safe:
  assumes "credential now subject (Some g) budget = Inr tok" and "g_Minter g = Some mn"
  shows "tok \<noteq> '''' \<and> list_all bearer_char tok \<and>
    (m_RequiresSubject mn = Some True \<longrightarrow> subject \<noteq> '''' \<and> subject \<noteq> ''*'' \<and> \<not> has_control subject) \<and>
    (\<exists>t. m_Mint mn \<lparr>ms_BaseURL = g_BaseURL g, ms_Allow = g_Allow g, ms_Scopes = g_Scopes g,
           ms_TTL = budget, ms_Subject = subject\<rparr> = Inr t \<and> mt_Value t = tok \<and>
         (\<forall>e. mt_ExpiresAt t = Some e \<longrightarrow> now < e))"
  using assms
  by (auto simp: credential_def RequiresSubject_def list_ex_iff list_all_iff
        split: option.splits if_splits sum.splits)

theorem credential_is_safe_witness:
  "credential 5 ''user-1'' (Some demo_grant) 60 = Inr ''tok-1'' \<and> list_all bearer_char ''tok-1''"
proof -
  have c: "credential 5 ''user-1'' (Some demo_grant) 60 = Inr ''tok-1''" by code_simp
  have "g_Minter demo_grant = Some (the (g_Minter demo_grant))" by (simp add: demo_grant_def)
  from credential_is_safe [OF c this] c show ?thesis by blast
qed

end
