(* ===== verification/Upload.thy ===== *)
theory Upload
  imports Go_Prelude
begin

text \<open>
  The request body of a passed-through upload, \<open>capReader\<close> of
  \<open>sandbox/broker.go\<close>. \<open>Read\<close> has two critical sections around the read of the
  guest's body, which may wait; \<open>Close\<close> may come between them. \<open>crd_waiting\<close> is the
  read in flight: the number of bytes it may hand over (the transport has one read in
  flight at a time). Byte counts are \<open>int64\<close> in the source and stay below the
  request limits, so they are unbounded integers here.
\<close>

datatype read_error = ReadEOF | ReadOverCap | ReadClosed | ReadNoProgress | ReadOther

record cap_reader =
  crd_remaining :: int
  crd_sent :: int
  crd_pastCap :: bool
  crd_closed :: bool
  crd_waiting :: "int option"

definition new_cap_reader :: "int \<Rightarrow> cap_reader" where
  "new_cap_reader n =
     \<lparr>crd_remaining = n, crd_sent = 0, crd_pastCap = False, crd_closed = False, crd_waiting = None\<rparr>"

text \<open>
  The first section of \<open>Read\<close> with a buffer of \<open>len\<close> bytes: \<open>Inl\<close> is the error
  it returns at once, \<open>Inr m\<close> the number of bytes the guest may give (\<open>0\<close> when
  the limit is reached and the reader looks one byte past it).
\<close>

definition read_begin :: "int \<Rightarrow> cap_reader \<Rightarrow> (read_error + int) \<times> cap_reader" where
  "read_begin len c =
     (if crd_closed c then (Inl ReadClosed, c)
      else
        let m = (if crd_remaining c \<le> 0 then 0 else min len (crd_remaining c))
        in (Inr m, c\<lparr>crd_waiting := Some m\<rparr>))"

text \<open>\<open>pastLimit\<close> over the guest's next answers to one-byte reads: the byte count and error of each.\<close>

fun past_limit :: "nat \<Rightarrow> (nat \<times> read_error option) list \<Rightarrow> read_error" where
  "past_limit 0 rs = ReadNoProgress"
| "past_limit (Suc k) [] = ReadNoProgress"
| "past_limit (Suc k) ((n, err) # rs) =
     (if n > 0 then ReadOverCap else case err of Some e \<Rightarrow> e | None \<Rightarrow> past_limit k rs)"

definition pastLimit :: "(nat \<times> read_error option) list \<Rightarrow> read_error" where
  "pastLimit rs = past_limit 8 rs"

text \<open>The second section, once the guest's read gave \<open>n\<close> bytes and an error.\<close>

definition read_end :: "int \<Rightarrow> read_error option \<Rightarrow> cap_reader \<Rightarrow> (int \<times> read_error option) \<times> cap_reader" where
  "read_end n err c =
     (if crd_closed c then ((0, Some ReadClosed), c\<lparr>crd_waiting := None\<rparr>)
      else
        let c = c\<lparr>crd_remaining := crd_remaining c - n, crd_sent := crd_sent c + n, crd_waiting := None\<rparr>;
            c = (if err = Some ReadOverCap then c\<lparr>crd_pastCap := True\<rparr> else c)
        in ((n, err), c))"

text \<open>\<open>Close\<close> returns the count it settles with, or nothing when it was closed before.\<close>

definition crd_Close :: "cap_reader \<Rightarrow> int option \<times> cap_reader" where
  "crd_Close c = (if \<not> crd_closed c then (Some (crd_sent c), c\<lparr>crd_closed := True\<rparr>) else (None, c))"

definition progress :: "cap_reader \<Rightarrow> int" where
  "progress c = crd_sent c"

definition over :: "cap_reader \<Rightarrow> bool" where
  "over c = crd_pastCap c"

lemmas upload_defs = new_cap_reader_def read_begin_def read_end_def crd_Close_def progress_def over_def

subsection \<open>Interleavings\<close>

text \<open>
  The reader with a log: the bytes handed to the transport and the settlements made.
  \<open>n\<close> of a finished read is at most what \<open>read_begin\<close> allowed, the contract of
  \<open>io.Reader\<close>; \<open>pastLimit\<close> hands over nothing.
\<close>

record upload_log =
  ul_reader :: cap_reader
  ul_delivered :: int
  ul_settled :: "int list"

inductive upload_step :: "upload_log \<Rightarrow> upload_log \<Rightarrow> bool" where
  begin_read: "crd_waiting (ul_reader u) = None \<Longrightarrow> 0 \<le> len \<Longrightarrow>
     upload_step u (u\<lparr>ul_reader := snd (read_begin len (ul_reader u))\<rparr>)"
| end_read: "crd_waiting (ul_reader u) = Some m \<Longrightarrow> 0 \<le> n \<Longrightarrow> n \<le> m \<Longrightarrow>
     read_end n err (ul_reader u) = ((n', err'), c') \<Longrightarrow>
     upload_step u (u\<lparr>ul_reader := c', ul_delivered := ul_delivered u + n'\<rparr>)"
| close: "crd_Close (ul_reader u) = (settled, c') \<Longrightarrow>
     upload_step u (u\<lparr>ul_reader := c',
       ul_settled := ul_settled u @ (case settled of None \<Rightarrow> [] | Some k \<Rightarrow> [k])\<rparr>)"

definition upload_init :: "int \<Rightarrow> upload_log \<Rightarrow> bool" where
  "upload_init n u \<longleftrightarrow> 0 \<le> n \<and> u = \<lparr>ul_reader = new_cap_reader n, ul_delivered = 0, ul_settled = []\<rparr>"

definition upload_inv :: "int \<Rightarrow> upload_log \<Rightarrow> bool" where
  "upload_inv n u \<longleftrightarrow>
     (let c = ul_reader u
      in crd_sent c + crd_remaining c = n \<and> 0 \<le> crd_sent c \<and> 0 \<le> crd_remaining c \<and>
         (case crd_waiting c of None \<Rightarrow> True | Some m \<Rightarrow> m \<le> crd_remaining c) \<and>
         ul_delivered u = crd_sent c \<and>
         ul_settled u = (if crd_closed c then [crd_sent c] else []))"

interpretation upload: inductive_invariant "upload_init n" upload_step "upload_inv n" for n
proof
  show "upload_init n s \<Longrightarrow> upload_inv n s" for s
    by (auto simp: upload_init_def upload_inv_def new_cap_reader_def)
  show "upload_step s t \<Longrightarrow> upload_inv n s \<Longrightarrow> upload_inv n t" for s t
    by (induction rule: upload_step.induct)
       (auto simp: upload_inv_def read_begin_def read_end_def crd_Close_def Let_def
          split: if_splits option.splits)
qed

lemma closed_upload_frozen:
  "upload_step\<^sup>*\<^sup>* u v \<Longrightarrow> crd_closed (ul_reader u) \<Longrightarrow>
     crd_closed (ul_reader v) \<and> ul_delivered v = ul_delivered u \<and> ul_settled v = ul_settled u"
proof (induction rule: rtranclp_induct)
  case (step v w)
  from step(2) step.IH [OF step(4)] show ?case
    by (induction rule: upload_step.induct)
       (auto simp: read_begin_def read_end_def crd_Close_def split: if_splits)
qed simp

subsection \<open>Properties\<close>

text \<open>C7: A passed-through upload hands the transport exactly the bytes it is charged for. In
  every interleaving of reads and closes, the bytes delivered are those counted and at
  most the bytes held; a closed reader was settled once, with exactly the bytes
  delivered, and a read that was waiting when it closed delivers nothing, so the
  settlement stays exact for good.\<close>

theorem upload_settles_exactly:
  assumes "reach (upload_init n) upload_step u"
  shows "0 \<le> ul_delivered u \<and> ul_delivered u \<le> n \<and>
    ul_settled u = (if crd_closed (ul_reader u) then [ul_delivered u] else []) \<and>
    (crd_closed (ul_reader u) \<longrightarrow>
      (\<forall>v. upload_step\<^sup>*\<^sup>* u v \<longrightarrow> ul_delivered v = ul_delivered u \<and> ul_settled v = ul_settled u))"
  using upload.reach_inv [OF assms] closed_upload_frozen [of u]
  by (auto simp: upload_inv_def Let_def)

definition demo_upload :: upload_log where
  "demo_upload = \<lparr>ul_reader = \<lparr>crd_remaining = 2, crd_sent = 3, crd_pastCap = False, crd_closed = True,
     crd_waiting = None\<rparr>, ul_delivered = 3, ul_settled = [3]\<rparr>"

theorem upload_settles_exactly_witness:
  "reach (upload_init 5) upload_step demo_upload \<and> ul_settled demo_upload = [ul_delivered demo_upload]"
proof -
  let ?u0 = "\<lparr>ul_reader = new_cap_reader 5, ul_delivered = 0, ul_settled = []\<rparr>"
  let ?u1 = "?u0\<lparr>ul_reader := snd (read_begin 3 (new_cap_reader 5))\<rparr>"
  let ?u2 = "?u1\<lparr>ul_reader := (new_cap_reader 5)\<lparr>crd_remaining := 2, crd_sent := 3\<rparr>, ul_delivered := 3\<rparr>"
  have 0: "reach (upload_init 5) upload_step ?u0"
    by (rule reach_init) (simp add: upload_init_def)
  have 1: "upload_step ?u0 ?u1"
    using begin_read [of ?u0 3] by (simp add: new_cap_reader_def)
  have 2: "upload_step ?u1 ?u2"
    using end_read [of ?u1 3 3 None 3 None "(new_cap_reader 5)\<lparr>crd_remaining := 2, crd_sent := 3\<rparr>"]
    by (simp add: upload_defs Let_def)
  have 3: "upload_step ?u2 demo_upload"
    using upload_step.close [of ?u2 "Some 3" "(new_cap_reader 5)\<lparr>crd_remaining := 2, crd_sent := 3, crd_closed := True\<rparr>"]
    by (simp add: demo_upload_def upload_defs)
  have r: "reach (upload_init 5) upload_step demo_upload"
    by (rule reach_step [OF reach_step [OF reach_step [OF 0 1] 2] 3])
  with upload_settles_exactly [OF r] show ?thesis by (simp add: demo_upload_def)
qed

end
