(* ===== verification/Call_Trace.thy ===== *)
theory Call_Trace
  imports Grant
begin

text \<open>
  The metadata-only record of a run's brokered calls, \<open>sandbox/calltrace.go\<close>. Every
  operation runs under the trace's mutex, so each is one state change.
\<close>

record call_row =
  row_Seq :: nat
  row_Method :: string
  row_Route :: string
  row_Status :: int
  row_Delivered :: bool
  row_ReqBytes :: int
  row_RespBytes :: int
  row_Latency :: duration

record call_trace =
  tr_rows :: "call_row list"
  tr_dropped :: nat
  tr_denied :: nat
  tr_shed :: nat

definition maxTraceRows :: nat where
  "maxTraceRows = nat DefaultMaxHostCalls"

definition newCallTrace :: call_trace where
  "newCallTrace = \<lparr>tr_rows = [], tr_dropped = 0, tr_denied = 0, tr_shed = 0\<rparr>"

definition tr_record :: "call_row \<Rightarrow> call_trace \<Rightarrow> call_trace" where
  "tr_record row t =
     (if length (tr_rows t) \<ge> maxTraceRows then t\<lparr>tr_dropped := tr_dropped t + 1\<rparr>
      else t\<lparr>tr_rows := tr_rows t @ [row\<lparr>row_Seq := length (tr_rows t) + 1\<rparr>]\<rparr>)"

definition recordDenied :: "call_trace \<Rightarrow> call_trace" where
  "recordDenied t = t\<lparr>tr_denied := tr_denied t + 1\<rparr>"

definition recordShed :: "call_trace \<Rightarrow> call_trace" where
  "recordShed t = t\<lparr>tr_shed := tr_shed t + 1\<rparr>"

text \<open>A nil \<open>*callTrace\<close> is \<open>None\<close>; so is the nil snapshot of a run that brokered nothing.\<close>

definition snapshot :: "call_trace option \<Rightarrow> call_trace option" where
  "snapshot t =
     (case t of None \<Rightarrow> None
      | Some t \<Rightarrow>
          if length (tr_rows t) = 0 \<and> tr_dropped t = 0 \<and> tr_denied t = 0 \<and> tr_shed t = 0
            then None else Some t)"

definition trace_Len :: "call_trace option \<Rightarrow> nat" where
  "trace_Len t = (case t of None \<Rightarrow> 0 | Some t \<Rightarrow> length (tr_rows t))"

lemmas trace_defs = tr_record_def recordDenied_def recordShed_def newCallTrace_def

text \<open>What the trace has counted: calls that went upstream, and calls of every kind.\<close>

definition tr_upstream :: "call_trace \<Rightarrow> nat" where
  "tr_upstream t = length (tr_rows t) + tr_dropped t"

definition tr_seen :: "call_trace \<Rightarrow> nat" where
  "tr_seen t = tr_upstream t + tr_denied t + tr_shed t"

lemma tr_upstream_simps [simp]:
  "tr_upstream (tr_record row t) = tr_upstream t + 1" "tr_upstream (recordDenied t) = tr_upstream t"
  "tr_upstream (recordShed t) = tr_upstream t" "tr_upstream newCallTrace = 0"
  by (auto simp: tr_upstream_def trace_defs)

lemma tr_seen_simps [simp]:
  "tr_seen (tr_record row t) = tr_seen t + 1" "tr_seen (recordDenied t) = tr_seen t + 1"
  "tr_seen (recordShed t) = tr_seen t + 1" "tr_seen newCallTrace = 0"
  by (simp_all add: tr_seen_def) (auto simp: trace_defs)

subsection \<open>A run of recordings\<close>

datatype trace_event = EvRow call_row | EvDenied | EvShed

fun tr_event :: "trace_event \<Rightarrow> call_trace \<Rightarrow> call_trace" where
  "tr_event (EvRow row) t = tr_record row t"
| "tr_event EvDenied t = recordDenied t"
| "tr_event EvShed t = recordShed t"

definition is_row :: "trace_event \<Rightarrow> bool" where
  "is_row e \<longleftrightarrow> (case e of EvRow _ \<Rightarrow> True | _ \<Rightarrow> False)"

fun ev_row :: "trace_event \<Rightarrow> call_row" where
  "ev_row (EvRow row) = row"
| "ev_row _ = \<lparr>row_Seq = 0, row_Method = '''', row_Route = '''', row_Status = 0, row_Delivered = False,
     row_ReqBytes = 0, row_RespBytes = 0, row_Latency = 0\<rparr>"

fun number_rows :: "nat \<Rightarrow> call_row list \<Rightarrow> call_row list" where
  "number_rows n [] = []"
| "number_rows n (r # rs) = r\<lparr>row_Seq := n + 1\<rparr> # number_rows (n + 1) rs"

lemma number_rows_snoc:
  "number_rows n (rows @ [r]) = number_rows n rows @ [r\<lparr>row_Seq := n + length rows + 1\<rparr>]"
  by (induction rows arbitrary: n) auto

lemma length_number_rows [simp]: "length (number_rows n rows) = length rows"
  by (induction rows arbitrary: n) auto

lemma trace_run:
  defines "rows \<equiv> \<lambda>es. map ev_row (filter is_row es)"
  shows "fold tr_event es newCallTrace =
    \<lparr>tr_rows = number_rows 0 (take maxTraceRows (rows es)),
     tr_dropped = length (rows es) - maxTraceRows,
     tr_denied = length (filter (\<lambda>e. e = EvDenied) es),
     tr_shed = length (filter (\<lambda>e. e = EvShed) es)\<rparr>"
proof (induction es rule: rev_induct)
  case Nil
  show ?case by (simp add: newCallTrace_def rows_def)
next
  case (snoc e es)
  show ?case
  proof (cases e)
    case (EvRow row)
    have r: "rows (es @ [e]) = rows es @ [row]" by (simp add: rows_def EvRow is_row_def)
    show ?thesis
    proof (cases "length (rows es) < maxTraceRows")
      case True
      then have "take maxTraceRows (rows es) = rows es"
        "take maxTraceRows (rows es @ [row]) = rows es @ [row]" by simp_all
      with True snoc EvRow r show ?thesis by (simp add: tr_record_def number_rows_snoc)
    next
      case False
      with snoc EvRow r show ?thesis by (simp add: tr_record_def Suc_diff_le)
    qed
  qed (use snoc in \<open>simp_all add: rows_def is_row_def recordDenied_def recordShed_def\<close>)
qed

subsection \<open>Properties\<close>

text \<open>The trace is bounded, ordered evidence. After any run of recordings it holds the first
  256 rows in order, numbered from 1, counts every further row as dropped and every
  denial and shed, and the snapshot is nil exactly when nothing was recorded.\<close>

theorem trace_is_bounded_prefix:
  "tr_rows (fold tr_event es newCallTrace) =
     number_rows 0 (take 256 (map ev_row (filter is_row es))) \<and>
   tr_seen (fold tr_event es newCallTrace) = length es \<and>
   length (tr_rows (fold tr_event es newCallTrace)) \<le> 256 \<and>
   (snapshot (Some (fold tr_event es newCallTrace)) = None \<longleftrightarrow> es = [])"
proof -
  let ?t = "fold tr_event es newCallTrace"
  have rows: "tr_rows ?t = number_rows 0 (take 256 (map ev_row (filter is_row es)))"
    by (simp add: trace_run maxTraceRows_def DefaultMaxHostCalls_def)
  have ev: "tr_seen (tr_event e t) = tr_seen t + 1" for e t by (cases e) auto
  have "tr_seen (fold tr_event es t) = tr_seen t + length es" for t
    by (induction es arbitrary: t) (simp_all add: ev)
  then have seen: "tr_seen ?t = length es" by simp
  moreover have "snapshot (Some ?t) = None \<longleftrightarrow> tr_seen ?t = 0"
    by (auto simp: snapshot_def tr_seen_def tr_upstream_def)
  ultimately show ?thesis using rows by simp
qed

end
