(* ===== verification/Broker_Wire.thy ===== *)
theory Broker_Wire
  imports Grant_Valid Upload Call_Trace
begin

text \<open>
  The parts of \<open>sandbox/broker.go\<close> that change no shared state: what a guest call and
  an upstream answer are, the body limits, the headers of the upstream request, and the
  loop that passes a streamed answer on.
\<close>

subsection \<open>Calls and answers\<close>

text \<open>
  A guest body: the bytes it gives, and whether reading it fails after them. A nil
  \<open>io.Reader\<close> is \<open>None\<close>. \<open>bc_Stream\<close> says whether the adapter takes a stream.
\<close>

record guest_body =
  gb_data :: string
  gb_fails :: bool

record broker_call =
  bc_Method :: string
  bc_RawTarget :: string
  bc_Headers :: "(string, string list) gomap"
  bc_Body :: "guest_body option"
  bc_ContentLength :: int
  bc_Stream :: bool

record broker_response =
  bp_Status :: int
  bp_ContentType :: string
  bp_Body :: string
  bp_FromBroker :: bool
  bp_Streamed :: bool

definition brokerError :: "int \<Rightarrow> string \<Rightarrow> broker_response" where
  "brokerError status msg =
     \<lparr>bp_Status = status, bp_ContentType = ''text/plain; charset=utf-8'',
      bp_Body = msg @ [char_of (10::nat)], bp_FromBroker = True, bp_Streamed = False\<rparr>"

text \<open>An answer of \<open>RoundTrip\<close>; an error or a nil body is \<open>None\<close>. The header fields are
  the first values the code asks for.\<close>

record http_response =
  rs_StatusCode :: int
  rs_ContentType :: string
  rs_RetryAfter :: string
  rs_ContentLength :: int
  rs_Body :: guest_body

text \<open>\<open>io.ReadAll(io.LimitReader(r, n))\<close>: \<open>None\<close> where the reader fails before the limit.\<close>

definition read_all_limited :: "nat \<Rightarrow> guest_body \<Rightarrow> string option" where
  "read_all_limited n r =
     (if gb_fails r \<and> length (gb_data r) < n then None else Some (take n (gb_data r)))"

definition readBrokerBody :: "guest_body option \<Rightarrow> int \<Rightarrow> string option" where
  "readBrokerBody r limit =
     (case r of
        None \<Rightarrow> Some ''''
      | Some r \<Rightarrow>
          (case read_all_limited (nat (limit + 1)) r of
             None \<Rightarrow> None
           | Some body \<Rightarrow> if int (length body) > limit then None else Some body))"

definition headerFirst :: "(string, string list) gomap \<Rightarrow> string \<Rightarrow> string" where
  "headerFirst h name =
     (case find (\<lambda>(k, vals). equal_fold k name \<and> length vals > 0) h of
        None \<Rightarrow> '''' | Some (k, vals) \<Rightarrow> vals ! 0)"

definition isEventStream :: "mime_lib \<Rightarrow> string \<Rightarrow> bool" where
  "isEventStream ml contentType =
     (case ParseMediaType ml contentType of
        None \<Rightarrow> False | Some (mediaType, params) \<Rightarrow> mediaType = ''text/event-stream'')"

definition matchRawTarget :: "grant \<Rightarrow> string \<Rightarrow> string \<Rightarrow> host_route option" where
  "matchRawTarget g method rawTarget =
     (if rawTarget = '''' \<or> contains_any rawTarget ''%?#'' then None
      else if escaped_path rawTarget \<noteq> rawTarget then None
      else matchRoute g method rawTarget)"

lemma readBrokerBody_length:
  "readBrokerBody r limit = Some body \<Longrightarrow> 0 \<le> limit \<Longrightarrow> int (length body) \<le> limit"
  by (auto simp: readBrokerBody_def split: option.splits if_splits)

lemma matchRawTarget_SomeD: "matchRawTarget g m p = Some r \<Longrightarrow> matchRoute g m p = Some r"
  by (auto simp: matchRawTarget_def split: if_splits)

subsection \<open>The headers of the upstream request\<close>

text \<open>
  \<open>http.Header.Set\<close> stores a value under the canonical form of the name: a letter
  after the start or a hyphen in upper case and every other in lower case, where all
  bytes are token bytes, and the name as it is otherwise.
\<close>

fun canon_from :: "bool \<Rightarrow> string \<Rightarrow> string" where
  "canon_from up [] = []"
| "canon_from up (c # cs) =
     (if up then upper_char c else lower_char c) # canon_from (c = CHR ''-'') cs"

definition CanonicalHeaderKey :: "string \<Rightarrow> string" where
  "CanonicalHeaderKey name = (if list_all field_name_char name then canon_from True name else name)"

definition header_set :: "string \<Rightarrow> string \<Rightarrow> (string, string) gomap \<Rightarrow> (string, string) gomap" where
  "header_set name v h = AList.update (CanonicalHeaderKey name) v h"

definition set_all :: "(string, string) gomap \<Rightarrow> (string, string) gomap \<Rightarrow> (string, string) gomap" where
  "set_all kvs h = fold (\<lambda>(k, v) h. header_set k v h) kvs h"

definition request_headers :: "grant \<Rightarrow> string \<Rightarrow> broker_call \<Rightarrow> bool \<Rightarrow> string \<Rightarrow> (string, string) gomap" where
  "request_headers g token q hasBody contentType =
     (let h = header_set ''Accept'' ''application/json'' [];
          h = set_all (passedHeaders (Some g) (bc_Headers q)) h;
          h = set_all (g_SetHeaders g) h;
          h = (if hasBody then header_set ''Content-Type'' contentType h else h);
          h = (if token \<noteq> '''' then header_set ''Authorization'' (''Bearer '' @ token) h else h)
      in h)"

lemma byte_upper_char: "byte (upper_char c) = (if is_lower c then byte c - 32 else byte c)"
  by (auto simp: upper_char_def is_lower_def)

lemma lower_upper_char: "lower_char (upper_char c) = lower_char c"
proof (cases "is_lower c")
  case True
  then have "byte (lower_char (upper_char c)) = byte c" "byte (lower_char c) = byte c"
    by (auto simp: byte_lower_char byte_upper_char char_class_defs)
  then show ?thesis by (metis char_of_char)
qed (simp add: upper_char_def)

lemma canon_from_lower: "to_lower (canon_from up s) = to_lower s"
  by (induction up s rule: canon_from.induct) (auto simp: to_lower_def lower_upper_char)

lemma CanonicalHeaderKey_lower [simp]: "to_lower (CanonicalHeaderKey s) = to_lower s"
  by (simp add: CanonicalHeaderKey_def canon_from_lower)

lemma canonical_fixed [simp]:
  "CanonicalHeaderKey ''Accept'' = ''Accept''" "CanonicalHeaderKey ''Content-Type'' = ''Content-Type''"
  "CanonicalHeaderKey ''Authorization'' = ''Authorization''"
  by code_simp+

text \<open>Setting names that differ from \<open>k\<close> without regard to case leaves the value of \<open>k\<close>.\<close>

lemma set_all_other:
  assumes "\<forall>n \<in> fst ` set kvs. to_lower n \<noteq> to_lower k"
  shows "map_of (set_all kvs h) k = map_of h k"
  using assms
proof (induction kvs arbitrary: h)
  case (Cons e kvs)
  obtain n v where e: "e = (n, v)" by force
  have "CanonicalHeaderKey n \<noteq> k"
    using Cons.prems e CanonicalHeaderKey_lower [of n] by auto
  moreover have "map_of (set_all kvs (header_set n v h)) k = map_of (header_set n v h) k"
    using Cons by simp
  ultimately show ?case by (simp add: e set_all_def header_set_def update_conv')
qed (simp add: set_all_def)

lemma passedHeaders_names:
  "fst ` set (passedHeaders (Some g) guest) \<subseteq> set (g_PassHeaders g)"
proof -
  let ?f = "\<lambda>name out. case passed_value guest name of None \<Rightarrow> out | Some v \<Rightarrow> AList.update name v out"
  have one: "fst ` set (?f n out) \<subseteq> insert n (fst ` set out)" for n and out :: "(string, string) gomap"
    by (cases "passed_value guest n") (auto simp: dom_update [unfolded set_map] simp del: set_map)
  have "fst ` set (fold ?f ns out) \<subseteq> set ns \<union> fst ` set out" for ns and out :: "(string, string) gomap"
  proof (induction ns arbitrary: out)
    case (Cons n ns)
    from Cons [of "?f n out"] one [where n = n and out = out] show ?case by auto
  qed simp
  from this [of "g_PassHeaders g" "[]"] show ?thesis by (auto simp: passedHeaders_def)
qed

lemma request_headers_owned:
  assumes v: "Validate nl g = None"
  shows "map_of (request_headers g token q hasBody ct) ''Authorization'' =
           (if token \<noteq> '''' then Some (''Bearer '' @ token) else None)"
    and "map_of (request_headers g token q hasBody ct) ''Content-Type'' =
           (if hasBody then Some ct else None)"
proof -
  have names: "to_lower n \<noteq> to_lower k"
    if "n \<in> set (g_PassHeaders g) \<union> fst ` set (g_SetHeaders g)" "k \<in> {''Authorization'', ''Content-Type''}" for n k
  proof -
    have "\<not> passHeaderRefused n" using that(1) Validate_headers [OF v] by auto
    moreover have "to_lower ''Authorization'' = ''authorization''" "to_lower ''Content-Type'' = ''content-type''"
      by code_simp+
    ultimately show ?thesis using passHeaderRefused_owned [of n] that(2) by auto
  qed
  have none: "map_of (set_all (g_SetHeaders g) (set_all (passedHeaders (Some g) (bc_Headers q))
      (header_set ''Accept'' ''application/json'' []))) k = None"
    if "k \<in> {''Authorization'', ''Content-Type''}" for k
  proof -
    have "\<forall>n \<in> fst ` set (g_SetHeaders g). to_lower n \<noteq> to_lower k"
      "\<forall>n \<in> fst ` set (passedHeaders (Some g) (bc_Headers q)). to_lower n \<noteq> to_lower k"
      using names [OF _ that] passedHeaders_names [of g "bc_Headers q"] by blast+
    with that show ?thesis by (auto simp: set_all_other header_set_def)
  qed
  show "map_of (request_headers g token q hasBody ct) ''Authorization'' =
           (if token \<noteq> '''' then Some (''Bearer '' @ token) else None)"
    "map_of (request_headers g token q hasBody ct) ''Content-Type'' = (if hasBody then Some ct else None)"
    using none by (auto simp: request_headers_def Let_def header_set_def update_conv')
qed

subsection \<open>Streams\<close>

text \<open>One turn of the stream loop: the bytes the upstream gave, how its read ended, and
  whether the write to the guest failed.\<close>

datatype piece_end = PieceMore | PieceEOF | PieceFailed

record piece =
  pc_data :: string
  pc_end :: piece_end
  pc_writeFails :: bool

text \<open>
  The loop of \<open>stream\<close>: the bytes written and whether the upstream ended the stream.
  A list that runs out stands for an upstream that stopped answering, which the idle
  timer or the run's deadline turns into a failed read.
\<close>

fun stream_loop :: "piece list \<Rightarrow> int \<Rightarrow> string \<Rightarrow> int \<times> bool \<times> string" where
  "stream_loop [] written out = (written, False, out)"
| "stream_loop (p # ps) written out =
     (let got = int (length (pc_data p));
          n = (if written + got > maxHostResponseBytes then maxHostResponseBytes - written else got)
      in if n > 0 \<and> pc_writeFails p then (written, False, out)
         else
           let out = (if n > 0 then out @ take (nat n) (pc_data p) else out);
               written = (if n > 0 then written + n else written)
           in if got > 0 \<and> written \<ge> maxHostResponseBytes then (written, False, out)
              else
                (case pc_end p of
                   PieceEOF \<Rightarrow> (written, True, out)
                 | PieceFailed \<Rightarrow> (written, False, out)
                 | PieceMore \<Rightarrow> stream_loop ps written out))"

definition answer_type :: "string \<Rightarrow> string" where
  "answer_type t =
     (if t = '''' \<or> list_ex (\<lambda>c. byte c < 32 \<or> byte c = 127) t then ''application/octet-stream'' else t)"

text \<open>
  What the guest got of a stream: a prefix of the upstream's bytes, within the cap; and
  all of them when the stream counts as delivered.
\<close>

lemma stream_loop_prefix:
  assumes "stream_loop ps written out = (w, d, out')" and "int (length out) = written"
    and "written \<le> maxHostResponseBytes"
  shows "(\<exists>k. out' = out @ take k (concat (map pc_data ps))) \<and> int (length out') = w \<and>
    w \<le> maxHostResponseBytes \<and> (d \<longrightarrow> (\<exists>n. out' = out @ concat (map pc_data (take n ps))))"
  using assms
proof (induction ps written out rule: stream_loop.induct)
  case (1 written out)
  then show ?case by (auto intro: exI [of _ 0])
next
  case (2 p ps written out)
  define got where "got = int (length (pc_data p))"
  define n where "n = (if written + got > maxHostResponseBytes then maxHostResponseBytes - written else got)"
  define o1 where "o1 = (if n > 0 then out @ take (nat n) (pc_data p) else out)"
  define w1 where "w1 = (if n > 0 then written + n else written)"
  have pos: "0 \<le> n" "nat n \<le> length (pc_data p)" using 2(4) by (auto simp: n_def got_def)
  have w: "int (length o1) = w1" "w1 \<le> maxHostResponseBytes"
    using 2(3,4) pos by (auto simp: o1_def w1_def n_def got_def)
  have out: "o1 = out @ take (nat n) (pc_data p)" using pos by (simp add: o1_def)
  have first: "\<exists>k. o1 = out @ take k (concat (map pc_data (p # ps)))"
    using out pos(2) by (intro exI [of _ "nat n"]) simp
  have all: "take (nat n) (pc_data p) = pc_data p" if "\<not> (got > 0 \<and> w1 \<ge> maxHostResponseBytes)"
    using that 2(4) by (auto simp: w1_def n_def got_def split: if_splits)
  have eq: "stream_loop (p # ps) written out =
     (if n > 0 \<and> pc_writeFails p then (written, False, out)
      else if got > 0 \<and> w1 \<ge> maxHostResponseBytes then (w1, False, o1)
      else (case pc_end p of PieceEOF \<Rightarrow> (w1, True, o1) | PieceFailed \<Rightarrow> (w1, False, o1)
            | PieceMore \<Rightarrow> stream_loop ps w1 o1))"
    unfolding o1_def w1_def n_def got_def stream_loop.simps Let_def by (rule refl)
  consider (fails) "(w, d, out') = (written, False, out)"
    | (stop) "(w, d, out') = (w1, False, o1)"
    | (eof) "(w, d, out') = (w1, True, o1)" "\<not> (got > 0 \<and> w1 \<ge> maxHostResponseBytes)"
    | (more) "stream_loop ps w1 o1 = (w, d, out')" "\<not> (n > 0 \<and> pc_writeFails p)"
        "\<not> (got > 0 \<and> w1 \<ge> maxHostResponseBytes)" "pc_end p = PieceMore"
  proof -
    have "(w, d, out') = (written, False, out) \<or> (w, d, out') = (w1, False, o1) \<or>
      (w, d, out') = (w1, True, o1) \<and> \<not> (got > 0 \<and> w1 \<ge> maxHostResponseBytes) \<or>
      stream_loop ps w1 o1 = (w, d, out') \<and> \<not> (n > 0 \<and> pc_writeFails p) \<and>
        \<not> (got > 0 \<and> w1 \<ge> maxHostResponseBytes) \<and> pc_end p = PieceMore"
      using 2(2) unfolding eq
      by (cases "n > 0 \<and> pc_writeFails p"; cases "got > 0 \<and> w1 \<ge> maxHostResponseBytes"; cases "pc_end p")
         simp_all
    with that show ?thesis by blast
  qed
  then show ?case
  proof cases
    case fails
    with 2(3,4) show ?thesis by (auto intro: exI [of _ 0])
  next
    case stop
    with w first show ?thesis by auto
  next
    case eof
    with w first out all show ?thesis by (auto intro!: exI [of _ "Suc 0"])
  next
    case more
    from "2.IH" [OF got_def n_def more(2) o1_def w1_def more(3,4,1) w]
    obtain k m where k: "out' = o1 @ take k (concat (map pc_data ps))" "int (length out') = w"
      "w \<le> maxHostResponseBytes" "d \<longrightarrow> out' = o1 @ concat (map pc_data (take m ps))" by blast
    have "out' = out @ take (length (pc_data p) + k) (concat (map pc_data (p # ps)))"
      using k(1) out all [OF more(3)] by simp
    moreover have "d \<longrightarrow> out' = out @ concat (map pc_data (take (Suc m) (p # ps)))"
      using k(4) out all [OF more(3)] by simp
    ultimately show ?thesis using k(2,3) by blast
  qed
qed

end
