(* ===== verification/Route_Budget.thy ===== *)
theory Route_Budget
  imports Grant_Valid
begin

text \<open>
  The per-route call budget of \<open>sandbox/route_budget.go\<close>: counts keyed by the
  canonical origin and the route without regard to case, charged all or nothing.
\<close>

subsection \<open>Keys\<close>

record route_key =
  rk_origin :: string
  rk_method :: string
  rk_path :: string

record route_budget =
  rb_calls :: "(route_key, int) gomap"

definition NewRouteBudget :: route_budget where
  "NewRouteBudget = \<lparr>rb_calls = []\<rparr>"

text \<open>\<open>strconv.ParseUint(s, 10, 16)\<close> and \<open>strconv.FormatUint(n, 10)\<close>.\<close>

definition dec_value :: "string \<Rightarrow> nat" where
  "dec_value s = fold (\<lambda>c v. 10 * v + (byte c - 48)) s 0"

definition parse_uint16 :: "string \<Rightarrow> nat option" where
  "parse_uint16 s =
     (if s = '''' \<or> \<not> list_all is_digit s \<or> dec_value s \<ge> 65536 then None else Some (dec_value s))"

fun format_uint :: "nat \<Rightarrow> string" where
  "format_uint n =
     (if n < 10 then [char_of (48 + n)] else format_uint (n div 10) @ [char_of (48 + n mod 10)])"

declare format_uint.simps [simp del]

definition trim_dot :: "string \<Rightarrow> string" where
  "trim_dot s = (if has_suffix s ''.'' then butlast s else s)"

definition canonicalOrigin :: "net_lib \<Rightarrow> string \<Rightarrow> string" where
  "canonicalOrigin nl origin =
     (let lower = to_lower origin
      in case url_Parse nl lower of
           None \<Rightarrow> lower
         | Some u \<Rightarrow>
             if u_Host u = '''' then lower
             else
               let host = trim_dot (u_Hostname u);
                   host = (case addr_String nl host of Some a \<Rightarrow> a | None \<Rightarrow> host);
                   finish = (\<lambda>port.
                     let host = (if contains_char host CHR '':'' then ''['' @ host @ '']'' else host);
                         host = (if port \<noteq> '''' then host @ '':'' @ port else host)
                     in u_Scheme u @ ''://'' @ host)
               in if u_Port u \<noteq> '''' then
                    (case parse_uint16 (u_Port u) of
                       None \<Rightarrow> lower
                     | Some n \<Rightarrow>
                         finish (if (u_Scheme u = ''https'' \<and> n = 443) \<or> (u_Scheme u = ''http'' \<and> n = 80)
                                 then '''' else format_uint n))
                  else finish '''')"

definition route_key_of :: "net_lib \<Rightarrow> string \<Rightarrow> host_route \<Rightarrow> route_key" where
  "route_key_of nl origin r =
     \<lparr>rk_origin = canonicalOrigin nl origin, rk_method = to_upper (hr_Method r),
      rk_path = to_lower (hr_Path r)\<rparr>"

subsection \<open>Charging\<close>

fun limit_map :: "net_lib \<Rightarrow> string \<Rightarrow> (host_route, int) gomap \<Rightarrow> host_route list \<Rightarrow>
    (route_key, int) gomap \<Rightarrow> (route_key, int) gomap" where
  "limit_map nl origin limits [] limit = limit"
| "limit_map nl origin limits (r # rs) limit =
     (let k = route_key_of nl origin r
      in limit_map nl origin limits rs
           (case map_of limit k of
              None \<Rightarrow> AList.update k (lookup0 limits r) limit
            | Some l \<Rightarrow> if lookup0 limits r < l then AList.update k (lookup0 limits r) limit else limit))"

definition charge :: "net_lib \<Rightarrow> string \<Rightarrow> host_route list \<Rightarrow> (host_route, int) gomap \<Rightarrow>
    route_budget \<Rightarrow> bool \<times> route_budget" where
  "charge nl origin capped limits b =
     (if length capped = 0 then (True, b)
      else
        let limit = limit_map nl origin limits capped []
        in if list_ex (\<lambda>(k, l). lookup0 (rb_calls b) k \<ge> l) limit then (False, b)
           else (True, b\<lparr>rb_calls :=
                   fold (\<lambda>(k, l) m. AList.update k (lookup0 m k + 1) m) limit (rb_calls b)\<rparr>))"

subsection \<open>What a charge does\<close>

lemma limit_map_ok: "gomap_ok limit \<Longrightarrow> gomap_ok (limit_map nl origin limits rs limit)"
  by (induction nl origin limits rs limit rule: limit_map.induct)
     (auto simp: Let_def split: option.splits)

lemma limit_map_le:
  assumes "map_of limit k = Some l"
  shows "\<exists>l'. map_of (limit_map nl origin limits rs limit) k = Some l' \<and> l' \<le> l"
  using assms
proof (induction nl origin limits rs limit arbitrary: l rule: limit_map.induct)
  case (2 nl origin limits r rs limit)
  let ?k = "route_key_of nl origin r"
  let ?limit' = "case map_of limit ?k of None \<Rightarrow> AList.update ?k (lookup0 limits r) limit
            | Some l \<Rightarrow> if lookup0 limits r < l then AList.update ?k (lookup0 limits r) limit else limit"
  have "\<exists>l1. map_of ?limit' k = Some l1 \<and> l1 \<le> l"
    using 2(2) by (cases "map_of limit ?k"; cases "k = ?k") (auto simp: update_conv')
  then obtain l1 where l1: "map_of ?limit' k = Some l1" "l1 \<le> l" by blast
  from "2.IH" [OF refl l1(1)] obtain l2 where
    "map_of (limit_map nl origin limits rs ?limit') k = Some l2" "l2 \<le> l1" by blast
  with l1(2) show ?case by (auto simp: Let_def)
qed auto

lemma limit_map_covers:
  assumes "r \<in> set rs"
  shows "\<exists>l. map_of (limit_map nl origin limits rs limit) (route_key_of nl origin r) = Some l
     \<and> l \<le> lookup0 limits r"
  using assms
proof (induction nl origin limits rs limit rule: limit_map.induct)
  case (2 nl origin limits q rs limit)
  let ?k = "route_key_of nl origin q"
  let ?limit' = "case map_of limit ?k of None \<Rightarrow> AList.update ?k (lookup0 limits q) limit
            | Some l \<Rightarrow> if lookup0 limits q < l then AList.update ?k (lookup0 limits q) limit else limit"
  show ?case
  proof (cases "r \<in> set rs")
    case True
    from "2.IH" [OF refl True] show ?thesis by (simp add: Let_def)
  next
    case False
    with 2(2) have "r = q" by simp
    moreover have "\<exists>l1. map_of ?limit' ?k = Some l1 \<and> l1 \<le> lookup0 limits q"
      by (cases "map_of limit ?k") (auto simp: update_conv')
    then obtain l1 where "map_of ?limit' ?k = Some l1" "l1 \<le> lookup0 limits q" by blast
    ultimately show ?thesis
      using limit_map_le [of ?limit' ?k l1 nl origin limits rs] by (auto simp: Let_def)
  qed
qed auto

lemma fold_bump:
  "gomap_ok limit \<Longrightarrow>
     lookup0 (fold (\<lambda>(k, l) m. AList.update k (lookup0 m k + 1) m) limit calls) k =
     lookup0 calls k + (if k \<in> fst ` set limit then (1::int) else 0)"
proof (induction limit arbitrary: calls)
  case (Cons e limit)
  then have "gomap_ok limit" "fst e \<notin> fst ` set limit" by (auto simp: gomap_ok_def)
  with Cons.IH show ?case by (cases e) auto
qed simp

lemma charge_refused: "charge nl origin capped limits b = (False, b') \<Longrightarrow> b' = b"
  by (auto simp: charge_def Let_def split: if_splits)

lemma charge_admitted:
  assumes "charge nl origin capped limits b = (True, b')"
  shows "lookup0 (rb_calls b') k = lookup0 (rb_calls b) k +
           (if k \<in> fst ` set (limit_map nl origin limits capped []) then 1 else 0)"
    and "r \<in> set capped \<Longrightarrow>
      lookup0 (rb_calls b') (route_key_of nl origin r) =
        lookup0 (rb_calls b) (route_key_of nl origin r) + 1 \<and>
      lookup0 (rb_calls b') (route_key_of nl origin r) \<le> lookup0 limits r"
proof -
  let ?lim = "limit_map nl origin limits capped []"
  have ok: "gomap_ok ?lim" by (rule limit_map_ok) simp
  show count: "lookup0 (rb_calls b') k = lookup0 (rb_calls b) k + (if k \<in> fst ` set ?lim then 1 else 0)" for k
    using assms fold_bump [OF ok, of "rb_calls b" k]
    by (cases "capped = []") (auto simp: charge_def Let_def split: if_splits simp del: set_simps)
  show "lookup0 (rb_calls b') (route_key_of nl origin r) =
      lookup0 (rb_calls b) (route_key_of nl origin r) + 1 \<and>
      lookup0 (rb_calls b') (route_key_of nl origin r) \<le> lookup0 limits r" if r: "r \<in> set capped"
  proof -
    let ?k = "route_key_of nl origin r"
    obtain l where l: "map_of ?lim ?k = Some l" "l \<le> lookup0 limits r"
      using limit_map_covers [OF r] by blast
    then have mem: "(?k, l) \<in> set ?lim" by (rule_tac map_of_SomeD) simp
    then have "lookup0 (rb_calls b) ?k < l"
      using assms r by (auto simp: charge_def Let_def list_ex_iff split: if_splits)
    moreover have "?k \<in> fst ` set ?lim" using mem by force
    ultimately show ?thesis using count [of ?k] l(2) by simp
  qed
qed

text \<open>Counts never go below zero.\<close>

definition budget_ok :: "route_budget \<Rightarrow> bool" where
  "budget_ok b \<longleftrightarrow> (\<forall>k. 0 \<le> lookup0 (rb_calls b) k)"

lemma budget_ok_New [simp]: "budget_ok NewRouteBudget"
  by (simp add: budget_ok_def NewRouteBudget_def)

subsection \<open>A run of charges\<close>

record charge_call =
  cc_origin :: string
  cc_capped :: "host_route list"
  cc_limits :: "(host_route, int) gomap"

fun charge_run :: "net_lib \<Rightarrow> charge_call list \<Rightarrow> route_budget \<Rightarrow> (charge_call \<times> bool) list" where
  "charge_run nl [] b = []"
| "charge_run nl (c # cs) b =
     (case charge nl (cc_origin c) (cc_capped c) (cc_limits c) b of
        (ok, b') \<Rightarrow> (c, ok) # charge_run nl cs b')"

text \<open>The admitted calls of a run that were charged to key \<open>k\<close> under a cap of at most \<open>L\<close>.\<close>

definition under_cap :: "net_lib \<Rightarrow> route_key \<Rightarrow> int \<Rightarrow> charge_call \<Rightarrow> bool" where
  "under_cap nl k L c \<longleftrightarrow>
     list_ex (\<lambda>r. route_key_of nl (cc_origin c) r = k \<and> lookup0 (cc_limits c) r \<le> L) (cc_capped c)"

lemma charge_mono: "charge nl origin capped limits b = (ok, b') \<Longrightarrow>
    lookup0 (rb_calls b) k \<le> lookup0 (rb_calls b') k"
  using charge_admitted(1) [of nl origin capped limits b b' k] charge_refused [of nl origin capped limits b b']
  by (cases ok) auto

lemma charge_run_bound:
  assumes "0 \<le> L"
  shows "int (length (filter (\<lambda>(c, ok). ok \<and> under_cap nl k L c) (charge_run nl cs b)))
    \<le> max 0 (L - lookup0 (rb_calls b) k)"
proof (induction cs arbitrary: b)
  case (Cons c cs)
  obtain ok b' where ch: "charge nl (cc_origin c) (cc_capped c) (cc_limits c) b = (ok, b')"
    by (cases "charge nl (cc_origin c) (cc_capped c) (cc_limits c) b")
  show ?case
  proof (cases "ok \<and> under_cap nl k L c")
    case True
    then obtain r where "r \<in> set (cc_capped c)" "route_key_of nl (cc_origin c) r = k"
        "lookup0 (cc_limits c) r \<le> L"
      by (auto simp: under_cap_def list_ex_iff)
    with charge_admitted(2) [of nl "cc_origin c" "cc_capped c" "cc_limits c" b b' r] ch True
    have "lookup0 (rb_calls b') k = lookup0 (rb_calls b) k + 1" "lookup0 (rb_calls b') k \<le> L"
      by auto
    with Cons [of b'] ch True show ?thesis by simp
  next
    case False
    with Cons [of b'] ch charge_mono [OF ch, of k] show ?thesis by auto
  qed
qed (use assms in simp)

text \<open>The limits map holds exactly the keys of the capped routes, each with the limit of one of
  the routes that share it.\<close>

lemma limit_map_sound:
  assumes "map_of (limit_map nl origin limits rs limit) k = Some l"
  shows "map_of limit k = Some l \<or> (\<exists>r \<in> set rs. route_key_of nl origin r = k \<and> lookup0 limits r = l)"
  using assms
proof (induction nl origin limits rs limit rule: limit_map.induct)
  case (2 nl origin limits r rs limit)
  let ?k = "route_key_of nl origin r"
  let ?limit' = "case map_of limit ?k of None \<Rightarrow> AList.update ?k (lookup0 limits r) limit
            | Some l \<Rightarrow> if lookup0 limits r < l then AList.update ?k (lookup0 limits r) limit else limit"
  have "map_of ?limit' k = Some l \<Longrightarrow> map_of limit k = Some l \<or> ?k = k \<and> lookup0 limits r = l"
    by (cases "map_of limit ?k") (auto simp: update_conv' split: if_splits)
  moreover have "map_of ?limit' k = Some l \<or> (\<exists>q \<in> set rs. route_key_of nl origin q = k \<and> lookup0 limits q = l)"
    using "2.IH" [OF refl] 2(2) by (simp add: Let_def)
  ultimately show ?case by auto
qed simp

lemma limit_map_mem:
  assumes "(k, l) \<in> set (limit_map nl origin limits rs [])"
  shows "\<exists>r \<in> set rs. route_key_of nl origin r = k \<and> lookup0 limits r = l"
proof -
  have "map_of (limit_map nl origin limits rs []) k = Some l"
    using assms limit_map_ok [of "[]" nl origin limits rs] by (simp add: gomap_ok_def)
  then show ?thesis using limit_map_sound by fastforce
qed

lemma charge_ok_iff:
  "fst (charge nl origin capped limits b) \<longleftrightarrow>
     (\<forall>r \<in> set capped. lookup0 (rb_calls b) (route_key_of nl origin r) < lookup0 limits r)"
proof (cases "fst (charge nl origin capped limits b)")
  case True
  then show ?thesis
    using charge_admitted(2) [of nl origin capped limits b "snd (charge nl origin capped limits b)"]
    by (cases "charge nl origin capped limits b") force
next
  case False
  then obtain k l where "(k, l) \<in> set (limit_map nl origin limits capped [])"
      "lookup0 (rb_calls b) k \<ge> l"
    by (auto simp: charge_def Let_def list_ex_iff split: if_splits)
  with limit_map_mem False show ?thesis by fastforce
qed

subsection \<open>Properties\<close>

text \<open>A charge is all or nothing. It succeeds exactly when every capped route of the call is
  under its limit; it then counts the call once against each of their keys and against
  nothing else, and a refused charge changes nothing.\<close>

theorem charge_all_or_nothing:
  "(fst (charge nl origin capped limits b) \<longleftrightarrow>
      \<not> (\<exists>r. r \<in> set capped \<and> lookup0 limits r \<le> lookup0 (rb_calls b) (route_key_of nl origin r))) \<and>
   lookup0 (rb_calls (snd (charge nl origin capped limits b))) k =
     lookup0 (rb_calls b) k +
     (if fst (charge nl origin capped limits b) \<and> k \<in> route_key_of nl origin ` set capped then 1 else 0)"
proof -
  let ?lim = "limit_map nl origin limits capped []"
  have keys: "fst ` set ?lim = route_key_of nl origin ` set capped"
  proof (intro equalityI subsetI)
    fix x assume "x \<in> route_key_of nl origin ` set capped"
    then obtain l where "map_of ?lim x = Some l" using limit_map_covers by blast
    then show "x \<in> fst ` set ?lim" by (force dest: map_of_SomeD)
  qed (force dest: limit_map_mem)
  obtain ok b' where ch: "charge nl origin capped limits b = (ok, b')" by force
  then have "lookup0 (rb_calls b') k = lookup0 (rb_calls b) k +
     (if ok \<and> k \<in> route_key_of nl origin ` set capped then 1 else 0)"
    using charge_admitted(1) [of nl origin capped limits b b' k]
      charge_refused [of nl origin capped limits b b'] keys
    by (cases ok) auto
  with ch show ?thesis using charge_ok_iff [of nl origin capped limits b] by (auto simp: not_le)
qed

text \<open>The per-route cap holds over a whole run. However charges against a budget are
  ordered and mixed with calls to other routes, no more than \<open>L\<close> calls that carry a
  cap of at most \<open>L\<close> on a key are admitted.\<close>

theorem route_cap_holds:
  assumes "0 \<le> L"
  shows "int (length (filter (\<lambda>(c, ok). ok \<and> under_cap nl k L c) (charge_run nl cs NewRouteBudget))) \<le> L"
  using charge_run_bound [OF assms, of nl k cs NewRouteBudget] assms
  by (simp add: NewRouteBudget_def)

definition demo_charge :: charge_call where
  "demo_charge = \<lparr>cc_origin = ''https://api.example.com'', cc_capped = [demo_post], cc_limits = [(demo_post, 2)]\<rparr>"

theorem route_cap_holds_witness:
  "map snd (charge_run demo_net [demo_charge, demo_charge, demo_charge] NewRouteBudget) = [True, True, False] \<and>
   int (length (filter (\<lambda>(c, ok). ok \<and> under_cap demo_net
     (route_key_of demo_net ''https://api.example.com'' demo_post) 2 c)
     (charge_run demo_net [demo_charge, demo_charge, demo_charge] NewRouteBudget))) \<le> 2"
proof
  show "map snd (charge_run demo_net [demo_charge, demo_charge, demo_charge] NewRouteBudget) = [True, True, False]"
    by code_simp
qed (rule route_cap_holds, simp)

end
