(* ===== verification/Breaker.thy ===== *)
theory Breaker
  imports Go_Strings "HOL-Library.Word"
begin

text \<open>
  The per-run circuit breaker of \<open>sandbox/broker.go\<close>: closed until an upstream 429 or
  503 opens it for a cooldown, probed for recovery by one elected caller at a time,
  never while a quota window is open. A zero \<open>time.Time\<close> is \<open>None\<close>; \<open>gen\<close> is
  a \<open>uint64\<close>.
\<close>

record breaker =
  br_openUntil :: "gotime option"
  br_lastProbe :: "gotime option"
  br_quotaTrip :: bool
  br_gen :: "64 word"

definition breakerDefaultCooldown :: duration where "breakerDefaultCooldown = second"
definition breakerMaxCooldown :: duration where "breakerMaxCooldown = 30 * second"
definition breakerProbeInterval :: duration where "breakerProbeInterval = second"

lemmas breaker_consts = breakerDefaultCooldown_def breakerMaxCooldown_def breakerProbeInterval_def

definition clearLocked :: "breaker \<Rightarrow> breaker" where
  "clearLocked br = br\<lparr>br_openUntil := None, br_lastProbe := None, br_quotaTrip := False\<rparr>"

text \<open>\<open>gate\<close> returns shedding, electedToProbe and the generation, and the new state.\<close>

definition gate :: "gotime \<Rightarrow> bool \<Rightarrow> breaker \<Rightarrow> (bool \<times> bool \<times> 64 word) \<times> breaker" where
  "gate now haveHealth br =
     (if (case br_openUntil br of None \<Rightarrow> True | Some u \<Rightarrow> \<not> now < u)
        then ((False, False, br_gen br), clearLocked br)
      else if haveHealth \<and> \<not> br_quotaTrip br \<and>
              (case br_lastProbe br of None \<Rightarrow> True
               | Some p \<Rightarrow> time_sub now p \<ge> breakerProbeInterval)
        then ((True, True, br_gen br), br\<lparr>br_lastProbe := Some now\<rparr>)
      else ((True, False, br_gen br), br))"

definition br_open :: "gotime \<Rightarrow> duration \<Rightarrow> bool \<Rightarrow> breaker \<Rightarrow> breaker" where
  "br_open now cooldown quota br =
     (let br = (case br_openUntil br of None \<Rightarrow> br
                | Some u \<Rightarrow> if \<not> now < u then clearLocked br else br);
          br = (if quota then br\<lparr>br_quotaTrip := True\<rparr> else br);
          deadline = now + cooldown;
          br = (case br_openUntil br of
                  None \<Rightarrow> br\<lparr>br_openUntil := Some deadline\<rparr>
                | Some u \<Rightarrow> if deadline > u then br\<lparr>br_openUntil := Some deadline\<rparr> else br)
      in br\<lparr>br_gen := br_gen br + 1\<rparr>)"

definition resetIf :: "64 word \<Rightarrow> breaker \<Rightarrow> bool \<times> breaker" where
  "resetIf gen br = (if br_gen br \<noteq> gen then (False, br) else (True, clearLocked br))"

subsection \<open>Cooldowns\<close>

definition clampCooldown :: "duration \<Rightarrow> duration" where
  "clampCooldown d =
     (if d < breakerDefaultCooldown then breakerDefaultCooldown
      else if d > breakerMaxCooldown then breakerMaxCooldown
      else d)"

text \<open>
  \<open>strconv.Atoi\<close>: an optional sign, then digits, within the range of an \<open>int\<close>.
\<close>

definition digits_value :: "string \<Rightarrow> int" where
  "digits_value s = fold (\<lambda>c v. 10 * v + (int (byte c) - 48)) s 0"

definition atoi :: "string \<Rightarrow> int option" where
  "atoi s =
     (let (neg, ds) = (case s of
          c # t \<Rightarrow> if c = CHR ''-'' then (True, t) else if c = CHR ''+'' then (False, t) else (False, s)
        | [] \<Rightarrow> (False, []));
          v = (if neg then - digits_value ds else digits_value ds)
      in if ds = [] \<or> \<not> list_all is_digit ds \<or> v < - (2 ^ 63) \<or> v > 2 ^ 63 - 1 then None else Some v)"

text \<open>\<open>parseTime\<close> stands for \<open>http.ParseTime\<close>.\<close>

definition retryAfterCooldown :: "(string \<Rightarrow> gotime option) \<Rightarrow> gotime \<Rightarrow> string \<Rightarrow> duration" where
  "retryAfterCooldown parseTime now header =
     (let header = trim_space header
      in if header = '''' then breakerDefaultCooldown
         else case atoi header of
           Some secs \<Rightarrow>
             if secs > breakerMaxCooldown div second then breakerMaxCooldown
             else clampCooldown (wrap64 (secs * second))
         | None \<Rightarrow>
             (case parseTime header of
                Some t \<Rightarrow> clampCooldown (time_sub t now)
              | None \<Rightarrow> breakerDefaultCooldown))"

lemma clampCooldown_bounds:
  "breakerDefaultCooldown \<le> clampCooldown d \<and> clampCooldown d \<le> breakerMaxCooldown"
  by (simp add: clampCooldown_def breaker_consts second_def)

lemma retryAfterCooldown_bounds:
  "breakerDefaultCooldown \<le> retryAfterCooldown pt now h \<and>
   retryAfterCooldown pt now h \<le> breakerMaxCooldown"
  using clampCooldown_bounds
  by (auto simp: retryAfterCooldown_def Let_def breaker_consts second_def
        split: option.splits)

subsection \<open>The window\<close>

definition is_open :: "gotime \<Rightarrow> breaker \<Rightarrow> bool" where
  "is_open now br \<longleftrightarrow> (case br_openUntil br of None \<Rightarrow> False | Some u \<Rightarrow> now < u)"

lemma gate_sheds_iff: "fst (fst (gate now hh br)) \<longleftrightarrow> is_open now br"
  by (auto simp: gate_def is_open_def split: option.splits)

lemma gate_keeps_window:
  "is_open now br \<Longrightarrow> br_openUntil (snd (gate now hh br)) = br_openUntil br
     \<and> br_quotaTrip (snd (gate now hh br)) = br_quotaTrip br"
  by (auto simp: gate_def is_open_def split: option.splits)

lemma gate_gen [simp]: "br_gen (snd (gate now hh br)) = br_gen br" "snd (snd (fst (gate now hh br))) = br_gen br"
  by (auto simp: gate_def clearLocked_def)

lemma br_open_gen [simp]: "br_gen (br_open now c q br) = br_gen br + 1"
  by (auto simp: br_open_def clearLocked_def Let_def split: option.splits)

lemma br_open_until:
  assumes "0 < c"
  shows "\<exists>u. br_openUntil (br_open now c q br) = Some u \<and> now + c \<le> u \<and>
     (\<forall>v. br_openUntil br = Some v \<longrightarrow> v \<le> u)"
  using assms by (auto simp: br_open_def clearLocked_def Let_def split: option.splits)

lemma br_open_quota:
  "br_quotaTrip (br_open now c q br) \<longleftrightarrow> q \<or> is_open now br \<and> br_quotaTrip br
     \<or> br_openUntil br = None \<and> br_quotaTrip br"
  by (auto simp: br_open_def clearLocked_def Let_def is_open_def split: option.splits)

text \<open>
  A generation is passed by every decision that opens the breaker, so a probe's
  verdict is dropped once the breaker has opened again: fewer than \<open>2 ^ 64\<close> openings
  never bring the generation back.
\<close>

fun br_opens :: "(gotime \<times> duration \<times> bool) list \<Rightarrow> breaker \<Rightarrow> breaker" where
  "br_opens [] br = br"
| "br_opens ((now, c, q) # os) br = br_opens os (br_open now c q br)"

lemma br_opens_gen: "br_gen (br_opens os br) = br_gen br + of_nat (length os)"
  by (induction os br rule: br_opens.induct) (auto simp: add_ac)

lemma stale_probe_dropped:
  assumes "os \<noteq> []" and "length os < 2 ^ 64"
  shows "resetIf (br_gen br) (br_opens os br) = (False, br_opens os br)"
proof -
  have "(of_nat (length os) :: 64 word) \<noteq> 0"
    using assms by (simp add: of_nat_eq_0_iff nat_dvd_not_less word_of_nat_eq_0_iff)
  then show ?thesis by (simp add: resetIf_def br_opens_gen)
qed

subsection \<open>Properties\<close>

text \<open>An opened breaker sheds until its deadline: after an upstream asks for a pause, no
  later opening brings the deadline forward, every call inside the window is shed, the
  window is between 1 and 30 seconds from the last opening, and a quota window is never
  probed.\<close>

theorem breaker_window:
  assumes "br_open now (retryAfterCooldown pt now h) quota br = br'" and "t < now + second"
    and "now \<le> t"
  shows "fst (fst (gate t hh br')) \<and> \<not> (quota \<and> fst (snd (fst (gate t hh br')))) \<and>
    (\<forall>u. br_openUntil br = Some u \<longrightarrow> (\<exists>u'. br_openUntil br' = Some u' \<and> u \<le> u')) \<and>
    (br_openUntil br = None \<longrightarrow> (\<exists>u'. br_openUntil br' = Some u' \<and> u' \<le> now + 30 * second))"
proof -
  let ?c = "retryAfterCooldown pt now h"
  have c: "second \<le> ?c" "?c \<le> 30 * second"
    using retryAfterCooldown_bounds [of pt now h] by (simp_all add: breaker_consts)
  have pos: "0 < ?c" using c(1) by (simp add: second_def)
  obtain u where u: "br_openUntil br' = Some u" "now + ?c \<le> u" "\<forall>v. br_openUntil br = Some v \<longrightarrow> v \<le> u"
    using br_open_until [OF pos] assms(1) by metis
  then have op: "is_open t br'" using assms(2) c(1) by (simp add: is_open_def)
  have q: "quota \<Longrightarrow> br_quotaTrip br'" using assms(1) br_open_quota by blast
  have "br_openUntil br = None \<Longrightarrow> u \<le> now + 30 * second"
    using u(1) assms(1) c(2) by (auto simp: br_open_def Let_def split: if_splits)
  then show ?thesis
    using u op q gate_sheds_iff [of t hh br'] by (auto simp: gate_def is_open_def)
qed

theorem breaker_window_witness:
  "fst (fst (gate (second div 2) True (br_open 0 (retryAfterCooldown (\<lambda>s. None) 0 ''7'') True
     \<lparr>br_openUntil = None, br_lastProbe = None, br_quotaTrip = False, br_gen = 0\<rparr>)))"
  using breaker_window [OF refl, where pt = "\<lambda>s. None" and now = 0 and h = "''7''" and t = "second div 2"]
  by (simp add: second_def)

text \<open>A stale probe never closes the breaker. The generation a caller was elected with no
  longer matches once the breaker has opened again, up to the wrap of the 64-bit counter,
  so its success is dropped and the window of the later openings stands.\<close>

theorem stale_probe_is_dropped:
  assumes "gate now hh br = ((shed, elected, gen), br1)" and "os \<noteq> []" and "length os < 2 ^ 64"
  shows "resetIf gen (br_opens os br1) = (False, br_opens os br1)"
proof -
  have "gen = br_gen br1" using assms(1) gate_gen [of now hh br] by simp
  with stale_probe_dropped [OF assms(2,3), of br1] show ?thesis by simp
qed

theorem stale_probe_is_dropped_witness:
  "\<exists>br1. gate 5 True \<lparr>br_openUntil = Some 9, br_lastProbe = None, br_quotaTrip = False, br_gen = 4\<rparr>
       = ((True, True, 4), br1) \<and> \<not> fst (resetIf 4 (br_opens [(6, second, False)] br1))"
proof -
  let ?br = "\<lparr>br_openUntil = Some (9::gotime), br_lastProbe = None, br_quotaTrip = False, br_gen = (4::64 word)\<rparr>"
  have g: "gate 5 True ?br = ((True, True, 4), ?br\<lparr>br_lastProbe := Some 5\<rparr>)"
    by (simp add: gate_def)
  from stale_probe_is_dropped [OF g, of "[(6, second, False)]"] g show ?thesis by auto
qed

text \<open>A Retry-After header always yields a pause between one and thirty seconds, whatever
  it holds.\<close>

theorem cooldown_bounded:
  "second \<le> retryAfterCooldown pt now h \<and> retryAfterCooldown pt now h \<le> 30 * second"
  using retryAfterCooldown_bounds [of pt now h] by (simp add: breaker_consts)

text \<open>
  A negative delay clamps to the floor, except where the multiplication wraps: the
  value \<open>-9223372037\<close> yields the full thirty seconds.
\<close>

lemma retry_after_negative_wraps:
  "retryAfterCooldown (\<lambda>s. None) 0 ''-1'' = second \<and>
   retryAfterCooldown (\<lambda>s. None) 0 ''-9223372037'' = 30 * second"
  by code_simp

end
