(* ===== verification/Broker.thy ===== *)
theory Broker
  imports Broker_Wire Route_Budget Breaker
begin

text \<open>
  The per-run enforcement core of \<open>sandbox/broker.go\<close>: \<open>brokerSession\<close> and
  \<open>Call\<close>. \<open>Call\<close> runs concurrently with itself, with \<open>End\<close> and with the
  transport's reads of an upload, so it is cut into stages, one for each place where it
  touches shared state (a lock, an atomic, a channel, the network) and the local code up
  to the next; a count in the trace is taken in the stage of the decision it records.
  \<open>call_step\<close> is one stage of one call, \<open>broker_step\<close> one step of the session with
  any number of calls, and \<open>Call\<close> the stages of one call in a row.
\<close>

subsection \<open>State\<close>

text \<open>
  What is fixed for the life of a session; \<open>s_requestURI m o p\<close> is the request URI of the
  request \<open>http.NewRequestWithContext\<close> builds for method \<open>m\<close> and the URL with origin
  \<open>o\<close> and path \<open>p\<close>, or \<open>None\<close> for an error.
\<close>

record session =
  s_grant :: grant
  s_token :: string
  s_origin :: url
  s_net :: net_lib
  s_mime :: mime_lib
  s_parseTime :: "string \<Rightarrow> gotime option"
  s_requestURI :: "string \<Rightarrow> url \<Rightarrow> string \<Rightarrow> string option"

text \<open>\<open>b_requests\<close> is the number of slots taken in the channel, \<open>b_inflight\<close> the wait
  group's counter, \<open>b_life_over\<close> says that \<open>life\<close> is cancelled. \<open>routes\<close> is a pointer: \<open>b_routes\<close> is
  the budget it points to, \<open>b_shared\<close> says that this is the one the caller passed and not a fresh one.\<close>

record broker =
  b_requests :: int
  b_callsMade :: int
  b_sent :: int
  b_routes :: route_budget
  b_shared :: bool
  b_trace :: call_trace
  b_breaker :: breaker
  b_ended :: bool
  b_life_over :: bool
  b_inflight :: int

record http_request =
  hq_Method :: string
  hq_Origin :: url
  hq_Path :: string
  hq_Headers :: "(string, string) gomap"
  hq_ContentLength :: int

datatype phase =
    Arrived | Entered | Slotted | Counted
  | Matched host_route
  | Probing host_route "64 word"
  | Probed host_route "64 word"
  | Admitted host_route
  | Bodied host_route string
  | Reserved host_route string
  | Charged host_route string
  | Ready host_route http_request
  | Sent host_route gotime
  | Streaming host_route http_response int gotime
  | Returning broker_response
  | Finished broker_response

text \<open>
  A call: its input, where it is, its locals (\<open>c_body\<close>, \<open>c_upload\<close>, \<open>c_held\<close>
  for the source's \<open>reserved\<close>), what its deferred functions will give back, and what
  it has done so far (\<open>c_spent\<close>: counted at all, \<open>c_counted\<close>: within the call
  budget, \<open>c_capped\<close>: the capped routes charged, \<open>c_wire\<close>: the request handed to
  \<open>RoundTrip\<close>, \<open>c_probe\<close>: the health probe handed to it).
\<close>

record call =
  c_req :: broker_call
  c_phase :: phase
  c_entered :: bool
  c_slot :: bool
  c_body :: string
  c_upload :: "upload_log option"
  c_held :: int
  c_spent :: bool
  c_counted :: bool
  c_reserved :: bool
  c_capped :: "host_route list"
  c_wire :: "http_request option"
  c_probe :: "http_request option"

definition new_call :: "broker_call \<Rightarrow> call" where
  "new_call q = \<lparr>c_req = q, c_phase = Arrived, c_entered = False, c_slot = False, c_body = '''',
     c_upload = None, c_held = 0, c_spent = False, c_counted = False, c_reserved = False,
     c_capped = [], c_wire = None, c_probe = None\<rparr>"

subsection \<open>Making and ending a session\<close>

definition new_broker :: broker where
  "new_broker = \<lparr>b_requests = 0, b_callsMade = 0, b_sent = 0, b_routes = NewRouteBudget, b_shared = False,
     b_trace = newCallTrace,
     b_breaker = \<lparr>br_openUntil = None, br_lastProbe = None, br_quotaTrip = False, br_gen = 0\<rparr>,
     b_ended = False, b_life_over = False, b_inflight = 0\<rparr>"

datatype broker_error =
    GrantNil | GrantInvalid grant_error | CredentialNotBearer | OriginUnparsed
  | CredentialFailed credential_error

text \<open>The transport is not part of the model: a caller always passes one, or the code makes one.\<close>

definition newBrokerSession ::
  "net_lib \<Rightarrow> mime_lib \<Rightarrow> (string \<Rightarrow> gotime option) \<Rightarrow> (string \<Rightarrow> url \<Rightarrow> string \<Rightarrow> string option) \<Rightarrow>
   grant option \<Rightarrow> string \<Rightarrow> broker_error + session \<times> broker" where
  "newBrokerSession nl ml pt ru g token =
     (case g of
        None \<Rightarrow> Inl GrantNil
      | Some g \<Rightarrow>
          (case Validate nl g of
             Some e \<Rightarrow> Inl (GrantInvalid e)
           | None \<Rightarrow>
               if token \<noteq> '''' \<and> list_ex (\<lambda>c. \<not> bearer_char c) token then Inl CredentialNotBearer
               else
                 (case url_Parse nl (g_BaseURL g) of
                    None \<Rightarrow> Inl OriginUnparsed
                  | Some origin \<Rightarrow>
                      Inr (\<lparr>s_grant = g, s_token = token, s_origin = origin, s_net = nl, s_mime = ml,
                            s_parseTime = pt, s_requestURI = ru\<rparr>, new_broker))))"

text \<open>
  \<open>ctxDone\<close> is \<open>ctx.Err() != nil\<close> at the time of the refusal. \<open>None\<close> is the nil session
  of a nil grant.
\<close>

definition brokerSessionForGrant ::
  "net_lib \<Rightarrow> mime_lib \<Rightarrow> (string \<Rightarrow> gotime option) \<Rightarrow> (string \<Rightarrow> url \<Rightarrow> string \<Rightarrow> string option) \<Rightarrow>
   bool \<Rightarrow> gotime \<Rightarrow> string \<Rightarrow> grant option \<Rightarrow> duration \<Rightarrow> route_budget option \<Rightarrow>
   (refusal \<times> broker_error) + (session \<times> broker) option" where
  "brokerSessionForGrant nl ml pt ru ctxDone now subject g timeout routes =
     (let refuse = (\<lambda>e. Inl (if ctxDone then RefusalCapacity else RefusalPermission, e))
      in case g of
           None \<Rightarrow> Inr None
         | Some gr \<Rightarrow>
             (case Validate nl gr of
                Some e \<Rightarrow> refuse (GrantInvalid e)
              | None \<Rightarrow>
                  (case credential now subject g timeout of
                     Inl e \<Rightarrow> refuse (CredentialFailed e)
                   | Inr token \<Rightarrow>
                       (case newBrokerSession nl ml pt ru g token of
                          Inl e \<Rightarrow> refuse e
                        | Inr (s, b) \<Rightarrow>
                            (case routes of
                               None \<Rightarrow> Inr (Some (s, b))
                             | Some r \<Rightarrow> Inr (Some (s, b\<lparr>b_routes := r, b_shared := True\<rparr>)))))))"

text \<open>\<open>End\<close> first refuses new calls, then cancels what is in flight.\<close>

definition end_refuse :: "broker \<Rightarrow> broker" where
  "end_refuse b = b\<lparr>b_ended := True\<rparr>"

definition end_cancel :: "broker \<Rightarrow> broker" where
  "end_cancel b = b\<lparr>b_life_over := True\<rparr>"

subsection \<open>The stages of a call\<close>

text \<open>The texts of the broker's own answers.\<close>

definition msg_ended :: string where "msg_ended = ''host api grant has ended''"
definition msg_capacity :: string where "msg_capacity = ''host api broker is at capacity''"
definition msg_calls :: string where "msg_calls = ''host api call budget for this run is exhausted''"
definition msg_forbidden :: string where "msg_forbidden = ''forbidden by sandbox capability allowlist''"
definition msg_shedding :: string where "msg_shedding = ''host api is shedding load: upstream reported degraded''"
definition msg_type :: string where "msg_type = ''host api request content type is not allowed on this route''"
definition msg_over_limit :: string where "msg_over_limit = ''host api request body exceeds the route's limit''"
definition msg_bytes :: string where "msg_bytes = ''host api request bytes for this run are exhausted''"
definition msg_route_calls :: string where "msg_route_calls = ''host api call budget for this route is exhausted''"
definition msg_unavailable :: string where "msg_unavailable = ''host api unavailable''"
definition msg_no_broker :: string where "msg_no_broker = ''host api broker unavailable''"

definition answer :: "broker_response \<Rightarrow> call \<Rightarrow> call" where
  "answer r c = c\<lparr>c_phase := Returning r\<rparr>"

definition deny :: "int \<Rightarrow> string \<Rightarrow> broker \<Rightarrow> call \<Rightarrow> broker \<times> call" where
  "deny status msg b c =
     (b\<lparr>b_trace := recordDenied (b_trace b)\<rparr>, answer (brokerError status msg) c)"

definition shed :: "broker \<Rightarrow> call \<Rightarrow> broker \<times> call" where
  "shed b c =
     (b\<lparr>b_trace := recordShed (b_trace b)\<rparr>,
      answer (brokerError 503 msg_shedding) c)"

definition do_enter :: "broker \<Rightarrow> call \<Rightarrow> broker \<times> call" where
  "do_enter b c =
     (if b_ended b then deny 503 msg_ended b c
      else (b\<lparr>b_inflight := b_inflight b + 1\<rparr>, c\<lparr>c_phase := Entered, c_entered := True\<rparr>))"

definition do_slot :: "broker \<Rightarrow> call \<Rightarrow> broker \<times> call" where
  "do_slot b c =
     (if b_requests b < int maxHostConcurrent
        then (b\<lparr>b_requests := b_requests b + 1\<rparr>, c\<lparr>c_phase := Slotted, c_slot := True\<rparr>)
      else deny 429 msg_capacity b c)"

definition do_count :: "session \<Rightarrow> broker \<Rightarrow> call \<Rightarrow> broker \<times> call" where
  "do_count S b c =
     (let b = b\<lparr>b_callsMade := b_callsMade b + 1\<rparr>; c = c\<lparr>c_spent := True\<rparr>
      in if b_callsMade b > CallBudget (Some (s_grant S))
           then deny 429 msg_calls b c
         else (b, c\<lparr>c_phase := Counted, c_counted := True\<rparr>))"

definition do_match :: "session \<Rightarrow> broker \<Rightarrow> call \<Rightarrow> broker \<times> call" where
  "do_match S b c =
     (case matchRawTarget (s_grant S) (to_upper (bc_Method (c_req c))) (bc_RawTarget (c_req c)) of
        None \<Rightarrow> deny 403 msg_forbidden b c
      | Some route \<Rightarrow> (b, c\<lparr>c_phase := Matched route\<rparr>))"

definition do_gate :: "session \<Rightarrow> gotime \<Rightarrow> host_route \<Rightarrow> broker \<Rightarrow> call \<Rightarrow> broker \<times> call" where
  "do_gate S now route b c =
     (case gate now (g_HealthCheck (s_grant S) \<noteq> None) (b_breaker b) of
        ((shedding, elected, gen), br) \<Rightarrow>
          let b = b\<lparr>b_breaker := br\<rparr>
          in if \<not> shedding then (b, c\<lparr>c_phase := Admitted route\<rparr>)
             else if elected then (b, c\<lparr>c_phase := Probing route gen\<rparr>)
             else shed b c)"

text \<open>\<open>probeHealth\<close> up to its \<open>RoundTrip\<close>: the request it hands over, with the run's credential, or
  nothing where there is no health route or no request can be built for it.\<close>

definition probe_request :: "session \<Rightarrow> http_request option" where
  "probe_request S =
     (case g_HealthCheck (s_grant S) of
        None \<Rightarrow> None
      | Some health \<Rightarrow>
          if escaped_path (hr_Path health) \<noteq> hr_Path health then None
          else
            (case s_requestURI S ''GET'' (s_origin S) (hr_Path health) of
               None \<Rightarrow> None
             | Some uri \<Rightarrow>
                 let h = header_set ''Accept'' ''application/json'' [];
                     h = (if s_token S \<noteq> '''' then header_set ''Authorization'' (''Bearer '' @ s_token S) h else h)
                 in Some \<lparr>hq_Method = ''GET'', hq_Origin = s_origin S, hq_Path = hr_Path health,
                      hq_Headers = h, hq_ContentLength = 0\<rparr>))"

definition do_probe_send :: "session \<Rightarrow> host_route \<Rightarrow> 64 word \<Rightarrow> broker \<Rightarrow> call \<Rightarrow> broker \<times> call" where
  "do_probe_send S route gen b c = (b, c\<lparr>c_phase := Probed route gen, c_probe := probe_request S\<rparr>)"

text \<open>The rest of it; \<open>sent\<close> is the request it handed over, \<open>resp\<close> what \<open>RoundTrip\<close> gave.\<close>

definition probeHealth :: "session \<Rightarrow> http_request option \<Rightarrow> http_response option \<Rightarrow> gotime \<Rightarrow> bool \<times> duration" where
  "probeHealth S sent resp now =
     (case sent of
        None \<Rightarrow> (False, breakerDefaultCooldown)
      | Some req \<Rightarrow>
          (case resp of
             None \<Rightarrow> (False, breakerDefaultCooldown)
           | Some r \<Rightarrow>
               if rs_StatusCode r \<ge> 200 \<and> rs_StatusCode r < 300 then (True, 0)
               else (False, retryAfterCooldown (s_parseTime S) now (rs_RetryAfter r))))"

definition do_probe :: "session \<Rightarrow> http_response option \<Rightarrow> gotime \<Rightarrow> host_route \<Rightarrow> 64 word \<Rightarrow>
    broker \<Rightarrow> call \<Rightarrow> broker \<times> call" where
  "do_probe S resp now route gen b c =
     (case probeHealth S (c_probe c) resp now of
        (healthy, cooldown) \<Rightarrow>
          if healthy then
            (case resetIf gen (b_breaker b) of
               (recovered, br) \<Rightarrow>
                 let b = b\<lparr>b_breaker := br\<rparr>
                 in if recovered then (b, c\<lparr>c_phase := Admitted route\<rparr>) else shed b c)
          else shed (b\<lparr>b_breaker := br_open now cooldown False (b_breaker b)\<rparr>) c)"

definition new_upload :: "int \<Rightarrow> upload_log" where
  "new_upload n = \<lparr>ul_reader = new_cap_reader n, ul_delivered = 0, ul_settled = []\<rparr>"

definition body_type :: "session \<Rightarrow> host_route \<Rightarrow> broker_call \<Rightarrow> string option" where
  "body_type S route q =
     (if bc_ContentLength q \<noteq> 0
        then requestContentType (s_mime S) (s_grant S) route (headerFirst (bc_Headers q) ''Content-Type'')
      else Some ''application/json'')"

definition do_body :: "session \<Rightarrow> host_route \<Rightarrow> broker \<Rightarrow> call \<Rightarrow> broker \<times> call" where
  "do_body S route b c =
     (case body_type S route (c_req c) of
        None \<Rightarrow> deny 415 msg_type b c
      | Some contentType \<Rightarrow>
          let q = c_req c; limit = requestLimit (Some (s_grant S)) route
          in if bc_ContentLength q > limit then deny 413 msg_over_limit b c
             else if limit \<le> maxHostRequestBytes then
               (case readBrokerBody (bc_Body q) limit of
                  None \<Rightarrow> deny 413 msg_over_limit b c
                | Some body \<Rightarrow>
                    (b, c\<lparr>c_phase := Bodied route contentType, c_body := body, c_held := int (length body)\<rparr>))
             else if bc_Body q \<noteq> None \<and> bc_ContentLength q \<noteq> 0 then
               let reserved = (if bc_ContentLength q < 0 then limit else bc_ContentLength q)
               in (b, c\<lparr>c_phase := Bodied route contentType, c_held := reserved,
                       c_upload := Some (new_upload reserved)\<rparr>)
             else (b, c\<lparr>c_phase := Bodied route contentType\<rparr>))"

text \<open>The compare-and-swap loop of \<open>reserveRequestBytes\<close> takes effect at the swap that succeeds.\<close>

definition reserveRequestBytes :: "session \<Rightarrow> int \<Rightarrow> broker \<Rightarrow> bool \<times> broker" where
  "reserveRequestBytes S n b =
     (if b_sent b + n > requestBudget (Some (s_grant S)) then (False, b)
      else (True, b\<lparr>b_sent := b_sent b + n\<rparr>))"

definition do_reserve :: "session \<Rightarrow> host_route \<Rightarrow> string \<Rightarrow> broker \<Rightarrow> call \<Rightarrow> broker \<times> call" where
  "do_reserve S route contentType b c =
     (case reserveRequestBytes S (c_held c) b of
        (ok, b) \<Rightarrow>
          if \<not> ok then deny 413 msg_bytes b (c\<lparr>c_upload := None\<rparr>)
          else (b, c\<lparr>c_phase := Reserved route contentType, c_reserved := True\<rparr>))"

definition chargeRouteCaps :: "session \<Rightarrow> string \<Rightarrow> string \<Rightarrow> route_budget \<Rightarrow> bool \<times> route_budget" where
  "chargeRouteCaps S method target routes =
     charge (s_net S) (u_Scheme (s_origin S) @ ''://'' @ u_Host (s_origin S))
       (cappedRoutesMatching (s_grant S) method target) (g_RouteMaxCalls (s_grant S)) routes"

definition do_charge :: "session \<Rightarrow> host_route \<Rightarrow> string \<Rightarrow> broker \<Rightarrow> call \<Rightarrow> broker \<times> call" where
  "do_charge S route contentType b c =
     (let method = to_upper (bc_Method (c_req c)); target = bc_RawTarget (c_req c)
      in if escaped_path target \<noteq> target then deny 403 msg_forbidden b c
         else
           (case chargeRouteCaps S method target (b_routes b) of
              (ok, routes) \<Rightarrow>
                let b = b\<lparr>b_routes := routes\<rparr>
                in if \<not> ok then deny 429 msg_route_calls b c
                   else (b, c\<lparr>c_phase := Charged route contentType,
                             c_capped := cappedRoutesMatching (s_grant S) method target\<rparr>)))"

definition build_request :: "session \<Rightarrow> string \<Rightarrow> call \<Rightarrow> http_request option" where
  "build_request S contentType c =
     (let q = c_req c; method = to_upper (bc_Method q);
          hasBody = (c_upload c \<noteq> None \<or> length (c_body c) > 0)
      in case s_requestURI S method (s_origin S) (bc_RawTarget q) of
           None \<Rightarrow> None
         | Some uri \<Rightarrow>
             if uri \<noteq> bc_RawTarget q then None
             else Some \<lparr>hq_Method = method, hq_Origin = s_origin S, hq_Path = bc_RawTarget q,
                    hq_Headers = request_headers (s_grant S) (s_token S) q hasBody contentType,
                    hq_ContentLength = (if c_upload c \<noteq> None then bc_ContentLength q
                                        else int (length (c_body c)))\<rparr>)"

definition do_build :: "session \<Rightarrow> host_route \<Rightarrow> string \<Rightarrow> broker \<Rightarrow> call \<Rightarrow> broker \<times> call" where
  "do_build S route contentType b c =
     (case build_request S contentType c of
        None \<Rightarrow> deny 403 msg_forbidden b c
      | Some req \<Rightarrow>
          if b_life_over b then deny 503 msg_ended b c
          else (b, c\<lparr>c_phase := Ready route req\<rparr>))"

definition do_send :: "gotime \<Rightarrow> host_route \<Rightarrow> http_request \<Rightarrow> broker \<Rightarrow> call \<Rightarrow> broker \<times> call" where
  "do_send now route req b c = (b, c\<lparr>c_phase := Sent route now, c_wire := Some req\<rparr>)"

definition sentBytes :: "call \<Rightarrow> int" where
  "sentBytes c = (case c_upload c of Some u \<Rightarrow> progress (ul_reader u) | None \<Rightarrow> int (length (c_body c)))"

definition row_of :: "host_route \<Rightarrow> int \<Rightarrow> bool \<Rightarrow> int \<Rightarrow> int \<Rightarrow> duration \<Rightarrow> call_row" where
  "row_of route status delivered reqBytes respBytes latency =
     \<lparr>row_Seq = 0, row_Method = to_upper (hr_Method route), row_Route = hr_Path route, row_Status = status,
      row_Delivered = delivered, row_ReqBytes = reqBytes, row_RespBytes = respBytes, row_Latency = latency\<rparr>"

definition record_row :: "call_row \<Rightarrow> broker \<Rightarrow> broker" where
  "record_row row b = b\<lparr>b_trace := tr_record row (b_trace b)\<rparr>"

definition pressure :: "session \<Rightarrow> http_response \<Rightarrow> gotime \<Rightarrow> broker \<Rightarrow> broker" where
  "pressure S resp now b =
     (if rs_StatusCode resp = 429 \<or> rs_StatusCode resp = 503
        then b\<lparr>b_breaker := br_open now (retryAfterCooldown (s_parseTime S) now (rs_RetryAfter resp))
                 (rs_StatusCode resp = 429) (b_breaker b)\<rparr>
      else b)"

definition do_answer :: "session \<Rightarrow> http_response option \<Rightarrow> gotime \<Rightarrow> host_route \<Rightarrow> gotime \<Rightarrow>
    broker \<Rightarrow> call \<Rightarrow> broker \<times> call" where
  "do_answer S resp now route started b c =
     (let latency = time_sub now started; unavailable = brokerError 502 msg_unavailable
      in case resp of
           None \<Rightarrow>
             (record_row (row_of route 0 False (sentBytes c) 0 latency) b,
              answer (if (case c_upload c of Some u \<Rightarrow> over (ul_reader u) | None \<Rightarrow> False)
                      then brokerError 413 msg_over_limit
                      else unavailable) c)
         | Some r \<Rightarrow>
             let status = rs_StatusCode r
             in if bc_Stream (c_req c) \<and> status \<ge> 100 \<and> status \<le> 599 \<and>
                   isEventStream (s_mime S) (rs_ContentType r)
                  then (pressure S r now b, c\<lparr>c_phase := Streaming route r (sentBytes c) started\<rparr>)
                else if rs_ContentLength r > maxHostResponseBytes
                  then (record_row (row_of route status False (sentBytes c) 0 latency) b, answer unavailable c)
                else
                  (case read_all_limited (nat (maxHostResponseBytes + 1)) (rs_Body r) of
                     None \<Rightarrow>
                       (record_row (row_of route status False (sentBytes c) 0 latency) b, answer unavailable c)
                   | Some body \<Rightarrow>
                       if int (length body) > maxHostResponseBytes \<or> status < 100 \<or> status > 599
                         then (record_row (row_of route status False (sentBytes c) 0 latency) b,
                               answer unavailable c)
                       else
                         (pressure S r now
                            (record_row (row_of route status True (sentBytes c) (int (length body)) latency) b),
                          answer \<lparr>bp_Status = status, bp_ContentType = answer_type (rs_ContentType r),
                             bp_Body = body, bp_FromBroker = False, bp_Streamed = False\<rparr> c)))"

definition do_stream :: "piece list \<Rightarrow> gotime \<Rightarrow> host_route \<Rightarrow> http_response \<Rightarrow> int \<Rightarrow> gotime \<Rightarrow>
    broker \<Rightarrow> call \<Rightarrow> broker \<times> call" where
  "do_stream pieces now route resp reqBytes started b c =
     (case stream_loop pieces 0 '''' of
        (written, delivered, out) \<Rightarrow>
          (record_row (row_of route (rs_StatusCode resp) delivered reqBytes written (time_sub now started)) b,
           answer \<lparr>bp_Status = rs_StatusCode resp, bp_ContentType = rs_ContentType resp, bp_Body = '''',
              bp_FromBroker = False, bp_Streamed = True\<rparr> c))"

subsection \<open>The upload while a call is in flight\<close>

definition do_read_begin :: "int \<Rightarrow> upload_log \<Rightarrow> upload_log" where
  "do_read_begin len u = u\<lparr>ul_reader := snd (read_begin len (ul_reader u))\<rparr>"

definition do_read_end :: "int \<Rightarrow> read_error option \<Rightarrow> upload_log \<Rightarrow> upload_log" where
  "do_read_end n err u =
     (case read_end n err (ul_reader u) of
        ((n', err'), r) \<Rightarrow> u\<lparr>ul_reader := r, ul_delivered := ul_delivered u + n'\<rparr>)"

text \<open>\<open>upload.Close\<close> with the \<open>settle\<close> function \<open>Call\<close> gave it.\<close>

definition do_close :: "broker \<Rightarrow> call \<Rightarrow> broker \<times> call" where
  "do_close b c =
     (case c_upload c of
        None \<Rightarrow> (b, c)
      | Some u \<Rightarrow>
          (case crd_Close (ul_reader u) of
             (None, r) \<Rightarrow> (b, c\<lparr>c_upload := Some (u\<lparr>ul_reader := r\<rparr>)\<rparr>)
           | (Some sent, r) \<Rightarrow>
               (b\<lparr>b_sent := b_sent b + (sent - c_held c)\<rparr>,
                c\<lparr>c_upload := Some (u\<lparr>ul_reader := r, ul_settled := ul_settled u @ [sent]\<rparr>)\<rparr>)))"

text \<open>The deferred functions in the order they run: the upload is closed, the slot given back,
  the call counted out.\<close>

definition upload_open :: "call \<Rightarrow> bool" where
  "upload_open c \<longleftrightarrow> (case c_upload c of None \<Rightarrow> False | Some u \<Rightarrow> \<not> crd_closed (ul_reader u))"

definition do_return :: "broker_response \<Rightarrow> broker \<Rightarrow> call \<Rightarrow> broker \<times> call" where
  "do_return r b c =
     (if c_reserved c \<and> upload_open c then do_close b c
      else if c_slot c then (b\<lparr>b_requests := b_requests b - 1\<rparr>, c\<lparr>c_slot := False\<rparr>)
      else if c_entered c then (b\<lparr>b_inflight := b_inflight b - 1\<rparr>, c\<lparr>c_entered := False\<rparr>)
      else (b, c\<lparr>c_phase := Finished r\<rparr>))"

lemmas stage_defs [atomic_defs] = answer_def deny_def shed_def do_enter_def do_slot_def do_count_def
  do_match_def do_gate_def do_probe_send_def do_probe_def do_body_def do_reserve_def reserveRequestBytes_def do_charge_def
  do_build_def do_send_def do_answer_def do_stream_def do_close_def do_return_def record_row_def
  pressure_def

subsection \<open>Steps\<close>

inductive call_step :: "session \<Rightarrow> broker \<times> call \<Rightarrow> broker \<times> call \<Rightarrow> bool" for S where
  enter: "c_phase c = Arrived \<Longrightarrow> call_step S (b, c) (do_enter b c)"
| slot: "c_phase c = Entered \<Longrightarrow> call_step S (b, c) (do_slot b c)"
| count: "c_phase c = Slotted \<Longrightarrow> call_step S (b, c) (do_count S b c)"
| match: "c_phase c = Counted \<Longrightarrow> call_step S (b, c) (do_match S b c)"
| gate: "c_phase c = Matched route \<Longrightarrow> call_step S (b, c) (do_gate S now route b c)"
| probe_send: "c_phase c = Probing route gen \<Longrightarrow> call_step S (b, c) (do_probe_send S route gen b c)"
| probe: "c_phase c = Probed route gen \<Longrightarrow> call_step S (b, c) (do_probe S resp now route gen b c)"
| body: "c_phase c = Admitted route \<Longrightarrow> call_step S (b, c) (do_body S route b c)"
| reserve: "c_phase c = Bodied route ct \<Longrightarrow> call_step S (b, c) (do_reserve S route ct b c)"
| charge: "c_phase c = Reserved route ct \<Longrightarrow> call_step S (b, c) (do_charge S route ct b c)"
| build: "c_phase c = Charged route ct \<Longrightarrow> call_step S (b, c) (do_build S route ct b c)"
| send: "c_phase c = Ready route req \<Longrightarrow> call_step S (b, c) (do_send now route req b c)"
| answer: "c_phase c = Sent route started \<Longrightarrow> call_step S (b, c) (do_answer S resp now route started b c)"
| stream: "c_phase c = Streaming route resp n started \<Longrightarrow>
     call_step S (b, c) (do_stream pieces now route resp n started b c)"
| return: "c_phase c = Returning r \<Longrightarrow> call_step S (b, c) (do_return r b c)"
| read_begin: "c_wire c \<noteq> None \<Longrightarrow> c_upload c = Some u \<Longrightarrow> crd_waiting (ul_reader u) = None \<Longrightarrow>
     0 \<le> len \<Longrightarrow> call_step S (b, c) (b, c\<lparr>c_upload := Some (do_read_begin len u)\<rparr>)"
| read_end: "c_wire c \<noteq> None \<Longrightarrow> c_upload c = Some u \<Longrightarrow> crd_waiting (ul_reader u) = Some m \<Longrightarrow>
     0 \<le> n \<Longrightarrow> n \<le> m \<Longrightarrow> call_step S (b, c) (b, c\<lparr>c_upload := Some (do_read_end n err u)\<rparr>)"
| close: "c_wire c \<noteq> None \<Longrightarrow> call_step S (b, c) (do_close b c)"

text \<open>
  The session: calls arrive, advance one at a time, the run ends, and where the route
  budget is a session's, its other calls charge it too.
\<close>

inductive broker_step :: "session \<Rightarrow> broker \<times> call list \<Rightarrow> broker \<times> call list \<Rightarrow> bool" for S where
  arrive: "broker_step S (b, cs) (b, cs @ [new_call q])"
| step: "i < length cs \<Longrightarrow> call_step S (b, cs ! i) (b', c') \<Longrightarrow> broker_step S (b, cs) (b', cs[i := c'])"
| end1: "broker_step S (b, cs) (end_refuse b, cs)"
| end2: "b_ended b \<Longrightarrow> broker_step S (b, cs) (end_cancel b, cs)"
| share: "charge nl origin capped limits (b_routes b) = (ok, r) \<Longrightarrow>
     broker_step S (b, cs) (b\<lparr>b_routes := r\<rparr>, cs)"

text \<open>A session begins as \<open>newBrokerSession\<close> made it, with a fresh route budget or the one
  \<open>brokerSessionForGrant\<close> was passed.\<close>

definition broker_init :: "session \<Rightarrow> broker \<times> call list \<Rightarrow> bool" where
  "broker_init S x \<longleftrightarrow> (case x of (b, cs) \<Rightarrow>
     cs = [] \<and>
     newBrokerSession (s_net S) (s_mime S) (s_parseTime S) (s_requestURI S) (Some (s_grant S)) (s_token S) = Inr (S, new_broker) \<and>
     (\<exists>r sh. budget_ok r \<and> b = new_broker\<lparr>b_routes := r, b_shared := sh\<rparr>))"

lemma newBrokerSession_made:
  assumes "newBrokerSession nl ml pt ru g token = Inr (S, b)"
  shows "g = Some (s_grant S)" "Validate (s_net S) (s_grant S) = None" "b = new_broker"
    "url_Parse (s_net S) (g_BaseURL (s_grant S)) = Some (s_origin S)"
    "s_token S = token" "list_all bearer_char (s_token S)"
    "newBrokerSession (s_net S) (s_mime S) (s_parseTime S) (s_requestURI S) (Some (s_grant S)) (s_token S) = Inr (S, new_broker)"
  using assms by (auto simp: newBrokerSession_def list_all_iff list_ex_iff split: option.splits if_splits)

lemma broker_init_valid: "broker_init S x \<Longrightarrow> Validate (s_net S) (s_grant S) = None"
  by (auto simp: broker_init_def dest: newBrokerSession_made(2) split: prod.splits)

subsection \<open>One call on its own\<close>

text \<open>
  What the world answers to one call: the clock at each place that reads it, the probe's
  and the call's answers, the transport's reads of an upload (buffer size, bytes the
  guest gave, error) and the pieces of a stream.
\<close>

record world =
  w_gate :: gotime
  w_probe :: "http_response option"
  w_probed :: gotime
  w_started :: gotime
  w_reads :: "(int \<times> int \<times> read_error option) list"
  w_answer :: "http_response option"
  w_answered :: gotime
  w_pieces :: "piece list"
  w_streamed :: gotime

fun upload_reads :: "(int \<times> int \<times> read_error option) list \<Rightarrow> upload_log \<Rightarrow> upload_log" where
  "upload_reads [] u = u"
| "upload_reads ((len, n, err) # rs) u =
     (if len < 0 \<or> crd_waiting (ul_reader u) \<noteq> None then u
      else
        case read_begin len (ul_reader u) of
          (Inl e, r) \<Rightarrow> u
        | (Inr m, r) \<Rightarrow> upload_reads rs (do_read_end (max 0 (min n m)) err (do_read_begin len u)))"

definition do_reads :: "world \<Rightarrow> call \<Rightarrow> call" where
  "do_reads w c = c\<lparr>c_upload := map_option (upload_reads (w_reads w)) (c_upload c)\<rparr>"

definition next_stage :: "session \<Rightarrow> world \<Rightarrow> broker \<times> call \<Rightarrow> broker \<times> call" where
  "next_stage S w x = (case x of (b, c) \<Rightarrow>
     (case c_phase c of
        Arrived \<Rightarrow> do_enter b c
      | Entered \<Rightarrow> do_slot b c
      | Slotted \<Rightarrow> do_count S b c
      | Counted \<Rightarrow> do_match S b c
      | Matched route \<Rightarrow> do_gate S (w_gate w) route b c
      | Probing route gen \<Rightarrow> do_probe_send S route gen b c
      | Probed route gen \<Rightarrow> do_probe S (w_probe w) (w_probed w) route gen b c
      | Admitted route \<Rightarrow> do_body S route b c
      | Bodied route ct \<Rightarrow> do_reserve S route ct b c
      | Reserved route ct \<Rightarrow> do_charge S route ct b c
      | Charged route ct \<Rightarrow> do_build S route ct b c
      | Ready route req \<Rightarrow> do_send (w_started w) route req b c
      | Sent route started \<Rightarrow> do_answer S (w_answer w) (w_answered w) route started b (do_reads w c)
      | Streaming route resp n started \<Rightarrow> do_stream (w_pieces w) (w_streamed w) route resp n started b c
      | Returning r \<Rightarrow> do_return r b c
      | Finished r \<Rightarrow> (b, c)))"

text \<open>Eighteen stages are the most a call passes, so twenty rounds finish every call.\<close>

definition Call :: "session \<Rightarrow> world \<Rightarrow> broker \<Rightarrow> broker_call \<Rightarrow> broker \<times> call" where
  "Call S w b q = (next_stage S w ^^ 20) (b, new_call q)"

definition call_response :: "call \<Rightarrow> broker_response option" where
  "call_response c = (case c_phase c of Finished r \<Rightarrow> Some r | _ \<Rightarrow> None)"

definition stage_no :: "call \<Rightarrow> nat" where
  "stage_no c = (case c_phase c of
     Arrived \<Rightarrow> 0 | Entered \<Rightarrow> 1 | Slotted \<Rightarrow> 2 | Counted \<Rightarrow> 3 | Matched _ \<Rightarrow> 4 | Probing _ _ \<Rightarrow> 5 | Probed _ _ \<Rightarrow> 6
   | Admitted _ \<Rightarrow> 7 | Bodied _ _ \<Rightarrow> 8 | Reserved _ _ \<Rightarrow> 9 | Charged _ _ \<Rightarrow> 10 | Ready _ _ \<Rightarrow> 11
   | Sent _ _ \<Rightarrow> 12 | Streaming _ _ _ _ \<Rightarrow> 13
   | Returning _ \<Rightarrow> 14 + of_bool (\<not> (c_reserved c \<and> upload_open c)) + of_bool (\<not> c_slot c) + of_bool (\<not> c_entered c)
   | Finished _ \<Rightarrow> 18)"

lemma stage_advance_simps:
  "0 < stage_no (snd (do_enter b c))" "1 < stage_no (snd (do_slot b c))"
  "2 < stage_no (snd (do_count S b c))" "3 < stage_no (snd (do_match S b c))"
  "4 < stage_no (snd (do_gate S now route b c))" "5 < stage_no (snd (do_probe_send S route gen b c))"
  "6 < stage_no (snd (do_probe S resp now route gen b c))"
  "7 < stage_no (snd (do_body S route b c))" "8 < stage_no (snd (do_reserve S route ct b c))"
  "9 < stage_no (snd (do_charge S route ct b c))" "10 < stage_no (snd (do_build S route ct b c))"
  "11 < stage_no (snd (do_send now route req b c))"
  "12 < stage_no (snd (do_answer S resp now route st b c))"
  "13 < stage_no (snd (do_stream pieces now route rsp n st b c))"
  by (auto simp: stage_defs Let_def stage_no_def split: option.splits prod.splits)

lemma stage_advances:
  "(\<exists>r. c_phase c = Finished r) \<or> stage_no c < stage_no (snd (next_stage S w (b, c)))"
proof (cases "c_phase c")
  case (Returning r)
  then show ?thesis
    by (auto simp: next_stage_def stage_no_def do_return_def do_close_def upload_open_def crd_Close_def
          split: option.splits)
qed (auto simp: next_stage_def stage_no_def [of c] stage_advance_simps stage_advance_simps(2) [unfolded One_nat_def])

lemma next_stage_Finished: "c_phase c = Finished r \<Longrightarrow> next_stage S w (b, c) = (b, c)"
  by (simp add: next_stage_def)

lemma stages_finish:
  "(\<exists>r. c_phase (snd ((next_stage S w ^^ n) x)) = Finished r) \<or>
    n \<le> stage_no (snd ((next_stage S w ^^ n) x))"
proof (induction n)
  case (Suc n)
  obtain b c where bc: "(next_stage S w ^^ n) x = (b, c)" by force
  show ?case
  proof (cases "\<exists>r. c_phase c = Finished r")
    case True
    with bc show ?thesis by (auto simp: next_stage_Finished)
  next
    case False
    with Suc bc stage_advances [of c S w b] show ?thesis by auto
  qed
qed simp

lemma stage_no_le: "stage_no c \<le> 18"
  by (cases "c_phase c") (auto simp: stage_no_def of_bool_def)

lemma Call_finishes: "\<exists>r. call_response (snd (Call S w b q)) = Some r"
  using stages_finish [where S = S and w = w and n = 20 and x = "(b, new_call q)"] stage_no_le [of "snd (Call S w b q)"]
  by (auto simp: Call_def call_response_def)

end
