(* ===== verification/Broker_Inv.thy ===== *)
theory Broker_Inv
  imports Broker
begin

text \<open>
  Invariants of a broker session under every interleaving of its calls: what holds of a
  call in each phase, the counters as sums over the calls (one instance of
  \<open>broker_tally\<close> per counter), the limits, the route caps, and what \<open>End\<close> leaves.
\<close>

subsection \<open>What holds of one call\<close>

text \<open>The bytes a call holds reserved, against its buffered body or its upload.\<close>

definition bytes_fit :: "int \<Rightarrow> string \<Rightarrow> upload_log option \<Rightarrow> bool" where
  "bytes_fit held body upload \<longleftrightarrow> 0 \<le> held \<and>
     (case upload of None \<Rightarrow> held = int (length body) | Some u \<Rightarrow> upload_inv held u)"

abbreviation bytes_ok :: "call \<Rightarrow> bool" where
  "bytes_ok c \<equiv> bytes_fit (c_held c) (c_body c) (c_upload c)"

text \<open>A request as the broker builds it: for a target the grant matches, the broker's headers.\<close>

definition wire_fits :: "session \<Rightarrow> broker_call \<Rightarrow> host_route list \<Rightarrow> http_request \<Rightarrow> bool" where
  "wire_fits S q capped req \<longleftrightarrow>
     (\<exists>hasBody ct. hq_Headers req = request_headers (s_grant S) (s_token S) q hasBody ct) \<and>
     hq_Method req = to_upper (bc_Method q) \<and> hq_Path req = bc_RawTarget q \<and> hq_Origin req = s_origin S \<and>
     matchRawTarget (s_grant S) (hq_Method req) (hq_Path req) \<noteq> None \<and>
     capped = cappedRoutesMatching (s_grant S) (hq_Method req) (hq_Path req)"

abbreviation wire_ok :: "session \<Rightarrow> call \<Rightarrow> http_request \<Rightarrow> bool" where
  "wire_ok S c \<equiv> wire_fits S (c_req c) (c_capped c)"

abbreviation matched :: "session \<Rightarrow> call \<Rightarrow> host_route \<Rightarrow> bool" where
  "matched S c route \<equiv>
     matchRawTarget (s_grant S) (to_upper (bc_Method (c_req c))) (bc_RawTarget (c_req c)) = Some route"

abbreviation flags :: "call \<Rightarrow> bool \<Rightarrow> bool \<Rightarrow> bool \<Rightarrow> bool \<Rightarrow> bool" where
  "flags c entered slot counted reserved \<equiv>
     c_entered c = entered \<and> c_slot c = slot \<and> c_counted c = counted \<and> c_reserved c = reserved"

abbreviation blank :: "call \<Rightarrow> bool" where
  "blank c \<equiv> c_upload c = None \<and> c_body c = '''' \<and> c_held c = 0 \<and> c_capped c = [] \<and> c_wire c = None"

definition spent_ok :: "call \<Rightarrow> bool" where
  "spent_ok c \<longleftrightarrow>
     (c_reserved c \<longrightarrow> bytes_ok c) \<and> (\<not> c_reserved c \<longrightarrow> c_upload c = None \<and> c_wire c = None)"

abbreviation wired :: "session \<Rightarrow> call \<Rightarrow> bool" where
  "wired S c \<equiv> (case c_wire c of None \<Rightarrow> True | Some req \<Rightarrow> c_counted c \<and> wire_ok S c req)"

definition phase_ok :: "session \<Rightarrow> call \<Rightarrow> bool" where
  "phase_ok S c \<longleftrightarrow> (case c_phase c of
     Arrived \<Rightarrow> flags c False False False False \<and> \<not> c_spent c \<and> blank c
   | Entered \<Rightarrow> flags c True False False False \<and> \<not> c_spent c \<and> blank c
   | Slotted \<Rightarrow> flags c True True False False \<and> \<not> c_spent c \<and> blank c
   | Counted \<Rightarrow> flags c True True True False \<and> blank c
   | Matched route \<Rightarrow> flags c True True True False \<and> blank c \<and> matched S c route
   | Probing route gen \<Rightarrow> flags c True True True False \<and> blank c \<and> matched S c route
   | Probed route gen \<Rightarrow> flags c True True True False \<and> blank c \<and> matched S c route
   | Admitted route \<Rightarrow> flags c True True True False \<and> blank c \<and> matched S c route
   | Bodied route ct \<Rightarrow> flags c True True True False \<and> bytes_ok c \<and> c_capped c = [] \<and> c_wire c = None \<and>
       matched S c route \<and> (c_upload c = None \<or> c_upload c = Some (new_upload (c_held c)))
   | Reserved route ct \<Rightarrow> flags c True True True True \<and> bytes_ok c \<and> c_capped c = [] \<and> c_wire c = None \<and>
       matched S c route
   | Charged route ct \<Rightarrow> flags c True True True True \<and> bytes_ok c \<and> c_wire c = None \<and> matched S c route \<and>
       c_capped c = cappedRoutesMatching (s_grant S) (to_upper (bc_Method (c_req c))) (bc_RawTarget (c_req c))
   | Ready route req \<Rightarrow> flags c True True True True \<and> bytes_ok c \<and> c_wire c = None \<and> wire_ok S c req
   | Sent route st \<Rightarrow> flags c True True True True \<and> bytes_ok c \<and> c_wire c \<noteq> None \<and> wired S c
   | Streaming route resp n st \<Rightarrow> flags c True True True True \<and> bytes_ok c \<and> c_wire c \<noteq> None \<and> wired S c
   | Returning r \<Rightarrow> (c_slot c \<longrightarrow> c_entered c) \<and> spent_ok c \<and> wired S c
   | Finished r \<Rightarrow> \<not> c_slot c \<and> \<not> c_entered c \<and> \<not> upload_open c \<and> spent_ok c \<and> wired S c)"

lemma phase_ok_new: "phase_ok S (new_call q)"
  by (simp add: phase_ok_def new_call_def)

lemma upload_inv_new: "0 \<le> n \<Longrightarrow> upload_inv n (new_upload n)"
  using upload.inv_init [of n "new_upload n"] by (simp add: upload_init_def new_upload_def)

lemma upload_inv_begin: "crd_waiting (ul_reader u) = None \<Longrightarrow> 0 \<le> len \<Longrightarrow> upload_inv n u \<Longrightarrow>
    upload_inv n (do_read_begin len u)"
  using upload.inv_step [OF upload_step.begin_read] by (simp add: do_read_begin_def)

lemma upload_inv_end:
  assumes "crd_waiting (ul_reader u) = Some m" "0 \<le> k" "k \<le> m" "upload_inv n u"
  shows "upload_inv n (do_read_end k err u)"
proof -
  obtain n' err' r where r: "read_end k err (ul_reader u) = ((n', err'), r)" by (metis prod.exhaust)
  from upload.inv_step [OF upload_step.end_read [OF assms(1-3) r] assms(4)] r
  show ?thesis by (simp add: do_read_end_def)
qed

lemma upload_inv_close:
  assumes "crd_Close (ul_reader u) = (settled, r)" "upload_inv n u"
  shows "upload_inv n (u\<lparr>ul_reader := r,
    ul_settled := ul_settled u @ (case settled of None \<Rightarrow> [] | Some k \<Rightarrow> [k])\<rparr>)"
  using upload.inv_step [OF upload_step.close [OF assms(1)] assms(2)] .

lemma bytes_fit_new: "0 \<le> n \<Longrightarrow> bytes_fit n '''' (Some (new_upload n))"
  "bytes_fit (int (length body)) body None" "bytes_fit 0 '''' None"
  by (simp_all add: bytes_fit_def upload_inv_new)

lemma do_close_upload:
  assumes "bytes_fit (c_held c) (c_body c) (c_upload c)"
  shows "bytes_ok (snd (do_close b c))"
proof (cases "c_upload c")
  case (Some u)
  with assms have i: "upload_inv (c_held c) u" "0 \<le> c_held c" by (simp_all add: bytes_fit_def)
  obtain settled r where "crd_Close (ul_reader u) = (settled, r)" by force
  with upload_inv_close [OF this i(1)] i(2) Some show ?thesis
    by (auto simp: do_close_def bytes_fit_def split: option.splits)
qed (use assms in \<open>simp add: do_close_def\<close>)

lemma do_close_keeps [simp]:
  "c_phase (snd (do_close b c)) = c_phase c" "c_entered (snd (do_close b c)) = c_entered c"
  "c_slot (snd (do_close b c)) = c_slot c" "c_held (snd (do_close b c)) = c_held c"
  "c_body (snd (do_close b c)) = c_body c" "c_req (snd (do_close b c)) = c_req c"
  "c_spent (snd (do_close b c)) = c_spent c" "c_counted (snd (do_close b c)) = c_counted c"
  "c_reserved (snd (do_close b c)) = c_reserved c" "c_capped (snd (do_close b c)) = c_capped c"
  "c_wire (snd (do_close b c)) = c_wire c" "c_upload (snd (do_close b c)) = None \<longleftrightarrow> c_upload c = None"
  by (auto simp: do_close_def split: option.splits prod.splits)

lemma do_close_closed: "\<not> upload_open (snd (do_close b c))"
  by (auto simp: do_close_def upload_open_def crd_Close_def split: option.splits)

lemma stages_ok:
  assumes "phase_ok S c"
  shows "c_phase c = Arrived \<Longrightarrow> phase_ok S (snd (do_enter b c))"
    and "c_phase c = Entered \<Longrightarrow> phase_ok S (snd (do_slot b c))"
    and "c_phase c = Slotted \<Longrightarrow> phase_ok S (snd (do_count S b c))"
    and "c_phase c = Counted \<Longrightarrow> phase_ok S (snd (do_match S b c))"
    and "c_phase c = Matched route \<Longrightarrow> phase_ok S (snd (do_gate S now route b c))"
    and "c_phase c = Probing route gen \<Longrightarrow> phase_ok S (snd (do_probe_send S route gen b c))"
    and "c_phase c = Probed route gen \<Longrightarrow> phase_ok S (snd (do_probe S resp now route gen b c))"
    and "c_phase c = Reserved route ct \<Longrightarrow> phase_ok S (snd (do_charge S route ct b c))"
    and "c_phase c = Bodied route ct \<Longrightarrow> phase_ok S (snd (do_reserve S route ct b c))"
    and "c_phase c = Ready route req \<Longrightarrow> phase_ok S (snd (do_send now route req b c))"
    and "c_phase c = Streaming route rsp n st \<Longrightarrow> phase_ok S (snd (do_stream ps now route rsp n st b c))"
  using assms
  by (auto simp: phase_ok_def spent_ok_def stage_defs Let_def bytes_fit_new
        split: option.splits prod.splits)

lemma do_answer_cases:
  "(\<exists>r. snd (do_answer S resp now route st b c) = answer r c) \<or>
   (\<exists>r n. snd (do_answer S resp now route st b c) = c\<lparr>c_phase := Streaming route r n st\<rparr>)"
  by (auto simp: do_answer_def Let_def split: option.splits)

lemma sent_ok:
  assumes "phase_ok S c" and "c_phase c = Sent route st"
  shows "phase_ok S (answer r c)" "phase_ok S (c\<lparr>c_phase := Streaming route rsp n st\<rparr>)"
  using assms by (auto simp: phase_ok_def spent_ok_def answer_def)

lemma build_request_fits:
  assumes "build_request S ct c = Some req" and "matched S c route"
    and "c_capped c = cappedRoutesMatching (s_grant S) (to_upper (bc_Method (c_req c))) (bc_RawTarget (c_req c))"
  shows "wire_ok S c req"
  unfolding wire_fits_def
proof (intro conjI exI)
  show "hq_Headers req = request_headers (s_grant S) (s_token S) (c_req c)
      (c_upload c \<noteq> None \<or> length (c_body c) > 0) ct"
    using assms by (simp add: build_request_def Let_def split: option.splits if_splits) auto
qed (use assms in \<open>auto simp: build_request_def Let_def split: option.splits if_splits\<close>)

lemma stages_ok':
  assumes "phase_ok S c"
  shows "c_phase c = Admitted route \<Longrightarrow> phase_ok S (snd (do_body S route b c))"
    and "c_phase c = Charged route ct \<Longrightarrow> phase_ok S (snd (do_build S route ct b c))"
    and "c_phase c = Sent route st \<Longrightarrow> phase_ok S (snd (do_answer S oresp now route st b c))"
    and "c_phase c = Returning r \<Longrightarrow> phase_ok S (snd (do_return r b c))"
  subgoal
    using assms
    by (auto simp: phase_ok_def spent_ok_def do_body_def deny_def answer_def Let_def bytes_fit_new
          grant_limits split: option.splits)
  subgoal
    using assms build_request_fits [of S ct c _ route]
    by (cases "build_request S ct c") (simp_all add: phase_ok_def spent_ok_def do_build_def deny_def answer_def)
  subgoal
    using sent_ok [OF assms] do_answer_cases [of S oresp now route st b c] by metis
  subgoal
    using assms do_close_upload [of c b] do_close_closed [of b c]
    by (auto simp: phase_ok_def spent_ok_def do_return_def upload_open_def split: option.splits)
  done

text \<open>Once a call's request is at the transport its bytes are reserved and stay so.\<close>

lemma wire_facts:
  assumes "phase_ok S c" and "c_wire c = Some req"
  shows "c_reserved c" "c_counted c" "bytes_ok c" "wire_ok S c req"
  using assms by (auto simp: phase_ok_def spent_ok_def split: phase.splits)

lemma phase_ok_upload:
  assumes ok: "phase_ok S c" and w: "c_wire c \<noteq> None" and u: "c_upload c = Some u"
    and u': "upload_inv (c_held c) u'" "crd_closed (ul_reader u) \<Longrightarrow> crd_closed (ul_reader u')"
  shows "phase_ok S (c\<lparr>c_upload := Some u'\<rparr>)"
proof -
  obtain req where req: "c_wire c = Some req" using w by blast
  have "bytes_fit (c_held c) (c_body c) (Some u')" "c_reserved c"
    using wire_facts(1,3) [OF ok req] u u'(1) by (simp_all add: bytes_fit_def)
  with ok w u u'(2) show ?thesis
    by (auto simp: phase_ok_def spent_ok_def upload_open_def split: phase.splits)
qed

lemma upload_of_wire: "phase_ok S c \<Longrightarrow> c_wire c \<noteq> None \<Longrightarrow> c_upload c = Some u \<Longrightarrow> upload_inv (c_held c) u"
  using wire_facts(3) [of S c] by (fastforce simp: bytes_fit_def)

lemma reads_keep_closed:
  "crd_closed (ul_reader u) \<Longrightarrow> crd_closed (ul_reader (do_read_begin len u))"
  "crd_closed (ul_reader u) \<Longrightarrow> crd_closed (ul_reader (do_read_end n err u))"
  by (simp_all add: do_read_begin_def do_read_end_def read_begin_def read_end_def)

lemma do_close_ok:
  assumes ok: "phase_ok S c" and w: "c_wire c \<noteq> None"
  shows "phase_ok S (snd (do_close b c))"
proof (cases "c_upload c")
  case None
  then show ?thesis using ok by (simp add: do_close_def)
next
  case (Some u)
  obtain settled r where cl: "crd_Close (ul_reader u) = (settled, r)" by force
  let ?u = "u\<lparr>ul_reader := r, ul_settled := ul_settled u @ (case settled of None \<Rightarrow> [] | Some k \<Rightarrow> [k])\<rparr>"
  have "phase_ok S (c\<lparr>c_upload := Some ?u\<rparr>)"
    using phase_ok_upload [OF ok w Some upload_inv_close [OF cl upload_of_wire [OF ok w Some]]] cl
    by (auto simp: crd_Close_def split: if_splits)
  then show ?thesis using Some cl by (auto simp: do_close_def split: option.splits)
qed

lemma call_step_ok: "call_step S x y \<Longrightarrow> phase_ok S (snd x) \<Longrightarrow> phase_ok S (snd y)"
proof (induction rule: call_step.induct)
  case (read_begin c u len b)
  then show ?case
    using phase_ok_upload [of S c u "do_read_begin len u"] upload_inv_begin [of u len "c_held c"]
      upload_of_wire [of S c u] reads_keep_closed(1) by simp
next
  case (read_end c u m n b err)
  then show ?case
    using phase_ok_upload [of S c u "do_read_end n err u"] upload_inv_end [of u m n "c_held c" err]
      upload_of_wire [of S c u] reads_keep_closed(2) by simp
qed (use do_close_ok in \<open>auto simp: stages_ok stages_ok'\<close>)

subsection \<open>What holds of a session\<close>

text \<open>
  A counter of the session that equals the sum of what its calls contributed: every
  stage changes the counter by exactly what it changes in the call.
\<close>

definition all_ok :: "session \<Rightarrow> broker \<times> call list \<Rightarrow> bool" where
  "all_ok S x \<longleftrightarrow> (\<forall>c \<in> set (snd x). phase_ok S c)"

interpretation calls: inductive_invariant "broker_init S" "broker_step S" "all_ok S" for S
proof
  show "broker_init S s \<Longrightarrow> all_ok S s" for s
    by (auto simp: broker_init_def all_ok_def)
  show "broker_step S s t \<Longrightarrow> all_ok S s \<Longrightarrow> all_ok S t" for s t
  proof (induction rule: broker_step.induct)
    case (step i cs b b' c')
    then have "phase_ok S c'" using call_step_ok [OF step(2)] by (auto simp: all_ok_def)
    with step show ?case by (auto simp: all_ok_def dest!: set_update_subset_insert [THEN subsetD])
  qed (auto simp: all_ok_def phase_ok_new)
qed

locale broker_tally =
  fixes S :: session and total :: "broker \<Rightarrow> int" and part :: "call \<Rightarrow> int"
  assumes total_new: "total new_broker = 0"
    and total_end: "total (b\<lparr>b_ended := True\<rparr>) = total b" "total (b\<lparr>b_life_over := True\<rparr>) = total b"
    and total_routes: "total (b\<lparr>b_routes := r\<rparr>) = total b" "total (b\<lparr>b_shared := sh\<rparr>) = total b"
    and part_new: "part (new_call q) = 0"
    and step_exact: "phase_ok S (snd x) \<Longrightarrow> call_step S x y \<Longrightarrow>
      total (fst y) - part (snd y) = total (fst x) - part (snd x)"
begin

lemma tally_step:
  assumes "broker_step S x y" and "all_ok S x" and "total (fst x) = sum_list (map part (snd x))"
  shows "total (fst y) = sum_list (map part (snd y))"
  using assms
proof (induction rule: broker_step.induct)
  case (step i cs b b' c')
  then have "total b' - part c' = total b - part (cs ! i)"
    using step_exact [of "(b, cs ! i)" "(b', c')"] by (auto simp: all_ok_def)
  with step show ?case by (simp add: sum_list_upd)
qed (auto simp: total_end total_routes part_new end_refuse_def end_cancel_def)

lemma tally: "reach (broker_init S) (broker_step S) x \<Longrightarrow> total (fst x) = sum_list (map part (snd x))"
proof (induction rule: reach.induct)
  case (reach_init s)
  then show ?case by (auto simp: broker_init_def total_routes total_new)
next
  case (reach_step s t)
  then show ?case using tally_step calls.reach_inv by blast
qed

end

subsection \<open>The counters of a session\<close>

text \<open>Most stages leave the counters, and what the call contributed to them, alone.\<close>

definition quiet :: "broker \<times> call \<Rightarrow> broker \<times> call \<Rightarrow> bool" where
  "quiet x y \<longleftrightarrow> (case (x, y) of ((b, c), (b', c')) \<Rightarrow>
     b_requests b' = b_requests b \<and> b_inflight b' = b_inflight b \<and> b_callsMade b' = b_callsMade b \<and>
     b_sent b' = b_sent b \<and> b_routes b' = b_routes b \<and> b_ended b' = b_ended b \<and> b_life_over b' = b_life_over b \<and>
     c_slot c' = c_slot c \<and> c_entered c' = c_entered c \<and> c_spent c' = c_spent c \<and> c_counted c' = c_counted c \<and>
     c_reserved c' = c_reserved c \<and> c_capped c' = c_capped c \<and> c_req c' = c_req c)"

lemma quiet_stages:
  "quiet (b, c) (do_match S b c)" "quiet (b, c) (do_gate S now route b c)"
  "quiet (b, c) (do_probe_send S route gen b c)" "quiet (b, c) (do_probe S rsp now route gen b c)" "quiet (b, c) (do_body S route b c)"
  "quiet (b, c) (do_build S route ct b c)" "quiet (b, c) (do_send now route req b c)"
  "quiet (b, c) (do_answer S rsp now route st b c)" "quiet (b, c) (do_stream ps now route resp n st b c)"
  by (simp_all add: quiet_def stage_defs Let_def split: option.split prod.split)

lemmas quiet_facts = quiet_stages [unfolded quiet_def split_beta, simplified]

lemmas loud_defs = quiet_facts do_enter_def do_slot_def do_count_def do_reserve_def
  reserveRequestBytes_def do_charge_def do_return_def deny_def answer_def do_close_def Let_def

interpretation slots: broker_tally S b_requests "\<lambda>c. of_bool (c_slot c)" for S
proof
  fix x y assume ok: "phase_ok S (snd x)" and st: "call_step S x y"
  from st ok show "b_requests (fst y) - of_bool (c_slot (snd y)) = b_requests (fst x) - of_bool (c_slot (snd x))"
    by induction (auto simp: loud_defs phase_ok_def split: option.splits prod.splits)
qed (auto simp: new_broker_def new_call_def)

interpretation inflight: broker_tally S b_inflight "\<lambda>c. of_bool (c_entered c)" for S
proof
  fix x y assume ok: "phase_ok S (snd x)" and st: "call_step S x y"
  from st ok show "b_inflight (fst y) - of_bool (c_entered (snd y)) = b_inflight (fst x) - of_bool (c_entered (snd x))"
    by induction (auto simp: loud_defs phase_ok_def split: option.splits prod.splits)
qed (auto simp: new_broker_def new_call_def)

interpretation spent: broker_tally S b_callsMade "\<lambda>c. of_bool (c_spent c)" for S
proof
  fix x y assume ok: "phase_ok S (snd x)" and st: "call_step S x y"
  from st ok show "b_callsMade (fst y) - of_bool (c_spent (snd y)) = b_callsMade (fst x) - of_bool (c_spent (snd x))"
    by induction (auto simp: loud_defs phase_ok_def split: option.splits prod.splits)
qed (auto simp: new_broker_def new_call_def)

lemma CallBudget_pos: "1 \<le> CallBudget g"
  by (auto simp: CallBudget_def DefaultMaxHostCalls_def split: option.splits)

interpretation counted: broker_tally S "\<lambda>b. min (b_callsMade b) (CallBudget (Some (s_grant S)))"
    "\<lambda>c. of_bool (c_counted c)" for S
proof
  show "min (b_callsMade new_broker) (CallBudget (Some (s_grant S))) = 0"
    using CallBudget_pos [of "Some (s_grant S)"] by (simp add: new_broker_def)
  fix x y assume ok: "phase_ok S (snd x)" and st: "call_step S x y"
  from st ok show "min (b_callsMade (fst y)) (CallBudget (Some (s_grant S))) - of_bool (c_counted (snd y)) =
      min (b_callsMade (fst x)) (CallBudget (Some (s_grant S))) - of_bool (c_counted (snd x))"
    by induction (auto simp: loud_defs phase_ok_def split: option.splits prod.splits)
qed (auto simp: new_call_def)

text \<open>What a call has charged to the run's request bytes, and what it handed to the transport.\<close>

definition upload_charge :: "int \<Rightarrow> upload_log option \<Rightarrow> int" where
  "upload_charge held upload = (case upload of
     None \<Rightarrow> held | Some u \<Rightarrow> if crd_closed (ul_reader u) then crd_sent (ul_reader u) else held)"

definition call_charge :: "call \<Rightarrow> int" where
  "call_charge c = (if c_reserved c then upload_charge (c_held c) (c_upload c) else 0)"

definition call_delivered :: "call \<Rightarrow> int" where
  "call_delivered c = (if c_wire c = None then 0
     else case c_upload c of None \<Rightarrow> int (length (c_body c)) | Some u \<Rightarrow> ul_delivered u)"

lemma upload_charge_fresh: "bytes_fit held body upload \<Longrightarrow> (\<And>u. upload = Some u \<Longrightarrow> \<not> crd_closed (ul_reader u)) \<Longrightarrow>
    upload_charge held upload = held"
  by (auto simp: upload_charge_def split: option.splits)

lemma call_charge_reads:
  "call_charge (c\<lparr>c_upload := Some (do_read_begin len u)\<rparr>) = call_charge (c\<lparr>c_upload := Some u\<rparr>)"
  "call_charge (c\<lparr>c_upload := Some (do_read_end n err u)\<rparr>) = call_charge (c\<lparr>c_upload := Some u\<rparr>)"
  by (auto simp: call_charge_def upload_charge_def do_read_begin_def do_read_end_def read_begin_def
      read_end_def Let_def)

lemma call_charge_close:
  "c_reserved c \<Longrightarrow> b_sent (fst (do_close b c)) - call_charge (snd (do_close b c)) = b_sent b - call_charge c"
  by (auto simp: do_close_def call_charge_def upload_charge_def crd_Close_def split: option.splits)

lemma keeps_bytes:
  "c_held (snd (do_charge S route ct b c)) = c_held c" "c_upload (snd (do_charge S route ct b c)) = c_upload c"
  "c_held (snd (do_build S route ct b c)) = c_held c" "c_upload (snd (do_build S route ct b c)) = c_upload c"
  "c_held (snd (do_send now route req b c)) = c_held c" "c_upload (snd (do_send now route req b c)) = c_upload c"
  "c_held (snd (do_answer S rsp now route st b c)) = c_held c" "c_upload (snd (do_answer S rsp now route st b c)) = c_upload c"
  "c_held (snd (do_stream ps now route resp n st b c)) = c_held c"
  "c_upload (snd (do_stream ps now route resp n st b c)) = c_upload c"
  by (simp_all add: stage_defs Let_def split: option.split prod.split)

lemma unreserved_charge: "\<not> c_reserved c \<Longrightarrow> call_charge c = 0"
  by (simp add: call_charge_def)

lemma charge_flat:
  "b_sent (fst (do_charge S route ct b c)) = b_sent b" "c_reserved (snd (do_charge S route ct b c)) = c_reserved c"
  "b_sent (fst (do_enter b c)) = b_sent b" "c_reserved (snd (do_enter b c)) = c_reserved c"
  "b_sent (fst (do_slot b c)) = b_sent b" "c_reserved (snd (do_slot b c)) = c_reserved c"
  "b_sent (fst (do_count S b c)) = b_sent b" "c_reserved (snd (do_count S b c)) = c_reserved c"
  by (simp_all add: stage_defs Let_def split: prod.split)

lemma reserve_exact:
  assumes "phase_ok S c" and "c_phase c = Bodied route ct"
  shows "b_sent (fst (do_reserve S route ct b c)) - call_charge (snd (do_reserve S route ct b c)) = b_sent b - call_charge c"
  using assms
  by (auto simp: do_reserve_def reserveRequestBytes_def deny_def answer_def call_charge_def phase_ok_def
      upload_charge_def new_upload_def new_cap_reader_def)

lemma return_exact:
  "b_sent (fst (do_return r b c)) - call_charge (snd (do_return r b c)) = b_sent b - call_charge c"
  using call_charge_close [of c b] by (auto simp: do_return_def call_charge_def)

interpretation bytes: broker_tally S b_sent call_charge for S
proof
  fix x y assume ok: "phase_ok S (snd x)" and st: "call_step S x y"
  from st ok show "b_sent (fst y) - call_charge (snd y) = b_sent (fst x) - call_charge (snd x)"
  proof induction
    case (close c b)
    then show ?case using call_charge_close wire_facts(1) [of S c] by fastforce
  next
    case (read_begin c u len b)
    then show ?case by (simp add: call_charge_reads) (simp add: call_charge_def)
  next
    case (read_end c u m n b err)
    then show ?case by (simp add: call_charge_reads) (simp add: call_charge_def)
  next
    case (reserve c route ct b)
    then show ?case using reserve_exact by simp
  next
    case (return c r b)
    then show ?case using return_exact by simp
  qed (auto simp: quiet_facts charge_flat keeps_bytes phase_ok_def call_charge_def)
qed (auto simp: new_broker_def new_call_def call_charge_def)

text \<open>The trace counts every call once, when its answer is decided.\<close>

definition answered :: "call \<Rightarrow> bool" where
  "answered c \<longleftrightarrow> (case c_phase c of Returning r \<Rightarrow> True | Finished r \<Rightarrow> True | _ \<Rightarrow> False)"

definition went_upstream :: "call \<Rightarrow> bool" where
  "went_upstream c \<longleftrightarrow> answered c \<and> c_wire c \<noteq> None"

lemma seen_pressure [simp]: "b_trace (pressure S r now b) = b_trace b"
  by (simp add: pressure_def)

interpretation seen: broker_tally S "\<lambda>b. int (tr_seen (b_trace b))" "\<lambda>c. of_bool (answered c)" for S
proof
  fix x y assume ok: "phase_ok S (snd x)" and st: "call_step S x y"
  from st show "int (tr_seen (b_trace (fst y))) - of_bool (answered (snd y)) =
      int (tr_seen (b_trace (fst x))) - of_bool (answered (snd x))"
    by induction (auto simp: answered_def stage_defs Let_def split: option.splits prod.splits)
qed (auto simp: new_broker_def new_call_def answered_def)

interpretation upstream: broker_tally S "\<lambda>b. int (tr_upstream (b_trace b))" "\<lambda>c. of_bool (went_upstream c)" for S
proof
  fix x y assume ok: "phase_ok S (snd x)" and st: "call_step S x y"
  from st ok show "int (tr_upstream (b_trace (fst y))) - of_bool (went_upstream (snd y)) =
      int (tr_upstream (b_trace (fst x))) - of_bool (went_upstream (snd x))"
    by induction (auto simp: went_upstream_def answered_def stage_defs Let_def phase_ok_def
        split: option.splits prod.splits)
qed (auto simp: new_broker_def new_call_def went_upstream_def answered_def)

subsection \<open>Limits\<close>

definition limits_ok :: "session \<Rightarrow> broker \<times> call list \<Rightarrow> bool" where
  "limits_ok S x \<longleftrightarrow> all_ok S x \<and> b_requests (fst x) \<le> int maxHostConcurrent \<and>
     b_sent (fst x) \<le> requestBudget (Some (s_grant S))"

lemma close_refunds: "bytes_ok c \<Longrightarrow> b_sent (fst (do_close b c)) \<le> b_sent b"
  by (auto simp: do_close_def bytes_fit_def upload_inv_def crd_Close_def Let_def split: option.splits)

lemma call_step_limits:
  assumes "call_step S x y" and "phase_ok S (snd x)"
    and "b_requests (fst x) \<le> int maxHostConcurrent" and "b_sent (fst x) \<le> requestBudget (Some (s_grant S))"
  shows "b_requests (fst y) \<le> int maxHostConcurrent \<and> b_sent (fst y) \<le> requestBudget (Some (s_grant S))"
  using assms
proof induction
  case (reserve c route ct b)
  then show ?case by (auto simp: do_reserve_def reserveRequestBytes_def deny_def)
next
  case (return c r b)
  then have "c_reserved c \<Longrightarrow> bytes_ok c" by (simp add: phase_ok_def spent_ok_def)
  moreover have "b_requests (fst (do_close b c)) = b_requests b"
    by (auto simp: do_close_def split: option.splits prod.splits)
  ultimately show ?case using return close_refunds [of c b] by (auto simp: do_return_def)
next
  case (close c b)
  then have "bytes_ok c" using wire_facts(3) [of S c] by auto
  moreover have "b_requests (fst (do_close b c)) = b_requests b"
    by (auto simp: do_close_def split: option.splits prod.splits)
  ultimately show ?case using close close_refunds [of c b] by auto
qed (auto simp: quiet_facts charge_flat do_enter_def do_slot_def do_count_def do_charge_def deny_def Let_def
       split: prod.splits)

interpretation limits: inductive_invariant "broker_init S" "broker_step S" "limits_ok S" for S
proof
  show "broker_init S s \<Longrightarrow> limits_ok S s" for s
    by (auto simp: broker_init_def limits_ok_def all_ok_def new_broker_def grant_limits requestBudget_def)
  show "broker_step S s t \<Longrightarrow> limits_ok S s \<Longrightarrow> limits_ok S t" for s t
  proof -
    assume st: "broker_step S s t" and l: "limits_ok S s"
    have "all_ok S t" using calls.inv_step [OF st] l by (simp add: limits_ok_def)
    moreover from st l have "b_requests (fst t) \<le> int maxHostConcurrent \<and>
        b_sent (fst t) \<le> requestBudget (Some (s_grant S))"
    proof induction
      case (step i cs b b' c')
      then show ?case
        using call_step_limits [OF step(2)] by (auto simp: limits_ok_def all_ok_def)
    qed (auto simp: limits_ok_def end_refuse_def end_cancel_def)
    ultimately show ?thesis by (simp add: limits_ok_def)
  qed
qed

lemma delivered_le_charge: "phase_ok S c \<Longrightarrow> call_delivered c \<le> call_charge c"
proof (cases "c_wire c")
  case None
  assume "phase_ok S c"
  then have "c_reserved c \<Longrightarrow> bytes_ok c"
    by (auto simp: phase_ok_def spent_ok_def split: phase.splits)
  with None show ?thesis
    by (auto simp: call_delivered_def call_charge_def upload_charge_def bytes_fit_def upload_inv_def Let_def
        split: option.splits)
next
  case (Some req)
  assume "phase_ok S c"
  from wire_facts(1,3) [OF this Some] show ?thesis
    by (auto simp: call_delivered_def call_charge_def upload_charge_def bytes_fit_def upload_inv_def Let_def
        split: option.splits)
qed

lemma wired_counted: "phase_ok S c \<Longrightarrow> of_bool (c_wire c \<noteq> None) \<le> (of_bool (c_counted c) :: int)"
  using wire_facts(2) [of S c] by auto

subsection \<open>Route caps\<close>

abbreviation cap_key :: "session \<Rightarrow> host_route \<Rightarrow> route_key" where
  "cap_key S r \<equiv> route_key_of (s_net S) (u_Scheme (s_origin S) @ ''://'' @ u_Host (s_origin S)) r"

definition charged_to :: "host_route \<Rightarrow> call list \<Rightarrow> int" where
  "charged_to r cs = sum_list (map (\<lambda>c. of_bool (r \<in> set (c_capped c))) cs)"

definition caps_ok :: "session \<Rightarrow> broker \<times> call list \<Rightarrow> bool" where
  "caps_ok S x \<longleftrightarrow> all_ok S x \<and>
     (\<forall>r \<in> fst ` set (g_RouteMaxCalls (s_grant S)).
        charged_to r (snd x) \<le> lookup0 (rb_calls (b_routes (fst x))) (cap_key S r) \<and>
        charged_to r (snd x) \<le> lookup0 (g_RouteMaxCalls (s_grant S)) r)"

lemma call_step_caps:
  assumes "call_step S x y" and "phase_ok S (snd x)"
  shows "c_capped (snd y) = c_capped (snd x) \<and> b_routes (fst y) = b_routes (fst x) \<or>
    c_capped (snd x) = [] \<and>
    charge (s_net S) (u_Scheme (s_origin S) @ ''://'' @ u_Host (s_origin S)) (c_capped (snd y))
      (g_RouteMaxCalls (s_grant S)) (b_routes (fst x)) = (True, b_routes (fst y))"
  using assms
proof induction
  case (charge c route ct b)
  let ?m = "to_upper (bc_Method (c_req c))" and ?t = "bc_RawTarget (c_req c)"
  obtain ok r where ch: "chargeRouteCaps S ?m ?t (b_routes b) = (ok, r)" by force
  moreover have "\<not> ok \<Longrightarrow> r = b_routes b"
    using ch charge_refused by (cases ok) (auto simp: chargeRouteCaps_def)
  ultimately show ?case
    using charge by (auto simp: do_charge_def Let_def deny_def answer_def phase_ok_def chargeRouteCaps_def)
next
  case (return c r b)
  have "b_routes (fst (do_close b c)) = b_routes b"
    by (auto simp: do_close_def split: option.splits prod.splits)
  then show ?case by (auto simp: do_return_def)
next
  case (close c b)
  have "b_routes (fst (do_close b c)) = b_routes b"
    by (auto simp: do_close_def split: option.splits prod.splits)
  then show ?case by simp
qed (auto simp: quiet_facts do_enter_def do_slot_def do_count_def do_reserve_def reserveRequestBytes_def
       deny_def answer_def Let_def)

lemma caps_ok_step:
  assumes st: "broker_step S x y" and "caps_ok S x"
  shows "caps_ok S y"
proof -
  have ok: "all_ok S y" using calls.inv_step [OF st] assms(2) by (simp add: caps_ok_def)
  let ?L = "g_RouteMaxCalls (s_grant S)"
  have "charged_to r (snd y) \<le> lookup0 (rb_calls (b_routes (fst y))) (cap_key S r) \<and>
      charged_to r (snd y) \<le> lookup0 ?L r" if r: "r \<in> fst ` set ?L" for r
    using st assms(2)
  proof induction
    case (step i cs b b' c')
    then have c: "phase_ok S (cs ! i)" by (auto simp: caps_ok_def all_ok_def)
    have old: "charged_to r cs \<le> lookup0 (rb_calls (b_routes b)) (cap_key S r)" "charged_to r cs \<le> lookup0 ?L r"
      using step r by (auto simp: caps_ok_def)
    have new: "charged_to r (cs[i := c']) =
        charged_to r cs - of_bool (r \<in> set (c_capped (cs ! i))) + of_bool (r \<in> set (c_capped c'))"
      using step by (simp add: charged_to_def sum_list_upd)
    from call_step_caps [OF step(2)] c consider
      (same) "c_capped c' = c_capped (cs ! i)" "b_routes b' = b_routes b"
      | (charged) "c_capped (cs ! i) = []" "charge (s_net S) (u_Scheme (s_origin S) @ ''://'' @ u_Host (s_origin S))
          (c_capped c') ?L (b_routes b) = (True, b_routes b')"
      by auto
    then show ?case
    proof cases
      case same
      with old new show ?thesis by simp
    next
      case charged
      with old new charge_admitted(2) [OF charged(2), of r] charge_mono [OF charged(2), of "cap_key S r"]
      show ?thesis by (cases "r \<in> set (c_capped c')") auto
    qed
  next
    case (share nl origin capped limits b ok r' cs)
    then show ?case
      using charge_mono [OF share(1), of "cap_key S r"] r by (fastforce simp: caps_ok_def)
  next
    case (arrive b cs q)
    then show ?case using r by (auto simp: caps_ok_def charged_to_def new_call_def)
  next
    case (end1 b cs)
    then show ?case using r by (auto simp: caps_ok_def end_refuse_def)
  next
    case (end2 b cs)
    then show ?case using r by (auto simp: caps_ok_def end_cancel_def)
  qed
  with ok show ?thesis by (simp add: caps_ok_def)
qed

interpretation caps: inductive_invariant "broker_init S" "broker_step S" "caps_ok S" for S
proof
  show "broker_init S s \<Longrightarrow> caps_ok S s" for s
  proof -
    assume "broker_init S s"
    then obtain b rb sh where s: "s = (b, [])" "b = new_broker\<lparr>b_routes := rb, b_shared := sh\<rparr>"
      and v: "Validate (s_net S) (s_grant S) = None" and rb: "budget_ok rb"
      using broker_init_valid by (auto simp: broker_init_def split: prod.splits)
    have "0 \<le> lookup0 (g_RouteMaxCalls (s_grant S)) r" for r
      using Validate_caps(2) [OF v] by (auto simp: lookup0_def split: option.splits dest!: map_of_SomeD) force
    with s rb show ?thesis by (auto simp: caps_ok_def all_ok_def charged_to_def budget_ok_def)
  qed
  show "broker_step S s t \<Longrightarrow> caps_ok S s \<Longrightarrow> caps_ok S t" for s t
    by (rule caps_ok_step)
qed

subsection \<open>A call on its own is a run of the session\<close>

lemma reads_steps:
  "c_wire c \<noteq> None \<Longrightarrow> c_upload c = Some u \<Longrightarrow>
     (call_step S)\<^sup>*\<^sup>* (b, c) (b, c\<lparr>c_upload := Some (upload_reads rs u)\<rparr>)"
proof (induction rs u arbitrary: c rule: upload_reads.induct)
  case (1 u)
  then have "c\<lparr>c_upload := Some (upload_reads [] u)\<rparr> = c" by simp
  then show ?case by simp
next
  case (2 len n err rs u)
  show ?case
  proof (cases "len < 0 \<or> crd_waiting (ul_reader u) \<noteq> None \<or> crd_closed (ul_reader u)")
    case True
    then have "c\<lparr>c_upload := Some (upload_reads ((len, n, err) # rs) u)\<rparr> = c"
      using 2(3) by (auto simp: read_begin_def)
    then show ?thesis by simp
  next
    case False
    define m where "m = (if crd_remaining (ul_reader u) \<le> 0 then 0 else min len (crd_remaining (ul_reader u)))"
    let ?u1 = "do_read_begin len u"
    let ?u2 = "do_read_end (max 0 (min n m)) err ?u1"
    have rb: "read_begin len (ul_reader u) = (Inr m, (ul_reader u)\<lparr>crd_waiting := Some m\<rparr>)"
      using False by (simp add: read_begin_def m_def Let_def)
    have w: "crd_waiting (ul_reader ?u1) = Some m" by (simp add: do_read_begin_def rb)
    have m0: "0 \<le> m" using False by (auto simp: m_def)
    have "call_step S (b, c) (b, c\<lparr>c_upload := Some ?u1\<rparr>)"
      using 2(2,3) False by (intro call_step.read_begin) auto
    moreover have "call_step S (b, c\<lparr>c_upload := Some ?u1\<rparr>) (b, c\<lparr>c_upload := Some ?u2\<rparr>)"
      using call_step.read_end [of "c\<lparr>c_upload := Some ?u1\<rparr>" ?u1 m "max 0 (min n m)" S b err] 2(2) w m0 by simp
    moreover have "(call_step S)\<^sup>*\<^sup>* (b, c\<lparr>c_upload := Some ?u2\<rparr>) (b, c\<lparr>c_upload := Some (upload_reads rs ?u2)\<rparr>)"
      using "2.IH" [OF _ _ refl, of m "(ul_reader u)\<lparr>crd_waiting := Some m\<rparr>" "c\<lparr>c_upload := Some ?u2\<rparr>"] 2(2) False rb by simp
    ultimately show ?thesis
      using False rb by (simp add: converse_rtranclp_into_rtranclp)
  qed
qed

lemma do_reads_steps: "c_wire c \<noteq> None \<Longrightarrow> (call_step S)\<^sup>*\<^sup>* (b, c) (b, do_reads w c)"
proof (cases "c_upload c")
  case None
  then have "do_reads w c = c" by (simp add: do_reads_def)
  then show ?thesis by simp
next
  case (Some u)
  assume "c_wire c \<noteq> None"
  from reads_steps [OF this Some] Some show ?thesis by (simp add: do_reads_def)
qed

lemma next_stage_steps:
  assumes "phase_ok S c"
  shows "(call_step S)\<^sup>*\<^sup>* (b, c) (next_stage S w (b, c))"
proof (cases "c_phase c")
  case (Sent route st)
  then have w: "c_wire c \<noteq> None" using assms by (simp add: phase_ok_def)
  have "c_phase (do_reads w c) = Sent route st" using Sent by (simp add: do_reads_def)
  from rtranclp.rtrancl_into_rtrancl [OF do_reads_steps [OF w] call_step.answer [OF this]] Sent
  show ?thesis by (simp add: next_stage_def)
qed (auto simp: next_stage_def intro!: r_into_rtranclp call_step.intros)

lemma call_steps_ok: "(call_step S)\<^sup>*\<^sup>* x y \<Longrightarrow> phase_ok S (snd x) \<Longrightarrow> phase_ok S (snd y)"
  by (induction rule: rtranclp_induct) (auto dest: call_step_ok)

lemma Call_steps: "(call_step S)\<^sup>*\<^sup>* (b, new_call q) (Call S w b q)"
proof -
  have "(call_step S)\<^sup>*\<^sup>* (b, new_call q) ((next_stage S w ^^ n) (b, new_call q))" for n
  proof (induction n)
    case (Suc n)
    have "phase_ok S (snd ((next_stage S w ^^ n) (b, new_call q)))"
      using call_steps_ok [OF Suc] by (simp add: phase_ok_new)
    from next_stage_steps [OF this, of "fst ((next_stage S w ^^ n) (b, new_call q))" w] Suc
    show ?case by simp
  qed simp
  then show ?thesis by (simp add: Call_def)
qed

lemma call_steps_lift:
  assumes "(call_step S)\<^sup>*\<^sup>* x y"
  shows "i < length cs \<Longrightarrow> cs ! i = snd x \<Longrightarrow> (broker_step S)\<^sup>*\<^sup>* (fst x, cs) (fst y, cs[i := snd y])"
  using assms
proof (induction rule: rtranclp_induct)
  case base
  then show ?case by (metis list_update_id rtranclp.rtrancl_refl)
next
  case (step y z)
  have "broker_step S (fst y, cs[i := snd y]) (fst z, (cs[i := snd y])[i := snd z])"
    using step by (intro broker_step.step) auto
  with step show ?case by (simp add: rtranclp.rtrancl_into_rtrancl)
qed

lemma Call_run: "(broker_step S)\<^sup>*\<^sup>* (b, cs) (fst (Call S w b q), cs @ [snd (Call S w b q)])"
proof -
  have "broker_step S (b, cs) (b, cs @ [new_call q])" by (rule broker_step.arrive)
  moreover have "(broker_step S)\<^sup>*\<^sup>* (b, cs @ [new_call q]) (fst (Call S w b q), cs @ [snd (Call S w b q)])"
    using call_steps_lift [OF Call_steps, of "length cs" "cs @ [new_call q]"] by simp
  ultimately show ?thesis by (rule converse_rtranclp_into_rtranclp)
qed

lemma Call_reach:
  assumes "broker_init S (b, [])"
  shows "reach (broker_init S) (broker_step S) (fst (Call S w b q), [snd (Call S w b q)])"
  using reach_steps [OF reach.reach_init [of "broker_init S", OF assms] Call_run [of S b "[]" w q]] by simp

context broker_tally
begin

lemma total_steps: "(call_step S)\<^sup>*\<^sup>* x y \<Longrightarrow> phase_ok S (snd x) \<Longrightarrow>
    total (fst y) - part (snd y) = total (fst x) - part (snd x)"
proof (induction rule: rtranclp_induct)
  case (step y z)
  then show ?case using step_exact [OF call_steps_ok [OF step(1)]] by simp
qed simp

lemma Call_total: "total (fst (Call S w b q)) - part (snd (Call S w b q)) = total b"
  using total_steps [OF Call_steps] by (simp add: phase_ok_new part_new)

end

subsection \<open>Probes\<close>

text \<open>A health probe is sent by a counted call, as \<open>probe_request\<close> built it; and an upload whose
  request was never sent was never read.\<close>

definition probe_ok :: "session \<Rightarrow> call \<Rightarrow> bool" where
  "probe_ok S c \<longleftrightarrow> (\<forall>req. c_probe c = Some req \<longrightarrow> c_counted c \<and> probe_request S = Some req) \<and>
     (\<forall>u. c_upload c = Some u \<longrightarrow> c_wire c = None \<longrightarrow> ul_delivered u = 0)"

lemma probe_ok_new: "probe_ok S (new_call q)"
  by (simp add: probe_ok_def new_call_def)

lemma close_probe:
  "c_probe (snd (do_close b c)) = c_probe c"
  "probe_ok S c \<Longrightarrow> probe_ok S (snd (do_close b c))"
  by (auto simp: do_close_def probe_ok_def split: option.splits prod.splits)

definition same_probe :: "call \<Rightarrow> call \<Rightarrow> bool" where
  "same_probe c c' \<longleftrightarrow> c_probe c' = c_probe c \<and> c_upload c' = c_upload c \<and> c_wire c' = c_wire c \<and> (c_counted c \<longrightarrow> c_counted c')"

lemma same_probe_ok: "same_probe c c' \<Longrightarrow> probe_ok S c \<Longrightarrow> probe_ok S c'"
  by (auto simp: probe_ok_def same_probe_def)

lemma same_probe_stages:
  "same_probe c (snd (do_enter b c))" "same_probe c (snd (do_slot b c))" "same_probe c (snd (do_count S b c))"
  "same_probe c (snd (do_match S b c))" "same_probe c (snd (do_gate S now route b c))"
  "same_probe c (snd (do_probe S rsp now route gen b c))" "same_probe c (snd (do_charge S route ct b c))"
  "same_probe c (snd (do_build S route ct b c))" "same_probe c (snd (do_answer S rsp now route st b c))"
  "same_probe c (snd (do_stream ps now route resp n st b c))"
  by (simp_all add: same_probe_def stage_defs Let_def split: option.split prod.split)

lemma call_step_probe:
  assumes "call_step S x y" and "phase_ok S (snd x)" and "probe_ok S (snd x)"
  shows "probe_ok S (snd y)"
  using assms
proof induction
  case (return c r b)
  then show ?case using close_probe(2) [of S c b] by (auto simp: do_return_def probe_ok_def)
next
  case (close c b)
  then show ?case using close_probe(2) [of S c b] by simp
next
  case (body c route b)
  then show ?case
    by (auto simp: phase_ok_def probe_ok_def do_body_def deny_def answer_def Let_def new_upload_def split: option.splits)
next
  case (probe_send c route gen b)
  then show ?case by (simp add: phase_ok_def probe_ok_def do_probe_send_def)
next
  case (reserve c route ct b)
  then show ?case by (auto simp: probe_ok_def do_reserve_def deny_def answer_def split: prod.splits)
next
  case (send c route req b now)
  then show ?case by (simp add: probe_ok_def do_send_def)
next
  case (read_begin c u len b)
  then show ?case by (auto simp: probe_ok_def)
next
  case (read_end c u m n b err)
  then show ?case by (auto simp: probe_ok_def)
qed (auto intro: same_probe_ok [OF same_probe_stages(1)] same_probe_ok [OF same_probe_stages(2)]
       same_probe_ok [OF same_probe_stages(3)] same_probe_ok [OF same_probe_stages(4)]
       same_probe_ok [OF same_probe_stages(5)] same_probe_ok [OF same_probe_stages(6)]
       same_probe_ok [OF same_probe_stages(7)] same_probe_ok [OF same_probe_stages(8)]
       same_probe_ok [OF same_probe_stages(9)] same_probe_ok [OF same_probe_stages(10)])

interpretation probes: inductive_invariant "broker_init S" "broker_step S"
    "\<lambda>x. all_ok S x \<and> (\<forall>c \<in> set (snd x). probe_ok S c)" for S
proof
  show "broker_init S s \<Longrightarrow> all_ok S s \<and> (\<forall>c \<in> set (snd s). probe_ok S c)" for s
    by (auto simp: broker_init_def all_ok_def)
  show "broker_step S s t \<Longrightarrow> all_ok S s \<and> (\<forall>c \<in> set (snd s). probe_ok S c) \<Longrightarrow>
      all_ok S t \<and> (\<forall>c \<in> set (snd t). probe_ok S c)" for s t
  proof -
    assume st: "broker_step S s t" and i: "all_ok S s \<and> (\<forall>c \<in> set (snd s). probe_ok S c)"
    have "all_ok S t" using calls.inv_step [OF st] i by blast
    moreover from st i have "\<forall>c \<in> set (snd t). probe_ok S c"
    proof induction
      case (step i cs b b' c')
      then have "probe_ok S c'" using call_step_probe [OF step(2)] by (auto simp: all_ok_def)
      with step show ?case by (auto dest!: set_update_subset_insert [THEN subsetD])
    qed (auto simp: probe_ok_new)
    ultimately show ?thesis by blast
  qed
qed

lemma call_steps_probe: "(call_step S)\<^sup>*\<^sup>* x y \<Longrightarrow> phase_ok S (snd x) \<Longrightarrow> probe_ok S (snd x) \<Longrightarrow> probe_ok S (snd y)"
  by (induction rule: rtranclp_induct) (auto dest: call_step_probe call_steps_ok)

text \<open>The headers of a probe: the broker's own and nothing else.\<close>

lemma probe_request_made:
  assumes "probe_request S = Some req"
  obtains health where "g_HealthCheck (s_grant S) = Some health" "hq_Method req = ''GET''" "hq_Path req = hr_Path health"
    "hq_Origin req = s_origin S" "hq_ContentLength req = 0" "map_of (hq_Headers req) ''Accept'' = Some ''application/json''"
    "map_of (hq_Headers req) ''Authorization'' = (if s_token S \<noteq> '''' then Some (''Bearer '' @ s_token S) else None)"
    "fst ` set (hq_Headers req) \<subseteq> {''Accept'', ''Authorization''}"
proof -
  have k: "CanonicalHeaderKey ''Accept'' = ''Accept''" "CanonicalHeaderKey ''Authorization'' = ''Authorization''" by code_simp+
  from assms obtain health uri where "g_HealthCheck (s_grant S) = Some health"
    "req = \<lparr>hq_Method = ''GET'', hq_Origin = s_origin S, hq_Path = hr_Path health,
       hq_Headers = (if s_token S \<noteq> '''' then header_set ''Authorization'' (''Bearer '' @ s_token S) (header_set ''Accept'' ''application/json'' [])
         else header_set ''Accept'' ''application/json'' []), hq_ContentLength = 0\<rparr>"
    by (auto simp: probe_request_def Let_def split: option.splits if_splits)
  then show ?thesis using that by (simp add: header_set_def k split: if_splits)
qed

subsection \<open>Revocation\<close>

text \<open>A call that has not passed the last check of the session's life.\<close>

definition unsent :: "call \<Rightarrow> bool" where
  "unsent c \<longleftrightarrow> c_wire c = None \<and> (case c_phase c of Ready r q \<Rightarrow> False | _ \<Rightarrow> True)"

lemma call_step_life: "call_step S x y \<Longrightarrow> b_life_over (fst y) = b_life_over (fst x)"
  by (induction rule: call_step.induct)
     (auto simp: loud_defs split: option.splits prod.splits)

lemma call_step_unsent:
  "call_step S x y \<Longrightarrow> phase_ok S (snd x) \<Longrightarrow> b_life_over (fst x) \<Longrightarrow> unsent (snd x) \<Longrightarrow>
     unsent (snd y)"
proof (induction rule: call_step.induct)
  case (answer c route st b resp now)
  then show ?case by (auto simp: unsent_def phase_ok_def)
qed (auto simp: unsent_def stage_defs phase_ok_def Let_def split: option.splits prod.splits)

lemma revoked_stays:
  assumes "(broker_step S)\<^sup>*\<^sup>* x y" and "all_ok S x" and "b_life_over (fst x)"
  shows "b_life_over (fst y) \<and> all_ok S y \<and> length (snd x) \<le> length (snd y) \<and>
    (\<forall>i < length (snd y). (i < length (snd x) \<longrightarrow> unsent (snd x ! i)) \<longrightarrow> unsent (snd y ! i))"
  using assms
proof (induction rule: rtranclp_induct)
  case (step y z)
  from step(2) step(4,5) step.IH show ?case
  proof induction
    case (step i cs b b' c')
    then have "phase_ok S (cs ! i)" "b_life_over b" by (auto simp: all_ok_def)
    with step call_step_unsent [OF step(2)] call_step_life [OF step(2)] calls.inv_step [OF broker_step.step [OF step(1,2)]]
    show ?case by (auto simp: nth_list_update)
  next
    case (arrive b cs q)
    then show ?case
      using calls.inv_step [OF broker_step.arrive]
      by (auto simp: nth_append unsent_def new_call_def all_ok_def phase_ok_new [unfolded new_call_def])
  qed (auto simp: end_refuse_def end_cancel_def all_ok_def)
qed auto

text \<open>A call that had not entered, or is answered, sends no probe once the run has ended.\<close>

definition unprobed :: "call \<Rightarrow> bool" where
  "unprobed c \<longleftrightarrow> c_probe c = None \<and> (c_phase c = Arrived \<or> answered c)"

lemma close_same: "c_phase (snd (do_close b c)) = c_phase c" "b_ended (fst (do_close b c)) = b_ended b"
  by (auto simp: do_close_def split: option.splits prod.splits)

lemma call_step_unprobed:
  "call_step S x y \<Longrightarrow> b_ended (fst x) \<Longrightarrow> unprobed (snd x) \<Longrightarrow> b_ended (fst y) \<and> unprobed (snd y)"
proof (induction rule: call_step.induct)
  case (return c r b)
  then show ?case using close_probe(1) [of b c] close_same [of b c] by (auto simp: unprobed_def answered_def do_return_def)
next
  case (close c b)
  then show ?case using close_probe(1) [of b c] close_same [of b c] by (auto simp: unprobed_def answered_def)
qed (auto simp: unprobed_def answered_def do_enter_def deny_def answer_def)

lemma call_step_ended: "call_step S x y \<Longrightarrow> b_ended (fst y) = b_ended (fst x)"
  by (induction rule: call_step.induct) (auto simp: loud_defs split: option.splits prod.splits)

lemma unprobed_stays:
  assumes "(broker_step S)\<^sup>*\<^sup>* x y" and "b_ended (fst x)"
  shows "b_ended (fst y) \<and> length (snd x) \<le> length (snd y) \<and>
    (\<forall>i < length (snd y). (i < length (snd x) \<longrightarrow> unprobed (snd x ! i)) \<longrightarrow> unprobed (snd y ! i))"
  using assms
proof (induction rule: rtranclp_induct)
  case (step y z)
  from step(2) step.IH [OF step(4)] show ?case
  proof induction
    case (step i cs b b' c')
    then show ?case
      using call_step_unprobed [OF step(2)] call_step_ended [OF step(2)] by (auto simp: nth_list_update)
  next
    case (arrive b cs q)
    then show ?case by (auto simp: nth_append unprobed_def new_call_def less_Suc_eq)
  qed (auto simp: end_refuse_def end_cancel_def)
qed simp

interpretation life: inductive_invariant "broker_init S" "broker_step S" "\<lambda>x. b_life_over (fst x) \<longrightarrow> b_ended (fst x)" for S
proof
  show "broker_init S s \<Longrightarrow> b_life_over (fst s) \<longrightarrow> b_ended (fst s)" for s
    by (auto simp: broker_init_def new_broker_def)
  show "broker_step S s t \<Longrightarrow> b_life_over (fst s) \<longrightarrow> b_ended (fst s) \<Longrightarrow> b_life_over (fst t) \<longrightarrow> b_ended (fst t)" for s t
  proof (induction rule: broker_step.induct)
    case (step i cs b b' c')
    then show ?case using call_step_life [OF step(2)] call_step_ended [OF step(2)] by simp
  qed (auto simp: end_refuse_def end_cancel_def)
qed

subsection \<open>After the wait\<close>

lemma not_entered: "phase_ok S c \<Longrightarrow> \<not> c_entered c \<Longrightarrow> c_phase c = Arrived \<or> answered c"
  by (auto simp: phase_ok_def answered_def split: phase.splits)

lemma idle_step:
  "call_step S x y \<Longrightarrow> phase_ok S (snd x) \<Longrightarrow> b_ended (fst x) \<Longrightarrow> \<not> c_entered (snd x) \<Longrightarrow>
     b_ended (fst y) \<and> \<not> c_entered (snd y) \<and> tr_upstream (b_trace (fst y)) = tr_upstream (b_trace (fst x)) \<and>
     tr_rows (b_trace (fst y)) = tr_rows (b_trace (fst x))"
  by (induction rule: call_step.induct)
     (auto simp: phase_ok_def do_enter_def do_return_def do_close_def deny_def answer_def recordDenied_def
        tr_upstream_def split: option.splits prod.splits)

lemma idle_stays:
  assumes "(broker_step S)\<^sup>*\<^sup>* x y" and "all_ok S x" and "b_ended (fst x)" and "\<forall>c \<in> set (snd x). \<not> c_entered c"
  shows "b_ended (fst y) \<and> all_ok S y \<and> (\<forall>c \<in> set (snd y). \<not> c_entered c) \<and>
    tr_upstream (b_trace (fst y)) = tr_upstream (b_trace (fst x)) \<and>
    tr_rows (b_trace (fst y)) = tr_rows (b_trace (fst x))"
  using assms
proof (induction rule: rtranclp_induct)
  case (step y z)
  then have "all_ok S z" using calls.inv_step [OF step(2)] by blast
  with step(2) step(4-) step.IH show ?case
  proof induction
    case (step i cs b b' c')
    then have "phase_ok S (cs ! i)" "b_ended b" "\<not> c_entered (cs ! i)" by (auto simp: all_ok_def)
    with step idle_step [OF step(2)] show ?case
      by (auto dest!: set_update_subset_insert [THEN subsetD])
  qed (auto simp: end_refuse_def end_cancel_def new_call_def)
qed simp

end
