(* ===== verification/Broker_Safety.thy ===== *)
theory Broker_Safety
  imports Broker_Inv
begin

text \<open>
  What the broker guarantees for a whole run, whatever the guest sends, however its calls
  interleave and whatever the upstream answers.
\<close>

subsection \<open>A concrete session\<close>

definition demo_session :: session where
  "demo_session = \<lparr>s_grant = demo_grant, s_token = ''tok-1'', s_origin = demo_url, s_net = demo_net,
     s_mime = \<lparr>ParseMediaType = (\<lambda>s. None), FormatMediaType = (\<lambda>m p. m)\<rparr>,
     s_parseTime = (\<lambda>s. None), s_requestURI = (\<lambda>m u p. Some p)\<rparr>"

definition demo_call :: broker_call where
  "demo_call = \<lparr>bc_Method = ''post'', bc_RawTarget = ''/v1/orders/a-7'',
     bc_Headers = [(''authorization'', [''Bearer stolen'']), (''X-Trace'', [''t1''])],
     bc_Body = Some \<lparr>gb_data = ''{}'', gb_fails = False\<rparr>, bc_ContentLength = 2, bc_Stream = False\<rparr>"

definition demo_world :: world where
  "demo_world = \<lparr>w_gate = 0, w_probe = None, w_probed = 0, w_started = 1,
     w_reads = [(4096, 2, Some ReadEOF)],
     w_answer = Some \<lparr>rs_StatusCode = 200, rs_ContentType = ''text/plain'', rs_RetryAfter = '''',
       rs_ContentLength = 2, rs_Body = \<lparr>gb_data = ''ok'', gb_fails = False\<rparr>\<rparr>,
     w_answered = 5, w_pieces = [], w_streamed = 5\<rparr>"

definition demo_after :: "broker \<times> call" where
  "demo_after = Call demo_session demo_world new_broker demo_call"

lemma demo_init: "broker_init demo_session (new_broker, [])"
proof -
  have "new_broker = new_broker\<lparr>b_routes := NewRouteBudget, b_shared := False\<rparr>" by (simp add: new_broker_def)
  moreover have "newBrokerSession (s_net demo_session) (s_mime demo_session) (s_parseTime demo_session) (s_requestURI demo_session)
      (Some (s_grant demo_session)) (s_token demo_session) = Inr (demo_session, new_broker)"
    using demo_valid by (simp add: newBrokerSession_def demo_session_def) (simp add: demo_net_def demo_grant_def bearer_char_def)
  ultimately show ?thesis using budget_ok_New unfolding broker_init_def case_prod_conv by blast
qed

lemma demo_reach: "reach (broker_init demo_session) (broker_step demo_session) (fst demo_after, [snd demo_after])"
  using Call_reach [OF demo_init, of demo_world demo_call] by (simp add: demo_after_def)

lemma demo_facts:
  "c_wire (snd demo_after) \<noteq> None" "call_delivered (snd demo_after) = 2"
  "bp_Status (the (call_response (snd demo_after))) = 200" "b_sent (fst demo_after) = 2"
  by code_simp+

subsection \<open>Properties\<close>

text \<open>C1: The run's budgets hold under every interleaving. At any moment at most 16 calls are in
  flight upstream or on their way there; no more calls than the call budget had their request
  handed to the transport, and the request body bytes handed to it are together within the
  run's byte budget, uploads included. The breaker's health probes are the broker's own requests:
  they carry no body and the budget does not count them, but only a call that the budget
  admitted sends one, and sends one at most, so they too are no more than the call budget.\<close>

theorem broker_within_budgets:
  assumes "reach (broker_init S) (broker_step S) (b, cs)"
  shows "length (filter c_slot cs) \<le> 16 \<and>
    int (length (filter (\<lambda>c. c_wire c \<noteq> None) cs)) \<le> CallBudget (Some (s_grant S)) \<and>
    int (length (filter (\<lambda>c. c_probe c \<noteq> None) cs)) \<le> CallBudget (Some (s_grant S)) \<and>
    sum_list (map call_delivered cs) \<le> requestBudget (Some (s_grant S))"
proof -
  have lim: "all_ok S (b, cs)" "b_requests b \<le> 16" "b_sent b \<le> requestBudget (Some (s_grant S))"
    using limits.reach_inv [OF assms] by (auto simp: limits_ok_def maxHostConcurrent_def)
  have slots: "int (length (filter c_slot cs)) = b_requests b"
    using slots.tally [OF assms] by (simp add: count_filter)
  have counted: "sum_list (map (\<lambda>c. of_bool (c_counted c) :: int) cs) \<le> CallBudget (Some (s_grant S))"
    using counted.tally [OF assms] by simp
  have "sum_list (map (\<lambda>c. of_bool (c_wire c \<noteq> None)) cs) \<le> sum_list (map (\<lambda>c. of_bool (c_counted c) :: int) cs)"
    using lim(1) wired_counted by (intro sum_list_mono_all) (auto simp: all_ok_def)
  with counted have calls: "int (length (filter (\<lambda>c. c_wire c \<noteq> None) cs)) \<le> CallBudget (Some (s_grant S))"
    by (simp add: count_filter)
  have "sum_list (map (\<lambda>c. of_bool (c_probe c \<noteq> None)) cs) \<le> sum_list (map (\<lambda>c. of_bool (c_counted c) :: int) cs)"
    using probes.reach_inv [OF assms] by (intro sum_list_mono_all) (auto simp: probe_ok_def)
  with counted have probes: "int (length (filter (\<lambda>c. c_probe c \<noteq> None) cs)) \<le> CallBudget (Some (s_grant S))"
    by (simp add: count_filter)
  have "sum_list (map call_delivered cs) \<le> sum_list (map call_charge cs)"
    using lim(1) delivered_le_charge by (intro sum_list_mono_all) (auto simp: all_ok_def)
  also have "\<dots> = b_sent b" using bytes.tally [OF assms] by simp
  finally show ?thesis using slots calls probes lim(2,3) by simp
qed

theorem broker_within_budgets_witness:
  "c_wire (snd demo_after) \<noteq> None \<and>
   sum_list (map call_delivered [snd demo_after]) \<le> requestBudget (Some (s_grant demo_session))"
  using broker_within_budgets [OF demo_reach] demo_facts(1) by blast

text \<open>A route's call cap holds for one run: however its calls interleave, and whatever other calls
  of the session charge, no more of its requests that count against a capped route reach the
  transport than the cap.\<close>

theorem route_caps_hold_concurrently:
  assumes "reach (broker_init S) (broker_step S) (b, cs)"
    and "r \<in> fst ` set (g_RouteMaxCalls (s_grant S))"
  shows "int (length (filter (\<lambda>c. case c_wire c of None \<Rightarrow> False | Some req \<Rightarrow>
      r \<in> set (cappedRoutesMatching (s_grant S) (hq_Method req) (hq_Path req))) cs))
    \<le> lookup0 (g_RouteMaxCalls (s_grant S)) r"
proof -
  let ?P = "\<lambda>c. case c_wire c of None \<Rightarrow> False | Some req \<Rightarrow>
      r \<in> set (cappedRoutesMatching (s_grant S) (hq_Method req) (hq_Path req))"
  have ok: "all_ok S (b, cs)" and cap: "charged_to r cs \<le> lookup0 (g_RouteMaxCalls (s_grant S)) r"
    using caps.reach_inv [OF assms(1)] assms(2) by (auto simp: caps_ok_def)
  have "of_bool (?P c) \<le> (of_bool (r \<in> set (c_capped c)) :: int)" if "c \<in> set cs" for c
    using that ok wire_facts(4) [of S c] by (auto simp: all_ok_def wire_fits_def split: option.splits)
  then have "int (length (filter ?P cs)) \<le> charged_to r cs"
    unfolding charged_to_def count_filter [symmetric] by (intro sum_list_mono_all) blast
  with cap show ?thesis by simp
qed

theorem route_caps_hold_concurrently_witness:
  "int (length (filter (\<lambda>c. case c_wire c of None \<Rightarrow> False | Some req \<Rightarrow>
      demo_post \<in> set (cappedRoutesMatching (s_grant demo_session) (hq_Method req) (hq_Path req))) [snd demo_after])) \<le> 2"
  using route_caps_hold_concurrently [OF demo_reach, of demo_post]
  by (simp add: demo_session_def demo_grant_def lookup0_def)

text \<open>C3: Every request that reaches the transport was approved and carries only the broker's
  authority. It goes to the origin the grant's base URL parses to, and its Authorization header is
  the run's own credential or absent. A call's request matches an entry of the grant in
  the exact spelling that was checked, and its headers are the ones the broker chose, whatever
  headers the guest sent. The only other request is the health probe: a GET of the grant's health
  route, which need not be an entry, with no header but Accept and Authorization and no body.\<close>

theorem wire_is_approved:
  assumes "reach (broker_init S) (broker_step S) (b, cs)" and "c \<in> set cs"
    and "req \<in> set_option (c_wire c) \<union> set_option (c_probe c)"
  shows "url_Parse (s_net S) (g_BaseURL (s_grant S)) = Some (hq_Origin req) \<and>
    map_of (hq_Headers req) ''Authorization'' =
      (if s_token S \<noteq> '''' then Some (''Bearer '' @ s_token S) else None) \<and>
    (c_wire c = Some req \<and>
       matchRoute (s_grant S) (hq_Method req) (hq_Path req) \<noteq> None \<and>
       hq_Method req = to_upper (bc_Method (c_req c)) \<and> hq_Path req = bc_RawTarget (c_req c) \<and>
       (\<exists>hasBody contentType. map_of (hq_Headers req) ''Content-Type'' = (if hasBody then Some contentType else None) \<and>
          hq_Headers req = request_headers (s_grant S) (s_token S) (c_req c) hasBody contentType) \<or>
     c_probe c = Some req \<and>
       (\<exists>health. g_HealthCheck (s_grant S) = Some health \<and> hq_Method req = ''GET'' \<and> hq_Path req = hr_Path health \<and>
          hq_ContentLength req = 0 \<and> fst ` set (hq_Headers req) \<subseteq> {''Accept'', ''Authorization''}))"
proof -
  from assms(1) have "\<exists>x. broker_init S x" by (induction rule: reach.induct) blast
  then have made: "newBrokerSession (s_net S) (s_mime S) (s_parseTime S) (s_requestURI S) (Some (s_grant S)) (s_token S) = Inr (S, new_broker)"
    by (auto simp: broker_init_def split: prod.splits)
  note v = newBrokerSession_made(2) [OF made] and o = newBrokerSession_made(4) [OF made]
  have inv: "phase_ok S c" "probe_ok S c" using probes.reach_inv [OF assms(1)] assms(2) by (auto simp: all_ok_def)
  from assms(3) consider (wire) "c_wire c = Some req" | (probe) "c_probe c = Some req" by auto
  then show ?thesis
  proof cases
    case wire
    from wire_facts(4) [OF inv(1) wire] obtain hb ct where
      h: "hq_Headers req = request_headers (s_grant S) (s_token S) (c_req c) hb ct"
      and m: "hq_Method req = to_upper (bc_Method (c_req c))" "hq_Path req = bc_RawTarget (c_req c)"
        "hq_Origin req = s_origin S" "matchRawTarget (s_grant S) (hq_Method req) (hq_Path req) \<noteq> None"
      by (auto simp: wire_fits_def)
    moreover have "matchRoute (s_grant S) (hq_Method req) (hq_Path req) \<noteq> None"
      using m(4) matchRawTarget_SomeD by fastforce
    ultimately show ?thesis using request_headers_owned [OF v] o wire by metis
  next
    case probe
    with inv(2) have "probe_request S = Some req" by (simp add: probe_ok_def)
    from probe_request_made [OF this] o probe show ?thesis by metis
  qed
qed

text \<open>A call after a 503 of the upstream, elected to probe.\<close>

definition demo_degraded :: broker where
  "demo_degraded = fst (Call demo_session (demo_world\<lparr>w_answer :=
     Some \<lparr>rs_StatusCode = 503, rs_ContentType = '''', rs_RetryAfter = ''9'', rs_ContentLength = 0, rs_Body = \<lparr>gb_data = '''', gb_fails = False\<rparr>\<rparr>\<rparr>) new_broker demo_call)"

definition demo_prober :: "broker \<times> call" where
  "demo_prober = Call demo_session (demo_world\<lparr>w_gate := 6\<rparr>) demo_degraded demo_call"

lemma demo_prober_reach: "\<exists>c. reach (broker_init demo_session) (broker_step demo_session) (fst demo_prober, [c, snd demo_prober])"
proof -
  let ?w = "demo_world\<lparr>w_answer := Some \<lparr>rs_StatusCode = 503, rs_ContentType = '''', rs_RetryAfter = ''9'',
     rs_ContentLength = 0, rs_Body = \<lparr>gb_data = '''', gb_fails = False\<rparr>\<rparr>\<rparr>"
  from reach_steps [OF Call_reach [OF demo_init, of ?w demo_call] Call_run [of demo_session "fst (Call demo_session ?w new_broker demo_call)"]]
  show ?thesis by (auto simp: demo_prober_def demo_degraded_def)
qed

theorem wire_is_approved_witness:
  "(\<exists>req. c_wire (snd demo_after) = Some req \<and> map_of (hq_Headers req) ''Authorization'' = Some ''Bearer tok-1'') \<and>
   (\<exists>req. c_probe (snd demo_prober) = Some req \<and> url_Parse demo_net ''https://api.example.com'' = Some (hq_Origin req))"
proof
  obtain req where req: "c_wire (snd demo_after) = Some req" using demo_facts(1) by blast
  from wire_is_approved [OF demo_reach, of "snd demo_after" req] req
  show "\<exists>req. c_wire (snd demo_after) = Some req \<and> map_of (hq_Headers req) ''Authorization'' = Some ''Bearer tok-1''"
    by (simp add: demo_session_def)
  have "c_probe (snd demo_prober) \<noteq> None" by code_simp
  then obtain req where req: "c_probe (snd demo_prober) = Some req" by blast
  obtain c where "reach (broker_init demo_session) (broker_step demo_session) (fst demo_prober, [c, snd demo_prober])"
    using demo_prober_reach by blast
  from wire_is_approved [OF this, of "snd demo_prober" req] req
  show "\<exists>req. c_probe (snd demo_prober) = Some req \<and> url_Parse demo_net ''https://api.example.com'' = Some (hq_Origin req)"
    by (simp add: demo_session_def demo_grant_def)
qed

text \<open>C4: Revocation. Once \<open>End\<close> has cancelled the run, no call's request reaches the transport
  that had not passed the last check before: neither a call's that arrives later, nor one's in
  flight that had not reached that check. A call that had not entered sends nothing at all. One
  that had may still hand over the breaker's health probe, which has no such check; nothing
  else.\<close>

theorem end_revokes:
  assumes "reach (broker_init S) (broker_step S) (b, cs)" and "b_life_over b"
    and "(broker_step S)\<^sup>*\<^sup>* (b, cs) (b', cs')" and "i < length cs'"
  shows "((i < length cs \<longrightarrow> unsent (cs ! i)) \<longrightarrow> c_wire (cs' ! i) = None) \<and>
    ((i < length cs \<longrightarrow> c_phase (cs ! i) = Arrived) \<longrightarrow> c_wire (cs' ! i) = None \<and> c_probe (cs' ! i) = None) \<and>
    (\<forall>req. c_probe (cs' ! i) = Some req \<longrightarrow> probe_request S = Some req)"
proof (intro conjI impI allI)
  have all: "all_ok S (b, cs)" "b_ended b"
    using calls.reach_inv [OF assms(1)] life.reach_inv [OF assms(1)] assms(2) by auto
  note kept = revoked_stays [OF assms(3) all(1)] unprobed_stays [OF assms(3)]
  show "c_wire (cs' ! i) = None" if "i < length cs \<longrightarrow> unsent (cs ! i)"
    using kept(1) that assms(2,4) by (auto simp: unsent_def)
  assume a: "i < length cs \<longrightarrow> c_phase (cs ! i) = Arrived"
  have "unsent (cs ! i) \<and> unprobed (cs ! i)" if "i < length cs"
  proof -
    have "phase_ok S (cs ! i)" "probe_ok S (cs ! i)" using probes.reach_inv [OF assms(1)] that by (auto simp: all_ok_def)
    with a that show ?thesis by (cases "c_probe (cs ! i)") (auto simp: unsent_def unprobed_def phase_ok_def probe_ok_def)
  qed
  then show "c_wire (cs' ! i) = None" "c_probe (cs' ! i) = None"
    using kept all(2) assms(2,4) by (auto simp: unsent_def unprobed_def)
next
  fix req assume "c_probe (cs' ! i) = Some req"
  moreover have "probe_ok S (cs' ! i)"
    using probes.reach_inv [OF reach_steps [OF assms(1,3)]] assms(4) by simp
  ultimately show "probe_request S = Some req" by (simp add: probe_ok_def)
qed

definition demo_ended :: broker where
  "demo_ended = end_cancel (end_refuse new_broker)"

lemma demo_ended_reach: "reach (broker_init demo_session) (broker_step demo_session) (demo_ended, [])"
proof -
  have "reach (broker_init demo_session) (broker_step demo_session) (new_broker, [])"
    by (rule reach.reach_init [of "broker_init demo_session", OF demo_init])
  from reach.reach_step [OF reach.reach_step [OF this broker_step.end1] broker_step.end2]
  show ?thesis by (simp add: demo_ended_def end_refuse_def)
qed

theorem end_revokes_witness:
  "b_life_over demo_ended \<and> c_wire (snd (Call demo_session demo_world demo_ended demo_call)) = None"
proof -
  have l: "b_life_over demo_ended" by (simp add: demo_ended_def end_cancel_def)
  from end_revokes [OF demo_ended_reach l Call_run, of 0] l show ?thesis by simp
qed

text \<open>What \<open>End\<close> waits for. When the run has ended and no call is in flight, the trace
  counts every request that ever reached the transport, and nothing that happens later
  changes its rows or that count, so a trace read then is complete.\<close>

theorem end_leaves_complete_trace:
  assumes "reach (broker_init S) (broker_step S) (b, cs)" and "b_ended b" and "b_inflight b = 0"
    and "(broker_step S)\<^sup>*\<^sup>* (b, cs) (b', cs')"
  shows "int (tr_upstream (b_trace b)) = int (length (filter (\<lambda>c. c_wire c \<noteq> None) cs)) \<and>
    tr_rows (b_trace b') = tr_rows (b_trace b) \<and> tr_upstream (b_trace b') = tr_upstream (b_trace b)"
proof -
  have ok: "all_ok S (b, cs)" by (rule calls.reach_inv [OF assms(1)])
  have "length (filter c_entered cs) = 0"
    using inflight.tally [OF assms(1)] assms(3) by (simp add: count_filter)
  then have idle: "\<forall>c \<in> set cs. \<not> c_entered c" by (simp add: filter_empty_conv)
  have "went_upstream c \<longleftrightarrow> c_wire c \<noteq> None" if "c \<in> set cs" for c
    using that ok idle not_entered [of S c] by (auto simp: all_ok_def went_upstream_def phase_ok_def)
  then have "filter went_upstream cs = filter (\<lambda>c. c_wire c \<noteq> None) cs" by (auto cong: filter_cong)
  with upstream.tally [OF assms(1)] idle_stays [OF assms(4) ok] assms(2) idle show ?thesis
    by (simp add: count_filter)
qed

theorem end_leaves_complete_trace_witness:
  "b_inflight demo_ended = 0 \<and>
   tr_rows (b_trace (fst (Call demo_session demo_world demo_ended demo_call))) = []"
proof -
  have f: "b_ended demo_ended" "b_inflight demo_ended = 0" "tr_rows (b_trace demo_ended) = []"
    by (simp_all add: demo_ended_def end_cancel_def end_refuse_def new_broker_def newCallTrace_def)
  from end_leaves_complete_trace [OF demo_ended_reach f(1,2) Call_run] f show ?thesis by simp
qed

text \<open>C5: The trace accounts for every call exactly once: at any moment the rows, drops, denials
  and sheds together are the calls whose answer is decided, and the rows and drops
  together are those of them whose request reached the transport.\<close>

theorem trace_accounts_for_every_call:
  assumes "reach (broker_init S) (broker_step S) (b, cs)"
  shows "tr_seen (b_trace b) = length (filter answered cs) \<and>
    tr_upstream (b_trace b) = length (filter (\<lambda>c. answered c \<and> c_wire c \<noteq> None) cs)"
  using seen.tally [OF assms] upstream.tally [OF assms]
  by (simp add: count_filter went_upstream_def [abs_def])

theorem trace_accounts_for_every_call_witness:
  "tr_upstream (b_trace (fst demo_after)) = 1"
proof -
  have "answered (snd demo_after)" by code_simp
  with trace_accounts_for_every_call [OF demo_reach] demo_facts(1) show ?thesis by simp
qed

text \<open>C6: A call always ends with an answer and gives back what it took: its slot, its place in
  flight, and the bytes it held for an upload. Whatever the guest, the transport and the upstream do,
  the upload is closed at the end, and the run is charged for exactly the bytes of it that
  the transport was handed, none where the request was never sent. A buffered body is charged
  whole once it is reserved, also where the call is then refused.\<close>

theorem call_answers_and_gives_back:
  "(\<exists>r. call_response (snd (Call S w b q)) = Some r) \<and>
   b_requests (fst (Call S w b q)) = b_requests b \<and> b_inflight (fst (Call S w b q)) = b_inflight b \<and>
   \<not> upload_open (snd (Call S w b q)) \<and>
   b_sent (fst (Call S w b q)) = b_sent b +
     (if c_upload (snd (Call S w b q)) \<noteq> None then call_delivered (snd (Call S w b q))
      else if c_reserved (snd (Call S w b q)) then int (length (c_body (snd (Call S w b q)))) else 0) \<and>
   tr_seen (b_trace (fst (Call S w b q))) = tr_seen (b_trace b) + 1"
proof -
  define c where "c = snd (Call S w b q)"
  obtain r where r: "c_phase c = Finished r"
    using Call_finishes [of S w b q] by (auto simp: call_response_def c_def split: phase.splits)
  have ok: "phase_ok S c" "probe_ok S c"
    using call_steps_ok [OF Call_steps] call_steps_probe [OF Call_steps]
    by (simp_all add: phase_ok_new probe_ok_new c_def)
  with r have fl: "\<not> c_slot c" "\<not> c_entered c" "answered c" "\<not> upload_open c" and sp: "spent_ok c"
    by (simp_all add: phase_ok_def answered_def)
  have "call_charge c = (if c_upload c \<noteq> None then call_delivered c else if c_reserved c then int (length (c_body c)) else 0)"
    using sp fl(4) ok(2)
    by (auto simp: call_charge_def spent_ok_def upload_charge_def upload_open_def bytes_fit_def upload_inv_def Let_def
        call_delivered_def probe_ok_def split: option.splits)
  with fl show ?thesis
    using Call_finishes [of S w b q, folded c_def] slots.Call_total [of S w b q, folded c_def]
      inflight.Call_total [of S w b q, folded c_def] bytes.Call_total [of S w b q, folded c_def]
      seen.Call_total [of S w b q, folded c_def]
    unfolding c_def [symmetric] by auto
qed

text \<open>A streamed answer. What the guest gets is a prefix of what the upstream sent, at most
  4 MiB, and where the row says it was delivered it is all of it up to the upstream's own
  end of stream.\<close>

theorem stream_is_prefix:
  assumes "stream_loop ps 0 '''' = (written, delivered, out)"
  shows "(\<exists>k. out = take k (concat (map pc_data ps))) \<and> int (length out) = written \<and>
    written \<le> 4 * 2 ^ 20 \<and> (delivered \<longrightarrow> (\<exists>n. out = concat (map pc_data (take n ps))))"
  using stream_loop_prefix [OF assms] by (simp add: maxHostResponseBytes_def)

theorem stream_is_prefix_witness:
  "stream_loop [\<lparr>pc_data = ''a'', pc_end = PieceMore, pc_writeFails = False\<rparr>,
      \<lparr>pc_data = ''bc'', pc_end = PieceEOF, pc_writeFails = False\<rparr>] 0 '''' = (3, True, ''abc'') \<and>
   (3::int) \<le> 4 * 2 ^ 20"
proof -
  have s: "stream_loop [\<lparr>pc_data = ''a'', pc_end = PieceMore, pc_writeFails = False\<rparr>,
      \<lparr>pc_data = ''bc'', pc_end = PieceEOF, pc_writeFails = False\<rparr>] 0 '''' = (3, True, ''abc'')"
    by code_simp
  from stream_is_prefix [OF s] s show ?thesis by blast
qed

end
