(* ===== verification/Broker_Session.thy ===== *)
theory Broker_Session
  imports Broker_Safety
begin

text \<open>
  The granted calls of one session. A session makes one route budget when it opens and hands it
  to \<open>brokerSessionForGrant\<close> for every granted call (\<open>docker_session.go\<close>, \<open>e2b_session_grant.go\<close>), so
  each call has its own broker and all of them charge the one budget. A broker may outlive its call:
  what a leftover process began is refused by \<open>End\<close>, not by the session. So any number of
  brokers are live at a time here, each with its own calls.
\<close>

record granted_call =
  gr_session :: session
  gr_broker :: broker
  gr_calls :: "call list"

text \<open>A broker made over the session's budget reads and writes that one; one with a budget of
  its own does not.\<close>

definition attach :: "route_budget \<Rightarrow> broker \<Rightarrow> broker" where
  "attach rb b = (if b_shared b then b\<lparr>b_routes := rb\<rparr> else b)"

definition detach :: "route_budget \<Rightarrow> broker \<Rightarrow> route_budget" where
  "detach rb b = (if b_shared b then b_routes b else rb)"

inductive session_step :: "route_budget \<times> granted_call list \<Rightarrow> route_budget \<times> granted_call list \<Rightarrow> bool" where
  grant: "brokerSessionForGrant nl ml pt ru ctxDone now subject g timeout (Some rb) = Inr (Some (S, b)) \<Longrightarrow>
     session_step (rb, gs) (rb, gs @ [\<lparr>gr_session = S, gr_broker = b, gr_calls = []\<rparr>])"
| arrive: "i < length gs \<Longrightarrow>
     session_step (rb, gs) (rb, gs[i := (gs ! i)\<lparr>gr_calls := gr_calls (gs ! i) @ [new_call q]\<rparr>])"
| step: "i < length gs \<Longrightarrow> j < length (gr_calls (gs ! i)) \<Longrightarrow>
     call_step (gr_session (gs ! i)) (attach rb (gr_broker (gs ! i)), gr_calls (gs ! i) ! j) (b', c') \<Longrightarrow>
     session_step (rb, gs) (detach rb b', gs[i := (gs ! i)\<lparr>gr_broker := b', gr_calls := (gr_calls (gs ! i))[j := c']\<rparr>])"
| end1: "i < length gs \<Longrightarrow>
     session_step (rb, gs) (rb, gs[i := (gs ! i)\<lparr>gr_broker := end_refuse (gr_broker (gs ! i))\<rparr>])"
| end2: "i < length gs \<Longrightarrow> b_ended (gr_broker (gs ! i)) \<Longrightarrow>
     session_step (rb, gs) (rb, gs[i := (gs ! i)\<lparr>gr_broker := end_cancel (gr_broker (gs ! i))\<rparr>])"

definition session_init :: "route_budget \<times> granted_call list \<Rightarrow> bool" where
  "session_init x \<longleftrightarrow> x = (NewRouteBudget, [])"

subsection \<open>What the session's budget counts\<close>

text \<open>A call charged to the key \<open>k\<close> by a broker whose grant caps it at no more than \<open>L\<close>.\<close>

definition charged_under :: "route_key \<Rightarrow> nat \<Rightarrow> session \<Rightarrow> call \<Rightarrow> bool" where
  "charged_under k L S c \<longleftrightarrow>
     list_ex (\<lambda>r. cap_key S r = k \<and> lookup0 (g_RouteMaxCalls (s_grant S)) r \<le> int L) (c_capped c)"

definition granted_charges :: "route_key \<Rightarrow> nat \<Rightarrow> granted_call \<Rightarrow> int" where
  "granted_charges k L g = sum_list (map (\<lambda>c. of_bool (charged_under k L (gr_session g) c)) (gr_calls g))"

definition session_charges :: "route_key \<Rightarrow> nat \<Rightarrow> granted_call list \<Rightarrow> int" where
  "session_charges k L gs = sum_list (map (granted_charges k L) gs)"

definition granted_ok :: "granted_call \<Rightarrow> bool" where
  "granted_ok g \<longleftrightarrow> b_shared (gr_broker g) \<and> all_ok (gr_session g) (gr_broker g, gr_calls g)"

definition session_caps_ok :: "route_key \<Rightarrow> nat \<Rightarrow> route_budget \<times> granted_call list \<Rightarrow> bool" where
  "session_caps_ok k L x \<longleftrightarrow> list_all granted_ok (snd x) \<and>
     session_charges k L (snd x) \<le> lookup0 (rb_calls (fst x)) k \<and> session_charges k L (snd x) \<le> int L"

lemma call_step_shared: "call_step S x y \<Longrightarrow> b_shared (fst y) = b_shared (fst x)"
  by (induction rule: call_step.induct) (simp_all add: stage_defs Let_def split: option.split prod.split)

lemma session_charges_update:
  "i < length gs \<Longrightarrow> session_charges k L (gs[i := g]) = session_charges k L gs - granted_charges k L (gs ! i) + granted_charges k L g"
  by (simp add: session_charges_def sum_list_upd)

lemma granted_charges_same:
  "granted_charges k L (g\<lparr>gr_broker := b\<rparr>) = granted_charges k L g"
  "granted_charges k L (g\<lparr>gr_calls := gr_calls g @ [new_call q]\<rparr>) = granted_charges k L g"
  by (simp_all add: granted_charges_def charged_under_def new_call_def)

lemma granted_charges_step:
  "j < length (gr_calls g) \<Longrightarrow>
     granted_charges k L (g\<lparr>gr_broker := b', gr_calls := (gr_calls g)[j := c']\<rparr>) =
     granted_charges k L g - of_bool (charged_under k L (gr_session g) (gr_calls g ! j)) + of_bool (charged_under k L (gr_session g) c')"
  by (simp add: granted_charges_def sum_list_upd)

lemma list_all_update: "list_all P xs \<Longrightarrow> P x \<Longrightarrow> list_all P (xs[i := x])"
  by (auto simp: list_all_iff dest!: set_update_subset_insert [THEN subsetD])

lemma granted_ok_at: "list_all granted_ok gs \<Longrightarrow> i < length gs \<Longrightarrow> granted_ok (gs ! i)"
  by (simp add: list_all_length)

lemma granted_ok_keeps:
  "granted_ok g \<Longrightarrow> granted_ok (g\<lparr>gr_calls := gr_calls g @ [new_call q]\<rparr>)"
  "granted_ok g \<Longrightarrow> granted_ok (g\<lparr>gr_broker := end_refuse (gr_broker g)\<rparr>)"
  "granted_ok g \<Longrightarrow> granted_ok (g\<lparr>gr_broker := end_cancel (gr_broker g)\<rparr>)"
  by (auto simp: granted_ok_def all_ok_def phase_ok_new end_refuse_def end_cancel_def)

lemma granted_made:
  assumes "brokerSessionForGrant nl ml pt ru ctxDone now subject g timeout (Some rb) = Inr (Some (S, b))"
  shows "b_shared b"
  using assms by (auto simp: brokerSessionForGrant_def Let_def split: option.splits sum.splits)

lemma session_caps_step:
  assumes "session_step x y" and "session_caps_ok k L x"
  shows "session_caps_ok k L y"
  using assms
proof induction
  case (step i gs j rb b' c')
  let ?g = "gs ! i" and ?S = "gr_session (gs ! i)"
  let ?c = "gr_calls ?g ! j"
  have g: "granted_ok ?g" using step by (auto simp: session_caps_ok_def list_all_length)
  then have c: "phase_ok ?S ?c" using step(2) by (auto simp: granted_ok_def all_ok_def)
  have sh: "b_shared b'" "b_shared (gr_broker ?g)"
    using g call_step_shared [OF step(3)] by (simp_all add: granted_ok_def attach_def)
  have "phase_ok ?S c'" using call_step_ok [OF step(3)] c by simp
  then have ok: "granted_ok (?g\<lparr>gr_broker := b', gr_calls := (gr_calls ?g)[j := c']\<rparr>)"
    using g sh by (auto simp: granted_ok_def all_ok_def dest!: set_update_subset_insert [THEN subsetD])
  let ?gs = "gs[i := ?g\<lparr>gr_broker := b', gr_calls := (gr_calls ?g)[j := c']\<rparr>]"
  have new: "session_charges k L ?gs = session_charges k L gs - of_bool (charged_under k L ?S ?c) + of_bool (charged_under k L ?S c')"
    using step(1,2) by (simp add: session_charges_update granted_charges_step)
  have "session_charges k L ?gs \<le> lookup0 (rb_calls (b_routes b')) k \<and> session_charges k L ?gs \<le> int L"
  proof -
    have old: "session_charges k L gs \<le> lookup0 (rb_calls rb) k" "session_charges k L gs \<le> int L"
      using step(4) by (simp_all add: session_caps_ok_def)
    from call_step_caps [OF step(3)] c sh(2) consider
      (same) "c_capped c' = c_capped ?c" "b_routes b' = rb"
      | (charged) "c_capped ?c = []" "charge (s_net ?S) (u_Scheme (s_origin ?S) @ ''://'' @ u_Host (s_origin ?S))
          (c_capped c') (g_RouteMaxCalls (s_grant ?S)) rb = (True, b_routes b')"
      by (auto simp: attach_def)
    then show ?thesis
    proof cases
      case same
      with old new show ?thesis by (simp add: charged_under_def)
    next
      case charged
      have n: "\<not> charged_under k L ?S ?c" using charged(1) by (simp add: charged_under_def)
      show ?thesis
      proof (cases "charged_under k L ?S c'")
        case True
        then obtain r where "r \<in> set (c_capped c')" "cap_key ?S r = k" "lookup0 (g_RouteMaxCalls (s_grant ?S)) r \<le> int L"
          by (auto simp: charged_under_def list_ex_iff)
        with charge_admitted(2) [OF charged(2)] old new n True show ?thesis by fastforce
      next
        case False
        with charge_mono [OF charged(2), of k] old new n show ?thesis by simp
      qed
    qed
  qed
  with step ok sh(1) show ?case by (simp add: session_caps_ok_def detach_def list_all_update)
next
  case (grant nl ml pt ru ctxDone now subject g timeout rb S b gs)
  then show ?case
    using granted_made [OF grant(1)]
    by (simp add: session_caps_ok_def session_charges_def granted_charges_def granted_ok_def all_ok_def)
next
  case (arrive i gs rb q)
  then show ?case
    using granted_ok_keeps(1) [OF granted_ok_at, of gs i q]
    by (simp add: session_caps_ok_def session_charges_update granted_charges_same list_all_update)
next
  case (end1 i gs rb)
  then show ?case
    using granted_ok_keeps(2) [OF granted_ok_at, of gs i]
    by (simp add: session_caps_ok_def session_charges_update granted_charges_same list_all_update)
next
  case (end2 i gs rb)
  then show ?case
    using granted_ok_keeps(3) [OF granted_ok_at, of gs i]
    by (simp add: session_caps_ok_def session_charges_update granted_charges_same list_all_update)
qed

interpretation session_caps: inductive_invariant session_init session_step "session_caps_ok k L" for k L
proof
  show "session_init s \<Longrightarrow> session_caps_ok k L s" for s
    by (simp add: session_init_def session_caps_ok_def session_charges_def NewRouteBudget_def)
  show "session_step s t \<Longrightarrow> session_caps_ok k L s \<Longrightarrow> session_caps_ok k L t" for s t
    by (rule session_caps_step)
qed

subsection \<open>A call of a granted call's broker is a run of the session\<close>

lemma granted_steps:
  assumes "(call_step S)\<^sup>*\<^sup>* x y" and "b_shared (fst x)" and "i < length gs"
    and "gs ! i = \<lparr>gr_session = S, gr_broker = fst x, gr_calls = cs\<rparr>" and "j < length cs" and "cs ! j = snd x"
  shows "b_shared (fst y) \<and> session_step\<^sup>*\<^sup>* (b_routes (fst x), gs)
    (b_routes (fst y), gs[i := \<lparr>gr_session = S, gr_broker = fst y, gr_calls = cs[j := snd y]\<rparr>])"
  using assms
proof (induction rule: rtranclp_induct)
  case base
  then show ?case by (metis list_update_id rtranclp.rtrancl_refl)
next
  case (step y z)
  let ?gs = "gs[i := \<lparr>gr_session = S, gr_broker = fst y, gr_calls = cs[j := snd y]\<rparr>]"
  have sh: "b_shared (fst y)" using step by simp
  have "session_step (b_routes (fst y), ?gs) (detach (b_routes (fst y)) (fst z),
      ?gs[i := (?gs ! i)\<lparr>gr_broker := fst z, gr_calls := (gr_calls (?gs ! i))[j := snd z]\<rparr>])"
    using step(2,5,7) sh by (intro session_step.step) (auto simp: attach_def)
  moreover have "b_shared (fst z)" using call_step_shared [OF step(2)] sh by simp
  ultimately show ?case using step by (auto simp: detach_def intro: rtranclp.rtrancl_into_rtrancl)
qed

lemma granted_Call:
  assumes "b_shared b" and "i < length gs" and "gs ! i = \<lparr>gr_session = S, gr_broker = b, gr_calls = cs\<rparr>"
  shows "session_step\<^sup>*\<^sup>* (b_routes b, gs) (b_routes (fst (Call S w b q)),
    gs[i := \<lparr>gr_session = S, gr_broker = fst (Call S w b q), gr_calls = cs @ [snd (Call S w b q)]\<rparr>])"
proof -
  let ?gs = "gs[i := (gs ! i)\<lparr>gr_calls := gr_calls (gs ! i) @ [new_call q]\<rparr>]"
  have "session_step (b_routes b, gs) (b_routes b, ?gs)" by (rule session_step.arrive [OF assms(2)])
  moreover have "session_step\<^sup>*\<^sup>* (b_routes b, ?gs) (b_routes (fst (Call S w b q)),
      ?gs[i := \<lparr>gr_session = S, gr_broker = fst (Call S w b q), gr_calls = (cs @ [new_call q])[length cs := snd (Call S w b q)]\<rparr>])"
    using granted_steps [OF Call_steps [of S b q w], of i ?gs "cs @ [new_call q]" "length cs"] assms by simp
  ultimately show ?thesis by (simp add: converse_rtranclp_into_rtranclp)
qed

subsection \<open>Property\<close>

text \<open>A request that counts against a key under a cap of at most \<open>L\<close>.\<close>

definition counts_under :: "route_key \<Rightarrow> nat \<Rightarrow> session \<Rightarrow> call \<Rightarrow> bool" where
  "counts_under k L S c \<longleftrightarrow> (case c_wire c of
     None \<Rightarrow> False
   | Some req \<Rightarrow> list_ex (\<lambda>r. route_key_of (s_net S) (u_Scheme (s_origin S) @ ''://'' @ u_Host (s_origin S)) r = k \<and>
       lookup0 (g_RouteMaxCalls (s_grant S)) r \<le> int L) (cappedRoutesMatching (s_grant S) (hq_Method req) (hq_Path req)))"

text \<open>C2: A route's call cap holds for a whole session, not for each of its calls. However the
  session's granted calls, the guest calls of each and their ends interleave, and whatever grants
  the session's calls carry, the requests that the brokers of the session together hand to the
  transport and that count against a route under a cap of at most \<open>L\<close> are never more than \<open>L\<close>. The
  route is its canonical origin, method and path without regard to case.\<close>

theorem session_route_caps_hold:
  assumes "reach session_init session_step (rb, gs)"
  shows "sum_list (map (\<lambda>g. length (filter (counts_under k L (gr_session g)) (gr_calls g))) gs) \<le> L"
proof -
  have inv: "list_all granted_ok gs" "session_charges k L gs \<le> int L"
    using session_caps.reach_inv [OF assms, of k L] by (simp_all add: session_caps_ok_def)
  have one: "int (length (filter (counts_under k L (gr_session g)) (gr_calls g))) \<le> granted_charges k L g" if "granted_ok g" for g
    unfolding granted_charges_def count_filter [symmetric]
  proof (rule sum_list_mono_all, rule ballI)
    fix c assume "c \<in> set (gr_calls g)"
    then have "phase_ok (gr_session g) c" using that by (simp add: granted_ok_def all_ok_def)
    then show "of_bool (counts_under k L (gr_session g) c) \<le> (of_bool (charged_under k L (gr_session g) c) :: int)"
      using wire_facts(4) [of "gr_session g" c]
      by (auto simp: counts_under_def charged_under_def wire_fits_def split: option.splits)
  qed
  have "int (sum_list (map (\<lambda>g. length (filter (counts_under k L (gr_session g)) (gr_calls g))) gs)) \<le> session_charges k L gs"
    using inv(1)
  proof (induction gs)
    case (Cons g gs)
    then show ?case using one [of g] by (simp add: session_charges_def)
  qed (simp add: session_charges_def)
  with inv(2) show ?thesis by linarith
qed

text \<open>Two granted calls, three guest calls of a route capped at two: the third is refused though
  its broker is new.\<close>

definition demo_granted :: "route_budget \<Rightarrow> session \<times> broker" where
  "demo_granted rb = (case brokerSessionForGrant demo_net (s_mime demo_session) (s_parseTime demo_session) (s_requestURI demo_session)
       False 5 ''user-1'' (Some demo_grant) 60 (Some rb) of
     Inr (Some x) \<Rightarrow> x | _ \<Rightarrow> (demo_session, new_broker))"

definition demo_first :: "broker \<times> call" where
  "demo_first = Call demo_session demo_world (snd (demo_granted NewRouteBudget)) demo_call"

definition demo_second :: "broker \<times> call" where
  "demo_second = Call demo_session demo_world (fst demo_first) demo_call"

definition demo_third :: "broker \<times> call" where
  "demo_third = Call demo_session demo_world (snd (demo_granted (b_routes (fst demo_second)))) demo_call"

lemma demo_granted_made:
  "brokerSessionForGrant demo_net (s_mime demo_session) (s_parseTime demo_session) (s_requestURI demo_session)
     False 5 ''user-1'' (Some demo_grant) 60 (Some rb) = Inr (Some (demo_session, new_broker\<lparr>b_routes := rb, b_shared := True\<rparr>))"
proof -
  have "credential 5 ''user-1'' (Some demo_grant) 60 = Inr ''tok-1''" by code_simp
  moreover have "newBrokerSession demo_net (s_mime demo_session) (s_parseTime demo_session) (s_requestURI demo_session) (Some demo_grant) ''tok-1''
      = Inr (demo_session, new_broker)"
    using demo_init by (simp add: broker_init_def demo_session_def)
  ultimately show ?thesis using demo_valid by (simp add: brokerSessionForGrant_def)
qed

theorem session_route_caps_hold_witness:
  "c_wire (snd demo_first) \<noteq> None \<and> c_wire (snd demo_second) \<noteq> None \<and> c_wire (snd demo_third) = None \<and>
   length (filter (counts_under (cap_key demo_session demo_post) 2 demo_session) [snd demo_first, snd demo_second]) +
   length (filter (counts_under (cap_key demo_session demo_post) 2 demo_session) [snd demo_third]) \<le> 2"
proof -
  define b1 where "b1 = new_broker\<lparr>b_routes := NewRouteBudget, b_shared := True\<rparr>"
  define b3 where "b3 = new_broker\<lparr>b_routes := b_routes (fst demo_second), b_shared := True\<rparr>"
  let ?g = "\<lambda>b cs. \<lparr>gr_session = demo_session, gr_broker = b, gr_calls = cs\<rparr>"
  have made: "demo_granted NewRouteBudget = (demo_session, b1)" "demo_granted (b_routes (fst demo_second)) = (demo_session, b3)"
    by (simp_all add: demo_granted_def demo_granted_made b1_def b3_def)
  have sh: "b_shared b1" "b_shared b3" "b_routes b1 = NewRouteBudget" "b_routes b3 = b_routes (fst demo_second)"
    by (simp_all add: b1_def b3_def)
  have "b_shared (fst (Call S w b q)) = b_shared b" for S w b q
  proof -
    have "(call_step S)\<^sup>*\<^sup>* x y \<Longrightarrow> b_shared (fst y) = b_shared (fst x)" for x y
      by (induction rule: rtranclp_induct) (auto dest: call_step_shared)
    from this [OF Call_steps] show ?thesis by simp
  qed
  then have sh2: "b_shared (fst demo_first)" by (simp add: demo_first_def made sh)
  have r0: "reach session_init session_step (NewRouteBudget, [])" by (rule reach.reach_init) (simp add: session_init_def)
  have r1: "reach session_init session_step (NewRouteBudget, [?g b1 []])"
    using reach.reach_step [OF r0 session_step.grant [OF demo_granted_made]] by (simp add: b1_def)
  have r2: "reach session_init session_step (b_routes (fst demo_first), [?g (fst demo_first) [snd demo_first]])"
    using reach_steps [OF r1] granted_Call [of b1 0 "[?g b1 []]" demo_session "[]" demo_world demo_call] sh
    by (simp add: demo_first_def made)
  have r3: "reach session_init session_step (b_routes (fst demo_second), [?g (fst demo_second) [snd demo_first, snd demo_second]])"
    using reach_steps [OF r2] granted_Call [of "fst demo_first" 0 "[?g (fst demo_first) [snd demo_first]]" demo_session
      "[snd demo_first]" demo_world demo_call] sh2 by (simp add: demo_second_def)
  have r4: "reach session_init session_step (b_routes (fst demo_second), [?g (fst demo_second) [snd demo_first, snd demo_second], ?g b3 []])"
    using reach.reach_step [OF r3 session_step.grant [OF demo_granted_made]] by (simp add: b3_def)
  have r5: "reach session_init session_step (b_routes (fst demo_third),
      [?g (fst demo_second) [snd demo_first, snd demo_second], ?g (fst demo_third) [snd demo_third]])"
    using reach_steps [OF r4] granted_Call [of b3 1 "[?g (fst demo_second) [snd demo_first, snd demo_second], ?g b3 []]" demo_session
      "[]" demo_world demo_call] sh by (simp add: demo_third_def made)
  have "c_wire (snd demo_first) \<noteq> None" "c_wire (snd demo_second) \<noteq> None" "c_wire (snd demo_third) = None"
    by code_simp+
  with session_route_caps_hold [OF r5, of "cap_key demo_session demo_post" 2] show ?thesis by simp
qed

end
