(* ===== verification/Go_Float.thy ===== *)
theory Go_Float
  imports Go_Prelude "HOL-Library.Log_Nat"
begin

text \<open>
  Go's \<open>float64\<close> as a rational number rounded after every operation to 53 significant
  bits, ties to even. The exponent range is unbounded: the modelled code adds, scales and
  compares seconds, tokens and weights, far from overflow and from the subnormal range.
  What the components rely on is stated as the locale \<open>rounding\<close> and proved of the
  rounding that the definitions compute with.
\<close>

type_synonym float64 = rat

definition pow2 :: "int \<Rightarrow> rat" where
  "pow2 e = (if 0 \<le> e then 2 ^ nat e else 1 / 2 ^ nat (- e))"

definition expo :: "rat \<Rightarrow> int" where
  "expo x = (case quotient_of x of (n, d) \<Rightarrow>
     let e = int (floorlog 2 (nat n)) - int (floorlog 2 (nat d))
     in if pow2 e \<le> x then e else e - 1)"

definition round_even :: "rat \<Rightarrow> int" where
  "round_even x =
     (let f = \<lfloor>x\<rfloor>; r = x - of_int f
      in if r < 1 / 2 then f else if r > 1 / 2 then f + 1 else if even f then f else f + 1)"

definition round_pos :: "rat \<Rightarrow> rat" where
  "round_pos x = (let u = pow2 (expo x - 52) in of_int (round_even (x / u)) * u)"

definition f64 :: "rat \<Rightarrow> float64" where
  "f64 x = (if x = 0 then 0 else if 0 < x then round_pos x else - round_pos (- x))"

definition f_add :: "float64 \<Rightarrow> float64 \<Rightarrow> float64" where "f_add a b = f64 (a + b)"
definition f_sub :: "float64 \<Rightarrow> float64 \<Rightarrow> float64" where "f_sub a b = f64 (a - b)"
definition f_mul :: "float64 \<Rightarrow> float64 \<Rightarrow> float64" where "f_mul a b = f64 (a * b)"
definition f_div :: "float64 \<Rightarrow> float64 \<Rightarrow> float64" where "f_div a b = f64 (a / b)"
definition f_of_int :: "int \<Rightarrow> float64" where "f_of_int n = f64 (of_int n)"

lemmas float_ops = f_add_def f_sub_def f_mul_def f_div_def f_of_int_def

subsection \<open>Powers of two and exponents\<close>

lemma pow2_pos [simp]: "0 < pow2 e"
  by (simp add: pow2_def)

lemma pow2_nonneg [simp]: "0 \<le> pow2 e"
  by (rule less_imp_le) simp

lemma pow2_add: "pow2 (a + b) = pow2 a * pow2 b"
proof -
  have step: "pow2 (a + 1) = 2 * pow2 a" for a
  proof (cases "0 \<le> a")
    case True
    then have "nat (a + 1) = Suc (nat a)" by simp
    with True show ?thesis by (simp add: pow2_def)
  next
    case False
    then have n: "nat (- a) = Suc (nat (- (a + 1)))" by simp
    show ?thesis
    proof (cases "a = -1")
      case True
      then show ?thesis by (simp add: pow2_def)
    next
      case False
      with \<open>\<not> 0 \<le> a\<close> have "\<not> 0 \<le> a + 1" by simp
      with \<open>\<not> 0 \<le> a\<close> show ?thesis by (simp add: pow2_def n)
    qed
  qed
  have nat_case: "pow2 (a + int n) = pow2 a * 2 ^ n" for a n
  proof (induction n)
    case (Suc n)
    have "a + int (Suc n) = (a + int n) + 1" by simp
    then have "pow2 (a + int (Suc n)) = 2 * pow2 (a + int n)" by (simp only: step)
    with Suc show ?case by simp
  qed simp
  show ?thesis
  proof (cases "0 \<le> b")
    case True
    with nat_case [of a "nat b"] show ?thesis by (simp add: pow2_def)
  next
    case False
    with nat_case [of "a + b" "nat (- b)"] show ?thesis by (simp add: pow2_def field_simps)
  qed
qed

lemma pow2_mono: "a \<le> b \<Longrightarrow> pow2 a \<le> pow2 b"
  using pow2_add [of a "b - a"] by (simp add: pow2_def [of "b - a"])

lemma pow2_nat: "pow2 (int n) = 2 ^ n"
  by (simp add: pow2_def)

lemma floorlog2_bounds: "0 < n \<Longrightarrow> 2 ^ (floorlog 2 n - 1) \<le> n \<and> n < 2 ^ floorlog 2 n"
  using floorlog_bounds [of n 2] by simp

lemma expo_bounds:
  assumes "0 < x"
  shows "pow2 (expo x) \<le> x" "x < pow2 (expo x + 1)"
proof -
  obtain n d where q: "quotient_of x = (n, d)" by force
  have x: "x = of_int n / of_int d" "0 < d" using quotient_of_div [OF q] quotient_of_denom_pos [OF q] by auto
  with assms have n: "0 < n" by (simp add: zero_less_divide_iff)
  define a b where "a = floorlog 2 (nat n)" and "b = floorlog 2 (nat d)"
  have ab: "2 ^ (a - 1) \<le> nat n" "nat n < 2 ^ a" "2 ^ (b - 1) \<le> nat d" "nat d < 2 ^ b" "0 < a" "0 < b"
    using floorlog2_bounds [of "nat n"] floorlog2_bounds [of "nat d"] n x(2)
    by (auto simp: a_def b_def intro!: gr0I simp: floorlog_eq_zero_iff)
  have nb: "pow2 (int a - 1) \<le> of_int n" "of_int n < pow2 (int a)" "pow2 (int b - 1) \<le> of_int d" "of_int d < pow2 (int b)"
  proof -
    have *: "(of_nat (nat n) :: rat) = of_int n" "(of_nat (nat d) :: rat) = of_int d" using n x(2) by simp_all
    have p: "pow2 (int k - 1) = of_nat (2 ^ (k - 1))" "pow2 (int k) = of_nat (2 ^ k)" if "0 < k" for k
      using that pow2_nat [of "k - 1"] pow2_nat [of k] by (simp_all add: of_nat_diff)
    show "pow2 (int a - 1) \<le> of_int n" "of_int n < pow2 (int a)" "pow2 (int b - 1) \<le> of_int d" "of_int d < pow2 (int b)"
      unfolding * [symmetric] p [OF ab(5)] p [OF ab(6)] of_nat_le_iff of_nat_less_iff using ab by auto
  qed
  let ?e = "int a - int b"
  have split: "pow2 (int a) = pow2 (int b) * pow2 ?e" "pow2 (int a - 1) = pow2 (int b) * pow2 (?e - 1)"
      "pow2 (int a) = pow2 (int b - 1) * pow2 (?e + 1)"
    by (simp_all add: pow2_add [symmetric])
  have dpos: "(0::rat) < of_int d" using x(2) by simp
  have lower: "pow2 (?e - 1) \<le> x"
  proof -
    have "pow2 (?e - 1) * of_int d \<le> pow2 (?e - 1) * pow2 (int b)" using nb(4) by (intro mult_left_mono) auto
    also have "\<dots> \<le> of_int n" using nb(1) split(2) by (simp add: mult.commute)
    finally show ?thesis using dpos x(1) by (simp add: pos_le_divide_eq)
  qed
  have upper: "x < pow2 (?e + 1)"
  proof -
    have "of_int n < pow2 (int b - 1) * pow2 (?e + 1)" using nb(2) split(3) by simp
    also have "\<dots> \<le> of_int d * pow2 (?e + 1)" using nb(3) by (intro mult_right_mono) (auto simp: less_imp_le)
    finally show ?thesis using dpos x(1) by (simp add: pos_divide_less_eq mult.commute)
  qed
  have "expo x = (if pow2 ?e \<le> x then ?e else ?e - 1)"
    by (simp add: expo_def q a_def b_def Let_def)
  with lower upper show "pow2 (expo x) \<le> x" "x < pow2 (expo x + 1)" by auto
qed

lemma expo_mono: "0 < x \<Longrightarrow> x \<le> y \<Longrightarrow> expo x \<le> expo y"
proof (rule ccontr)
  assume a: "0 < x" "x \<le> y" "\<not> expo x \<le> expo y"
  then have "pow2 (expo y + 1) \<le> pow2 (expo x)" by (intro pow2_mono) simp
  with a expo_bounds [of x] expo_bounds [of y] show False by linarith
qed

subsection \<open>Rounding is monotone\<close>

lemma round_even_bounds: "\<lfloor>x\<rfloor> \<le> round_even x" "round_even x \<le> \<lfloor>x\<rfloor> + 1"
  by (simp_all add: round_even_def Let_def)

lemma round_even_int [simp]: "round_even (of_int n) = n"
  by (simp add: round_even_def)

lemma round_even_mono: "x \<le> y \<Longrightarrow> round_even x \<le> round_even y"
proof (cases "\<lfloor>x\<rfloor> = \<lfloor>y\<rfloor>")
  case True
  assume "x \<le> y"
  with True show ?thesis by (auto simp: round_even_def Let_def)
next
  case False
  assume "x \<le> y"
  with False have "\<lfloor>x\<rfloor> + 1 \<le> \<lfloor>y\<rfloor>" using floor_mono [of x y] by linarith
  with round_even_bounds(2) [of x] round_even_bounds(1) [of y] show ?thesis by linarith
qed

lemma round_pos_bounds:
  assumes "0 < x"
  shows "pow2 (expo x) \<le> round_pos x" "round_pos x \<le> pow2 (expo x + 1)"
proof -
  let ?u = "pow2 (expo x - 52)"
  have u: "0 < ?u" by simp
  have p: "pow2 (expo x) = of_int (2 ^ 52) * ?u" "pow2 (expo x + 1) = of_int (2 ^ 53) * ?u"
    using pow2_add [of "expo x - 52" 52] pow2_add [of "expo x - 52" 53] pow2_nat [of 52] pow2_nat [of 53]
    by (simp_all add: mult.commute add.commute)
  have "of_int (2 ^ 52) \<le> x / ?u" "x / ?u \<le> of_int (2 ^ 53)"
    using expo_bounds [OF assms] u unfolding p by (auto simp: pos_le_divide_eq pos_divide_le_eq)
  then have "2 ^ 52 \<le> round_even (x / ?u)" "round_even (x / ?u) \<le> 2 ^ 53"
    using round_even_mono [of "of_int (2 ^ 52)" "x / ?u"] round_even_mono [of "x / ?u" "of_int (2 ^ 53)"]
    unfolding round_even_int by auto
  then have "(of_int (2 ^ 52) :: rat) * ?u \<le> of_int (round_even (x / ?u)) * ?u"
    "(of_int (round_even (x / ?u)) :: rat) * ?u \<le> of_int (2 ^ 53) * ?u"
    using u by (simp_all only: of_int_le_iff mult_le_cancel_right_pos)
  then show "pow2 (expo x) \<le> round_pos x" "round_pos x \<le> pow2 (expo x + 1)"
    unfolding p round_pos_def Let_def .
qed

lemma round_pos_mono:
  assumes "0 < x" "x \<le> y"
  shows "round_pos x \<le> round_pos y"
proof (cases "expo x = expo y")
  case True
  have "x / pow2 (expo y - 52) \<le> y / pow2 (expo y - 52)" using assms(2) by (intro divide_right_mono) (auto simp: less_imp_le)
  then have "(of_int (round_even (x / pow2 (expo y - 52))) :: rat) \<le> of_int (round_even (y / pow2 (expo y - 52)))"
    using round_even_mono by simp
  with True show ?thesis by (simp add: round_pos_def Let_def mult_right_mono)
next
  case False
  with expo_mono [OF assms] have "pow2 (expo x + 1) \<le> pow2 (expo y)" by (intro pow2_mono) simp
  with round_pos_bounds [of x] round_pos_bounds [of y] assms show ?thesis by linarith
qed

lemma round_pos_nonneg: "0 < x \<Longrightarrow> 0 < round_pos x"
  using round_pos_bounds(1) [of x] pow2_pos [of "expo x"] by linarith

lemma f64_mono: "x \<le> y \<Longrightarrow> f64 x \<le> f64 y"
  using round_pos_mono [of x y] round_pos_mono [of "- y" "- x"] round_pos_nonneg [of y] round_pos_nonneg [of "- x"]
  by (auto simp: f64_def)

text \<open>Whole numbers of at most 53 bits are exact.\<close>

lemma round_pos_int:
  assumes "0 < n" and "n \<le> 2 ^ 53"
  shows "round_pos (of_int n) = of_int n"
proof -
  let ?x = "of_int n :: rat"
  let ?e = "expo ?x"
  have pos: "0 < ?x" using assms(1) by simp
  have "\<exists>m. ?x / pow2 (?e - 52) = of_int m"
  proof (cases "?e \<le> 52")
    case True
    have "pow2 (?e - 52) = 1 / 2 ^ nat (52 - ?e)" if "?e < 52" using that by (simp add: pow2_def)
    moreover have "pow2 (?e - 52) = 1" if "?e = 52" using that by (simp add: pow2_def)
    ultimately have "?x / pow2 (?e - 52) = ?x * 2 ^ nat (52 - ?e)"
      using True by (cases "?e = 52") auto
    then show ?thesis by (metis of_int_mult of_int_numeral of_int_power)
  next
    case False
    then have "pow2 53 \<le> pow2 ?e" by (intro pow2_mono) simp
    with expo_bounds(1) [OF pos] have "2 ^ 53 \<le> ?x" using pow2_nat [of 53] by simp
    moreover have "?x \<le> of_int (2 ^ 53)" using assms(2) by (simp only: of_int_le_iff)
    ultimately have x: "?x = 2 ^ 53" by simp
    have "?e < 54"
    proof (rule ccontr)
      assume "\<not> ?e < 54"
      then have "pow2 54 \<le> pow2 ?e" by (intro pow2_mono) simp
      with expo_bounds(1) [OF pos] x pow2_nat [of 54] show False by simp
    qed
    with False have "?e = 53" by simp
    then have "pow2 (?e - 52) = 2" by (simp add: pow2_def)
    with x show ?thesis by (intro exI [of _ "2 ^ 52"]) simp
  qed
  then obtain m where m: "?x / pow2 (?e - 52) = of_int m" by blast
  have "round_pos ?x = of_int m * pow2 (?e - 52)" by (simp add: round_pos_def Let_def m)
  also have "\<dots> = ?x" using m by (simp add: field_simps less_imp_neq [symmetric])
  finally show ?thesis .
qed

lemma f64_int: "\<bar>n\<bar> \<le> 2 ^ 53 \<Longrightarrow> f64 (of_int n) = of_int n"
  using round_pos_int [of n] round_pos_int [of "- n"] by (auto simp: f64_def)

lemma expo_unique:
  assumes "pow2 e \<le> x" "x < pow2 (e + 1)"
  shows "expo x = e"
proof -
  have pos: "0 < x" using assms(1) pow2_pos [of e] by linarith
  have "\<not> expo x < e"
  proof
    assume "expo x < e"
    then have "pow2 (expo x + 1) \<le> pow2 e" by (intro pow2_mono) simp
    with assms expo_bounds [OF pos] show False by linarith
  qed
  moreover have "\<not> e < expo x"
  proof
    assume "e < expo x"
    then have "pow2 (e + 1) \<le> pow2 (expo x)" by (intro pow2_mono) simp
    with assms expo_bounds [OF pos] show False by linarith
  qed
  ultimately show ?thesis by linarith
qed

lemma round_pos_grid:
  assumes "2 ^ 52 \<le> m" "m < 2 ^ 53"
  shows "round_pos (of_int m * pow2 k) = of_int m * pow2 k"
proof -
  have p: "pow2 (k + 52) = of_int (2 ^ 52) * pow2 k" "pow2 (k + 53) = of_int (2 ^ 53) * pow2 k"
    using pow2_nat [of 52] pow2_nat [of 53] by (simp_all add: pow2_add mult.commute)
  have "pow2 (k + 52) \<le> of_int m * pow2 k" "of_int m * pow2 k < pow2 (k + 53)"
    unfolding p mult_le_cancel_right_pos [OF pow2_pos] mult_less_cancel_right_pos [OF pow2_pos]
      of_int_le_iff of_int_less_iff using assms by auto
  then have "expo (of_int m * pow2 k) = k + 52" by (intro expo_unique) (simp_all add: add.commute add.assoc)
  then show ?thesis by (simp add: round_pos_def Let_def less_imp_neq [symmetric])
qed

lemma round_pos_idem:
  assumes "0 < x"
  shows "round_pos (round_pos x) = round_pos x"
proof -
  define k where "k = expo x - 52"
  define m where "m = round_even (x / pow2 k)"
  have r: "round_pos x = of_int m * pow2 k" by (simp add: round_pos_def Let_def k_def m_def)
  have p: "pow2 (expo x) = of_int (2 ^ 52) * pow2 k" "pow2 (expo x + 1) = of_int (2 ^ 53) * pow2 k"
    using pow2_add [of k 52] pow2_add [of k 53] pow2_nat [of 52] pow2_nat [of 53]
    by (simp_all add: k_def mult.commute add.commute)
  have "2 ^ 52 \<le> m" "m \<le> 2 ^ 53"
    using round_pos_bounds [OF assms] unfolding r p mult_le_cancel_right_pos [OF pow2_pos] of_int_le_iff
    by auto
  then consider "2 ^ 52 \<le> m" "m < 2 ^ 53" | "m = 2 ^ 53" by linarith
  then show ?thesis
  proof cases
    case 1
    then show ?thesis unfolding r by (rule round_pos_grid)
  next
    case 2
    have "pow2 (k + 1) = pow2 k * 2" using pow2_add [of k 1] by (simp add: pow2_def [of 1])
    then have "of_int m * pow2 k = of_int (2 ^ 52) * pow2 (k + 1)" by (simp add: 2)
    then show ?thesis unfolding r using round_pos_grid [of "2 ^ 52" "k + 1"] by simp
  qed
qed

lemma f64_idem: "f64 (f64 x) = f64 x"
  using round_pos_idem [of x] round_pos_idem [of "- x"] round_pos_nonneg [of x] round_pos_nonneg [of "- x"]
  by (auto simp: f64_def)

subsection \<open>The interface\<close>

locale rounding =
  fixes rnd :: "rat \<Rightarrow> rat"
  assumes rnd_mono: "x \<le> y \<Longrightarrow> rnd x \<le> rnd y"
    and rnd_int: "\<bar>n\<bar> \<le> 2 ^ 53 \<Longrightarrow> rnd (of_int n) = of_int n"
    and rnd_idem: "rnd (rnd x) = rnd x"
begin

lemma rnd_zero [simp]: "rnd 0 = 0"
  using rnd_int [of 0] by simp

lemma rnd_nonneg: "0 \<le> x \<Longrightarrow> 0 \<le> rnd x"
  using rnd_mono [of 0 x] by simp

lemma rnd_nonpos: "x \<le> 0 \<Longrightarrow> rnd x \<le> 0"
  using rnd_mono [of x 0] by simp

lemma rnd_le_fixed: "x \<le> y \<Longrightarrow> rnd y = y \<Longrightarrow> rnd x \<le> y"
  using rnd_mono [of x y] by simp

lemma rnd_ge_fixed: "y \<le> x \<Longrightarrow> rnd y = y \<Longrightarrow> y \<le> rnd x"
  using rnd_mono [of y x] by simp

text \<open>Taking a nonnegative amount off a representable one never gives more.\<close>

lemma rnd_sub_le: "rnd a = a \<Longrightarrow> 0 \<le> b \<Longrightarrow> rnd (a - b) \<le> a"
  by (rule rnd_le_fixed) auto

lemma rnd_add_ge: "rnd a = a \<Longrightarrow> 0 \<le> b \<Longrightarrow> a \<le> rnd (a + b)"
  by (rule rnd_ge_fixed) auto

lemma rnd_below_int: "x \<le> of_int n \<Longrightarrow> \<bar>n\<bar> \<le> 2 ^ 53 \<Longrightarrow> rnd x \<le> of_int n"
  using rnd_le_fixed [of x "of_int n"] rnd_int by blast

end

interpretation f64: rounding f64
  by unfold_locales (auto intro: f64_mono f64_int f64_idem)

lemma f64_one_third: "f64 (1 / 3) = 6004799503160661 / 18014398509481984"
  by code_simp

end
