(* ===== verification/Spend.thy ===== *)
theory Spend
  imports Go_Float Refusals
begin

text \<open>
  The daily spend cap of \<open>internal/rpc/spend.go\<close>: reservations against a caller's and
  the daemon's allowance, settled for what ran, carried over midnight, and the meter of a
  session. Every operation runs under the cap's mutex; the clock is read once for each.
  A \<open>*held\<close> pointer is a number, and \<open>sc_open\<close> the reservations not yet settled with
  the value each points to.
\<close>

subsection \<open>Seconds and days\<close>

text \<open>\<open>Duration.Seconds\<close>, and the conversion back, which truncates.\<close>

definition go_seconds :: "duration \<Rightarrow> float64" where
  "go_seconds d = f_add (f_of_int (go_quot d second)) (f_div (f_of_int (go_rem d second)) (f_of_int second))"

definition of_seconds :: "float64 \<Rightarrow> duration" where
  "of_seconds w = (let x = f_mul w (f_of_int second) in if x < 0 then - \<lfloor>- x\<rfloor> else \<lfloor>x\<rfloor>)"

definition day_length :: duration where "day_length = 86400 * second"

text \<open>The UTC calendar day of a time, as a day number, and the midnight it begins with.\<close>

definition day_of :: "gotime \<Rightarrow> int" where "day_of t = t div day_length"
definition midnight :: "int \<Rightarrow> gotime" where "midnight d = d * day_length"

subsection \<open>State\<close>

record held =
  h_principal :: string
  h_want :: float64
  h_start :: gotime
  h_day :: int
  h_carried :: bool
  h_owed :: bool
  h_until :: gotime

record spend_cap =
  sc_Total :: int
  sc_day :: "int option"
  sc_total :: float64
  sc_caller :: "(string, float64) gomap"
  sc_open :: "(nat, held) gomap"
  sc_next :: nat
  sc_refusedCaller :: nat
  sc_refusedDaemon :: nat

definition NewSpendCap :: "int \<Rightarrow> spend_cap" where
  "NewSpendCap t = \<lparr>sc_Total = t, sc_day = None, sc_total = 0, sc_caller = [], sc_open = [], sc_next = 0,
     sc_refusedCaller = 0, sc_refusedDaemon = 0\<rparr>"

definition add_spend :: "string \<Rightarrow> float64 \<Rightarrow> spend_cap \<Rightarrow> spend_cap" where
  "add_spend p x c = c\<lparr>sc_caller := AList.update p (f_add (lookup0 (sc_caller c) p) x) (sc_caller c),
     sc_total := f_add (sc_total c) x\<rparr>"

subsection \<open>Operations\<close>

text \<open>One turn of the loop in \<open>today\<close> over the open reservations.\<close>

definition carry :: "int \<Rightarrow> nat \<times> held \<Rightarrow> spend_cap \<Rightarrow> spend_cap" where
  "carry d e c = (case e of (i, h) \<Rightarrow>
     if h_owed h then
       (if \<not> h_until h > midnight d then c\<lparr>sc_open := AList.delete i (sc_open c)\<rparr>
        else add_spend (h_principal h) (go_seconds (time_sub (h_until h) (midnight d))) c)
     else
       add_spend (h_principal h) (h_want h)
         (c\<lparr>sc_open := AList.update i (h\<lparr>h_day := d, h_carried := True\<rparr>) (sc_open c)\<rparr>))"

definition today :: "gotime \<Rightarrow> spend_cap \<Rightarrow> spend_cap" where
  "today now c =
     (let d = day_of now
      in if Some d \<noteq> sc_day c
           then fold (carry d) (sc_open c) (c\<lparr>sc_day := Some d, sc_total := 0, sc_caller := []\<rparr>)
         else c)"

definition owe :: "gotime \<Rightarrow> string \<Rightarrow> gotime \<Rightarrow> spend_cap \<Rightarrow> float64 \<times> spend_cap" where
  "owe now who until c =
     (let c = today now c; secs = go_seconds (time_sub until now)
      in if secs \<le> 0 then (0, c)
         else
           let c = add_spend who secs c;
               h = \<lparr>h_principal = who, h_want = secs, h_start = now, h_day = the (sc_day c),
                    h_carried = False, h_owed = True, h_until = until\<rparr>
           in (secs, c\<lparr>sc_open := AList.update (sc_next c) h (sc_open c), sc_next := sc_next c + 1\<rparr>))"

definition book :: "gotime \<Rightarrow> string \<Rightarrow> float64 \<Rightarrow> int \<Rightarrow> spend_cap \<Rightarrow> nat \<times> spend_cap" where
  "book now who want day c =
     (let c = add_spend who want c;
          h = \<lparr>h_principal = who, h_want = want, h_start = now, h_day = day, h_carried = False,
               h_owed = False, h_until = zero_time\<rparr>
      in (sc_next c, c\<lparr>sc_open := AList.update (sc_next c) h (sc_open c), sc_next := sc_next c + 1\<rparr>))"

abbreviation paid_refusal :: goerr where
  "paid_refusal \<equiv> NotDispatchedError RefusalCapacity (Opaque 0)"

definition take_spend :: "gotime \<Rightarrow> string \<Rightarrow> int \<Rightarrow> float64 \<Rightarrow> spend_cap \<Rightarrow> (goerr + nat) \<times> spend_cap" where
  "take_spend now who perCaller want c =
     (let c = today now c
      in if perCaller > 0 \<and> f_add (lookup0 (sc_caller c) who) want > f_of_int perCaller
           then (Inl paid_refusal, c\<lparr>sc_refusedCaller := sc_refusedCaller c + 1\<rparr>)
         else if sc_Total c > 0 \<and> f_add (sc_total c) want > f_of_int (sc_Total c)
           then (Inl paid_refusal, c\<lparr>sc_refusedDaemon := sc_refusedDaemon c + 1\<rparr>)
         else case book now who want (day_of now) c of (i, c) \<Rightarrow> (Inr i, c))"

text \<open>\<open>give\<close> with the reservation's pointer; it also returns what the pointer then holds.\<close>

definition give :: "gotime \<Rightarrow> nat \<Rightarrow> duration \<Rightarrow> spend_cap \<Rightarrow> (float64 \<times> held option) \<times> spend_cap" where
  "give now i took c =
     (let c = today now c
      in case map_of (sc_open c) i of
           None \<Rightarrow> ((0, None), c)
         | Some h \<Rightarrow>
             let charged = min (max (go_seconds took) 0) (h_want h);
                 c = c\<lparr>sc_open := AList.delete i (sc_open c)\<rparr>;
                 finish = h_start h + of_seconds (h_want h);
                 (h, c) = (if charged \<ge> h_want h \<and> finish > now
                           then (h\<lparr>h_owed := True, h_until := finish\<rparr>,
                                 c\<lparr>sc_open := AList.update i (h\<lparr>h_owed := True, h_until := finish\<rparr>) (sc_open c)\<rparr>)
                           else (h, c))
             in if Some (h_day h) \<noteq> sc_day c then ((charged, Some h), c)
                else
                  let counted = (if h_carried h
                        then min (max (go_seconds (time_sub (h_start h + took) (midnight (h_day h)))) 0) charged
                        else charged);
                      back = f_sub (h_want h) counted;
                      p = h_principal h
                  in ((charged, Some h),
                      c\<lparr>sc_caller := AList.update p (f_sub (lookup0 (sc_caller c) p) back) (sc_caller c),
                        sc_total := f_sub (sc_total c) back\<rparr>))"

definition leak :: "gotime \<Rightarrow> nat \<Rightarrow> held \<Rightarrow> gotime \<Rightarrow> spend_cap \<Rightarrow> float64 \<times> spend_cap" where
  "leak now i h billsUntil c =
     (let finish = h_start h + of_seconds (h_want h)
      in if \<not> billsUntil > finish then (0, c)
         else
           let start = (if now > finish then now else finish);
               extra = go_seconds (time_sub billsUntil start)
           in if extra \<le> 0 then (0, c)
              else
                let c = add_spend (h_principal h) extra (today now c)
                in (extra, c\<lparr>sc_open := AList.update i (h\<lparr>h_owed := True, h_until := billsUntil\<rparr>) (sc_open c)\<rparr>))"

text \<open>A run's settle function: the reservation it settles, once, and what it charged.\<close>

record settlement =
  st_held :: nat
  st_done :: bool
  st_charged :: float64

definition reserve :: "gotime \<Rightarrow> string \<Rightarrow> int \<Rightarrow> duration \<Rightarrow> spend_cap \<Rightarrow> (goerr + settlement) \<times> spend_cap" where
  "reserve now who perCaller reserved c =
     (case take_spend now who perCaller (go_seconds reserved) c of
        (Inl e, c) \<Rightarrow> (Inl e, c)
      | (Inr i, c) \<Rightarrow> (Inr \<lparr>st_held = i, st_done = False, st_charged = 0\<rparr>, c))"

definition settle :: "gotime \<Rightarrow> duration \<Rightarrow> gotime \<Rightarrow> settlement \<Rightarrow> spend_cap \<Rightarrow> float64 \<times> settlement \<times> spend_cap" where
  "settle now took billsUntil st c =
     (if st_done st then (st_charged st, st, c)
      else
        case give now (st_held st) took c of
          ((charged, h), c) \<Rightarrow>
            (case h of
               None \<Rightarrow> (charged, st\<lparr>st_done := True, st_charged := charged\<rparr>, c)
             | Some h \<Rightarrow>
                 if charged \<ge> h_want h then
                   (case leak now (st_held st) h billsUntil c of
                      (extra, c) \<Rightarrow>
                        let charged = f_add charged extra
                        in (charged, st\<lparr>st_done := True, st_charged := charged\<rparr>, c))
                 else (charged, st\<lparr>st_done := True, st_charged := charged\<rparr>, c)))"

subsection \<open>The meter of a session\<close>

record meter =
  m_principal :: string
  m_perCaller :: int
  m_held :: "nat option"
  m_since :: gotime
  m_charged :: float64

definition new_meter :: "string \<Rightarrow> int \<Rightarrow> meter" where
  "new_meter p n = \<lparr>m_principal = p, m_perCaller = n, m_held = None, m_since = zero_time, m_charged = 0\<rparr>"

definition cover :: "gotime \<Rightarrow> duration \<Rightarrow> meter \<Rightarrow> spend_cap \<Rightarrow> goerr option \<times> meter \<times> spend_cap" where
  "cover now want m c =
     (case m_held m of
        None \<Rightarrow>
          (case take_spend now (m_principal m) (m_perCaller m) (go_seconds want) c of
             (Inl e, c) \<Rightarrow> (Some e, m, c)
           | (Inr i, c) \<Rightarrow> (None, m\<lparr>m_held := Some i, m_since := now\<rparr>, c))
      | Some i \<Rightarrow>
          let ran = time_sub now (m_since m);
              reserved = (case map_of (sc_open c) i of None \<Rightarrow> 0 | Some h \<Rightarrow> of_seconds (h_want h))
          in if ran + want \<le> reserved then (None, m, c)
             else
               (case give now i ran c of
                  ((charged, _), c) \<Rightarrow>
                    let m = m\<lparr>m_charged := f_add (m_charged m) charged\<rparr>
                    in case take_spend now (m_principal m) (m_perCaller m) (go_seconds want) c of
                         (Inl e, c) \<Rightarrow>
                           let rest = max (reserved - ran) 0; c = today now c
                           in (case book now (m_principal m) (go_seconds rest) (the (sc_day c)) c of
                                 (j, c) \<Rightarrow> (Some e, m\<lparr>m_held := Some j, m_since := now\<rparr>, c))
                       | (Inr j, c) \<Rightarrow> (None, m\<lparr>m_held := Some j, m_since := now\<rparr>, c)))"

definition stop_meter :: "gotime \<Rightarrow> meter \<Rightarrow> spend_cap \<Rightarrow> float64 \<times> meter \<times> spend_cap" where
  "stop_meter now m c =
     (case m_held m of
        None \<Rightarrow> (m_charged m, m, c)
      | Some i \<Rightarrow>
          (case give now i (time_sub now (m_since m)) c of
             ((charged, _), c) \<Rightarrow>
               let m = m\<lparr>m_charged := f_add (m_charged m) charged, m_held := None\<rparr>
               in (m_charged m, m, c)))"

definition running :: "meter \<Rightarrow> bool" where
  "running m \<longleftrightarrow> m_held m \<noteq> None"

definition spent :: "gotime \<Rightarrow> string \<Rightarrow> spend_cap \<Rightarrow> (float64 \<times> float64) \<times> spend_cap" where
  "spent now who c = (let c = today now c in ((lookup0 (sc_caller c) who, sc_total c), c))"

subsection \<open>What the books keep to\<close>

text \<open>The books are well formed: pointers below \<open>sc_next\<close>, each open once, amounts that are
  floats, reserved amounts that are not negative.\<close>

definition books_ok :: "spend_cap \<Rightarrow> bool" where
  "books_ok c \<longleftrightarrow> gomap_ok (sc_open c) \<and> (\<forall>(i, h) \<in> set (sc_open c). i < sc_next c \<and> 0 \<le> h_want h) \<and>
     f64 (sc_total c) = sc_total c \<and> (\<forall>p. f64 (lookup0 (sc_caller c) p) = lookup0 (sc_caller c) p)"

lemma f_add_fixed [simp]: "f64 (f_add a b) = f_add a b" "f64 (f_sub a b) = f_sub a b"
  by (simp_all add: float_ops f64.rnd_idem)

lemma add_spend_simps [simp]:
  "sc_open (add_spend p x c) = sc_open c" "sc_next (add_spend p x c) = sc_next c"
  "sc_day (add_spend p x c) = sc_day c" "sc_Total (add_spend p x c) = sc_Total c"
  "sc_total (add_spend p x c) = f_add (sc_total c) x"
  "lookup0 (sc_caller (add_spend p x c)) q =
     (if q = p then f_add (lookup0 (sc_caller c) p) x else lookup0 (sc_caller c) q)"
  by (simp_all add: add_spend_def)

lemma set_update_sub: "set (AList.update k v m) \<subseteq> insert (k, v) (set m)"
  by (induction m) auto

lemma set_delete_sub: "set (AList.delete k m) \<subseteq> set m"
  by (auto simp: AList.delete_eq)

lemma books_update:
  assumes "books_ok c" and "i < n" and "0 \<le> h_want h" and "sc_next c \<le> n"
  shows "books_ok (c\<lparr>sc_open := AList.update i h (sc_open c), sc_next := n\<rparr>)"
  using assms set_update_sub [of i h "sc_open c"] by (fastforce simp: books_ok_def)

lemma books_change:
  assumes "books_ok c" and "i < sc_next c" and "0 \<le> h_want h"
  shows "books_ok (c\<lparr>sc_open := AList.update i h (sc_open c)\<rparr>)"
  using assms set_update_sub [of i h "sc_open c"] by (fastforce simp: books_ok_def)

lemma books_delete: "books_ok c \<Longrightarrow> books_ok (c\<lparr>sc_open := AList.delete i (sc_open c)\<rparr>)"
  using set_delete_sub [of i "sc_open c"] by (fastforce simp: books_ok_def)

lemma books_add_spend: "books_ok c \<Longrightarrow> books_ok (add_spend p x c)"
  by (simp add: books_ok_def)

lemma books_carry:
  assumes "books_ok c" and "i < sc_next c" and "0 \<le> h_want h"
  shows "books_ok (carry d (i, h) c)" "sc_next (carry d (i, h) c) = sc_next c" "sc_day (carry d (i, h) c) = sc_day c"
    "sc_Total (carry d (i, h) c) = sc_Total c"
  using assms books_update [of c i "sc_next c" "h\<lparr>h_day := d, h_carried := True\<rparr>"]
  by (auto simp: carry_def books_add_spend books_delete)

lemma books_carries:
  assumes "\<forall>(i, h) \<in> set es. i < sc_next c \<and> 0 \<le> h_want h" and "books_ok c"
  shows "books_ok (fold (carry d) es c) \<and> sc_next (fold (carry d) es c) = sc_next c \<and>
    sc_day (fold (carry d) es c) = sc_day c \<and> sc_Total (fold (carry d) es c) = sc_Total c"
  using assms
proof (induction es arbitrary: c)
  case (Cons e es)
  obtain i h where e: "e = (i, h)" by force
  have "i < sc_next c" "0 \<le> h_want h" using Cons.prems e by auto
  note b = books_carry [OF Cons.prems(2) this, of d]
  have "\<forall>(i, h) \<in> set es. i < sc_next (carry d e c) \<and> 0 \<le> h_want h" using Cons.prems(1) b(2) e by auto
  from Cons.IH [OF this] b e show ?case by simp
qed simp

lemma books_today:
  assumes "books_ok c"
  shows "books_ok (today now c)" "sc_day (today now c) = Some (day_of now)"
    "sc_next (today now c) = sc_next c" "sc_Total (today now c) = sc_Total c"
proof -
  let ?c = "c\<lparr>sc_day := Some (day_of now), sc_total := 0, sc_caller := []\<rparr>"
  have "books_ok ?c" "\<forall>(i, h) \<in> set (sc_open c). i < sc_next ?c \<and> 0 \<le> h_want h"
    using assms by (auto simp: books_ok_def)
  from books_carries [OF this(2,1), of "day_of now"] assms
  show "books_ok (today now c)" "sc_day (today now c) = Some (day_of now)"
    "sc_next (today now c) = sc_next c" "sc_Total (today now c) = sc_Total c"
    by (auto simp: today_def Let_def)
qed

lemma today_again: "books_ok c \<Longrightarrow> today now (today now c) = today now c"
  using books_today(2) [of c now] by (simp add: today_def [of now "today now c"])

text \<open>What a new day begins with: the rest of every debt that is still billing, and every
  reservation still running, in full.\<close>

definition carried :: "int \<Rightarrow> nat \<times> held \<Rightarrow> float64 option" where
  "carried d e = (case e of (i, h) \<Rightarrow>
     if h_owed h then (if h_until h > midnight d then Some (go_seconds (time_sub (h_until h) (midnight d))) else None)
     else Some (h_want h))"

lemma carry_totals:
  "sc_total (fold (carry d) es c) = foldl f_add (sc_total c) (List.map_filter (carried d) es)"
  "lookup0 (sc_caller (fold (carry d) es c)) p =
     foldl f_add (lookup0 (sc_caller c) p)
       (List.map_filter (carried d) (filter (\<lambda>(i, h). h_principal h = p) es))"
  by (induction es arbitrary: c)
     (auto simp: carry_def carried_def map_filter_simps split: option.splits if_splits prod.splits)

lemma carry_open:
  assumes "gomap_ok es" and "\<forall>i \<in> fst ` set es. map_of (sc_open c) i = map_of es i"
  shows "map_of (sc_open (fold (carry d) es c)) i =
    (if i \<notin> fst ` set es then map_of (sc_open c) i
     else case map_of es i of None \<Rightarrow> None
       | Some h \<Rightarrow> if h_owed h then (if h_until h > midnight d then Some h else None)
                   else Some (h\<lparr>h_day := d, h_carried := True\<rparr>))"
  using assms
proof (induction es arbitrary: c)
  case (Cons e es)
  obtain j h where e: "e = (j, h)" by force
  have j: "j \<notin> fst ` set es" "gomap_ok es" using Cons.prems(1) e by (auto simp: gomap_ok_def)
  have "\<forall>i \<in> fst ` set es. map_of (sc_open (carry d e c)) i = map_of es i"
    using Cons.prems(2) j(1) e by (auto simp: carry_def update_conv' delete_conv')
  from Cons.IH [OF j(2) this] have IH: "map_of (sc_open (fold (carry d) es (carry d e c))) i =
    (if i \<notin> fst ` set es then map_of (sc_open (carry d e c)) i
     else case map_of es i of None \<Rightarrow> None
       | Some h \<Rightarrow> if h_owed h then (if h_until h > midnight d then Some h else None)
                   else Some (h\<lparr>h_day := d, h_carried := True\<rparr>))" .
  show ?case
  proof (cases "i = j")
    case True
    have "map_of (sc_open c) j = Some h" using Cons.prems(2) e by simp
    with True j(1) IH e show ?thesis by (auto simp: carry_def [of d "(j, h)" c] update_conv' delete_conv')
  next
    case False
    with IH e show ?thesis by (auto simp: carry_def [of d "(j, h)" c] update_conv' delete_conv')
  qed
qed simp

lemma today_open:
  assumes "books_ok c" and "map_of (sc_open c) i = Some h" and "\<not> h_owed h"
  shows "\<exists>h'. map_of (sc_open (today now c)) i = Some h' \<and> h_want h' = h_want h \<and> \<not> h_owed h' \<and>
    h_principal h' = h_principal h \<and> h_start h' = h_start h"
proof (cases "Some (day_of now) = sc_day c")
  case True
  with assms show ?thesis by (simp add: today_def)
next
  case False
  have i: "i \<in> fst ` set (sc_open c)" using assms(2) by (force dest: map_of_SomeD)
  have "gomap_ok (sc_open c)" using assms(1) by (simp add: books_ok_def)
  from carry_open [OF this, of "c\<lparr>sc_day := Some (day_of now), sc_total := 0, sc_caller := []\<rparr>" "day_of now" i]
  show ?thesis using False i assms(2,3) by (simp add: today_def Let_def)
qed

lemma book_facts:
  assumes "books_ok c" and "0 \<le> want" and "book now p want d c = (i, c')"
  shows "books_ok c'" "i = sc_next c" "sc_next c' = sc_next c + 1" "sc_day c' = sc_day c"
    "map_of (sc_open c') j = (if j = i then Some \<lparr>h_principal = p, h_want = want, h_start = now, h_day = d,
        h_carried = False, h_owed = False, h_until = zero_time\<rparr> else map_of (sc_open c) j)"
    "sc_total c' = f_add (sc_total c) want"
    "lookup0 (sc_caller c') q = (if q = p then f_add (lookup0 (sc_caller c) p) want else lookup0 (sc_caller c) q)"
  using assms books_update [OF books_add_spend [OF assms(1)], of "sc_next c" "sc_next c + 1"
      "\<lparr>h_principal = p, h_want = want, h_start = now, h_day = d, h_carried = False, h_owed = False,
        h_until = zero_time\<rparr>" p want]
  by (auto simp: book_def Let_def update_conv')

lemma go_seconds_nonneg: "0 \<le> d \<Longrightarrow> 0 \<le> go_seconds d"
proof -
  assume "0 \<le> d"
  then have q: "0 \<le> go_quot d second" "0 \<le> go_rem d second"
    by (auto simp: go_quot_def go_rem_def second_def minus_mult_div_eq_mod pos_imp_zdiv_nonneg_iff)
  then have "0 \<le> f_of_int (go_quot d second)" "0 \<le> f_of_int (go_rem d second)" "0 \<le> f_of_int second"
    by (auto simp: f_of_int_def second_def intro!: f64.rnd_nonneg)
  then show ?thesis by (auto simp: go_seconds_def f_add_def f_div_def intro!: f64.rnd_nonneg add_nonneg_nonneg)
qed

lemma today_same: "sc_day c = Some (day_of now) \<Longrightarrow> today now c = c"
  by (simp add: today_def)

lemma take_facts:
  assumes "books_ok c" and "0 \<le> want" and "take_spend now p n want c = (r, c')"
  shows "books_ok c'" "sc_day c' = Some (day_of now)"
    and "r = Inr i \<Longrightarrow> book now p want (day_of now) (today now c) = (i, c') \<and>
      (0 < n \<longrightarrow> lookup0 (sc_caller c') p \<le> f_of_int n) \<and> (0 < sc_Total c \<longrightarrow> sc_total c' \<le> f_of_int (sc_Total c))"
    and "r = Inl e \<Longrightarrow> e = paid_refusal \<and> sc_open c' = sc_open (today now c) \<and>
      sc_caller c' = sc_caller (today now c) \<and> sc_total c' = sc_total (today now c) \<and> sc_next c' = sc_next c \<and>
      today now c' = c'"
proof -
  note t = books_today [OF assms(1), of now]
  have same: "books_ok (c''\<lparr>sc_refusedCaller := k\<rparr>) = books_ok c''" "books_ok (c''\<lparr>sc_refusedDaemon := k\<rparr>) = books_ok c''" for c'' k
    by (simp_all add: books_ok_def)
  obtain j c1 where b: "book now p want (day_of now) (today now c) = (j, c1)" by force
  note bf = book_facts [OF t(1) assms(2) b]
  show "books_ok c'" "sc_day c' = Some (day_of now)"
    using assms(3) b bf t by (auto simp: take_spend_def Let_def same split: if_splits)
  show "r = Inr i \<Longrightarrow> book now p want (day_of now) (today now c) = (i, c') \<and>
      (0 < n \<longrightarrow> lookup0 (sc_caller c') p \<le> f_of_int n) \<and> (0 < sc_Total c \<longrightarrow> sc_total c' \<le> f_of_int (sc_Total c))"
    using assms(3) b bf t by (auto simp: take_spend_def Let_def split: if_splits)
  show "r = Inl e \<Longrightarrow> e = paid_refusal \<and> sc_open c' = sc_open (today now c) \<and>
      sc_caller c' = sc_caller (today now c) \<and> sc_total c' = sc_total (today now c) \<and> sc_next c' = sc_next c \<and>
      today now c' = c'"
    using assms(3) b t by (auto simp: take_spend_def Let_def today_same split: if_splits)
qed

lemma give_facts:
  assumes ok: "books_ok c" and h: "map_of (sc_open c) i = Some h" "\<not> h_owed h"
    and g: "give now i took c = ((charged, ho), c')"
  shows "books_ok c'" "sc_day c' = Some (day_of now)" "sc_next c' = sc_next c" "sc_Total c' = sc_Total c"
    and "charged = min (max (go_seconds took) 0) (h_want h)"
    and "sc_total c' \<le> sc_total (today now c)"
    and "lookup0 (sc_caller c') p \<le> lookup0 (sc_caller (today now c)) p"
    and "\<exists>h2. ho = Some h2 \<and> h_want h2 = h_want h"
proof -
  let ?t = "today now c"
  note t = books_today [OF ok, of now]
  obtain h1 where h1: "map_of (sc_open ?t) i = Some h1" "h_want h1 = h_want h"
    using today_open [OF ok h] by blast
  have mem: "(i, h1) \<in> set (sc_open ?t)" using h1(1) by (rule map_of_SomeD)
  then have w: "0 \<le> h_want h1" "i < sc_next ?t" using t(1) by (auto simp: books_ok_def)
  let ?ch = "min (max (go_seconds took) 0) (h_want h1)"
  let ?c1 = "?t\<lparr>sc_open := AList.delete i (sc_open ?t)\<rparr>"
  let ?fin = "h_start h1 + of_seconds (h_want h1)"
  let ?h2 = "if ?ch \<ge> h_want h1 \<and> ?fin > now then h1\<lparr>h_owed := True, h_until := ?fin\<rparr> else h1"
  let ?c2 = "if ?ch \<ge> h_want h1 \<and> ?fin > now then ?c1\<lparr>sc_open := AList.update i ?h2 (sc_open ?c1)\<rparr> else ?c1"
  have c1: "books_ok ?c1" by (rule books_delete [OF t(1)])
  have c2: "books_ok ?c2"
    using c1 books_update [OF c1, of i "sc_next ?t" ?h2] w by auto
  have f: "sc_next ?c2 = sc_next c" "sc_day ?c2 = Some (day_of now)" "sc_Total ?c2 = sc_Total c"
      "sc_total ?c2 = sc_total ?t" "sc_caller ?c2 = sc_caller ?t"
    using t by auto
  define kept where "kept = f_sub (h_want h1) (if h_carried h1
      then min (max (go_seconds (time_sub (h_start h1 + took) (midnight (h_day h1)))) 0) ?ch else ?ch)"
  have kept: "0 \<le> kept" by (auto simp: kept_def f_sub_def intro!: f64.rnd_nonneg)
  have eq: "((charged, ho), c') = (if Some (h_day h1) \<noteq> sc_day ?c2 then ((?ch, Some ?h2), ?c2)
      else ((?ch, Some ?h2), ?c2\<lparr>sc_caller := AList.update (h_principal h1)
          (f_sub (lookup0 (sc_caller ?c2) (h_principal h1)) kept) (sc_caller ?c2),
        sc_total := f_sub (sc_total ?c2) kept\<rparr>))"
    using g h1(1) by (auto simp: give_def Let_def kept_def split: if_splits)
  have sub: "f_sub a kept \<le> a" if "f64 a = a" for a
    using f64.rnd_sub_le [OF that kept] by (simp add: f_sub_def)
  have fx: "f64 (sc_total ?t) = sc_total ?t" "f64 (lookup0 (sc_caller ?t) q) = lookup0 (sc_caller ?t) q" for q
    using t(1) by (auto simp: books_ok_def)
  have "ho = Some ?h2" using eq by (auto split: if_splits)
  then show "\<exists>h2. ho = Some h2 \<and> h_want h2 = h_want h" using h1(2) by auto
  from eq c2 show "books_ok c'"
    by (auto simp: books_ok_def split: if_splits)
  from eq show "charged = min (max (go_seconds took) 0) (h_want h)" using h1(2) by (auto split: if_splits)
  from eq f show "sc_day c' = Some (day_of now)" "sc_next c' = sc_next c" "sc_Total c' = sc_Total c"
    by (auto split: if_splits)
  from eq f sub [OF fx(1)] show "sc_total c' \<le> sc_total ?t" by (auto split: if_splits)
  from eq f sub [OF fx(2)] show "lookup0 (sc_caller c') p \<le> lookup0 (sc_caller ?t) p" by (auto split: if_splits)
qed

subsection \<open>Every reachable state of the books\<close>

lemma books_give: "books_ok c \<Longrightarrow> books_ok (snd (give now i took c))"
proof -
  assume ok: "books_ok c"
  let ?t = "today now c"
  note t = books_today [OF ok, of now]
  show ?thesis
  proof (cases "map_of (sc_open ?t) i")
    case None
    with t show ?thesis by (simp add: give_def)
  next
    case (Some h)
    then have w: "0 \<le> h_want h" "i < sc_next ?t" using t(1) by (auto simp: books_ok_def dest!: map_of_SomeD)
    let ?c1 = "?t\<lparr>sc_open := AList.delete i (sc_open ?t)\<rparr>"
    have c1: "books_ok ?c1" by (rule books_delete [OF t(1)])
    have "books_ok (?c1\<lparr>sc_open := AList.update i (h\<lparr>h_owed := True, h_until := u\<rparr>) (sc_open ?c1)\<rparr>)" for u
      using books_update [OF c1, of i "sc_next ?t" "h\<lparr>h_owed := True, h_until := u\<rparr>"] w by simp
    with c1 Some show ?thesis by (auto simp: give_def Let_def books_ok_def)
  qed
qed

lemma books_leak: "books_ok c \<Longrightarrow> i < sc_next c \<Longrightarrow> 0 \<le> h_want h \<Longrightarrow> books_ok (snd (leak now i h u c))"
proof -
  assume a: "books_ok c" "i < sc_next c" "0 \<le> h_want h"
  have "books_ok ((add_spend p x (today now c))\<lparr>sc_open :=
      AList.update i (h\<lparr>h_owed := True, h_until := u\<rparr>) (sc_open (add_spend p x (today now c)))\<rparr>)" for p x
    using books_change [OF books_add_spend [OF books_today(1) [OF a(1)]]] a books_today(3) [OF a(1)] by simp
  with a show ?thesis by (auto simp: leak_def Let_def)
qed

lemma books_owe: "books_ok c \<Longrightarrow> books_ok (snd (owe now p u c))"
proof -
  assume a: "books_ok c"
  have "books_ok ((add_spend p x (today now c))\<lparr>sc_open := AList.update (sc_next c) h (sc_open (today now c)),
      sc_next := sc_next c + 1\<rparr>)" if "0 \<le> h_want h" for x h
    using books_update [OF books_add_spend [OF books_today(1) [OF a]], of "sc_next c" "sc_next c + 1" h] that
      books_today(3) [OF a] by simp
  with a books_today [OF a, of now] show ?thesis by (auto simp: owe_def Let_def)
qed

text \<open>The operations on the books, in any order and with any arguments.\<close>

inductive spend_step :: "spend_cap \<Rightarrow> spend_cap \<Rightarrow> bool" where
  step_take: "0 \<le> d \<Longrightarrow> spend_step c (snd (take_spend now p n (go_seconds d) c))"
| step_book: "0 \<le> d \<Longrightarrow> spend_step c (snd (book now p (go_seconds d) (day_of now) (today now c)))"
| step_give: "spend_step c (snd (give now i took c))"
| step_leak: "i < sc_next c \<Longrightarrow> 0 \<le> h_want h \<Longrightarrow> spend_step c (snd (leak now i h until c))"
| step_owe: "spend_step c (snd (owe now p until c))"
| step_read: "spend_step c (snd (spent now p c))"

definition spend_init :: "spend_cap \<Rightarrow> bool" where
  "spend_init c \<longleftrightarrow> (\<exists>t. c = NewSpendCap t)"

interpretation books: inductive_invariant spend_init spend_step books_ok
proof
  show "spend_init s \<Longrightarrow> books_ok s" for s
    by (auto simp: spend_init_def NewSpendCap_def books_ok_def)
  show "spend_step s t \<Longrightarrow> books_ok s \<Longrightarrow> books_ok t" for s t
  proof (induction rule: spend_step.induct)
    case (step_take d c now p n)
    obtain r c' where "take_spend now p n (go_seconds d) c = (r, c')" by force
    with take_facts(1) [OF step_take(2) go_seconds_nonneg [OF step_take(1)] this] show ?case by simp
  next
    case (step_book d c now p)
    obtain i c' where "book now p (go_seconds d) (day_of now) (today now c) = (i, c')" by force
    with book_facts(1) [OF books_today(1) [OF step_book(2)] go_seconds_nonneg [OF step_book(1)] this] show ?case by simp
  qed (auto simp: books_give books_leak books_owe books_today spent_def Let_def)
qed

subsection \<open>Properties\<close>

text \<open>C10: The paid allowances are never overrun by an admitted run. A reservation that is
  granted leaves the caller's and the daemon's counts for the day within their allowances
  and is on the books; a refused one is marked as never dispatched, for capacity, and
  changes nothing but the refusal counters.\<close>

theorem reservation_within_allowance:
  assumes "reach spend_init spend_step c" and "0 \<le> d"
    and "take_spend now who perCaller (go_seconds d) c = (r, c')"
  shows "case r of
      Inr i \<Rightarrow> (0 < perCaller \<longrightarrow> lookup0 (sc_caller c') who \<le> f_of_int perCaller) \<and>
        (0 < sc_Total c \<longrightarrow> sc_total c' \<le> f_of_int (sc_Total c)) \<and>
        (\<exists>h. map_of (sc_open c') i = Some h \<and> h_principal h = who \<and> h_want h = go_seconds d \<and> h_start h = now)
    | Inl e \<Rightarrow> as_not_dispatched e = Some RefusalCapacity \<and> sc_open c' = sc_open (today now c) \<and>
        sc_caller c' = sc_caller (today now c) \<and> sc_total c' = sc_total (today now c)"
proof -
  have ok: "books_ok c" by (rule books.reach_inv [OF assms(1)])
  note tf = take_facts [OF ok go_seconds_nonneg [OF assms(2)] assms(3)]
  show ?thesis
  proof (cases r)
    case (Inl e)
    with tf(4) [OF Inl] show ?thesis by simp
  next
    case (Inr i)
    note b = tf(3) [OF Inr]
    with book_facts(5) [OF books_today(1) [OF ok] go_seconds_nonneg [OF assms(2)] conjunct1 [OF b], of i]
    show ?thesis by (auto simp: Inr)
  qed
qed

definition demo_books :: spend_cap where
  "demo_books = snd (take_spend 0 ''ann'' 50 (go_seconds (30 * second)) (NewSpendCap 100))"

lemma demo_books_reach: "reach spend_init spend_step demo_books"
proof -
  have "reach spend_init spend_step (NewSpendCap 100)"
    by (rule reach.reach_init) (auto simp: spend_init_def)
  from reach.reach_step [OF this step_take [of "30 * second"]] show ?thesis
    by (simp add: demo_books_def second_def)
qed

theorem reservation_within_allowance_witness:
  "\<exists>e c'. take_spend second ''ann'' 50 (go_seconds (30 * second)) demo_books = (Inl e, c') \<and>
     as_not_dispatched e = Some RefusalCapacity \<and> lookup0 (sc_caller c') ''ann'' = 30"
proof -
  let ?r = "take_spend second ''ann'' 50 (go_seconds (30 * second)) demo_books"
  have "fst ?r = Inl paid_refusal" "lookup0 (sc_caller (snd ?r)) ''ann'' = 30" by code_simp+
  then obtain c' where r: "?r = (Inl paid_refusal, c')" "lookup0 (sc_caller c') ''ann'' = 30"
    by (metis prod.collapse)
  have "0 \<le> 30 * second" by (simp add: second_def)
  from reservation_within_allowance [OF demo_books_reach this r(1)] r show ?thesis by auto
qed

definition metered :: "meter \<Rightarrow> spend_cap \<Rightarrow> bool" where
  "metered m c \<longleftrightarrow> (case m_held m of None \<Rightarrow> True
     | Some i \<Rightarrow> \<exists>h. map_of (sc_open c) i = Some h \<and> \<not> h_owed h)"

text \<open>A paid session is never left unmetered. Covering more time for a session that runs
  always leaves it with a reservation on the books, even when the new one is refused: then
  the old one is booked again, from now, for the time it still covered. A session that is
  refused while it does not run is unchanged.\<close>

theorem session_stays_metered:
  assumes "reach spend_init spend_step c" and "metered m c" and "0 \<le> want"
    and "cover now want m c = (err, m', c')"
  shows "metered m' c' \<and> (running m \<or> err = None \<longrightarrow> running m') \<and> (\<not> running m \<and> err \<noteq> None \<longrightarrow> m' = m) \<and>
    (\<forall>i h. err \<noteq> None \<and> m_held m = Some i \<and> map_of (sc_open c) i = Some h \<longrightarrow> m_since m' = now \<and>
      (\<exists>j h'. m_held m' = Some j \<and> map_of (sc_open c') j = Some h' \<and> h_start h' = now \<and>
        h_want h' = go_seconds (max (of_seconds (h_want h) - time_sub now (m_since m)) 0)))"
proof (cases "m_held m")
  case None
  obtain r c1 where t: "take_spend now (m_principal m) (m_perCaller m) (go_seconds want) c = (r, c1)" by force
  note tf = take_facts [OF books.reach_inv [OF assms(1)] go_seconds_nonneg [OF assms(3)] t]
  show ?thesis
  proof (cases r)
    case (Inl e)
    with None t assms(4) show ?thesis by (auto simp: cover_def metered_def running_def)
  next
    case (Inr i)
    from book_facts(5) [OF books_today(1) [OF books.reach_inv [OF assms(1)]] go_seconds_nonneg [OF assms(3)]] tf(3) [OF Inr]
    have "\<exists>h. map_of (sc_open c1) i = Some h \<and> \<not> h_owed h" by (auto split: if_splits)
    with Inr None t assms(4) show ?thesis by (auto simp: cover_def metered_def running_def)
  qed
next
  case (Some i)
  then obtain h where h: "map_of (sc_open c) i = Some h" "\<not> h_owed h" using assms(2) by (auto simp: metered_def)
  let ?ran = "time_sub now (m_since m)"
  obtain ch ho c1 where g: "give now i ?ran c = ((ch, ho), c1)" by (metis prod.exhaust)
  have ok: "books_ok c" by (rule books.reach_inv [OF assms(1)])
  note gf = give_facts [OF ok h g]
  obtain r c2 where t: "take_spend now (m_principal m) (m_perCaller m) (go_seconds want) c1 = (r, c2)" by force
  note tf = take_facts [OF gf(1) go_seconds_nonneg [OF assms(3)] t]
  show ?thesis
  proof (cases "?ran + want \<le> of_seconds (h_want h)")
    case True
    with Some h assms(2,4) show ?thesis by (auto simp: cover_def metered_def running_def)
  next
    case False
    show ?thesis
    proof (cases r)
      case (Inr j)
      from book_facts(5) [OF books_today(1) [OF gf(1)] go_seconds_nonneg [OF assms(3)]] tf(3) [OF Inr]
      have "\<exists>h. map_of (sc_open c2) j = Some h \<and> \<not> h_owed h" by (auto split: if_splits)
      with Inr False Some h g t assms(4) show ?thesis by (auto simp: cover_def metered_def running_def Let_def)
    next
      case (Inl e)
      let ?rest = "max (of_seconds (h_want h) - ?ran) 0"
      obtain j c3 where b: "book now (m_principal m) (go_seconds ?rest) (the (sc_day c2)) c2 = (j, c3)" by force
      have "0 \<le> go_seconds ?rest" by (rule go_seconds_nonneg) simp
      note bf = book_facts(5) [OF tf(1) this b, of j]
      have "today now c2 = c2" using tf(4) [OF Inl] by blast
      with Inl False Some h g t b bf assms(4) show ?thesis
        by (auto simp: cover_def metered_def running_def Let_def)
    qed
  qed
qed

definition demo_meter :: meter where
  "demo_meter = (new_meter ''ann'' 50)\<lparr>m_held := Some 0\<rparr>"

theorem session_stays_metered_witness:
  "\<exists>e m' c'. cover (10 * second) (60 * second) (demo_meter\<lparr>m_since := 0\<rparr>) demo_books = (Some e, m', c') \<and> running m'"
proof -
  let ?m = "demo_meter\<lparr>m_since := 0\<rparr>"
  let ?r = "cover (10 * second) (60 * second) ?m demo_books"
  have "fst ?r = Some paid_refusal" by code_simp
  then obtain m' c' where r: "?r = (Some paid_refusal, m', c')" by (metis prod.collapse)
  have "case map_of (sc_open demo_books) 0 of None \<Rightarrow> False | Some h \<Rightarrow> \<not> h_owed h" by code_simp
  then have "metered ?m demo_books" by (auto simp: metered_def demo_meter_def split: option.splits)
  moreover have "0 \<le> 60 * second" by (simp add: second_def)
  ultimately have "running m'"
    using session_stays_metered [OF demo_books_reach _ _ r] by (simp add: running_def demo_meter_def)
  with r show ?thesis by blast
qed

text \<open>Midnight. The first operation of a new UTC day starts the day's counts, the caller's and
  the daemon's, with every reservation still running in full and with the part after
  midnight of every debt that is still billing, and forgets the debts that ended.\<close>

theorem midnight_carries_over:
  assumes "sc_day c \<noteq> Some (day_of now)"
  shows "sc_total (today now c) = foldl f_add 0 (List.map_filter (carried (day_of now)) (sc_open c)) \<and>
    lookup0 (sc_caller (today now c)) who = foldl f_add 0
      (List.map_filter (carried (day_of now)) (filter (\<lambda>(i, h). h_principal h = who) (sc_open c)))"
  using assms carry_totals [of "day_of now" "sc_open c" "c\<lparr>sc_day := Some (day_of now), sc_total := 0, sc_caller := []\<rparr>"]
  by (auto simp: today_def Let_def)

theorem midnight_carries_over_witness:
  "sc_total (today day_length demo_books) = 30"
proof -
  have d: "sc_day demo_books \<noteq> Some (day_of day_length)" by code_simp
  have "foldl f_add 0 (List.map_filter (carried (day_of day_length)) (sc_open demo_books)) = 30" by code_simp
  with midnight_carries_over [OF d] show ?thesis by simp
qed

text \<open>Settling a run. It charges what the run took, between nothing and what was reserved,
  the day's counts never rise by it, and a second call of the same settle function
  charges the same and changes nothing.\<close>

theorem settle_once:
  assumes "reach spend_init spend_step c" and "map_of (sc_open c) (st_held st) = Some h" and "\<not> h_owed h"
    and "\<not> st_done st" and "give now (st_held st) took c = ((charged, ho), c1)"
    and "settle now took billsUntil st c = (x, st', c')"
  shows "0 \<le> charged \<and> charged \<le> h_want h \<and> charged = min (max (go_seconds took) 0) (h_want h) \<and>
    sc_total c1 \<le> sc_total (today now c) \<and> lookup0 (sc_caller c1) p \<le> lookup0 (sc_caller (today now c)) p \<and>
    (charged < h_want h \<longrightarrow> x = charged \<and> c' = c1) \<and>
    settle later took' bills' st' c'' = (x, st', c'')"
proof -
  have ok: "books_ok c" by (rule books.reach_inv [OF assms(1)])
  note gf = give_facts [OF ok assms(2,3,5)]
  note ho = gf(8)
  have "0 \<le> h_want h" using ok assms(2) by (auto simp: books_ok_def dest!: map_of_SomeD)
  moreover have "st_done st' \<and> st_charged st' = x \<and> (charged < h_want h \<longrightarrow> x = charged \<and> c' = c1)"
    using assms(4,5,6) ho by (auto simp: settle_def Let_def split: prod.splits if_splits)
  ultimately show ?thesis using gf(5-7) by (auto simp: settle_def)
qed

theorem settle_once_witness:
  "\<exists>x st' c'. settle (5 * second) (5 * second) zero_time \<lparr>st_held = 0, st_done = False, st_charged = 0\<rparr> demo_books
      = (x, st', c') \<and> x = 5"
proof -
  let ?st = "\<lparr>st_held = 0, st_done = False, st_charged = 0\<rparr> :: settlement"
  let ?g = "give (5 * second) (st_held ?st) (5 * second) demo_books"
  have o: "case map_of (sc_open demo_books) 0 of None \<Rightarrow> False | Some h \<Rightarrow> \<not> h_owed h \<and> h_want h = 30" by code_simp
  then obtain h where h: "map_of (sc_open demo_books) (st_held ?st) = Some h" "\<not> h_owed h" "h_want h = 30"
    by (auto split: option.splits)
  have ch: "fst (fst ?g) = 5" by code_simp
  obtain ho c1 where g: "?g = ((5, ho), c1)" using ch by (metis prod.collapse)
  obtain x st' c' where s: "settle (5 * second) (5 * second) zero_time ?st demo_books = (x, st', c')" by (metis prod.exhaust)
  from settle_once [OF demo_books_reach h(1,2) _ g s] h(3) s show ?thesis by auto
qed

end
