(* ===== verification/Limiter.thy ===== *)
theory Limiter
  imports Spend
begin

text \<open>
  Admission control for runs, \<open>CodeLimiter\<close> of \<open>internal/rpc/limiter.go\<close>: a global
  and a per-caller cap on runs in flight, and a token bucket per caller. A refusal gives
  back what it took. \<open>acquire\<close> and the release function each have two critical sections,
  the channel of global slots and the mutex, so a run is a ticket that passes through
  them.
\<close>

subsection \<open>State\<close>

record bucket =
  bk_tokens :: float64
  bk_last :: gotime

record limiter =
  l_max :: int
  l_perKey :: int
  l_perMin :: int
  l_burst :: float64
  l_refill :: float64
  l_sem :: int
  l_inflight :: "(string, int) gomap"
  l_buckets :: "(string, bucket) gomap"
  l_lastTrim :: gotime
  l_atCapacity :: nat
  l_perKeyFull :: nat
  l_rateLimited :: nat

definition NewCodeLimiter :: "int \<Rightarrow> int \<Rightarrow> int \<Rightarrow> int \<Rightarrow> limiter" where
  "NewCodeLimiter maxConcurrent perKeyConcurrent perMinute burst =
     (let b = f_of_int burst
      in \<lparr>l_max = (if maxConcurrent < 1 then 1 else maxConcurrent), l_perKey = perKeyConcurrent,
          l_perMin = perMinute, l_burst = (if b \<le> 0 then f_of_int perMinute else b),
          l_refill = f_div (f_of_int perMinute) 60, l_sem = 0, l_inflight = [], l_buckets = [],
          l_lastTrim = zero_time, l_atCapacity = 0, l_perKeyFull = 0, l_rateLimited = 0\<rparr>)"

subsection \<open>The token bucket\<close>

definition refilled :: "limiter \<Rightarrow> gotime \<Rightarrow> bucket \<Rightarrow> float64" where
  "refilled l now b = f_add (bk_tokens b) (f_mul (go_seconds (time_sub now (bk_last b))) (l_refill l))"

definition trim_buckets :: "gotime \<Rightarrow> limiter \<Rightarrow> limiter" where
  "trim_buckets now l =
     (if time_sub now (l_lastTrim l) > minute
        then l\<lparr>l_buckets := filter (\<lambda>(k, b). \<not> (time_sub now (bk_last b) > 2 * minute \<and> refilled l now b \<ge> l_burst l))
                 (l_buckets l),
               l_lastTrim := now\<rparr>
      else l)"

text \<open>What follows the trim: make the bucket if there is none, refill it, take a token.\<close>

definition take_token :: "string \<Rightarrow> gotime \<Rightarrow> limiter \<Rightarrow> bool \<times> limiter" where
  "take_token key now l =
     (let b = (case map_of (l_buckets l) key of None \<Rightarrow> \<lparr>bk_tokens = l_burst l, bk_last = now\<rparr> | Some b \<Rightarrow> b);
          t = refilled l now b;
          t = (if t > l_burst l then l_burst l else t)
      in if t < 1 then (False, l\<lparr>l_buckets := AList.update key \<lparr>bk_tokens = t, bk_last = now\<rparr> (l_buckets l)\<rparr>)
         else (True, l\<lparr>l_buckets := AList.update key \<lparr>bk_tokens = f_sub t 1, bk_last = now\<rparr> (l_buckets l)\<rparr>))"

definition takeTokenLocked :: "string \<Rightarrow> gotime \<Rightarrow> limiter \<Rightarrow> bool \<times> limiter" where
  "takeTokenLocked key now l = take_token key now (trim_buckets now l)"

definition Charge :: "string \<Rightarrow> gotime \<Rightarrow> limiter \<Rightarrow> goerr option \<times> limiter" where
  "Charge key now l =
     (if l_perMin l \<le> 0 then (None, l)
      else case takeTokenLocked key now l of
        (ok, l) \<Rightarrow> if \<not> ok then (Some paid_refusal, l\<lparr>l_rateLimited := l_rateLimited l + 1\<rparr>) else (None, l))"

subsection \<open>Acquire and release\<close>

datatype shed = AtCapacity | PerKeyFull | RateLimited

datatype ticket_phase = TArrived | TSlotted | TRefusing shed | TGranted | TReleasing | TReleased | TRefused shed

record ticket =
  tk_key :: string
  tk_charge :: bool
  tk_phase :: ticket_phase

definition new_ticket :: "bool \<Rightarrow> string \<Rightarrow> ticket" where
  "new_ticket charge key = \<lparr>tk_key = key, tk_charge = charge, tk_phase = TArrived\<rparr>"

text \<open>\<open>Acquire\<close> charges the caller's rate, \<open>Hold\<close> does not.\<close>

definition Acquire :: "string \<Rightarrow> ticket" where "Acquire = new_ticket True"
definition Hold :: "string \<Rightarrow> ticket" where "Hold = new_ticket False"

text \<open>
  The sections of \<open>acquire\<close>: take a global slot; decide under the mutex; on a refusal
  give the slot back and count it. \<open>TGranted\<close> is a run that holds its release function,
  \<open>TRefused\<close> one whose error says that it was never dispatched.
\<close>

definition count_shed :: "shed \<Rightarrow> limiter \<Rightarrow> limiter" where
  "count_shed why l = (case why of
     AtCapacity \<Rightarrow> l\<lparr>l_atCapacity := l_atCapacity l + 1\<rparr>
   | PerKeyFull \<Rightarrow> l\<lparr>l_perKeyFull := l_perKeyFull l + 1\<rparr>
   | RateLimited \<Rightarrow> l\<lparr>l_rateLimited := l_rateLimited l + 1\<rparr>)"

definition acq_slot :: "limiter \<Rightarrow> ticket \<Rightarrow> limiter \<times> ticket" where
  "acq_slot l t =
     (if l_sem l < l_max l then (l\<lparr>l_sem := l_sem l + 1\<rparr>, t\<lparr>tk_phase := TSlotted\<rparr>)
      else (count_shed AtCapacity l, t\<lparr>tk_phase := TRefused AtCapacity\<rparr>))"

definition acq_decide :: "gotime \<Rightarrow> limiter \<Rightarrow> ticket \<Rightarrow> limiter \<times> ticket" where
  "acq_decide now l t =
     (let key = tk_key t
      in if l_perKey l > 0 \<and> lookup0 (l_inflight l) key \<ge> l_perKey l
           then (l, t\<lparr>tk_phase := TRefusing PerKeyFull\<rparr>)
         else
           let (ok, l) = (if tk_charge t \<and> l_perMin l > 0 then takeTokenLocked key now l else (True, l))
           in if \<not> ok then (l, t\<lparr>tk_phase := TRefusing RateLimited\<rparr>)
              else (l\<lparr>l_inflight := AList.update key (lookup0 (l_inflight l) key + 1) (l_inflight l)\<rparr>,
                    t\<lparr>tk_phase := TGranted\<rparr>))"

definition acq_undo :: "shed \<Rightarrow> limiter \<Rightarrow> ticket \<Rightarrow> limiter \<times> ticket" where
  "acq_undo why l t = (count_shed why (l\<lparr>l_sem := l_sem l - 1\<rparr>), t\<lparr>tk_phase := TRefused why\<rparr>)"

text \<open>The release function runs once: the count under the mutex, then the slot.\<close>

definition rel_key :: "limiter \<Rightarrow> ticket \<Rightarrow> limiter \<times> ticket" where
  "rel_key l t =
     (let key = tk_key t
      in (l\<lparr>l_inflight := (if lookup0 (l_inflight l) key > 1
             then AList.update key (lookup0 (l_inflight l) key - 1) (l_inflight l)
             else AList.delete key (l_inflight l))\<rparr>,
          t\<lparr>tk_phase := TReleasing\<rparr>))"

definition rel_slot :: "limiter \<Rightarrow> ticket \<Rightarrow> limiter \<times> ticket" where
  "rel_slot l t = (l\<lparr>l_sem := l_sem l - 1\<rparr>, t\<lparr>tk_phase := TReleased\<rparr>)"

definition acquire_err :: "ticket \<Rightarrow> goerr option" where
  "acquire_err t = (case tk_phase t of TRefused _ \<Rightarrow> Some paid_refusal | _ \<Rightarrow> None)"

record limiter_stats =
  ls_AtCapacity :: nat
  ls_PerKeyFull :: nat
  ls_RateLimited :: nat
  ls_InFlight :: int

definition Stats :: "limiter \<Rightarrow> limiter_stats" where
  "Stats l = \<lparr>ls_AtCapacity = l_atCapacity l, ls_PerKeyFull = l_perKeyFull l,
     ls_RateLimited = l_rateLimited l, ls_InFlight = l_sem l\<rparr>"

lemmas limiter_defs = acq_slot_def acq_decide_def acq_undo_def rel_key_def rel_slot_def

inductive limiter_step :: "limiter \<times> ticket list \<Rightarrow> limiter \<times> ticket list \<Rightarrow> bool" where
  l_arrive: "t = Acquire k \<or> t = Hold k \<Longrightarrow> limiter_step (l, ts) (l, ts @ [t])"
| l_slot: "i < length ts \<Longrightarrow> tk_phase (ts ! i) = TArrived \<Longrightarrow> acq_slot l (ts ! i) = (l', t) \<Longrightarrow>
     limiter_step (l, ts) (l', ts[i := t])"
| l_decide: "i < length ts \<Longrightarrow> tk_phase (ts ! i) = TSlotted \<Longrightarrow> acq_decide now l (ts ! i) = (l', t) \<Longrightarrow>
     limiter_step (l, ts) (l', ts[i := t])"
| l_undo: "i < length ts \<Longrightarrow> tk_phase (ts ! i) = TRefusing why \<Longrightarrow> acq_undo why l (ts ! i) = (l', t) \<Longrightarrow>
     limiter_step (l, ts) (l', ts[i := t])"
| l_release: "i < length ts \<Longrightarrow> tk_phase (ts ! i) = TGranted \<Longrightarrow> rel_key l (ts ! i) = (l', t) \<Longrightarrow>
     limiter_step (l, ts) (l', ts[i := t])"
| l_free: "i < length ts \<Longrightarrow> tk_phase (ts ! i) = TReleasing \<Longrightarrow> rel_slot l (ts ! i) = (l', t) \<Longrightarrow>
     limiter_step (l, ts) (l', ts[i := t])"
| l_charge: "Charge k now l = (r, l') \<Longrightarrow> limiter_step (l, ts) (l', ts)"

definition limiter_init :: "limiter \<times> ticket list \<Rightarrow> bool" where
  "limiter_init x \<longleftrightarrow> snd x = [] \<and> (\<exists>m k p b. fst x = NewCodeLimiter m k p b)"

subsection \<open>The caps\<close>

definition holds_slot :: "ticket \<Rightarrow> bool" where
  "holds_slot t \<longleftrightarrow> (case tk_phase t of TArrived \<Rightarrow> False | TReleased \<Rightarrow> False | TRefused _ \<Rightarrow> False | _ \<Rightarrow> True)"

definition granted_to :: "string \<Rightarrow> ticket list \<Rightarrow> int" where
  "granted_to k ts = sum_list (map (\<lambda>t. of_bool (tk_phase t = TGranted \<and> tk_key t = k)) ts)"

definition limiter_inv :: "limiter \<times> ticket list \<Rightarrow> bool" where
  "limiter_inv x \<longleftrightarrow> (case x of (l, ts) \<Rightarrow>
     l_sem l = sum_list (map (\<lambda>t. of_bool (holds_slot t)) ts) \<and> l_sem l \<le> l_max l \<and>
     (\<forall>k. lookup0 (l_inflight l) k = granted_to k ts \<and> (0 < l_perKey l \<longrightarrow> granted_to k ts \<le> l_perKey l)))"

lemma take_token_keeps:
  "l_sem (snd (take_token k now l)) = l_sem l" "l_inflight (snd (take_token k now l)) = l_inflight l"
  "l_max (snd (take_token k now l)) = l_max l" "l_perKey (snd (take_token k now l)) = l_perKey l"
  "l_perMin (snd (take_token k now l)) = l_perMin l" "l_burst (snd (take_token k now l)) = l_burst l"
  "l_refill (snd (take_token k now l)) = l_refill l" "l_lastTrim (snd (take_token k now l)) = l_lastTrim l"
  by (auto simp: take_token_def Let_def)

lemma takeToken_keeps:
  assumes "takeTokenLocked k now l = (ok, l')"
  shows "l_sem l' = l_sem l" "l_inflight l' = l_inflight l" "l_max l' = l_max l" "l_perKey l' = l_perKey l"
    "l_burst l' = l_burst l" "l_refill l' = l_refill l" "l_perMin l' = l_perMin l"
  using take_token_keeps [of k now "trim_buckets now l"] assms
  by (auto simp: takeTokenLocked_def trim_buckets_def split: if_splits)

lemma granted_upd:
  "i < length ts \<Longrightarrow> granted_to k (ts[i := t]) = granted_to k ts
     - of_bool (tk_phase (ts ! i) = TGranted \<and> tk_key (ts ! i) = k) + of_bool (tk_phase t = TGranted \<and> tk_key t = k)"
  by (simp add: granted_to_def sum_list_upd)

lemma granted_nonneg: "0 \<le> granted_to k ts"
  by (auto simp: granted_to_def intro!: sum_list_nonneg)

lemma decide_inv:
  assumes "acq_decide now l t = (l', t')" and "tk_phase t = TSlotted"
  shows "l_sem l' = l_sem l \<and> l_max l' = l_max l \<and> l_perKey l' = l_perKey l \<and> tk_key t' = tk_key t \<and>
    ((\<exists>why. tk_phase t' = TRefusing why) \<and> l_inflight l' = l_inflight l \<or>
     tk_phase t' = TGranted \<and> (0 < l_perKey l \<longrightarrow> lookup0 (l_inflight l) (tk_key t) < l_perKey l) \<and>
       l_inflight l' = AList.update (tk_key t) (lookup0 (l_inflight l) (tk_key t) + 1) (l_inflight l))"
proof -
  obtain ok l1 where d: "takeTokenLocked (tk_key t) now l = (ok, l1)" by force
  from assms takeToken_keeps [OF d] d show ?thesis
    by (auto simp: acq_decide_def Let_def split: if_splits)
qed

abbreviation granted :: "ticket \<Rightarrow> string \<Rightarrow> bool" where
  "granted t k \<equiv> tk_phase t = TGranted \<and> tk_key t = k"

lemma inv_update:
  assumes "limiter_inv (l, ts)" and "i < length ts"
    and "l_max l' = l_max l" and "l_perKey l' = l_perKey l" and "l_sem l' \<le> l_max l"
    and "l_sem l' = l_sem l - of_bool (holds_slot (ts ! i)) + of_bool (holds_slot t)"
    and count: "\<And>k. lookup0 (l_inflight l') k =
      lookup0 (l_inflight l) k - of_bool (granted (ts ! i) k) + of_bool (granted t k)"
    and cap: "\<And>k. 0 < l_perKey l \<Longrightarrow> lookup0 (l_inflight l') k \<le> l_perKey l"
  shows "limiter_inv (l', ts[i := t])"
proof -
  have old: "l_sem l = sum_list (map (\<lambda>t. of_bool (holds_slot t)) ts)"
    "lookup0 (l_inflight l) k = granted_to k ts" for k
    using assms(1) by (auto simp: limiter_inv_def)
  have "l_sem l' = sum_list (map (\<lambda>t. of_bool (holds_slot t)) (ts[i := t]))"
    by (simp only: assms(6) old(1) sum_list_upd [OF assms(2)])
  moreover have "lookup0 (l_inflight l') k = granted_to k (ts[i := t])" for k
    by (simp only: count old(2) granted_upd [OF assms(2)])
  ultimately show ?thesis
    using assms(3-5) cap by (auto simp: limiter_inv_def)
qed

lemma inv_facts:
  assumes "limiter_inv (l, ts)"
  shows "l_sem l \<le> l_max l" "0 < l_perKey l \<Longrightarrow> lookup0 (l_inflight l) k \<le> l_perKey l"
    "i < length ts \<Longrightarrow> granted (ts ! i) k \<Longrightarrow> 0 < lookup0 (l_inflight l) k"
proof -
  show "l_sem l \<le> l_max l" "0 < l_perKey l \<Longrightarrow> lookup0 (l_inflight l) k \<le> l_perKey l"
    using assms by (auto simp: limiter_inv_def)
  assume i: "i < length ts" "granted (ts ! i) k"
  have "granted_to k (ts[i := (ts ! i)\<lparr>tk_phase := TReleased\<rparr>]) = granted_to k ts - 1"
    using i by (simp add: granted_upd)
  with granted_nonneg [of k "ts[i := (ts ! i)\<lparr>tk_phase := TReleased\<rparr>]"] assms
  show "0 < lookup0 (l_inflight l) k" by (auto simp: limiter_inv_def)
qed

interpretation limiter: inductive_invariant limiter_init limiter_step limiter_inv
proof
  show "limiter_init s \<Longrightarrow> limiter_inv s" for s
  proof -
    assume "limiter_init s"
    then obtain m k p b where s: "s = (NewCodeLimiter m k p b, [])"
      by (cases s) (auto simp: limiter_init_def)
    have "l_sem (NewCodeLimiter m k p b) = 0" "1 \<le> l_max (NewCodeLimiter m k p b)"
      "l_inflight (NewCodeLimiter m k p b) = []"
      by (simp_all add: NewCodeLimiter_def Let_def)
    then show ?thesis by (simp add: s limiter_inv_def granted_to_def)
  qed
  show "limiter_step s t \<Longrightarrow> limiter_inv s \<Longrightarrow> limiter_inv t" for s t
  proof (induction rule: limiter_step.induct)
    case (l_arrive t k l ts)
    then have "tk_phase t = TArrived" by (auto simp: Acquire_def Hold_def new_ticket_def)
    with l_arrive show ?case by (simp add: limiter_inv_def granted_to_def holds_slot_def)
  next
    case (l_slot i ts l l' t)
    show ?case
      by (rule inv_update [OF l_slot(4,1)])
         (use l_slot(2,3) inv_facts(1,2) [OF l_slot(4)] in \<open>auto simp: acq_slot_def count_shed_def holds_slot_def split: if_splits\<close>)
  next
    case (l_decide i ts now l l' t)
    show ?case
      by (rule inv_update [OF l_decide(4,1)])
         (use l_decide(2) decide_inv [OF l_decide(3,2)] inv_facts(1,2) [OF l_decide(4)] in
           \<open>auto simp: holds_slot_def\<close>)
  next
    case (l_undo i ts why l l' t)
    show ?case
      by (rule inv_update [OF l_undo(4,1)])
         (use l_undo(2,3) inv_facts(1,2) [OF l_undo(4)] in \<open>auto simp: acq_undo_def count_shed_def holds_slot_def split: shed.splits\<close>)
  next
    case (l_release i ts l l' t)
    have pos: "0 < lookup0 (l_inflight l) (tk_key (ts ! i))"
      using inv_facts(3) [OF l_release(4,1)] l_release(2) by blast
    have le: "lookup0 (l_inflight l) (tk_key (ts ! i)) - 1 \<le> l_perKey l" if "0 < l_perKey l"
      using inv_facts(2) [OF l_release(4) that, of "tk_key (ts ! i)"] by linarith
    show ?case
      by (rule inv_update [OF l_release(4,1)])
         (use l_release(2,3) inv_facts(1,2) [OF l_release(4)] le pos in
           \<open>auto simp: rel_key_def Let_def holds_slot_def split: if_splits\<close>)
  next
    case (l_free i ts l l' t)
    show ?case
      by (rule inv_update [OF l_free(4,1)])
         (use l_free(2,3) inv_facts(1,2) [OF l_free(4)] in \<open>auto simp: rel_slot_def holds_slot_def\<close>)
  next
    case (l_charge k now l r l' ts)
    obtain ok l1 where d: "takeTokenLocked k now l = (ok, l1)" by force
    from l_charge d takeToken_keeps [OF d] show ?case
      by (auto simp: limiter_inv_def Charge_def split: if_splits)
  qed
qed

subsection \<open>Evicting a bucket\<close>

lemma go_seconds_parts:
  assumes "0 \<le> d"
  shows "0 \<le> d div second" "0 \<le> d mod second" "d mod second < second"
    and "go_seconds d = f_add (f_of_int (d div second)) (f_div (f_of_int (d mod second)) (f_of_int second))"
  using assms
  by (auto simp: go_seconds_def go_quot_def go_rem_def second_def minus_mult_div_eq_mod pos_imp_zdiv_nonneg_iff)

lemma go_seconds_mono:
  assumes "0 \<le> d" "d \<le> e" "e \<le> max_duration"
  shows "go_seconds d \<le> go_seconds e"
proof -
  have e: "0 \<le> e" using assms by simp
  note pd = go_seconds_parts [OF assms(1)] and pe = go_seconds_parts [OF e]
  have s: "f_of_int second = of_int second"
    unfolding f_of_int_def by (rule f64_int) (simp add: second_def)
  have q: "d div second \<le> e div second" using assms(2) by (intro zdiv_mono1) (auto simp: second_def)
  have small: "\<bar>x div second\<bar> \<le> 2 ^ 53" if "0 \<le> x" "x \<le> max_duration" for x
  proof -
    have "x div second \<le> max_duration div second" using that(2) by (intro zdiv_mono1) (auto simp: second_def)
    with go_seconds_parts(1) [OF that(1)] show ?thesis by (simp add: max_duration_def second_def)
  qed
  have fq: "f_of_int (x div second) = of_int (x div second)" if "0 \<le> x" "x \<le> max_duration" for x
    unfolding f_of_int_def by (rule f64_int) (rule small [OF that])
  have fr: "f_of_int (x mod second) = of_int (x mod second)" if "0 \<le> x" for x
    unfolding f_of_int_def using go_seconds_parts(2,3) [OF that] by (intro f64_int) (auto simp: second_def)
  have frac: "0 \<le> f_div (f_of_int (x mod second)) (f_of_int second)"
    "f_div (f_of_int (x mod second)) (f_of_int second) \<le> 1" if "0 \<le> x" for x
  proof -
    have "0 \<le> of_int (x mod second) / (of_int second :: rat)" "of_int (x mod second) / (of_int second :: rat) \<le> 1"
      using go_seconds_parts(2,3) [OF that] by (auto simp: second_def)
    then show "0 \<le> f_div (f_of_int (x mod second)) (f_of_int second)"
      "f_div (f_of_int (x mod second)) (f_of_int second) \<le> 1"
      unfolding f_div_def s fr [OF that] using f64.rnd_nonneg f64.rnd_below_int [of _ 1] by auto
  qed
  show ?thesis
  proof (cases "d div second = e div second")
    case True
    with assms(2) have "d mod second \<le> e mod second"
      by (metis add_le_cancel_left mult_div_mod_eq)
    then have "f_of_int (d mod second) / f_of_int second \<le> f_of_int (e mod second) / f_of_int second"
      unfolding s fr [OF assms(1)] fr [OF e] by (intro divide_right_mono) (auto simp: second_def)
    then show ?thesis
      unfolding pd(4) pe(4) True f_add_def f_div_def by (intro f64.rnd_mono add_left_mono)
  next
    case False
    with q have "d div second + 1 \<le> e div second" by simp
    then have "(of_int (d div second) :: rat) + 1 \<le> of_int (e div second)"
      by (metis of_int_1 of_int_add of_int_le_iff)
    then show ?thesis
      unfolding pd(4) pe(4) f_add_def using frac [OF assms(1)] frac [OF e] fq [of d] fq [of e] assms
      by (intro f64.rnd_mono) auto
  qed
qed

lemma time_sub_between: "u \<le> t \<Longrightarrow> 0 \<le> time_sub t u \<and> time_sub t u \<le> max_duration"
  by (auto simp: time_defs)

lemma refilled_mono:
  assumes "0 \<le> l_refill l" "bk_last b \<le> now" "now \<le> later"
  shows "refilled l now b \<le> refilled l later b"
proof -
  have "go_seconds (time_sub now (bk_last b)) \<le> go_seconds (time_sub later (bk_last b))"
    using assms time_sub_between [of "bk_last b" later] time_sub_between [of "bk_last b" now]
      time_sub_mono [of now later "bk_last b"] by (intro go_seconds_mono) auto
  then show ?thesis
    unfolding refilled_def f_add_def f_mul_def using assms(1)
    by (intro f64.rnd_mono add_left_mono mult_right_mono)
qed

text \<open>Two limiters that differ only in buckets one of them has evicted because they were full.\<close>

definition same_but_full :: "gotime \<Rightarrow> limiter \<Rightarrow> limiter \<Rightarrow> bool" where
  "same_but_full now l p \<longleftrightarrow> l_burst p = l_burst l \<and> l_refill p = l_refill l \<and>
     (\<forall>k b. map_of (l_buckets p) k = Some b \<longrightarrow> bk_last b \<le> now) \<and>
     (\<forall>k. map_of (l_buckets l) k = map_of (l_buckets p) k \<or>
        map_of (l_buckets l) k = None \<and>
        (\<exists>b. map_of (l_buckets p) k = Some b \<and> l_burst l \<le> refilled l now b))"

lemma refilled_cong: "l_refill p = l_refill l \<Longrightarrow> refilled p now b = refilled l now b"
  by (simp add: refilled_def)

lemma map_of_filter_keep:
  "distinct (map fst m) \<Longrightarrow> map_of (filter (\<lambda>(k, b). P b) m) k =
     (case map_of m k of None \<Rightarrow> None | Some b \<Rightarrow> if P b then Some b else None)"
proof (induction m)
  case (Cons e m)
  obtain k' b where e: "e = (k', b)" by force
  have "map_of (filter (\<lambda>(k, b). P b) m) k' = None" using Cons.prems e
    by (auto simp: map_of_eq_None_iff)
  with Cons e show ?case by (auto split: option.splits)
qed simp

lemma trim_same:
  assumes r: "same_but_full now l p" and pos: "0 \<le> l_refill l" and later: "now \<le> now2"
    and ok: "gomap_ok (l_buckets l)"
  shows "same_but_full now2 (trim_buckets now2 l) p"
proof -
  have last: "bk_last b \<le> now" if "map_of (l_buckets p) k = Some b" for k b
    using r that by (auto simp: same_but_full_def)
  let ?P = "\<lambda>b. \<not> (time_sub now2 (bk_last b) > 2 * minute \<and> refilled l now2 b \<ge> l_burst l)"
  have b: "map_of (l_buckets (trim_buckets now2 l)) k = map_of (l_buckets l) k \<or>
      map_of (l_buckets (trim_buckets now2 l)) k = None \<and>
      (\<exists>b. map_of (l_buckets l) k = Some b \<and> l_burst l \<le> refilled l now2 b)" for k
    using map_of_filter_keep [of "l_buckets l" ?P k] ok
    by (auto simp: trim_buckets_def gomap_ok_def split: option.splits if_splits)
  have par: "l_burst (trim_buckets now2 l) = l_burst l" "l_refill (trim_buckets now2 l) = l_refill l"
    by (auto simp: trim_buckets_def)
  have up: "l_burst l \<le> refilled l now2 b" if "l_burst l \<le> refilled l now b" "map_of (l_buckets p) k = Some b" for k b
    using that refilled_mono [OF pos last [OF that(2)] later] by linarith
  show ?thesis
    unfolding same_but_full_def par refilled_cong [OF par(2)]
  proof (intro conjI allI impI)
    show "l_burst p = l_burst l" "l_refill p = l_refill l" using r by (auto simp: same_but_full_def)
    show "bk_last b \<le> now2" if "map_of (l_buckets p) k = Some b" for k b
      using last [OF that] later by linarith
    show "map_of (l_buckets (trim_buckets now2 l)) k = map_of (l_buckets p) k \<or>
        map_of (l_buckets (trim_buckets now2 l)) k = None \<and>
        (\<exists>b. map_of (l_buckets p) k = Some b \<and> l_burst l \<le> refilled l now2 b)" for k
      using b [of k] r up by (auto simp: same_but_full_def) metis+
  qed
qed

lemma take_same:
  assumes r: "same_but_full now l p" and fx: "f64 (l_burst l) = l_burst l"
  shows "fst (take_token key now l) = fst (take_token key now p)"
    and "same_but_full now (snd (take_token key now l)) (snd (take_token key now p))"
proof -
  have par: "l_burst p = l_burst l" "l_refill p = l_refill l" using r by (auto simp: same_but_full_def)
  define level where "level m = (let b = (case map_of (l_buckets m) key of None \<Rightarrow> \<lparr>bk_tokens = l_burst m, bk_last = now\<rparr> | Some b \<Rightarrow> b);
        t = refilled m now b in if t > l_burst m then l_burst m else t)" for m
  have fresh: "refilled l now \<lparr>bk_tokens = l_burst l, bk_last = now\<rparr> = l_burst l"
    using fx by (simp add: refilled_def f_add_def f_mul_def go_seconds_def go_quot_def go_rem_def f_of_int_def f_div_def)
  have lv: "level l = level p"
    using r fresh unfolding same_but_full_def level_def par refilled_cong [OF par(2)]
    by (auto simp: Let_def split: option.splits) (metis option.inject option.distinct(1) order.antisym not_less)+
  have tk: "take_token key now m = (if level m < 1
      then (False, m\<lparr>l_buckets := AList.update key \<lparr>bk_tokens = level m, bk_last = now\<rparr> (l_buckets m)\<rparr>)
      else (True, m\<lparr>l_buckets := AList.update key \<lparr>bk_tokens = f_sub (level m) 1, bk_last = now\<rparr> (l_buckets m)\<rparr>))" for m
    by (simp add: take_token_def level_def Let_def)
  show "fst (take_token key now l) = fst (take_token key now p)" by (simp add: tk lv)
  have same: "same_but_full now (l\<lparr>l_buckets := AList.update key b (l_buckets l)\<rparr>) (p\<lparr>l_buckets := AList.update key b (l_buckets p)\<rparr>)"
    if "bk_last b = now" for b
    using r that by (auto simp: same_but_full_def update_conv' refilled_def)
  show "same_but_full now (snd (take_token key now l)) (snd (take_token key now p))"
    by (simp add: tk lv same)
qed

text \<open>The answers a sequence of requests gets, each a caller and the time it asks.\<close>

fun rates_run :: "(string \<Rightarrow> gotime \<Rightarrow> limiter \<Rightarrow> bool \<times> limiter) \<Rightarrow> (string \<times> gotime) list \<Rightarrow> limiter \<Rightarrow> bool list" where
  "rates_run ask [] l = []"
| "rates_run ask ((key, now) # rs) l = (case ask key now l of (ok, l) \<Rightarrow> ok # rates_run ask rs l)"

lemma take_buckets_ok: "gomap_ok (l_buckets l) \<Longrightarrow> gomap_ok (l_buckets (snd (takeTokenLocked key now l)))"
  by (auto simp: takeTokenLocked_def take_token_def trim_buckets_def Let_def)

lemma runs_same:
  assumes "sorted (map snd rs)" and "\<forall>r \<in> set rs. now \<le> snd r" and "same_but_full now l p"
    and "gomap_ok (l_buckets l)" and "0 \<le> l_refill l" and "f64 (l_burst l) = l_burst l"
  shows "rates_run takeTokenLocked rs l = rates_run take_token rs p"
  using assms
proof (induction rs arbitrary: now l p)
  case (Cons r rs)
  obtain key t where r: "r = (key, t)" by force
  let ?l = "trim_buckets t l"
  have same: "same_but_full t ?l p"
    using trim_same [OF Cons.prems(3,5) _ Cons.prems(4)] Cons.prems(2) r by simp
  have par: "l_burst ?l = l_burst l" "l_refill ?l = l_refill l" by (auto simp: trim_buckets_def)
  note took = take_same [OF same, of key, unfolded par, OF Cons.prems(6)]
  have "rates_run takeTokenLocked rs (snd (takeTokenLocked key t l)) = rates_run take_token rs (snd (take_token key t p))"
    using Cons.prems r took take_buckets_ok [OF Cons.prems(4)] take_token_keeps(6,7) [of key t ?l] par
    by (intro Cons.IH [of t]) (auto simp: takeTokenLocked_def)
  moreover have "fst (takeTokenLocked key t l) = fst (take_token key t p)" using took(1) by (simp add: takeTokenLocked_def)
  ultimately show ?case by (simp add: r split_beta)
qed simp

lemma new_limiter_rates:
  "0 < p \<Longrightarrow> 0 \<le> l_refill (NewCodeLimiter m k p b)" "f64 (l_burst (NewCodeLimiter m k p b)) = l_burst (NewCodeLimiter m k p b)"
  by (auto simp: NewCodeLimiter_def Let_def f_div_def f_of_int_def f64.rnd_idem intro!: f64.rnd_nonneg divide_nonneg_nonneg)

lemma new_limiter_buckets [simp]: "l_buckets (NewCodeLimiter m k p b) = []"
  by (simp add: NewCodeLimiter_def Let_def)

lemma step_keeps_caps:
  assumes "limiter_step x y"
  shows "l_max (fst y) = l_max (fst x) \<and> l_perKey (fst y) = l_perKey (fst x)"
  using assms
proof (induction rule: limiter_step.induct)
  case (l_decide i ts now l l' t)
  then show ?case using decide_inv [OF l_decide(3,2)] by simp
next
  case (l_charge k now l r l' ts)
  obtain ok l1 where d: "takeTokenLocked k now l = (ok, l1)" by force
  from l_charge d takeToken_keeps [OF d] show ?case by (auto simp: Charge_def split: if_splits)
qed (auto simp: limiter_defs count_shed_def Let_def split: if_splits shed.splits)

lemma reach_caps:
  assumes "reach (\<lambda>x. x = (NewCodeLimiter m pk p b, [])) limiter_step x"
  shows "limiter_inv x \<and> l_max (fst x) = max 1 m \<and> l_perKey (fst x) = pk"
  using assms
proof (induction rule: reach.induct)
  case (reach_init s)
  then have "limiter_init s" by (auto simp: limiter_init_def)
  from limiter.inv_init [OF this] reach_init show ?case by (auto simp: NewCodeLimiter_def Let_def)
next
  case (reach_step s t)
  then show ?case using limiter.inv_step step_keeps_caps by metis
qed

text \<open>C11: However requests interleave, the runs that hold a slot never exceed the global cap,
  the runs granted to one caller never exceed the caller's cap when it has one, \<open>Stats\<close>
  reports the slots exactly, and the count of a caller with no granted run is zero: a
  refusal gives back everything it took.
\<close>

theorem limiter_caps_hold:
  assumes "reach (\<lambda>x. x = (NewCodeLimiter m pk p b, [])) limiter_step (l, ts)"
  shows "int (length (filter holds_slot ts)) \<le> max 1 m \<and> ls_InFlight (Stats l) = int (length (filter holds_slot ts)) \<and>
    (0 < pk \<longrightarrow> granted_to key ts \<le> pk) \<and> lookup0 (l_inflight l) key = granted_to key ts"
  using reach_caps [OF assms] by (auto simp: limiter_inv_def Stats_def count_filter)

text \<open>C12: Evicting idle buckets is invisible: for requests in the order of their times the
  limiter gives exactly the answers of one that keeps every bucket for ever, with the
  rounding of floating point included.
\<close>

theorem eviction_is_invisible:
  assumes "0 < perMin" and "sorted (map snd rs)"
  shows "rates_run takeTokenLocked rs (NewCodeLimiter m pk perMin b) = rates_run take_token rs (NewCodeLimiter m pk perMin b)"
proof (cases rs)
  case (Cons r rs')
  let ?l = "NewCodeLimiter m pk perMin b"
  have "same_but_full (snd r) ?l ?l" by (simp add: same_but_full_def NewCodeLimiter_def Let_def)
  then show ?thesis
    using assms Cons new_limiter_rates(1) [OF assms(1)] new_limiter_rates(2)
    by (intro runs_same [of rs "snd r"]) (auto simp: new_limiter_buckets)
qed simp

definition demo_asks :: "(string \<times> gotime) list" where
  "demo_asks = [(''a'', 0), (''a'', second), (''b'', 2 * second), (''a'', 300 * second)]"

theorem eviction_is_invisible_witness:
  "0 < (2::int) \<and> sorted (map snd demo_asks) \<and>
   rates_run takeTokenLocked demo_asks (NewCodeLimiter 4 2 2 1) = rates_run take_token demo_asks (NewCodeLimiter 4 2 2 1)"
proof -
  have "sorted (map snd demo_asks)" by code_simp
  then show ?thesis using eviction_is_invisible [of 2 demo_asks 4 2 1] by simp
qed

definition demo_limiter :: "limiter \<times> ticket list" where
  "demo_limiter =
     (let l = NewCodeLimiter 1 1 0 0; t = Hold ''a''; (l1, t1) = acq_slot l t; (l2, t2) = acq_decide 0 l1 t1
      in (l2, [t2]))"

lemma demo_limiter_reach: "reach (\<lambda>x. x = (NewCodeLimiter 1 1 0 0, [])) limiter_step demo_limiter"
proof -
  let ?l = "NewCodeLimiter 1 1 0 0"
  let ?s1 = "acq_slot ?l (Hold ''a'')"
  let ?s2 = "acq_decide 0 (fst ?s1) (snd ?s1)"
  have 0: "reach (\<lambda>x. x = (?l, [])) limiter_step (?l, [])" by (rule reach_init) simp
  have 1: "limiter_step (?l, []) (?l, [] @ [Hold ''a''])" by (rule l_arrive [of _ "''a''"]) simp
  have 2: "limiter_step (?l, [Hold ''a'']) (fst ?s1, [Hold ''a''][0 := snd ?s1])"
    by (rule l_slot) (simp_all add: Hold_def new_ticket_def)
  have ph: "tk_phase (snd ?s1) = TSlotted" by code_simp
  have 3: "limiter_step (fst ?s1, [snd ?s1]) (fst ?s2, [snd ?s1][0 := snd ?s2])"
    by (rule l_decide [where now = 0]) (simp_all add: ph)
  have "demo_limiter = (fst ?s2, [snd ?s2])" by (simp add: demo_limiter_def Let_def split_beta)
  with reach_step [OF reach_step [OF reach_step [OF 0 1]], of "(fst ?s1, [snd ?s1])" "(fst ?s2, [snd ?s2])"] 2 3
  show ?thesis by simp
qed

theorem limiter_caps_hold_witness:
  "reach (\<lambda>x. x = (NewCodeLimiter 1 1 0 0, [])) limiter_step demo_limiter \<and>
   int (length (filter holds_slot (snd demo_limiter))) = 1 \<and> granted_to ''a'' (snd demo_limiter) \<le> 1"
proof -
  obtain l ts where d: "demo_limiter = (l, ts)" by force
  have "int (length (filter holds_slot (snd demo_limiter))) = 1" by code_simp
  with limiter_caps_hold [OF demo_limiter_reach [unfolded d], of "''a''"] demo_limiter_reach show ?thesis by (simp add: d)
qed

end
