(* ===== verification/Warm_Pool.thy ===== *)
theory Warm_Pool
  imports Go_Float Go_Strings "HOL-Library.List_Lexorder" "HOL-Library.Char_ord"
begin

text \<open>
  The warm session pool of \<open>sandbox/internal/poolkit/pool.go\<close>: members made ahead of the
  sessions that claim them, divided over language sets by a decaying demand. Each
  operation is one hold of the pool's mutex; the filler goroutine is a state machine
  whose steps interleave with claims, with the reports of removals, and with \<open>Close\<close>.
  What the hooks answer (the execution state, whether a relay is attached, what \<open>Make\<close>
  returns) is an input of the step that asks.
\<close>

subsection \<open>State\<close>

definition MaxIdle :: duration where "MaxIdle = 30 * minute"
definition demandRate :: float64 where "demandRate = 1 / 16"
definition moveMargin :: float64 where "moveMargin = 3 / 4"
definition MoveInterval :: duration where "MoveInterval = minute"
definition SplitMinSize :: int where "SplitMinSize = 5"

record 'm member =
  mb_m :: 'm
  mb_name :: string
  mb_key :: string
  mb_born :: gotime
  mb_label :: gotime
  mb_warm :: "string list"

record 'm pool =
  p_size :: int
  p_lifetime :: duration
  p_ready :: "'m member list"
  p_retiring :: int
  p_making :: int
  p_lastMove :: gotime
  p_stated :: "string list"
  p_demand :: "(string, float64) gomap"
  p_stop :: bool

definition SetKey :: "string list \<Rightarrow> string" where
  "SetKey langs = join_with CHR '','' langs"

datatype pool_error = PoolSize | NoLanguages

definition NewPool :: "int \<Rightarrow> duration \<Rightarrow> string list \<Rightarrow> pool_error + 'm pool" where
  "NewPool n lifetime stated =
     (if n \<le> 0 \<or> lifetime \<le> 0 then Inl PoolSize
      else if SetKey stated = '''' then Inl NoLanguages
      else Inr \<lparr>p_size = n, p_lifetime = lifetime, p_ready = [], p_retiring = 0, p_making = 0,
             p_lastMove = zero_time, p_stated = stated, p_demand = [(SetKey stated, 1)], p_stop = False\<rparr>)"

subsection \<open>Demand\<close>

definition weight_total :: "(string, float64) gomap \<Rightarrow> float64" where
  "weight_total demand = foldl (\<lambda>t (k, w). f_add t w) 0 demand"

definition shares :: "(string, float64) gomap \<Rightarrow> int \<Rightarrow> (string, float64) gomap" where
  "shares demand n =
     (let total = weight_total demand
      in if total \<le> 0 then [] else map (\<lambda>(k, w). (k, f_div (f_mul (f_of_int n) w) total)) demand)"

definition rate :: "'m pool \<Rightarrow> float64" where
  "rate p = min demandRate (f_div 1 (f_mul 4 (f_of_int (p_size p))))"

definition decay :: "float64 \<Rightarrow> string \<Rightarrow> (string, float64) gomap \<Rightarrow> (string, float64) gomap" where
  "decay r key demand =
     filter (\<lambda>(k, w). \<not> (w < f_div r 4 \<and> k \<noteq> key)) (map (\<lambda>(k, w). (k, f_mul w (f_sub 1 r))) demand)"

definition Observe :: "string list \<Rightarrow> 'm pool \<Rightarrow> 'm pool" where
  "Observe langs p =
     (let key = SetKey langs; demand = decay (rate p) key (p_demand p)
      in p\<lparr>p_demand := AList.update key (f_add (lookup0 demand key) (rate p)) demand\<rparr>)"

definition asked :: "string \<Rightarrow> 'm pool \<Rightarrow> bool" where
  "asked k p \<longleftrightarrow> (let total = weight_total (p_demand p)
     in total > 0 \<and> lookup0 (p_demand p) k \<ge> f_div total 4)"

definition target :: "'m pool \<Rightarrow> (string, float64) gomap" where
  "target p = (if p_size p < SplitMinSize \<and> SetKey (p_stated p) \<noteq> '''' then [(SetKey (p_stated p), 1)]
     else p_demand p)"

definition have_of :: "'m pool \<Rightarrow> string \<Rightarrow> nat" where
  "have_of p k = length (filter (\<lambda>s. SetKey (mb_warm s) = k) (p_ready p))"

fun gaps_loop :: "(string \<Rightarrow> float64) \<Rightarrow> string list \<Rightarrow> (string \<times> float64) \<times> (string \<times> float64) \<Rightarrow>
    (string \<times> float64) \<times> (string \<times> float64)" where
  "gaps_loop d [] a = a"
| "gaps_loop d (k # ks) ((want, need), (spare, over)) =
     gaps_loop d ks (if d k > need then ((k, d k), (spare, over))
       else if - d k > over then ((want, need), (k, - d k)) else ((want, need), (spare, over)))"

definition gaps :: "'m pool \<Rightarrow> (string \<times> float64) \<times> (string \<times> float64)" where
  "gaps p =
     (let sh = shares (target p) (p_size p);
          keys = map fst sh @ remdups (filter (\<lambda>k. k \<notin> fst ` set sh) (map (\<lambda>s. SetKey (mb_warm s)) (p_ready p)))
      in gaps_loop (\<lambda>k. f_sub (lookup0 sh k) (f_of_int (int (have_of p k)))) (sort keys) (('''', 0), ('''', 0)))"

subsection \<open>Making members\<close>

text \<open>\<open>next\<close>: the languages the next member warms.\<close>

definition next_langs :: "string list \<Rightarrow> 'm pool \<Rightarrow> string list \<times> 'm pool" where
  "next_langs stated p =
     (let p = p\<lparr>p_stated := stated\<rparr>;
          want = fst (fst (gaps p));
          langs = filter (\<lambda>l. l \<in> set (split_on CHR '','' want)) stated;
          langs = (if langs = [] then stated else langs);
          made = SetKey langs
      in if made \<noteq> want \<and> map_of (p_demand p) want \<noteq> None
           then (langs, p\<lparr>p_demand := AList.delete want
                  (AList.update made (f_add (lookup0 (p_demand p) made) (lookup0 (p_demand p) want)) (p_demand p))\<rparr>)
         else (langs, p))"

text \<open>
  \<open>add\<close> takes a place, makes the member under no lock, and then queues it, or hands it to
  the removal when the pool has stopped meanwhile. \<open>made\<close> gives the place back.
\<close>

definition add_place :: "'m pool \<Rightarrow> 'm pool" where
  "add_place p = p\<lparr>p_making := p_making p + 1\<rparr>"

definition add_queue :: "'m \<Rightarrow> string \<Rightarrow> string \<Rightarrow> string list \<Rightarrow> gotime \<Rightarrow> 'm pool \<Rightarrow> 'm pool" where
  "add_queue m name key langs born p =
     (let s = \<lparr>mb_m = m, mb_name = name, mb_key = key, mb_born = born,
               mb_label = born + (MaxIdle + p_lifetime p), mb_warm = langs\<rparr>
      in if p_stop p then p\<lparr>p_retiring := p_retiring p + 1\<rparr>
         else p\<lparr>p_ready := p_ready p @ [s]\<rparr>)"

definition made :: "'m pool \<Rightarrow> 'm pool" where
  "made p = p\<lparr>p_making := p_making p - 1\<rparr>"

definition short :: "'m pool \<Rightarrow> bool" where
  "short p \<longleftrightarrow> int (length (p_ready p)) + p_making p + p_retiring p < p_size p"

subsection \<open>Handing members over and removing them\<close>

definition usable :: "('m \<Rightarrow> string \<Rightarrow> bool) \<Rightarrow> gotime \<Rightarrow> string \<Rightarrow> gotime \<Rightarrow> 'm member \<Rightarrow> bool" where
  "usable Attached now key expires s \<longleftrightarrow>
     \<not> (mb_key s \<noteq> key \<or> expires > mb_label s \<or> time_sub now (mb_born s) > MaxIdle) \<and>
     (\<forall>l \<in> set (mb_warm s). Attached (mb_m s) l)"

definition hits :: "string list \<Rightarrow> 'm member \<Rightarrow> nat" where
  "hits want s = length (filter (\<lambda>l. l \<in> set want) (mb_warm s))"

definition extras :: "string list \<Rightarrow> 'm member \<Rightarrow> nat" where
  "extras want s = length (mb_warm s) - hits want s"

fun closest_loop :: "string list \<Rightarrow> nat \<Rightarrow> 'm member list \<Rightarrow> (nat \<times> nat \<times> nat) option \<Rightarrow> (nat \<times> nat \<times> nat) option" where
  "closest_loop want i [] best = best"
| "closest_loop want i (s # ss) best =
     (let hit = hits want s; extra = extras want s
      in closest_loop want (i + 1) ss
           (case best of
              None \<Rightarrow> Some (i, hit, extra)
            | Some (_, bestHit, bestExtra) \<Rightarrow>
                if hit > bestHit \<or> hit = bestHit \<and> extra < bestExtra then Some (i, hit, extra) else best))"

definition closest :: "'m member list \<Rightarrow> string list \<Rightarrow> nat option" where
  "closest members want = map_option fst (closest_loop want 0 members None)"

definition delete_at :: "nat \<Rightarrow> 'a list \<Rightarrow> 'a list" where
  "delete_at i xs = take i xs @ drop (Suc i) xs"

definition Claim :: "('m \<Rightarrow> string \<Rightarrow> bool) \<Rightarrow> gotime \<Rightarrow> string \<Rightarrow> gotime \<Rightarrow> string list \<Rightarrow> 'm pool \<Rightarrow> 'm option \<times> 'm pool" where
  "Claim Attached now key expires want p =
     (let ok = usable Attached now key expires;
          kept = filter ok (p_ready p);
          stale = filter (\<lambda>s. \<not> ok s) (p_ready p)
      in case closest kept want of
           None \<Rightarrow> (None, p\<lparr>p_ready := kept, p_retiring := p_retiring p + int (length stale)\<rparr>)
         | Some i \<Rightarrow> (Some (mb_m (kept ! i)),
             p\<lparr>p_ready := delete_at i kept, p_retiring := p_retiring p + int (length stale)\<rparr>))"

fun index_of :: "('a \<Rightarrow> bool) \<Rightarrow> 'a list \<Rightarrow> nat option" where
  "index_of P [] = None"
| "index_of P (x # xs) = (if P x then Some 0 else map_option Suc (index_of P xs))"

definition rebalance :: "gotime \<Rightarrow> 'm pool \<Rightarrow> bool \<times> 'm pool" where
  "rebalance now p =
     (case gaps p of ((want, need), (spare, over)) \<Rightarrow>
        if want \<noteq> '''' \<and> spare \<noteq> '''' \<and> f_add need over > 1 + moveMargin \<and>
           time_sub now (p_lastMove p) \<ge> MoveInterval \<and> \<not> asked spare p
        then (case index_of (\<lambda>s. SetKey (mb_warm s) = spare) (p_ready p) of
                None \<Rightarrow> (False, p)
              | Some i \<Rightarrow> (True, p\<lparr>p_ready := delete_at i (p_ready p), p_retiring := p_retiring p + 1,
                  p_lastMove := now\<rparr>))
        else (False, p))"

definition retire :: "('m \<Rightarrow> string \<Rightarrow> bool) \<Rightarrow> gotime \<Rightarrow> string option \<Rightarrow> 'm pool \<Rightarrow> 'm pool" where
  "retire Attached now state p =
     (case state of
        None \<Rightarrow> p
      | Some key \<Rightarrow>
          p\<lparr>p_ready := filter (usable Attached now key now) (p_ready p),
            p_retiring := p_retiring p + int (length (filter (\<lambda>s. \<not> usable Attached now key now s) (p_ready p)))\<rparr>)"

definition retired :: "'m pool \<Rightarrow> 'm pool" where
  "retired p = p\<lparr>p_retiring := p_retiring p - 1\<rparr>"

definition close_stop :: "'m pool \<Rightarrow> 'm pool" where
  "close_stop p = p\<lparr>p_stop := True\<rparr>"

definition close_drain :: "'m pool \<Rightarrow> 'm pool" where
  "close_drain p = p\<lparr>p_ready := [], p_retiring := p_retiring p + int (length (p_ready p))\<rparr>"

definition Members :: "'m pool \<Rightarrow> string list" where
  "Members p = map mb_name (p_ready p)"

subsection \<open>The filler and what runs beside it\<close>

text \<open>
  The places \<open>run\<close> passes through: \<open>retire\<close>, the two tests of \<open>short\<close> around
  \<open>rebalance\<close>, the three parts of \<open>add\<close>, the sleep after a failure and the wait for
  work. \<open>Start\<close> enters at \<open>add\<close>, before the loop runs.
\<close>

datatype filler = FStart | FRetire | FCheck | FBalance | FRecheck | FNext | FPlace "string list"
  | FMaking "string list" gotime | FSleep | FWait | FDone

text \<open>
  The ghost fields: members that failed to start and whose place is not given back yet,
  places not given back yet whose member is counted elsewhere, every sandbox made, every
  sandbox claimed, and whether \<open>Close\<close> has emptied the queue.
\<close>

record 'm psys =
  ps_pool :: "'m pool"
  ps_fill :: filler
  ps_running :: bool
  ps_backoff :: duration
  ps_failed :: nat
  ps_pending :: nat
  ps_seen :: "'m list"
  ps_claimed :: "'m list"
  ps_drained :: bool

definition add_returns :: "bool \<Rightarrow> bool \<Rightarrow> 'm psys \<Rightarrow> 'm psys" where
  "add_returns ok cancelled s =
     (if \<not> ps_running s then (if ok then s\<lparr>ps_running := True, ps_fill := FRetire\<rparr> else s\<lparr>ps_fill := FDone\<rparr>)
      else if cancelled then s\<lparr>ps_fill := FDone\<rparr>
      else if ok then s\<lparr>ps_backoff := second, ps_fill := FRetire\<rparr>
      else s\<lparr>ps_fill := FSleep\<rparr>)"

inductive pool_step :: "'m psys \<Rightarrow> 'm psys \<Rightarrow> bool" where
  start: "ps_fill s = FStart \<Longrightarrow> pool_step s (s\<lparr>ps_fill := FNext\<rparr>)"
| retire: "ps_fill s = FRetire \<Longrightarrow>
     pool_step s (s\<lparr>ps_pool := retire Attached now state (ps_pool s), ps_fill := FCheck\<rparr>)"
| check: "ps_fill s = FCheck \<Longrightarrow>
     pool_step s (s\<lparr>ps_fill := (if short (ps_pool s) then FRecheck else FBalance)\<rparr>)"
| balance: "ps_fill s = FBalance \<Longrightarrow> rebalance now (ps_pool s) = (moved, p) \<Longrightarrow>
     pool_step s (s\<lparr>ps_pool := p, ps_fill := FRecheck\<rparr>)"
| recheck: "ps_fill s = FRecheck \<Longrightarrow>
     pool_step s (s\<lparr>ps_fill := (if short (ps_pool s) then FNext else FWait)\<rparr>)"
| no_languages: "ps_fill s = FNext \<Longrightarrow> cancelled \<longrightarrow> p_stop (ps_pool s) \<Longrightarrow>
     pool_step s (add_returns False cancelled s)"
| langs: "ps_fill s = FNext \<Longrightarrow> stated \<noteq> [] \<Longrightarrow> next_langs stated (ps_pool s) = (ls, p) \<Longrightarrow>
     pool_step s (s\<lparr>ps_pool := p, ps_fill := FPlace ls\<rparr>)"
| place: "ps_fill s = FPlace ls \<Longrightarrow>
     pool_step s (s\<lparr>ps_pool := add_place (ps_pool s), ps_fill := FMaking ls now\<rparr>)"
| make_ok: "ps_fill s = FMaking ls born \<Longrightarrow> m \<notin> set (ps_seen s) \<Longrightarrow> cancelled \<longrightarrow> p_stop (ps_pool s) \<Longrightarrow>
     pool_step s (add_returns (\<not> p_stop (ps_pool s)) cancelled
       (s\<lparr>ps_pool := add_queue m name key ls born (ps_pool s), ps_seen := m # ps_seen s, ps_pending := ps_pending s + 1\<rparr>))"
| make_fail: "ps_fill s = FMaking ls born \<Longrightarrow> cancelled \<longrightarrow> p_stop (ps_pool s) \<Longrightarrow>
     pool_step s (add_returns False cancelled (s\<lparr>ps_failed := ps_failed s + 1\<rparr>))"
| made_queued: "0 < ps_pending s \<Longrightarrow> pool_step s (s\<lparr>ps_pool := made (ps_pool s), ps_pending := ps_pending s - 1\<rparr>)"
| made_failed: "0 < ps_failed s \<Longrightarrow> pool_step s (s\<lparr>ps_pool := made (ps_pool s), ps_failed := ps_failed s - 1\<rparr>)"
| removed: "0 < p_retiring (ps_pool s) \<Longrightarrow> pool_step s (s\<lparr>ps_pool := retired (ps_pool s)\<rparr>)"
| wake: "ps_fill s = FWait \<Longrightarrow> pool_step s (s\<lparr>ps_fill := FRetire\<rparr>)"
| slept: "ps_fill s = FSleep \<Longrightarrow> pool_step s (s\<lparr>ps_backoff := min (2 * ps_backoff s) minute, ps_fill := FRetire\<rparr>)"
| stopped: "ps_fill s \<in> {FWait, FSleep} \<Longrightarrow> p_stop (ps_pool s) \<Longrightarrow> pool_step s (s\<lparr>ps_fill := FDone\<rparr>)"
| observe: "pool_step s (s\<lparr>ps_pool := Observe ls (ps_pool s)\<rparr>)"
| claim: "Claim Attached now key expires want (ps_pool s) = (got, p) \<Longrightarrow>
     pool_step s (s\<lparr>ps_pool := p, ps_claimed := (case got of None \<Rightarrow> ps_claimed s | Some m \<Rightarrow> m # ps_claimed s)\<rparr>)"
| stop: "pool_step s (s\<lparr>ps_pool := close_stop (ps_pool s)\<rparr>)"
| drain: "p_stop (ps_pool s) \<Longrightarrow> pool_step s (s\<lparr>ps_pool := close_drain (ps_pool s), ps_drained := True\<rparr>)"

definition pool_init :: "int \<Rightarrow> duration \<Rightarrow> string list \<Rightarrow> 'm psys \<Rightarrow> bool" where
  "pool_init n lifetime stated s \<longleftrightarrow> (case NewPool n lifetime stated of Inl _ \<Rightarrow> False | Inr p \<Rightarrow>
     s = \<lparr>ps_pool = p, ps_fill = FStart, ps_running = False, ps_backoff = second, ps_failed = 0, ps_pending = 0,
          ps_seen = [], ps_claimed = [], ps_drained = False\<rparr>)"

subsection \<open>What each operation does to the queue\<close>

text \<open>Every operation on the queue only takes members out, and counts each one it does not
  hand over as retiring.\<close>

definition takes_out :: "'m pool \<Rightarrow> 'm pool \<Rightarrow> 'm list \<Rightarrow> bool" where
  "takes_out p q got \<longleftrightarrow> p_size q = p_size p \<and> p_making q = p_making p \<and> p_stop q = p_stop p \<and>
     mset (map mb_m (p_ready q)) + mset got \<subseteq># mset (map mb_m (p_ready p)) \<and>
     int (length (p_ready q)) + p_retiring q + int (length got) = int (length (p_ready p)) + p_retiring p \<and>
     p_retiring p \<le> p_retiring q"

lemma takes_out_same:
  "p_size q = p_size p \<Longrightarrow> p_making q = p_making p \<Longrightarrow> p_stop q = p_stop p \<Longrightarrow> p_ready q = p_ready p \<Longrightarrow>
   p_retiring q = p_retiring p \<Longrightarrow> takes_out p q []"
  by (simp add: takes_out_def)

lemma mset_delete_at: "i < length xs \<Longrightarrow> mset xs = add_mset (xs ! i) (mset (delete_at i xs))"
  by (metis delete_at_def id_take_nth_drop mset_append mset.simps(2) union_mset_add_mset_right)

lemma length_delete_at: "i < length xs \<Longrightarrow> Suc (length (delete_at i xs)) = length xs"
  using arg_cong [OF mset_delete_at, of i xs size] by simp

lemma index_of_lt: "index_of P xs = Some i \<Longrightarrow> i < length xs \<and> P (xs ! i) \<and> (\<forall>j < i. \<not> P (xs ! j))"
  by (induction xs arbitrary: i) (auto split: if_splits simp: less_Suc_eq_0_disj)

lemma filter_sub: "mset (map f (filter P xs)) \<subseteq># mset (map f xs)"
  by (simp add: image_mset_subseteq_mono multiset_filter_subset)

lemma closest_loop_lt:
  "closest_loop want i ss best = Some (j, h, e) \<Longrightarrow> (\<forall>b. best = Some b \<longrightarrow> fst b < i) \<Longrightarrow> j < i + length ss"
  by (induction want i ss best rule: closest_loop.induct)
     (fastforce simp: Let_def split: option.splits if_splits prod.splits)+

lemma closest_lt: "closest ss want = Some i \<Longrightarrow> i < length ss"
  using closest_loop_lt [of want 0 ss None] by (auto simp: closest_def)

lemma Claim_takes_out:
  assumes "Claim A now key expires want p = (got, q)"
  shows "takes_out p q (case got of None \<Rightarrow> [] | Some m \<Rightarrow> [m])"
proof -
  let ?ok = "usable A now key expires"
  let ?k = "filter ?ok (p_ready p)"
  have len: "length ?k + length (filter (\<lambda>s. \<not> ?ok s) (p_ready p)) = length (p_ready p)"
    by (rule sum_length_filter_compl)
  show ?thesis
  proof (cases "closest ?k want")
    case None
    with assms len filter_sub [of mb_m ?ok "p_ready p"] show ?thesis
      by (auto simp: Claim_def Let_def takes_out_def)
  next
    case (Some i)
    note i = closest_lt [OF Some]
    have "mset (map mb_m ?k) = add_mset (mb_m (?k ! i)) (mset (map mb_m (delete_at i ?k)))"
      using arg_cong [OF mset_delete_at [OF i], of "image_mset mb_m"] by simp
    with assms Some len length_delete_at [OF i] filter_sub [of mb_m ?ok "p_ready p"] show ?thesis
      by (auto simp: Claim_def Let_def takes_out_def)
  qed
qed

lemma delete_takes_out:
  assumes "i < length (p_ready p)"
  shows "takes_out p (p\<lparr>p_ready := delete_at i (p_ready p), p_retiring := p_retiring p + 1, p_lastMove := now\<rparr>) []"
proof -
  have "mset (map mb_m (p_ready p)) = add_mset (mb_m (p_ready p ! i)) (mset (map mb_m (delete_at i (p_ready p))))"
    using arg_cong [OF mset_delete_at [OF assms], of "image_mset mb_m"] by simp
  with length_delete_at [OF assms] show ?thesis by (auto simp: takes_out_def)
qed

lemma rebalance_takes_out:
  assumes "rebalance now p = (moved, q)"
  shows "takes_out p q []"
proof -
  have "q = p \<or> (\<exists>i < length (p_ready p). q = p\<lparr>p_ready := delete_at i (p_ready p),
      p_retiring := p_retiring p + 1, p_lastMove := now\<rparr>)"
    using assms by (auto simp: rebalance_def split: prod.splits if_splits option.splits dest: index_of_lt)
  then show ?thesis using delete_takes_out takes_out_same [of p p] by blast
qed

lemma retire_takes_out: "takes_out p (retire A now state p) []"
proof (cases state)
  case (Some key)
  let ?ok = "usable A now key now"
  have "length (filter ?ok (p_ready p)) + length (filter (\<lambda>s. \<not> ?ok s) (p_ready p)) = length (p_ready p)"
    by (rule sum_length_filter_compl)
  with filter_sub [of mb_m ?ok "p_ready p"] show ?thesis
    by (auto simp: retire_def takes_out_def Some)
qed (simp add: retire_def takes_out_def)

lemma next_takes_out: "next_langs stated p = (ls, q) \<Longrightarrow> takes_out p q []"
  by (rule takes_out_same) (auto simp: next_langs_def Let_def split: if_splits)

lemma drain_takes_out: "takes_out p (close_drain p) []"
  by (simp add: close_drain_def takes_out_def)

lemma observe_takes_out: "takes_out p (Observe ls p) []"
  by (rule takes_out_same) (simp_all add: Observe_def Let_def)

subsection \<open>The invariant\<close>

definition reserved :: "filler \<Rightarrow> int" where
  "reserved f = (case f of FStart \<Rightarrow> 1 | FNext \<Rightarrow> 1 | FPlace _ \<Rightarrow> 1 | FMaking _ _ \<Rightarrow> 1 | _ \<Rightarrow> 0)"

definition in_making :: "filler \<Rightarrow> int" where
  "in_making f = (case f of FMaking _ _ \<Rightarrow> 1 | _ \<Rightarrow> 0)"

text \<open>The sandboxes that exist on the pool's account: waiting, being removed, failed and not
  confirmed gone, and the one being made.\<close>

definition sandboxes :: "'m psys \<Rightarrow> int" where
  "sandboxes s = int (length (p_ready (ps_pool s))) + p_retiring (ps_pool s) + int (ps_failed s) + in_making (ps_fill s)"

definition pool_inv :: "'m psys \<Rightarrow> bool" where
  "pool_inv s \<longleftrightarrow> (let p = ps_pool s in
     p_making p = int (ps_failed s) + int (ps_pending s) + in_making (ps_fill s) \<and> 0 \<le> p_retiring p \<and>
     int (length (p_ready p)) + p_retiring p + int (ps_failed s) + reserved (ps_fill s) \<le> p_size p \<and>
     distinct (ps_claimed s @ map mb_m (p_ready p)) \<and> set (ps_claimed s @ map mb_m (p_ready p)) \<subseteq> set (ps_seen s) \<and>
     (ps_drained s \<longrightarrow> p_stop p \<and> p_ready p = []))"

lemmas pool_inv_defs = pool_inv_def Let_def reserved_def in_making_def

lemma distinct_mset_mono:
  assumes "mset xs \<subseteq># mset ys" and "distinct ys"
  shows "distinct xs"
proof -
  obtain zs where "mset zs = mset ys - mset xs" using ex_mset by blast
  with assms(1) have "mset ys = mset (xs @ zs)" by simp
  from mset_eq_imp_distinct_iff [OF this] assms(2) show ?thesis by simp
qed

lemma distinct_sub:
  assumes "mset xs + mset got \<subseteq># mset ys" and "distinct (cs @ ys)" and "set (cs @ ys) \<subseteq> A"
  shows "distinct ((got @ cs) @ xs) \<and> set ((got @ cs) @ xs) \<subseteq> A"
proof -
  have sub: "mset ((got @ cs) @ xs) \<subseteq># mset (cs @ ys)"
    using assms(1) by (simp add: ac_simps)
  then have "set ((got @ cs) @ xs) \<subseteq> set (cs @ ys)" by (metis set_mset_mono set_mset_mset)
  moreover have "distinct ((got @ cs) @ xs)" by (rule distinct_mset_mono [OF sub assms(2)])
  ultimately show ?thesis using assms(3) by blast
qed

text \<open>A step that takes members out keeps the invariant wherever the filler goes next, as long
  as it reserves no place.\<close>

lemma inv_takes_out:
  assumes "pool_inv s" and "takes_out (ps_pool s) q got" and "reserved f \<le> reserved (ps_fill s)"
    and "in_making f = in_making (ps_fill s)"
  shows "pool_inv (s\<lparr>ps_pool := q, ps_fill := f, ps_claimed := got @ ps_claimed s\<rparr>)"
proof -
  let ?p = "ps_pool s"
  have d: "distinct ((got @ ps_claimed s) @ map mb_m (p_ready q)) \<and>
      set ((got @ ps_claimed s) @ map mb_m (p_ready q)) \<subseteq> set (ps_seen s)"
    by (rule distinct_sub [of _ got "map mb_m (p_ready ?p)"])
       (use assms(1,2) in \<open>auto simp: pool_inv_def takes_out_def Let_def\<close>)
  have e: "p_ready ?p = [] \<Longrightarrow> p_ready q = []"
    using assms(2) by (auto simp: takes_out_def)
  show ?thesis
    using assms d e by (auto simp: pool_inv_def takes_out_def Let_def)
qed

lemma inv_takes_out0:
  assumes "pool_inv s" and "takes_out (ps_pool s) q []" and "reserved f \<le> reserved (ps_fill s)"
    and "in_making f = in_making (ps_fill s)"
  shows "pool_inv (s\<lparr>ps_pool := q, ps_fill := f\<rparr>)"
  using inv_takes_out [OF assms] by simp

lemma inv_fill:
  assumes "pool_inv s" and "reserved f \<le> reserved (ps_fill s)" and "in_making f = in_making (ps_fill s)"
  shows "pool_inv (s\<lparr>ps_fill := f\<rparr>)"
  using inv_takes_out0 [OF assms(1) takes_out_same assms(2,3), of "ps_pool s"] by simp

lemma inv_short:
  assumes "pool_inv s" and "short (ps_pool s)" and "in_making (ps_fill s) = 0"
  shows "pool_inv (s\<lparr>ps_fill := FNext\<rparr>)"
  using assms by (auto simp: pool_inv_defs short_def)

lemma inv_add_returns:
  assumes "pool_inv (s\<lparr>ps_fill := FDone\<rparr>)"
  shows "pool_inv (add_returns ok c s)"
  using assms by (auto simp: add_returns_def pool_inv_defs)

lemma fill_same [simp]: "s\<lparr>ps_pool := q, ps_fill := ps_fill s\<rparr> = s\<lparr>ps_pool := q\<rparr>"
  by simp

interpretation warm_pool: inductive_invariant "pool_init n lifetime stated" pool_step pool_inv
  for n lifetime stated
proof
  show "pool_init n lifetime stated s \<Longrightarrow> pool_inv s" for s :: "'a psys"
    by (auto simp: pool_init_def NewPool_def pool_inv_defs split: sum.splits if_splits)
  show "pool_step s t \<Longrightarrow> pool_inv s \<Longrightarrow> pool_inv t" for s t :: "'a psys"
  proof (induction rule: pool_step.induct)
    case (retire s A now state)
    then show ?case by (intro inv_takes_out0 retire_takes_out) (auto simp: reserved_def in_making_def)
  next
    case (balance s now moved p)
    then show ?case by (intro inv_takes_out0 rebalance_takes_out) (auto simp: reserved_def in_making_def)
  next
    case (recheck s)
    then show ?case using inv_short [of s] inv_fill [of s FWait] by (auto simp: reserved_def in_making_def)
  next
    case (no_languages s c)
    then show ?case by (intro inv_add_returns inv_fill) (auto simp: reserved_def in_making_def)
  next
    case (langs s st ls p)
    then show ?case by (intro inv_takes_out0 next_takes_out [of st]) (auto simp: reserved_def in_making_def)
  next
    case (make_ok s ls born m c name key)
    then show ?case by (intro inv_add_returns) (auto simp: pool_inv_defs add_queue_def)
  next
    case (make_fail s ls born c)
    then show ?case by (intro inv_add_returns) (auto simp: pool_inv_defs)
  next
    case (observe s ls)
    then show ?case using inv_takes_out0 [OF _ observe_takes_out, of s "ps_fill s" ls] by simp
  next
    case (claim A now key expires want s got p)
    then show ?case
      using inv_takes_out [OF _ Claim_takes_out [OF claim(1)], of "ps_fill s"]
      by (cases got) simp_all
  next
    case (drain s)
    then show ?case by (auto simp: pool_inv_def Let_def close_drain_def)
  qed (auto simp: pool_inv_defs add_place_def made_def retired_def close_stop_def split: if_splits)
qed

subsection \<open>The member a claim takes\<close>

definition closer :: "string list \<Rightarrow> 'm member \<Rightarrow> 'm member \<Rightarrow> bool" where
  "closer want s t \<longleftrightarrow> hits want s > hits want t \<or> hits want s = hits want t \<and> extras want s < extras want t"

definition is_best :: "string list \<Rightarrow> 'm member list \<Rightarrow> nat \<Rightarrow> bool" where
  "is_best want ms i \<longleftrightarrow> i < length ms \<and> (\<forall>j < i. closer want (ms ! i) (ms ! j)) \<and>
     (\<forall>j. i < j \<and> j < length ms \<longrightarrow> \<not> closer want (ms ! j) (ms ! i))"

definition best_ok :: "string list \<Rightarrow> 'm member list \<Rightarrow> (nat \<times> nat \<times> nat) option \<Rightarrow> bool" where
  "best_ok want ms best \<longleftrightarrow> (case best of None \<Rightarrow> ms = [] | Some (i, h, e) \<Rightarrow>
     is_best want ms i \<and> h = hits want (ms ! i) \<and> e = extras want (ms ! i))"

lemma is_best_snoc:
  assumes "is_best want ms i"
  shows "is_best want (ms @ [s]) (if closer want s (ms ! i) then length ms else i)"
proof (cases "closer want s (ms ! i)")
  case True
  have "closer want s (ms ! j)" if "j < length ms" for j
  proof (cases "j = i")
    case False
    with assms that have "closer want (ms ! i) (ms ! j) \<or> \<not> closer want (ms ! j) (ms ! i)"
      unfolding is_best_def by (meson linorder_neqE_nat)
    with True show ?thesis unfolding closer_def by linarith
  qed (use True in simp)
  with True show ?thesis by (auto simp: is_best_def nth_append)
next
  case False
  with assms show ?thesis by (auto simp: is_best_def nth_append less_Suc_eq)
qed

lemma closest_loop_best:
  "best_ok want ms best \<Longrightarrow> best_ok want (ms @ ss) (closest_loop want (length ms) ss best)"
proof (induction ss arbitrary: ms best)
  case (Cons s ss)
  let ?best = "case best of None \<Rightarrow> Some (length ms, hits want s, extras want s)
    | Some (_, h, e) \<Rightarrow> if hits want s > h \<or> hits want s = h \<and> extras want s < e
        then Some (length ms, hits want s, extras want s) else best"
  have "best_ok want (ms @ [s]) ?best"
  proof (cases best)
    case None
    with Cons.prems show ?thesis by (simp add: best_ok_def is_best_def)
  next
    case (Some b)
    obtain i h e where b: "b = (i, h, e)" by (cases b)
    from Cons.prems Some b have i: "is_best want ms i" "h = hits want (ms ! i)" "e = extras want (ms ! i)"
      by (auto simp: best_ok_def)
    from is_best_snoc [OF i(1), of s] i show ?thesis
      by (auto simp: best_ok_def Some b closer_def is_best_def nth_append split: if_splits)
  qed
  from Cons.IH [OF this] show ?case by (simp add: Let_def)
qed simp

lemma closest_spec:
  "(case closest ms want of None \<Rightarrow> ms = [] | Some i \<Rightarrow> is_best want ms i)"
proof -
  have "best_ok want ms (closest_loop want 0 ms None)"
    using closest_loop_best [of want "[]" None ms] by (simp add: best_ok_def)
  then show ?thesis by (auto simp: closest_def best_ok_def split: option.splits)
qed

lemma split_best:
  assumes "is_best want ms i"
  shows "\<exists>xs s ys. ms = xs @ s # ys \<and> s = ms ! i \<and> delete_at i ms = xs @ ys \<and>
    (\<forall>t \<in> set xs. closer want s t) \<and> (\<forall>t \<in> set ys. \<not> closer want t s)"
proof (intro exI conjI)
  have i: "i < length ms" using assms by (simp add: is_best_def)
  show "ms = take i ms @ ms ! i # drop (Suc i) ms" using i by (rule id_take_nth_drop)
  show "delete_at i ms = take i ms @ drop (Suc i) ms" by (simp add: delete_at_def)
  show "\<forall>t \<in> set (take i ms). closer want (ms ! i) t"
    using assms by (auto simp: is_best_def in_set_conv_nth)
  show "\<forall>t \<in> set (drop (Suc i) ms). \<not> closer want t (ms ! i)"
    using assms by (auto simp: is_best_def in_set_conv_nth)
qed simp

text \<open>A claim hands over a member only if it was made under the state the caller runs under,
  may live as long as the session, is not past its idle bound and has every relay
  attached; among those it takes the one that warms most of what is wanted, then the one
  that warms fewest others, then the oldest, and the rest keep their order. It fails only
  when no member is usable.
\<close>

theorem claim_takes_closest:
  assumes "Claim Attached now key expires want p = (got, q)"
  shows "case got of
      None \<Rightarrow> (\<forall>s \<in> set (p_ready p). \<not> usable Attached now key expires s) \<and> p_ready q = []
    | Some m \<Rightarrow> \<exists>xs s ys. filter (usable Attached now key expires) (p_ready p) = xs @ s # ys \<and>
        m = mb_m s \<and> p_ready q = xs @ ys \<and> mb_key s = key \<and> expires \<le> mb_label s \<and>
        time_sub now (mb_born s) \<le> MaxIdle \<and> (\<forall>l \<in> set (mb_warm s). Attached m l) \<and>
        (\<forall>t \<in> set xs. closer want s t) \<and> (\<forall>t \<in> set ys. \<not> closer want t s)"
proof -
  let ?ok = "usable Attached now key expires"
  let ?k = "filter ?ok (p_ready p)"
  show ?thesis
  proof (cases "closest ?k want")
    case None
    with closest_spec [of ?k want] have "?k = []" by simp
    with None assms show ?thesis by (auto simp: Claim_def Let_def filter_empty_conv)
  next
    case (Some i)
    with closest_spec [of ?k want] have "is_best want ?k i" by simp
    from split_best [OF this] obtain xs s ys where b: "?k = xs @ s # ys" "s = ?k ! i" "delete_at i ?k = xs @ ys"
      "\<forall>t \<in> set xs. closer want s t" "\<forall>t \<in> set ys. \<not> closer want t s" by blast
    have "s \<in> set ?k" unfolding b(1) by simp
    then have u: "usable Attached now key expires s" by simp
    have g: "got = Some (mb_m s)" "p_ready q = xs @ ys"
      using Some assms b(2,3) by (auto simp: Claim_def Let_def)
    have "mb_key s = key" "expires \<le> mb_label s" "time_sub now (mb_born s) \<le> MaxIdle" "\<forall>l \<in> set (mb_warm s). Attached (mb_m s) l"
      using u by (auto simp: usable_def not_less)
    with b(1,4,5) show ?thesis unfolding g option.case by blast
  qed
qed

text \<open>C13: However the filler, claims, removals and \<open>Close\<close> interleave, the sandboxes on the
  pool's account (waiting, being made, failed but not confirmed gone, still being
  removed) never exceed its size, and no sandbox is ever handed to two claims or handed
  over and left waiting.
\<close>

theorem pool_bounded_and_exclusive:
  assumes "reach (pool_init n lifetime stated) pool_step s"
  shows "sandboxes s \<le> p_size (ps_pool s) \<and> distinct (ps_claimed s @ map mb_m (p_ready (ps_pool s)))"
  using warm_pool.reach_inv [OF assms] by (auto simp: pool_inv_defs sandboxes_def split: filler.splits)

text \<open>Once \<open>Close\<close> has emptied the queue nothing waits in it again, whatever the filler was
  doing and whatever it still does: a member made meanwhile is removed, not queued.
\<close>

theorem closed_pool_stays_empty:
  assumes "reach (pool_init n lifetime stated) pool_step s" and "ps_drained s" and "pool_step\<^sup>*\<^sup>* s t"
  shows "Members (ps_pool t) = [] \<and> ps_claimed t = ps_claimed s"
proof -
  have "pool_inv s" by (rule warm_pool.reach_inv [OF assms(1)])
  from assms(3) this assms(2) have "pool_inv t \<and> ps_drained t \<and> ps_claimed t = ps_claimed s"
  proof (induction rule: rtranclp_induct)
    case (step t u)
    then have t: "pool_inv t" "ps_drained t" by blast+
    have inv: "pool_inv u" "p_ready (ps_pool t) = []" "ps_drained t"
      using warm_pool.inv_step [OF step(2) t(1)] t by (auto simp: pool_inv_def Let_def)
    from step(2) inv(2,3) have "ps_drained u \<and> ps_claimed u = ps_claimed t"
      by (induction rule: pool_step.induct)
         (auto simp: add_returns_def Claim_def closest_def Let_def)
    with step inv show ?case by simp
  qed simp
  then show ?thesis by (auto simp: pool_inv_def Let_def Members_def)
qed

text \<open>The next member warms a non-empty set of languages the image states, in the image's
  order, and the demand table keeps naming only sets the pool can make: when the set
  furthest below its share cannot be made as it is, its weight has moved to the set
  made instead.
\<close>

theorem next_is_makeable:
  assumes "stated \<noteq> []" and "next_langs stated p = (ls, q)"
  shows "ls \<noteq> [] \<and> (\<exists>P. ls = filter P stated) \<and> p_stated q = stated \<and>
    (let want = fst (fst (gaps (p\<lparr>p_stated := stated\<rparr>))) in
       want = SetKey ls \<or> map_of (p_demand q) want = None \<and>
       (map_of (p_demand p) want \<noteq> None \<longrightarrow>
          lookup0 (p_demand q) (SetKey ls) = f_add (lookup0 (p_demand p) (SetKey ls)) (lookup0 (p_demand p) want)))"
proof -
  have all: "\<exists>P. stated = filter P stated" by (rule exI [of _ "\<lambda>_. True"]) simp
  show ?thesis
    using assms all by (auto simp: next_langs_def Let_def delete_conv' split: if_splits)
qed

subsection \<open>A pool at work\<close>

definition demo_pool :: "nat pool" where
  "demo_pool = \<lparr>p_size = 2, p_lifetime = minute, p_ready =
     [\<lparr>mb_m = 7, mb_name = ''s7'', mb_key = ''k'', mb_born = 0, mb_label = 31 * minute, mb_warm = [''python'', ''js'']\<rparr>,
      \<lparr>mb_m = 8, mb_name = ''s8'', mb_key = ''k'', mb_born = 0, mb_label = 31 * minute, mb_warm = [''js'']\<rparr>],
     p_retiring = 0, p_making = 0, p_lastMove = 0, p_stated = [''python'', ''js''], p_demand = [(''python,js'', 1)],
     p_stop = False\<rparr>"

theorem claim_takes_closest_witness:
  "Claim (\<lambda>_ _. True) second ''k'' minute [''js''] demo_pool =
     (Some 8, demo_pool\<lparr>p_ready := [p_ready demo_pool ! 0]\<rparr>) \<and>
   (\<exists>s \<in> set (p_ready demo_pool). mb_m s = 8 \<and> minute \<le> mb_label s)"
proof -
  have c: "Claim (\<lambda>_ _. True) second ''k'' minute [''js''] demo_pool =
     (Some 8, demo_pool\<lparr>p_ready := [p_ready demo_pool ! 0]\<rparr>)" by code_simp
  from claim_takes_closest [OF c] obtain xs s ys where
    s: "filter (usable (\<lambda>_ _. True) second ''k'' minute) (p_ready demo_pool) = xs @ s # ys" "8 = mb_m s" "minute \<le> mb_label s"
    by auto
  have "s \<in> set (filter (usable (\<lambda>_ _. True) second ''k'' minute) (p_ready demo_pool))" unfolding s(1) by simp
  then have "s \<in> set (p_ready demo_pool)" by simp
  with s(2,3) c show ?thesis by (intro conjI bexI [of _ s]) simp_all
qed

theorem next_is_makeable_witness:
  "[''js''] \<noteq> [] \<and> fst (next_langs [''js''] demo_pool) \<noteq> []"
  using next_is_makeable [of "[''js'']" demo_pool "fst (next_langs [''js''] demo_pool)" "snd (next_langs [''js''] demo_pool)"]
  by simp

definition demo_start :: "nat psys" where
  "demo_start = \<lparr>ps_pool = projr (NewPool 1 minute [''js'']), ps_fill = FStart, ps_running = False, ps_backoff = second,
     ps_failed = 0, ps_pending = 0, ps_seen = [], ps_claimed = [], ps_drained = False\<rparr>"

text \<open>A pool whose first member failed to start and which then was closed: its place is still held.\<close>

definition demo_closed :: "nat psys" where
  "demo_closed = demo_start\<lparr>ps_fill := FDone, ps_failed := 1, ps_drained := True,
     ps_pool := close_drain (close_stop (add_place (snd (next_langs [''js''] (ps_pool demo_start)))))\<rparr>"

lemma demo_closed_reach: "reach (pool_init 1 minute [''js'']) pool_step demo_closed"
proof -
  let ?I = "pool_init 1 minute [''js'']"
  let ?n = "next_langs [''js''] (ps_pool demo_start)"
  have new: "NewPool 1 minute [''js''] = (Inr (projr (NewPool 1 minute [''js''])) :: pool_error + nat pool)" by code_simp
  have "?I demo_start" unfolding pool_init_def by (subst new) (simp add: demo_start_def)
  then have 0: "reach ?I pool_step demo_start" by (rule reach_init)
  define s1 where "s1 = demo_start\<lparr>ps_fill := FNext\<rparr>"
  define s2 where "s2 = s1\<lparr>ps_pool := snd ?n, ps_fill := FPlace (fst ?n)\<rparr>"
  define s3 where "s3 = s2\<lparr>ps_pool := add_place (ps_pool s2), ps_fill := FMaking (fst ?n) 0\<rparr>"
  define s4 where "s4 = add_returns False False (s3\<lparr>ps_failed := ps_failed s3 + 1\<rparr>)"
  define s5 where "s5 = s4\<lparr>ps_pool := close_stop (ps_pool s4)\<rparr>"
  have 1: "pool_step demo_start s1" unfolding s1_def by (rule pool_step.start) (simp add: demo_start_def)
  have 2: "pool_step s1 s2"
    unfolding s2_def by (rule pool_step.langs [where stated = "[''js'']"]) (simp_all add: s1_def)
  have 3: "pool_step s2 s3" unfolding s3_def by (rule pool_step.place) (simp add: s2_def)
  have 4: "pool_step s3 s4"
    unfolding s4_def by (rule pool_step.make_fail [where ls = "fst ?n" and born = 0]) (simp_all add: s3_def)
  have 5: "pool_step s4 s5" unfolding s5_def by (rule pool_step.stop)
  have 6: "pool_step s5 (s5\<lparr>ps_pool := close_drain (ps_pool s5), ps_drained := True\<rparr>)"
    by (rule pool_step.drain) (simp add: s5_def close_stop_def)
  have "demo_closed = s5\<lparr>ps_pool := close_drain (ps_pool s5), ps_drained := True\<rparr>"
    by (simp add: demo_closed_def demo_start_def add_returns_def s1_def s2_def s3_def s4_def s5_def)
  with reach_step [OF reach_step [OF reach_step [OF reach_step [OF reach_step [OF reach_step [OF 0 1] 2] 3] 4] 5] 6]
  show ?thesis by simp
qed

theorem pool_bounded_and_exclusive_witness:
  "reach (pool_init 1 minute [''js'']) pool_step demo_closed \<and> sandboxes demo_closed \<le> p_size (ps_pool demo_closed)"
  using pool_bounded_and_exclusive [OF demo_closed_reach] demo_closed_reach by simp

theorem closed_pool_stays_empty_witness:
  "reach (pool_init 1 minute [''js'']) pool_step demo_closed \<and> ps_drained demo_closed \<and> Members (ps_pool demo_closed) = []"
proof -
  have "ps_drained demo_closed" by (simp add: demo_closed_def)
  from closed_pool_stays_empty [OF demo_closed_reach this, of demo_closed] this demo_closed_reach show ?thesis by simp
qed

end
