(* ===== verification/Capacity.thy ===== *)
theory Capacity
  imports Go_Prelude
begin

text \<open>
  When a call's capacity is given back, \<open>sandbox/capacity.go\<close>: an admitter's release runs
  once its call has returned and every hold taken under the call's context has ended. A
  \<open>*capacityHold\<close> is its position in a store that only grows; a context is the list of
  holds it carries; a returned function, which acts on its first call only, is the
  list of holds it ends.
\<close>

subsection \<open>Holds\<close>

record capacity_hold =
  ch_n :: int
  ch_released :: bool
  ch_runs :: nat

text \<open>\<open>ch_runs\<close> counts how often \<open>release\<close> has run.\<close>

definition cap_add :: "capacity_hold \<Rightarrow> bool \<times> capacity_hold" where
  "cap_add h = (if ch_released h then (False, h) else (True, h\<lparr>ch_n := ch_n h + 1\<rparr>))"

definition cap_done :: "capacity_hold \<Rightarrow> capacity_hold" where
  "cap_done h =
     (let h = h\<lparr>ch_n := ch_n h - 1\<rparr>;
          last = (ch_n h = 0 \<and> \<not> ch_released h)
      in if last then h\<lparr>ch_released := True, ch_runs := ch_runs h + 1\<rparr> else h)"

type_synonym cap_store = "capacity_hold list"
type_synonym cap_ctx = "nat list"

record cap_fn =
  cf_held :: "nat list"
  cf_called :: bool

definition WithCapacity :: "cap_ctx \<Rightarrow> cap_store \<Rightarrow> (cap_ctx \<times> cap_fn) \<times> cap_store" where
  "WithCapacity parent st =
     ((parent @ [length st], \<lparr>cf_held = [length st], cf_called = False\<rparr>),
      st @ [\<lparr>ch_n = 1, ch_released = False, ch_runs = 0\<rparr>])"

fun hold_all :: "cap_ctx \<Rightarrow> cap_store \<Rightarrow> nat list \<times> cap_store" where
  "hold_all [] st = ([], st)"
| "hold_all (i # is) st =
     (case cap_add (st ! i) of (ok, h) \<Rightarrow>
        case hold_all is (st[i := h]) of (held, st) \<Rightarrow> (if ok then i # held else held, st))"

definition HoldCapacity :: "cap_ctx \<Rightarrow> cap_store \<Rightarrow> cap_fn \<times> cap_store" where
  "HoldCapacity ctx st = (case hold_all ctx st of (held, st) \<Rightarrow> (\<lparr>cf_held = held, cf_called = False\<rparr>, st))"

definition call_fn :: "cap_fn \<Rightarrow> cap_store \<Rightarrow> cap_fn \<times> cap_store" where
  "call_fn f st =
     (if cf_called f then (f, st)
      else (f\<lparr>cf_called := True\<rparr>, fold (\<lambda>i st. st[i := cap_done (st ! i)]) (cf_held f) st))"

subsection \<open>Contexts, holds and calls in any order\<close>

text \<open>The contexts made so far, the functions handed out, and the store.\<close>

record cap_sys =
  cs_store :: cap_store
  cs_ctxs :: "cap_ctx list"
  cs_fns :: "cap_fn list"

inductive cap_step :: "cap_sys \<Rightarrow> cap_sys \<Rightarrow> bool" where
  cap_with: "parent \<in> set ([] # cs_ctxs s) \<Longrightarrow> WithCapacity parent (cs_store s) = ((ctx, f), st) \<Longrightarrow>
     cap_step s \<lparr>cs_store = st, cs_ctxs = ctx # cs_ctxs s, cs_fns = cs_fns s @ [f]\<rparr>"
| cap_hold: "ctx \<in> set ([] # cs_ctxs s) \<Longrightarrow> HoldCapacity ctx (cs_store s) = (f, st) \<Longrightarrow>
     cap_step s (s\<lparr>cs_store := st, cs_fns := cs_fns s @ [f]\<rparr>)"
| cap_call: "i < length (cs_fns s) \<Longrightarrow> call_fn (cs_fns s ! i) (cs_store s) = (f, st) \<Longrightarrow>
     cap_step s (s\<lparr>cs_store := st, cs_fns := (cs_fns s)[i := f]\<rparr>)"

definition cap_init :: "cap_sys \<Rightarrow> bool" where
  "cap_init s \<longleftrightarrow> s = \<lparr>cs_store = [], cs_ctxs = [], cs_fns = []\<rparr>"

text \<open>The functions not called yet that hold capacity \<open>i\<close>.\<close>

definition holders :: "nat \<Rightarrow> cap_fn list \<Rightarrow> int" where
  "holders i fs = sum_list (map (\<lambda>f. of_bool (\<not> cf_called f \<and> i \<in> set (cf_held f))) fs)"

definition hold_ok :: "int \<Rightarrow> capacity_hold \<Rightarrow> bool" where
  "hold_ok n h \<longleftrightarrow> ch_n h = n \<and> 0 \<le> n \<and> (ch_released h \<longleftrightarrow> n = 0) \<and> ch_runs h = of_bool (n = 0)"

definition cap_inv :: "cap_sys \<Rightarrow> bool" where
  "cap_inv s \<longleftrightarrow>
     (\<forall>c \<in> set (cs_ctxs s). distinct c \<and> set c \<subseteq> {..<length (cs_store s)}) \<and>
     (\<forall>f \<in> set (cs_fns s). distinct (cf_held f) \<and> set (cf_held f) \<subseteq> {..<length (cs_store s)}) \<and>
     (\<forall>i < length (cs_store s). hold_ok (holders i (cs_fns s)) (cs_store s ! i))"

lemma holders_append: "holders i (fs @ [f]) = holders i fs + of_bool (\<not> cf_called f \<and> i \<in> set (cf_held f))"
  by (simp add: holders_def)

lemma holders_upd:
  "j < length fs \<Longrightarrow> holders i (fs[j := f]) = holders i fs
     - of_bool (\<not> cf_called (fs ! j) \<and> i \<in> set (cf_held (fs ! j))) + of_bool (\<not> cf_called f \<and> i \<in> set (cf_held f))"
  by (simp add: holders_def sum_list_upd)

lemma holders_nonneg: "0 \<le> holders i fs"
  by (auto simp: holders_def intro!: sum_list_nonneg)

lemma holders_none: "\<forall>f \<in> set fs. i \<notin> set (cf_held f) \<Longrightarrow> holders i fs = 0"
  by (induction fs) (auto simp: holders_def)

lemma hold_all_spec:
  assumes "hold_all is st = (held, st')" and "distinct is" and "set is \<subseteq> {..<length st}"
  shows "length st' = length st \<and> distinct held \<and> set held = {i \<in> set is. \<not> ch_released (st ! i)} \<and>
    (\<forall>i < length st. st' ! i = (if i \<in> set is then snd (cap_add (st ! i)) else st ! i))"
  using assms
proof (induction "is" arbitrary: st held)
  case (Cons j js)
  obtain ok h where a: "cap_add (st ! j) = (ok, h)" by force
  obtain held1 where r: "hold_all js (st[j := h]) = (held1, st')" and held: "held = (if ok then j # held1 else held1)"
    using Cons.prems(1) a by (auto split: prod.splits)
  have ok: "ok \<longleftrightarrow> \<not> ch_released (st ! j)" using a by (auto simp: cap_add_def split: if_splits)
  have "distinct js" "set js \<subseteq> {..<length (st[j := h])}" "j \<notin> set js" "j < length st" using Cons.prems by auto
  with Cons.IH [OF r] a ok held show ?case by (auto simp: nth_list_update)
qed auto

lemma done_all_spec:
  assumes "distinct is" and "set is \<subseteq> {..<length st}"
  shows "length (fold (\<lambda>i st. st[i := cap_done (st ! i)]) is st) = length st \<and>
    (\<forall>i < length st. fold (\<lambda>i st. st[i := cap_done (st ! i)]) is st ! i = (if i \<in> set is then cap_done (st ! i) else st ! i))"
  using assms
proof (induction "is" arbitrary: st)
  case (Cons j js)
  have "distinct js" "set js \<subseteq> {..<length (st[j := cap_done (st ! j)])}" "j \<notin> set js" "j < length st" using Cons.prems by auto
  with Cons.IH [of "st[j := cap_done (st ! j)]"] show ?case by (auto simp: nth_list_update)
qed simp

lemma hold_ok_add: "hold_ok n h \<Longrightarrow> hold_ok (n + of_bool (\<not> ch_released h)) (snd (cap_add h))"
  by (auto simp: hold_ok_def cap_add_def)

lemma hold_ok_done: "hold_ok n h \<Longrightarrow> 0 < n \<Longrightarrow> hold_ok (n - 1) (cap_done h)"
  by (auto simp: hold_ok_def cap_done_def Let_def)

interpretation capacity: inductive_invariant cap_init cap_step cap_inv
proof
  show "cap_init s \<Longrightarrow> cap_inv s" for s by (simp add: cap_init_def cap_inv_def)
  show "cap_step s t \<Longrightarrow> cap_inv s \<Longrightarrow> cap_inv t" for s t
  proof (induction rule: cap_step.induct)
    case (cap_with parent s ctx f st)
    let ?n = "length (cs_store s)"
    have new: "ctx = parent @ [?n]" "f = \<lparr>cf_held = [?n], cf_called = False\<rparr>"
      "st = cs_store s @ [\<lparr>ch_n = 1, ch_released = False, ch_runs = 0\<rparr>]"
      using cap_with(2) by (auto simp: WithCapacity_def)
    have p: "distinct parent" "set parent \<subseteq> {..<?n}" using cap_with(1,3) by (auto simp: cap_inv_def)
    have "holders ?n (cs_fns s) = 0" using cap_with(3) by (intro holders_none) (auto simp: cap_inv_def)
    with p cap_with(3) show ?case
      by (fastforce simp: cap_inv_def new holders_append nth_append hold_ok_def less_Suc_eq)
  next
    case (cap_hold ctx s f st)
    have c: "distinct ctx" "set ctx \<subseteq> {..<length (cs_store s)}" using cap_hold(1,3) by (auto simp: cap_inv_def)
    obtain held where h: "hold_all ctx (cs_store s) = (held, st)" and f: "f = \<lparr>cf_held = held, cf_called = False\<rparr>"
      using cap_hold(2) by (auto simp: HoldCapacity_def split: prod.splits)
    note sp = hold_all_spec [OF h c]
    have "hold_ok (holders i (cs_fns s @ [f])) (st ! i)" if i: "i < length (cs_store s)" for i
    proof -
      have "hold_ok (holders i (cs_fns s)) (cs_store s ! i)" using cap_hold(3) i by (auto simp: cap_inv_def)
      from hold_ok_add [OF this] this sp i show ?thesis by (auto simp: holders_append f)
    qed
    with sp cap_hold(3) c show ?case by (auto simp: cap_inv_def f)
  next
    case (cap_call i s f st)
    let ?f = "cs_fns s ! i"
    show ?case
    proof (cases "cf_called ?f")
      case True
      with cap_call show ?thesis by (auto simp: call_fn_def)
    next
      case False
      have d: "distinct (cf_held ?f)" "set (cf_held ?f) \<subseteq> {..<length (cs_store s)}"
        using cap_call(1,3) by (auto simp: cap_inv_def)
      note sp = done_all_spec [OF d]
      have f: "f = ?f\<lparr>cf_called := True\<rparr>" "st = fold (\<lambda>i st. st[i := cap_done (st ! i)]) (cf_held ?f) (cs_store s)"
        using cap_call(2) False by (auto simp: call_fn_def)
      have "hold_ok (holders j ((cs_fns s)[i := f])) (st ! j)" if j: "j < length (cs_store s)" for j
      proof -
        have ok: "hold_ok (holders j (cs_fns s)) (cs_store s ! j)" using cap_call(3) j by (auto simp: cap_inv_def)
        have pos: "0 < holders j (cs_fns s)" if "j \<in> set (cf_held ?f)"
          using holders_nonneg [of j "(cs_fns s)[i := f]"] that False
          by (simp add: holders_upd [OF cap_call(1)] f(1))
        show ?thesis
          using ok hold_ok_done [OF ok] pos sp j False
          by (auto simp: holders_upd [OF cap_call(1)] f)
      qed
      with sp cap_call(1,3) show ?thesis
        by (auto simp: cap_inv_def f(2) dest!: set_update_subset_insert [THEN subsetD]) (auto simp: f(1))
    qed
  qed
qed

text \<open>C14: Capacity is given back exactly once, and exactly when the last of the call and its
  holds has ended: however contexts nest and whatever order holds are taken and ended in,
  an admitter's release has run once if no function that holds its capacity is still to be
  called, and not at all otherwise.\<close>

theorem release_runs_once_when_last_ends:
  assumes "reach cap_init cap_step s" and "i < length (cs_store s)"
  shows "ch_runs (cs_store s ! i) =
    (if \<exists>f \<in> set (cs_fns s). \<not> cf_called f \<and> i \<in> set (cf_held f) then 0 else 1)"
proof -
  have ok: "hold_ok (holders i (cs_fns s)) (cs_store s ! i)"
    using capacity.reach_inv [OF assms(1)] assms(2) by (auto simp: cap_inv_def)
  have "holders i (cs_fns s) = 0 \<longleftrightarrow> \<not> (\<exists>f \<in> set (cs_fns s). \<not> cf_called f \<and> i \<in> set (cf_held f))"
    by (auto simp: holders_def count_filter filter_empty_conv)
  with ok show ?thesis by (auto simp: hold_ok_def)
qed

text \<open>A provider takes a hold under a call and the call returns: the capacity is still held.\<close>

definition demo_cap :: cap_sys where
  "demo_cap = (let ((ctx, f), st) = WithCapacity [] []; (g, st) = HoldCapacity ctx st; (f, st) = call_fn f st
     in \<lparr>cs_store = st, cs_ctxs = [ctx], cs_fns = [f, g]\<rparr>)"

lemma demo_cap_reach: "reach cap_init cap_step demo_cap"
proof -
  let ?h = "\<lambda>n. \<lparr>ch_n = n, ch_released = False, ch_runs = 0\<rparr>"
  let ?f = "\<lambda>c. \<lparr>cf_held = [0], cf_called = c\<rparr>"
  have 0: "reach cap_init cap_step \<lparr>cs_store = [], cs_ctxs = [], cs_fns = []\<rparr>"
    by (rule reach_init) (simp add: cap_init_def)
  have 1: "reach cap_init cap_step \<lparr>cs_store = [?h 1], cs_ctxs = [[0]], cs_fns = [?f False]\<rparr>"
    using reach_step [OF 0 cap_with [of "[]" _ "[0]" "?f False" "[?h 1]"]] by (simp add: WithCapacity_def)
  have 2: "reach cap_init cap_step \<lparr>cs_store = [?h 2], cs_ctxs = [[0]], cs_fns = [?f False, ?f False]\<rparr>"
    using reach_step [OF 1 cap_hold [of "[0]" _ "?f False" "[?h 2]"]] by (simp add: HoldCapacity_def cap_add_def)
  have "reach cap_init cap_step \<lparr>cs_store = [?h 1], cs_ctxs = [[0]], cs_fns = [?f True, ?f False]\<rparr>"
    using reach_step [OF 2 cap_call [of 0 _ "?f True" "[?h 1]"]] by (simp add: call_fn_def cap_done_def)
  moreover have "demo_cap = \<lparr>cs_store = [?h 1], cs_ctxs = [[0]], cs_fns = [?f True, ?f False]\<rparr>"
    by (simp add: demo_cap_def WithCapacity_def HoldCapacity_def cap_add_def call_fn_def cap_done_def)
  ultimately show ?thesis by simp
qed

theorem release_runs_once_when_last_ends_witness:
  "reach cap_init cap_step demo_cap \<and> 0 < length (cs_store demo_cap) \<and> ch_runs (cs_store demo_cap ! 0) = 0"
proof -
  have "0 < length (cs_store demo_cap)" "\<exists>f \<in> set (cs_fns demo_cap). \<not> cf_called f \<and> 0 \<in> set (cf_held f)"
    by code_simp+
  with release_runs_once_when_last_ends [OF demo_cap_reach, of 0] demo_cap_reach show ?thesis by simp
qed

end
