(* ===== verification/Admission.thy ===== *)
theory Admission
  imports Capacity Refusals
begin

text \<open>
  The admission decorator of \<open>sandbox/admission.go\<close>: a concurrency cap and a memory budget
  over the runs, the sessions and the session pool of a provider, which sheds load and
  never queues. A run's share is given back through \<open>sandbox/capacity.go\<close>, once its call
  has returned and its sandbox is gone. Each critical section is a definition; a run is a
  record that passes through them.
\<close>

subsection \<open>Configuration and state\<close>

record admission_config =
  MaxConcurrent :: int
  TotalMemoryMB :: int
  PerRunMemoryMB :: int

record admission =
  a_slots :: "int option"
  a_sem :: int
  a_memInUse :: int
  a_memCap :: int
  a_perRun :: int
  a_pools :: "(nat, int) gomap"
  a_next :: nat

text \<open>\<open>a_slots\<close> is the capacity of \<open>sem\<close>, nothing where \<open>sem\<close> is nil. A \<open>*poolCharge\<close> is
  a number, \<open>a_next\<close> the next one.\<close>

datatype admission_error = InnerNil | NegativeLimit | MemoryTogether | RunAboveTotal

definition WithAdmission :: "bool \<Rightarrow> admission_config \<Rightarrow> admission_error + admission option" where
  "WithAdmission innerNil cfg =
     (if innerNil then Inl InnerNil
      else if MaxConcurrent cfg < 0 \<or> TotalMemoryMB cfg < 0 \<or> PerRunMemoryMB cfg < 0 then Inl NegativeLimit
      else if (TotalMemoryMB cfg = 0) \<noteq> (PerRunMemoryMB cfg = 0) then Inl MemoryTogether
      else if TotalMemoryMB cfg > 0 \<and> PerRunMemoryMB cfg > TotalMemoryMB cfg then Inl RunAboveTotal
      else
        let memBudget = (TotalMemoryMB cfg > 0)
        in if MaxConcurrent cfg \<le> 0 \<and> \<not> memBudget then Inr None
           else Inr (Some \<lparr>a_slots = (if MaxConcurrent cfg > 0 then Some (MaxConcurrent cfg) else None), a_sem = 0,
                  a_memInUse = 0, a_memCap = (if memBudget then TotalMemoryMB cfg else 0),
                  a_perRun = (if memBudget then PerRunMemoryMB cfg else 0), a_pools = [], a_next = 0\<rparr>))"

subsection \<open>The checks before admission\<close>

text \<open>\<open>notReady\<close> of \<open>sandbox/docker_preflight.go\<close>: a failed preflight ran nothing.\<close>

definition notReady :: "bool \<Rightarrow> goerr \<Rightarrow> goerr" where
  "notReady ctxDone e =
     (if snd (not_dispatched_reason (Some e)) then e
      else if ctxDone then NotDispatchedError RefusalCapacity e
      else NotDispatchedError RefusalEnvironment e)"

text \<open>\<open>preflight\<close> is nothing for a provider without one, else its error, if any, and the tier
  the provider reports afterwards.\<close>

definition checkMinimumIsolation ::
    "isolation_class \<Rightarrow> (goerr option \<times> isolation_class) option \<Rightarrow> bool \<Rightarrow> isolation_class \<Rightarrow> goerr option" where
  "checkMinimumIsolation actual preflight ctxDone minimum =
     (case validateMinimumIsolation minimum of
        Some e \<Rightarrow> refused (Some e)
      | None \<Rightarrow>
          if minimum = IsolationUnknown then None
          else if actual = IsolationUnknown \<or> Meets actual minimum then None
          else
            (case preflight of
               None \<Rightarrow> CheckMinimumIsolation actual minimum
             | Some (Some e, _) \<Rightarrow> Some (notReady ctxDone e)
             | Some (None, actual) \<Rightarrow>
                 if actual = IsolationUnknown then None else CheckMinimumIsolation actual minimum))"

subsection \<open>Admitting a run\<close>

datatype run_phase = RArrived | RSlotted | RRefusing | RHeld | RReleasing | RFreeing | ROver | RShed

text \<open>
  \<open>r_hold\<close> is the run's capacity hold and \<open>r_open\<close> the functions over it not called yet:
  the call's own and one for each hold a provider took. A session that opened gives its
  share back when it is done, and never calls the call's own function (\<open>r_session\<close>).
\<close>

record arun =
  r_phase :: run_phase
  r_hold :: capacity_hold
  r_open :: nat
  r_session :: bool

definition new_run :: arun where
  "new_run = \<lparr>r_phase = RArrived, r_hold = \<lparr>ch_n = 1, ch_released = False, ch_runs = 0\<rparr>, r_open = 0, r_session = False\<rparr>"

definition at_capacity :: "goerr option" where
  "at_capacity = refused (Some (Sentinel ErrAtCapacity))"

definition adm_slot :: "admission \<Rightarrow> arun \<Rightarrow> admission \<times> arun" where
  "adm_slot a r = (case a_slots a of
     None \<Rightarrow> (a, r\<lparr>r_phase := RSlotted\<rparr>)
   | Some n \<Rightarrow> if a_sem a < n then (a\<lparr>a_sem := a_sem a + 1\<rparr>, r\<lparr>r_phase := RSlotted\<rparr>)
               else (a, r\<lparr>r_phase := RShed\<rparr>))"

text \<open>The sum is an \<open>int64\<close> of the source: the model's integers are unbounded, which is the same as long
  as the cap and one run's limit add up to less than \<open>2 ^ 63\<close> bytes.\<close>

definition adm_memory :: "admission \<Rightarrow> arun \<Rightarrow> admission \<times> arun" where
  "adm_memory a r =
     (if a_memCap a > 0 then
        (if a_memInUse a + a_perRun a > a_memCap a then (a, r\<lparr>r_phase := RRefusing\<rparr>)
         else (a\<lparr>a_memInUse := a_memInUse a + a_perRun a\<rparr>, r\<lparr>r_phase := RHeld, r_open := 1\<rparr>))
      else (a, r\<lparr>r_phase := RHeld, r_open := 1\<rparr>))"

definition give_slot :: "admission \<Rightarrow> admission" where
  "give_slot a = (if a_slots a \<noteq> None then a\<lparr>a_sem := a_sem a - 1\<rparr> else a)"

definition adm_undo :: "admission \<Rightarrow> arun \<Rightarrow> admission \<times> arun" where
  "adm_undo a r = (give_slot a, r\<lparr>r_phase := RShed\<rparr>)"

definition rel_memory :: "admission \<Rightarrow> arun \<Rightarrow> admission \<times> arun" where
  "rel_memory a r = (if a_memCap a > 0 then a\<lparr>a_memInUse := a_memInUse a - a_perRun a\<rparr> else a, r\<lparr>r_phase := RFreeing\<rparr>)"

definition adm_free :: "admission \<Rightarrow> arun \<Rightarrow> admission \<times> arun" where
  "adm_free a r = (give_slot a, r\<lparr>r_phase := ROver\<rparr>)"

text \<open>A provider takes a hold; one of the run's functions is called, and the last one starts
  the release; a session that has opened; its end.\<close>

definition run_hold :: "arun \<Rightarrow> arun" where
  "run_hold r = (case cap_add (r_hold r) of (ok, h) \<Rightarrow> if ok then r\<lparr>r_hold := h, r_open := r_open r + 1\<rparr> else r)"

definition run_done :: "arun \<Rightarrow> arun" where
  "run_done r =
     (let h = cap_done (r_hold r); r' = r\<lparr>r_hold := h, r_open := r_open r - 1\<rparr>
      in if ch_runs h > ch_runs (r_hold r) \<and> r_phase r = RHeld then r'\<lparr>r_phase := RReleasing\<rparr> else r')"

definition session_opened :: "arun \<Rightarrow> arun" where
  "session_opened r = r\<lparr>r_session := True\<rparr>"

definition session_done :: "arun \<Rightarrow> arun" where
  "session_done r = (if r_phase r = RHeld then r\<lparr>r_phase := RReleasing\<rparr> else r)"

subsection \<open>The session pool\<close>

datatype pool_start = PoolTooBig | PoolUncharged | PoolCharged nat

definition StartSessionPool :: "int \<Rightarrow> admission \<Rightarrow> pool_start \<times> admission" where
  "StartSessionPool n a =
     (if a_memCap a > 0 \<and> n > 0 then
        let free = a_memCap a - a_memInUse a
        in if n > go_quot free (a_perRun a) then (PoolTooBig, a)
           else (PoolCharged (a_next a),
             a\<lparr>a_pools := AList.update (a_next a) (n * a_perRun a) (a_pools a), a_next := a_next a + 1,
               a_memInUse := a_memInUse a + n * a_perRun a\<rparr>)
      else (PoolUncharged, a))"

definition releasePool :: "nat \<Rightarrow> admission \<Rightarrow> admission" where
  "releasePool c a = (case map_of (a_pools a) c of
     None \<Rightarrow> a
   | Some mib \<Rightarrow> a\<lparr>a_pools := AList.delete c (a_pools a), a_memInUse := a_memInUse a - mib\<rparr>)"

definition drain_pools :: "admission \<Rightarrow> admission" where
  "drain_pools a = fold releasePool (map fst (a_pools a)) a"

subsection \<open>Runs, sessions and pools side by side\<close>

type_synonym adm_state = "admission \<times> arun list"

inductive adm_step :: "adm_state \<Rightarrow> adm_state \<Rightarrow> bool" where
  arrive: "checkMinimumIsolation actual preflight ctxDone minimum = None \<Longrightarrow> adm_step (a, rs) (a, rs @ [new_run])"
| slot: "i < length rs \<Longrightarrow> r_phase (rs ! i) = RArrived \<Longrightarrow> adm_slot a (rs ! i) = (a', r) \<Longrightarrow> adm_step (a, rs) (a', rs[i := r])"
| memory: "i < length rs \<Longrightarrow> r_phase (rs ! i) = RSlotted \<Longrightarrow> adm_memory a (rs ! i) = (a', r) \<Longrightarrow> adm_step (a, rs) (a', rs[i := r])"
| undo: "i < length rs \<Longrightarrow> r_phase (rs ! i) = RRefusing \<Longrightarrow> adm_undo a (rs ! i) = (a', r) \<Longrightarrow> adm_step (a, rs) (a', rs[i := r])"
| held: "i < length rs \<Longrightarrow> 0 < r_open (rs ! i) \<Longrightarrow> adm_step (a, rs) (a, rs[i := run_hold (rs ! i)])"
| returned: "i < length rs \<Longrightarrow> of_bool (r_session (rs ! i)) < r_open (rs ! i) \<Longrightarrow>
     adm_step (a, rs) (a, rs[i := run_done (rs ! i)])"
| opened: "i < length rs \<Longrightarrow> r_phase (rs ! i) = RHeld \<Longrightarrow> adm_step (a, rs) (a, rs[i := session_opened (rs ! i)])"
| session_end: "i < length rs \<Longrightarrow> r_session (rs ! i) \<Longrightarrow> adm_step (a, rs) (a, rs[i := session_done (rs ! i)])"
| rel1: "i < length rs \<Longrightarrow> r_phase (rs ! i) = RReleasing \<Longrightarrow> rel_memory a (rs ! i) = (a', r) \<Longrightarrow> adm_step (a, rs) (a', rs[i := r])"
| rel2: "i < length rs \<Longrightarrow> r_phase (rs ! i) = RFreeing \<Longrightarrow> adm_free a (rs ! i) = (a', r) \<Longrightarrow> adm_step (a, rs) (a', rs[i := r])"
| pool: "StartSessionPool n a = (res, a') \<Longrightarrow> adm_step (a, rs) (a', rs)"
| pool_failed: "adm_step (a, rs) (releasePool c a, rs)"
| drained: "adm_step (a, rs) (drain_pools a, rs)"

definition adm_init :: "admission_config \<Rightarrow> adm_state \<Rightarrow> bool" where
  "adm_init cfg x \<longleftrightarrow> (case WithAdmission False cfg of Inr (Some a) \<Rightarrow> x = (a, []) | _ \<Rightarrow> False)"

subsection \<open>The budget\<close>

definition has_slot :: "arun \<Rightarrow> bool" where
  "has_slot r \<longleftrightarrow> r_phase r \<in> {RSlotted, RRefusing, RHeld, RReleasing, RFreeing}"

definition has_memory :: "arun \<Rightarrow> bool" where
  "has_memory r \<longleftrightarrow> r_phase r \<in> {RHeld, RReleasing}"

definition pool_memory :: "admission \<Rightarrow> int" where
  "pool_memory a = sum_list (map snd (a_pools a))"

text \<open>A run that was admitted keeps its share while any of its functions is to be called.\<close>

definition run_ok :: "arun \<Rightarrow> bool" where
  "run_ok r \<longleftrightarrow>
     (if r_phase r \<in> {RArrived, RSlotted, RRefusing, RShed}
        then r_open r = 0 \<and> r_hold r = r_hold new_run \<and> \<not> r_session r
      else hold_ok (int (r_open r)) (r_hold r) \<and> (r_session r \<longrightarrow> 0 < r_open r) \<and>
        (r_phase r = RHeld \<longrightarrow> 0 < r_open r) \<and> (\<not> r_session r \<longrightarrow> 0 < r_open r \<longrightarrow> r_phase r = RHeld))"

definition adm_inv :: "adm_state \<Rightarrow> bool" where
  "adm_inv x \<longleftrightarrow> (case x of (a, rs) \<Rightarrow>
     (\<forall>r \<in> set rs. run_ok r) \<and>
     (case a_slots a of None \<Rightarrow> True | Some n \<Rightarrow>
        a_sem a = sum_list (map (\<lambda>r. of_bool (has_slot r)) rs) \<and> a_sem a \<le> n) \<and>
     (0 < a_memCap a \<longrightarrow> 0 < a_perRun a \<and> a_memInUse a \<le> a_memCap a \<and> 0 \<le> a_memInUse a \<and>
        a_memInUse a = a_perRun a * sum_list (map (\<lambda>r. of_bool (has_memory r)) rs) + pool_memory a) \<and>
     gomap_ok (a_pools a) \<and> (\<forall>(c, m) \<in> set (a_pools a). c < a_next a \<and> 0 \<le> m))"

lemma sum_update_fresh:
  "c \<notin> fst ` set m \<Longrightarrow> sum_list (map snd (AList.update c v m)) = sum_list (map snd m) + (v :: int)"
  by (induction m) auto

lemma set_update_fresh: "c \<notin> fst ` set m \<Longrightarrow> set (AList.update c v m) = insert (c, v) (set m)"
  by (induction m) auto

lemma sum_delete:
  assumes "gomap_ok m" and "map_of m c = Some v"
  shows "sum_list (map snd (AList.delete c m)) = sum_list (map snd m) - (v :: int)"
  using assms
proof (induction m)
  case (Cons e m)
  show ?case
  proof (cases "fst e = c")
    case True
    with Cons.prems have "c \<notin> fst ` set m" "v = snd e" by (auto simp: gomap_ok_def)
    then show ?thesis using True by (simp add: delete_simps(2) delete_idem)
  next
    case False
    with Cons show ?thesis by (auto simp: gomap_ok_def delete_simps(2))
  qed
qed simp

lemma pool_memory_nonneg: "\<forall>(c, m) \<in> set (a_pools a). c < a_next a \<and> 0 \<le> m \<Longrightarrow> 0 \<le> pool_memory a"
  by (force simp: pool_memory_def intro!: sum_list_nonneg)

lemma counts_nonneg: "0 \<le> sum_list (map (\<lambda>r. of_bool (P r) :: int) rs)"
  by (auto intro!: sum_list_nonneg)

text \<open>A step of one run: its new record is in order, and the budget moved by the difference.\<close>

lemma adm_update:
  assumes inv: "adm_inv (a, rs)" and i: "i < length rs" and ok: "run_ok r"
    and same: "a_slots a' = a_slots a" "a_memCap a' = a_memCap a" "a_perRun a' = a_perRun a"
      "a_pools a' = a_pools a" "a_next a' = a_next a"
    and sem: "\<And>n. a_slots a = Some n \<Longrightarrow> a_sem a' = a_sem a - of_bool (has_slot (rs ! i)) + of_bool (has_slot r) \<and> a_sem a' \<le> n"
    and mem: "0 < a_memCap a \<Longrightarrow>
      a_memInUse a' = a_memInUse a + a_perRun a * (of_bool (has_memory r) - of_bool (has_memory (rs ! i))) \<and>
      a_memInUse a' \<le> a_memCap a"
  shows "adm_inv (a', rs[i := r])"
proof -
  have "\<forall>x \<in> set (rs[i := r]). run_ok x"
    using inv ok set_update_subset_insert [of rs i r] by (auto simp: adm_inv_def)
  moreover have "a_sem a' = sum_list (map (\<lambda>r. of_bool (has_slot r)) (rs[i := r]))" if "a_slots a = Some n" for n
    using sem [OF that] inv that by (simp add: adm_inv_def sum_list_upd [OF i])
  moreover have m: "a_memInUse a' = a_perRun a * sum_list (map (\<lambda>r. of_bool (has_memory r)) (rs[i := r])) + pool_memory a"
    if "0 < a_memCap a"
    using mem [OF that] inv that by (simp add: adm_inv_def sum_list_upd [OF i] algebra_simps)
  moreover have "0 \<le> a_memInUse a'" if "0 < a_memCap a"
    using m [OF that] inv that pool_memory_nonneg [of a] counts_nonneg [of has_memory "rs[i := r]"]
    by (auto simp: adm_inv_def intro!: add_nonneg_nonneg mult_nonneg_nonneg)
  ultimately show ?thesis
    using inv sem mem same by (auto simp: adm_inv_def pool_memory_def split: option.splits)
qed

text \<open>A step of the pool charges.\<close>

lemma adm_pools:
  assumes inv: "adm_inv (a, rs)"
    and same: "a_slots a' = a_slots a" "a_memCap a' = a_memCap a" "a_perRun a' = a_perRun a" "a_sem a' = a_sem a"
    and pools: "gomap_ok (a_pools a')" "\<forall>(c, m) \<in> set (a_pools a'). c < a_next a' \<and> 0 \<le> m"
    and mem: "0 < a_memCap a \<Longrightarrow> a_memInUse a' = a_memInUse a + pool_memory a' - pool_memory a \<and> a_memInUse a' \<le> a_memCap a"
  shows "adm_inv (a', rs)"
proof -
  have "a_memInUse a' = a_perRun a * sum_list (map (\<lambda>r. of_bool (has_memory r)) rs) + pool_memory a'" if "0 < a_memCap a"
    using mem [OF that] inv that by (simp add: adm_inv_def)
  moreover have "0 \<le> a_memInUse a'" if "0 < a_memCap a"
    using calculation [OF that] inv that pool_memory_nonneg [OF pools(2)] counts_nonneg [of has_memory rs]
    by (auto simp: adm_inv_def intro!: add_nonneg_nonneg mult_nonneg_nonneg)
  ultimately show ?thesis using inv same pools mem by (auto simp: adm_inv_def split: option.splits)
qed

lemma releasePool_inv:
  assumes inv: "adm_inv (a, rs)"
  shows "adm_inv (releasePool c a, rs)"
proof (cases "map_of (a_pools a) c")
  case None
  with inv show ?thesis by (simp add: releasePool_def)
next
  case (Some m)
  have g: "gomap_ok (a_pools a)" "\<forall>(c, m) \<in> set (a_pools a). c < a_next a \<and> 0 \<le> m"
    using inv by (auto simp: adm_inv_def)
  have "0 \<le> m" using map_of_SomeD [OF Some] g(2) by auto
  have sub: "set (AList.delete c (a_pools a)) \<subseteq> set (a_pools a)" by (auto simp: AList.delete_eq)
  show ?thesis
    by (rule adm_pools [OF inv])
       (use Some g sub \<open>0 \<le> m\<close> inv in \<open>auto simp: releasePool_def pool_memory_def sum_delete adm_inv_def\<close>)
qed

lemma drain_inv: "adm_inv (a, rs) \<Longrightarrow> adm_inv (drain_pools a, rs)"
proof -
  have "adm_inv (a, rs) \<Longrightarrow> adm_inv (fold releasePool cs a, rs)" for cs
    by (induction cs arbitrary: a) (auto simp: releasePool_inv)
  then show "adm_inv (a, rs) \<Longrightarrow> adm_inv (drain_pools a, rs)" by (simp add: drain_pools_def)
qed

text \<open>The charge of a pool is bounded by a division, so it cannot overrun the budget however
  large the size.\<close>

lemma pool_charge_fits:
  assumes "n \<le> go_quot free p" and "0 < p" and "0 \<le> free"
  shows "n * p \<le> free"
proof -
  have "n * p \<le> free div p * p" using assms by (intro mult_right_mono) (auto simp: go_quot_def)
  also have "\<dots> \<le> free" using div_mult_mod_eq [of free p] pos_mod_sign [OF assms(2), of free] by linarith
  finally show ?thesis .
qed

lemma StartSessionPool_inv:
  assumes inv: "adm_inv (a, rs)" and s: "StartSessionPool n a = (res, a')"
  shows "adm_inv (a', rs)"
proof (cases "a' = a")
  case True
  with inv show ?thesis by simp
next
  case False
  with s have c: "0 < a_memCap a" "0 < n" "\<not> n > go_quot (a_memCap a - a_memInUse a) (a_perRun a)"
    and a': "a' = a\<lparr>a_pools := AList.update (a_next a) (n * a_perRun a) (a_pools a), a_next := a_next a + 1,
               a_memInUse := a_memInUse a + n * a_perRun a\<rparr>"
    by (auto simp: StartSessionPool_def Let_def split: if_splits)
  have b: "0 < a_perRun a" "a_memInUse a \<le> a_memCap a" using inv c(1) by (auto simp: adm_inv_def)
  have fits: "n * a_perRun a \<le> a_memCap a - a_memInUse a" by (rule pool_charge_fits) (use b c(3) in auto)
  have pos: "0 \<le> n * a_perRun a" using b(1) c(2) by simp
  have fresh: "a_next a \<notin> fst ` set (a_pools a)" using inv by (force simp: adm_inv_def)
  have g: "gomap_ok (a_pools a)" "\<forall>(c, m) \<in> set (a_pools a). c < a_next a \<and> 0 \<le> m"
    using inv by (auto simp: adm_inv_def)
  have up: "set (AList.update (a_next a) v (a_pools a)) = insert (a_next a, v) (set (a_pools a))" for v
    by (rule set_update_fresh [OF fresh])
  show ?thesis unfolding a'
    by (rule adm_pools [OF inv])
       (use g pos fits up in \<open>auto simp: pool_memory_def sum_update_fresh [OF fresh]\<close>)
qed

subsection \<open>Every step keeps the budget\<close>

lemma run_ok_hold: "run_ok r \<Longrightarrow> 0 < r_open r \<Longrightarrow> run_ok (run_hold r)"
  by (auto simp: run_ok_def run_hold_def hold_ok_def cap_add_def split: if_splits)

lemma run_ok_done: "run_ok r \<Longrightarrow> of_bool (r_session r) < r_open r \<Longrightarrow> run_ok (run_done r)"
  by (auto simp: run_ok_def run_done_def hold_ok_def cap_done_def Let_def split: if_splits)

lemma run_ok_opened: "run_ok r \<Longrightarrow> r_phase r = RHeld \<Longrightarrow> run_ok (session_opened r)"
  by (auto simp: run_ok_def session_opened_def)

lemma run_ok_ended: "run_ok r \<Longrightarrow> r_session r \<Longrightarrow> run_ok (session_done r)"
  by (auto simp: run_ok_def session_done_def split: if_splits)

lemma slot_of_run:
  "has_slot (run_hold r) = has_slot r" "has_memory (run_hold r) = has_memory r"
  "has_slot (run_done r) = has_slot r" "has_memory (run_done r) = has_memory r"
  "has_slot (session_opened r) = has_slot r" "has_memory (session_opened r) = has_memory r"
  "has_slot (session_done r) = has_slot r" "has_memory (session_done r) = has_memory r"
  by (auto simp: has_slot_def has_memory_def run_hold_def cap_add_def run_done_def Let_def session_opened_def session_done_def)

text \<open>A step that changes only a run, and keeps what it holds.\<close>

lemma adm_run_only:
  assumes "adm_inv (a, rs)" and "i < length rs" and "run_ok r" and "has_slot r = has_slot (rs ! i)" and "has_memory r = has_memory (rs ! i)"
  shows "adm_inv (a, rs[i := r])"
  by (rule adm_update [OF assms(1-3)]) (use assms in \<open>auto simp: adm_inv_def\<close>)

lemma fresh_run: "run_ok new_run" "\<not> has_slot new_run" "\<not> has_memory new_run"
  by (simp_all add: new_run_def run_ok_def has_slot_def has_memory_def)

lemmas adm_defs = adm_slot_def adm_memory_def adm_undo_def give_slot_def rel_memory_def adm_free_def
lemmas run_defs = run_ok_def has_slot_def has_memory_def

lemma adm_bounds:
  assumes "adm_inv (a, rs)"
  shows "i < length rs \<Longrightarrow> run_ok (rs ! i)" "a_slots a = Some n \<Longrightarrow> a_sem a \<le> n"
    "0 < a_memCap a \<Longrightarrow> a_memInUse a \<le> a_memCap a" "0 < a_memCap a \<Longrightarrow> 0 < a_perRun a"
  using assms by (simp_all add: adm_inv_def)

lemma adm_init_eq: "adm_init cfg x \<longleftrightarrow> WithAdmission False cfg = Inr (Some (fst x)) \<and> snd x = []"
  by (cases x) (auto simp: adm_init_def split: sum.splits option.splits)

lemma new_admission:
  assumes "WithAdmission False cfg = Inr (Some a)"
  shows "a_slots a = (if MaxConcurrent cfg > 0 then Some (MaxConcurrent cfg) else None) \<and> a_sem a = 0 \<and> a_memInUse a = 0 \<and>
    a_memCap a = TotalMemoryMB cfg \<and> (0 < TotalMemoryMB cfg \<longrightarrow> a_perRun a = PerRunMemoryMB cfg \<and> 0 < PerRunMemoryMB cfg) \<and>
    a_pools a = []"
  using assms unfolding WithAdmission_def Let_def by (simp split: if_split_asm) (auto simp: order.order_iff_strict)

interpretation admission: inductive_invariant "adm_init cfg" adm_step adm_inv
  for cfg
proof
  show "adm_init cfg s \<Longrightarrow> adm_inv s" for s
  proof -
    assume init: "adm_init cfg s"
    obtain a where s: "s = (a, [])" using init by (cases s) (simp add: adm_init_eq)
    from init have "WithAdmission False cfg = Inr (Some a)" by (simp add: adm_init_eq s)
    from new_admission [OF this] show ?thesis by (simp add: adm_inv_def s pool_memory_def)
  qed
  show "adm_step s t \<Longrightarrow> adm_inv s \<Longrightarrow> adm_inv t" for s t
  proof (induction rule: adm_step.induct)
    case (arrive actual pf cd m a rs)
    then show ?case by (cases "a_slots a") (auto simp: adm_inv_def fresh_run)
  next
    case (slot i rs a a' r)
    note b = adm_bounds [OF slot(4)]
    show ?case
      by (rule adm_update [OF slot(4,1)])
         (use slot(2,3) b(1) [OF slot(1)] b(2-4) in \<open>auto simp: adm_defs run_defs split: option.splits if_splits\<close>)
  next
    case (memory i rs a a' r)
    note b = adm_bounds [OF memory(4)]
    show ?case
      by (rule adm_update [OF memory(4,1)])
         (use memory(2,3) b(1) [OF memory(1)] b(2-4) in \<open>auto simp: adm_defs run_defs hold_ok_def new_run_def split: option.splits if_splits\<close>)
  next
    case (undo i rs a a' r)
    note b = adm_bounds [OF undo(4)]
    show ?case
      by (rule adm_update [OF undo(4,1)])
         (use undo(2,3) b(1) [OF undo(1)] b(2-4) in \<open>auto simp: adm_defs run_defs split: option.splits if_splits\<close>)
  next
    case (held i rs a)
    then show ?case by (intro adm_run_only run_ok_hold) (auto simp: slot_of_run adm_inv_def)
  next
    case (returned i rs a)
    then show ?case by (intro adm_run_only run_ok_done) (auto simp: slot_of_run adm_inv_def)
  next
    case (opened i rs a)
    then show ?case using adm_bounds(1) [OF opened(3,1)] by (intro adm_run_only run_ok_opened) (simp_all add: slot_of_run)
  next
    case (session_end i rs a)
    then show ?case using adm_bounds(1) [OF session_end(3,1)] by (intro adm_run_only run_ok_ended) (simp_all add: slot_of_run)
  next
    case (rel1 i rs a a' r)
    note b = adm_bounds [OF rel1(4)]
    show ?case
      by (rule adm_update [OF rel1(4,1)])
         (use rel1(2,3) b(1) [OF rel1(1)] b(2-4) in \<open>auto simp: adm_defs run_defs split: option.splits if_splits\<close>)
  next
    case (rel2 i rs a a' r)
    note b = adm_bounds [OF rel2(4)]
    show ?case
      by (rule adm_update [OF rel2(4,1)])
         (use rel2(2,3) b(1) [OF rel2(1)] b(2-4) in \<open>auto simp: adm_defs run_defs split: option.splits if_splits\<close>)
  next
    case (pool n a res a' rs)
    show ?case by (rule StartSessionPool_inv [OF pool(2,1)])
  next
    case (pool_failed a rs c)
    then show ?case by (rule releasePool_inv)
  next
    case (drained a rs)
    then show ?case by (rule drain_inv)
  qed
qed

lemma releasePool_keeps:
  "a_slots (releasePool c a) = a_slots a" "a_memCap (releasePool c a) = a_memCap a" "a_perRun (releasePool c a) = a_perRun a"
  by (auto simp: releasePool_def split: option.splits)

lemma drain_keeps:
  "a_slots (drain_pools a) = a_slots a" "a_memCap (drain_pools a) = a_memCap a" "a_perRun (drain_pools a) = a_perRun a"
proof -
  have "a_slots (fold releasePool cs a) = a_slots a \<and> a_memCap (fold releasePool cs a) = a_memCap a \<and>
      a_perRun (fold releasePool cs a) = a_perRun a" for cs
    by (induction cs arbitrary: a) (simp_all add: releasePool_keeps)
  then show "a_slots (drain_pools a) = a_slots a" "a_memCap (drain_pools a) = a_memCap a" "a_perRun (drain_pools a) = a_perRun a"
    by (simp_all add: drain_pools_def)
qed

lemma adm_step_keeps:
  assumes "adm_step x y"
  shows "a_slots (fst y) = a_slots (fst x) \<and> a_memCap (fst y) = a_memCap (fst x) \<and> a_perRun (fst y) = a_perRun (fst x)"
  using assms
  by (induction rule: adm_step.induct)
     (auto simp: adm_defs StartSessionPool_def Let_def releasePool_keeps drain_keeps split: option.splits if_splits)

lemma adm_reach_config:
  assumes "reach (adm_init cfg) adm_step x"
  shows "a_slots (fst x) = (if MaxConcurrent cfg > 0 then Some (MaxConcurrent cfg) else None) \<and>
    a_memCap (fst x) = TotalMemoryMB cfg \<and> (0 < TotalMemoryMB cfg \<longrightarrow> a_perRun (fst x) = PerRunMemoryMB cfg)"
  using assms
proof (induction rule: reach.induct)
  case (reach_init x)
  then show ?case using new_admission [of cfg "fst x"] by (simp add: adm_init_eq)
next
  case (reach_step x y)
  then show ?case using adm_step_keeps by metis
qed

text \<open>C15: The admission budget holds for sandboxes, not only for calls. At any moment the
  admitted runs and sessions that may still have a sandbox, whose call returned or not, are
  within the concurrency cap, and their memory together with the session pool's is within
  the memory budget; and a run whose sandbox outlives its call keeps its share until the
  last hold on it ends.\<close>

theorem admission_budget_holds:
  assumes "reach (adm_init cfg) adm_step (a, rs)"
  shows "(0 < MaxConcurrent cfg \<longrightarrow> int (length (filter (\<lambda>r. r_phase r = RHeld) rs)) \<le> MaxConcurrent cfg) \<and>
    (0 < TotalMemoryMB cfg \<longrightarrow>
       PerRunMemoryMB cfg * int (length (filter (\<lambda>r. r_phase r = RHeld) rs)) + pool_memory a \<le> TotalMemoryMB cfg) \<and>
    (\<forall>r \<in> set rs. 0 < r_open r \<and> \<not> r_session r \<longrightarrow> r_phase r = RHeld)"
proof -
  note inv = admission.reach_inv [OF assms] and conf = adm_reach_config [OF assms]
  let ?n = "int (length (filter (\<lambda>r. r_phase r = RHeld) rs))"
  have slots: "?n \<le> sum_list (map (\<lambda>r. of_bool (has_slot r)) rs)" "?n \<le> sum_list (map (\<lambda>r. of_bool (has_memory r)) rs)"
    unfolding count_filter [symmetric] by (intro sum_list_mono_all; auto simp: has_slot_def has_memory_def)+
  have "\<forall>r \<in> set rs. 0 < r_open r \<and> \<not> r_session r \<longrightarrow> r_phase r = RHeld"
    using inv by (auto simp: adm_inv_def run_ok_def split: if_splits)
  moreover have "PerRunMemoryMB cfg * ?n + pool_memory a \<le> TotalMemoryMB cfg" if "0 < TotalMemoryMB cfg"
  proof -
    have "PerRunMemoryMB cfg * ?n \<le> PerRunMemoryMB cfg * sum_list (map (\<lambda>r. of_bool (has_memory r)) rs)"
      using slots(2) inv conf that by (intro mult_left_mono) (auto simp: adm_inv_def)
    moreover have "PerRunMemoryMB cfg * sum_list (map (\<lambda>r. of_bool (has_memory r)) rs) + pool_memory a \<le> TotalMemoryMB cfg"
      using inv conf that by (simp add: adm_inv_def)
    ultimately show ?thesis by linarith
  qed
  moreover have "?n \<le> MaxConcurrent cfg" if "0 < MaxConcurrent cfg"
    using inv conf slots(1) that by (simp add: adm_inv_def)
  ultimately show ?thesis by blast
qed

text \<open>Starting a session pool charges its whole size against the memory left, without an
  overflow however large the size, and giving the charge back, by the failed start or by
  \<open>Drain\<close> or by both, restores the budget exactly once.\<close>

theorem pool_charge_exact:
  assumes "reach (adm_init cfg) adm_step (a, rs)" and "StartSessionPool n a = (PoolCharged c, a')"
  shows "n * PerRunMemoryMB cfg \<le> TotalMemoryMB cfg - a_memInUse a \<and>
    a_memInUse a' = a_memInUse a + n * PerRunMemoryMB cfg \<and>
    a_memInUse (releasePool c a') = a_memInUse a \<and> releasePool c (releasePool c a') = releasePool c a'"
proof -
  note inv = admission.reach_inv [OF assms(1)] and conf = adm_reach_config [OF assms(1)]
  have c: "0 < a_memCap a" "0 < n" "n \<le> go_quot (a_memCap a - a_memInUse a) (a_perRun a)" "c = a_next a"
    and a': "a' = a\<lparr>a_pools := AList.update (a_next a) (n * a_perRun a) (a_pools a), a_next := a_next a + 1,
               a_memInUse := a_memInUse a + n * a_perRun a\<rparr>"
    using assms(2) by (auto simp: StartSessionPool_def Let_def split: if_splits)
  have "n * a_perRun a \<le> a_memCap a - a_memInUse a"
    by (rule pool_charge_fits) (use inv c in \<open>auto simp: adm_inv_def\<close>)
  with c conf show ?thesis by (auto simp: a' releasePool_def update_conv' delete_conv')
qed

text \<open>The isolation floor is settled before anything is reserved. A floor that is not met
  and that no preflight changed is refused, every refusal proves that nothing ran, and a
  provider whose tier is known and meets the floor is never refused.\<close>

lemma admission_floor:
  "(checkMinimumIsolation actual preflight ctxDone minimum = Some e \<longrightarrow> snd (not_dispatched_reason (Some e))) \<and>
   (checkMinimumIsolation actual None ctxDone minimum = None \<longrightarrow>
      minimum = IsolationUnknown \<or> actual = IsolationUnknown \<or> Meets actual minimum) \<and>
   (validateMinimumIsolation minimum = None \<and> Meets actual minimum \<longrightarrow>
      checkMinimumIsolation actual preflight ctxDone minimum = None)"
proof (intro conjI impI)
  assume "checkMinimumIsolation actual preflight ctxDone minimum = Some e"
  then show "snd (not_dispatched_reason (Some e))"
    by (auto simp: checkMinimumIsolation_def notReady_def validateMinimumIsolation_def CheckMinimumIsolation_def
        refused_def not_dispatched_def not_dispatched_reason_def split: if_splits option.splits)
next
  assume "checkMinimumIsolation actual None ctxDone minimum = None"
  then show "minimum = IsolationUnknown \<or> actual = IsolationUnknown \<or> Meets actual minimum"
    by (auto simp: checkMinimumIsolation_def CheckMinimumIsolation_None validateMinimumIsolation_def Meets_def isolation_defs split: if_splits option.splits)
next
  assume "validateMinimumIsolation minimum = None \<and> Meets actual minimum"
  then show "checkMinimumIsolation actual preflight ctxDone minimum = None"
    by (auto simp: checkMinimumIsolation_def)
qed

subsection \<open>A run at work\<close>

definition demo_cfg :: admission_config where
  "demo_cfg = \<lparr>MaxConcurrent = 1, TotalMemoryMB = 512, PerRunMemoryMB = 256\<rparr>"

definition demo_adm :: admission where
  "demo_adm = \<lparr>a_slots = Some 1, a_sem = 0, a_memInUse = 0, a_memCap = 512, a_perRun = 256, a_pools = [], a_next = 0\<rparr>"

definition demo_held :: adm_state where
  "demo_held = (demo_adm\<lparr>a_sem := 1, a_memInUse := 256\<rparr>, [new_run\<lparr>r_phase := RHeld, r_open := 1\<rparr>])"

lemma demo_held_reach: "reach (adm_init demo_cfg) adm_step demo_held"
proof -
  have "adm_init demo_cfg (demo_adm, [])" by (simp add: adm_init_eq WithAdmission_def demo_cfg_def demo_adm_def)
  then have 0: "reach (adm_init demo_cfg) adm_step (demo_adm, [])" by (rule reach_init)
  have 1: "adm_step (demo_adm, []) (demo_adm, [] @ [new_run])"
    by (rule arrive [of IsolationVM None False IsolationUnknown]) (simp add: checkMinimumIsolation_def validateMinimumIsolation_def)
  have 2: "adm_step (demo_adm, [new_run]) (demo_adm\<lparr>a_sem := 1\<rparr>, [new_run][0 := new_run\<lparr>r_phase := RSlotted\<rparr>])"
    by (rule slot) (simp_all add: new_run_def adm_slot_def demo_adm_def)
  have 3: "adm_step (demo_adm\<lparr>a_sem := 1\<rparr>, [new_run\<lparr>r_phase := RSlotted\<rparr>])
      (demo_adm\<lparr>a_sem := 1, a_memInUse := 256\<rparr>, [new_run\<lparr>r_phase := RSlotted\<rparr>][0 := new_run\<lparr>r_phase := RHeld, r_open := 1\<rparr>])"
    by (rule memory) (simp_all add: new_run_def adm_memory_def demo_adm_def)
  from reach_step [OF 0 1] have 4: "reach (adm_init demo_cfg) adm_step (demo_adm, [new_run])" by simp
  from reach_step [OF 4 2] have 5: "reach (adm_init demo_cfg) adm_step (demo_adm\<lparr>a_sem := 1\<rparr>, [new_run\<lparr>r_phase := RSlotted\<rparr>])" by simp
  from reach_step [OF 5 3] show ?thesis by (simp add: demo_held_def)
qed

theorem admission_budget_holds_witness:
  "reach (adm_init demo_cfg) adm_step demo_held \<and>
   int (length (filter (\<lambda>r. r_phase r = RHeld) (snd demo_held))) = 1 \<and>
   PerRunMemoryMB demo_cfg * int (length (filter (\<lambda>r. r_phase r = RHeld) (snd demo_held))) \<le> TotalMemoryMB demo_cfg"
  using admission_budget_holds [OF demo_held_reach [unfolded demo_held_def]] demo_held_reach
  by (simp add: demo_held_def demo_cfg_def pool_memory_def demo_adm_def)

theorem pool_charge_exact_witness:
  "fst (StartSessionPool 1 (fst demo_held)) = PoolCharged 0 \<and>
   a_memInUse (releasePool 0 (snd (StartSessionPool 1 (fst demo_held)))) = 256"
proof -
  have s: "StartSessionPool 1 (fst demo_held) = (PoolCharged 0, snd (StartSessionPool 1 (fst demo_held)))"
    by (simp add: StartSessionPool_def demo_held_def demo_adm_def go_quot_def)
  obtain a rs where d: "demo_held = (a, rs)" by force
  from pool_charge_exact [OF demo_held_reach [unfolded d], of 1 0] s have
    "a_memInUse (releasePool 0 (snd (StartSessionPool 1 (fst demo_held)))) = a_memInUse a" by (simp add: d)
  moreover have "a_memInUse (fst demo_held) = 256" by (simp add: demo_held_def)
  ultimately show ?thesis using s by (metis d fst_conv)
qed

end
