(* ===== verification/Placement.thy ===== *)
theory Placement
  imports Requests
begin

text \<open>
  Placement, \<open>placement/placement.go\<close>: which daemon runs a request. A pool filters its
  backends by what each last said of itself, ranks what is left, and sends; it tries
  another backend only after a refusal that proves nothing ran. What a backend's client
  answers, to \<open>Describe\<close> and to a run, is an input of the definitions that call it.
\<close>

subsection \<open>State\<close>

record payload_env =
  pe_Identity :: string
  pe_SoftwareIdentity :: string

text \<open>The fields of \<open>client.Info\<close> that placement reads.\<close>

record info =
  in_Sandbox :: string
  in_Isolation :: isolation_class
  in_SupportsProject :: bool
  in_SupportsModule :: bool
  in_SupportsJavaScriptGrants :: bool
  in_SupportsProjectGrants :: bool
  in_Protocol :: nat
  in_SupportsSessions :: bool
  in_SessionEnvironment :: payload_env
  in_JavaScript :: payload_env
  in_Project :: payload_env
  in_Module :: payload_env

record seen =
  sn_info :: info
  sn_at :: gotime
  sn_err :: "goerr option"
  sn_failed :: gotime

record ppool =
  pp_backends :: "string list"
  pp_ttl :: duration
  pp_seen :: "(string, seen) gomap"

datatype place_error = NoBackends | BackendUnnamed | BackendNoClient | BackendTwice

fun check_backends :: "string list \<Rightarrow> (string \<times> bool) list \<Rightarrow> place_error option" where
  "check_backends names [] = None"
| "check_backends names ((name, hasClient) # bs) =
     (if trim_space name = '''' then Some BackendUnnamed
      else if \<not> hasClient then Some BackendNoClient
      else if name \<in> set names then Some BackendTwice
      else check_backends (name # names) bs)"

definition NewPlacement :: "(string \<times> bool) list \<Rightarrow> duration \<Rightarrow> place_error + ppool" where
  "NewPlacement backends descriptionTTL =
     (if length backends = 0 then Inl NoBackends
      else
        let ttl = (if descriptionTTL \<le> 0 then minute else descriptionTTL)
        in case check_backends [] backends of
             Some e \<Rightarrow> Inl e
           | None \<Rightarrow> Inr \<lparr>pp_backends = map fst backends, pp_ttl = ttl, pp_seen = []\<rparr>)"

record requirement =
  rq_Backend :: string
  rq_Provider :: string
  rq_MinimumIsolation :: isolation_class
  rq_Environment :: string
  rq_Software :: software_rule
  rq_GrantProfile :: bool
  rq_Prefer :: "(info \<Rightarrow> info \<Rightarrow> int) option"

record place_refusal =
  pr_Backend :: string
  pr_Reason :: refusal
  pr_Err :: goerr

record choice =
  co_Backend :: string
  co_Retried :: "place_refusal list"

subsection \<open>Descriptions\<close>

definition describeBudget :: duration where "describeBudget = 5 * second"
definition failedTTL :: duration where "failedTTL = 5 * second"

definition store :: "string \<Rightarrow> seen \<Rightarrow> ppool \<Rightarrow> ppool" where
  "store name s p =
     (case map_of (pp_seen p) name of
        Some cur \<Rightarrow> if sn_at cur > sn_at s then p else p\<lparr>pp_seen := AList.update name s (pp_seen p)\<rparr>
      | None \<Rightarrow> p\<lparr>pp_seen := AList.update name s (pp_seen p)\<rparr>)"

text \<open>What one backend answered when asked: when it was asked, what it said, when that arrived.\<close>

record described =
  ds_info :: info
  ds_err :: "goerr option"
  ds_asked :: gotime
  ds_arrived :: gotime

definition seen_of :: "described \<Rightarrow> seen" where
  "seen_of d = \<lparr>sn_info = ds_info d, sn_at = ds_asked d, sn_err = ds_err d, sn_failed = ds_arrived d\<rparr>"

definition Refresh :: "(string \<Rightarrow> described) \<Rightarrow> ppool \<Rightarrow> goerr option \<times> ppool" where
  "Refresh ask p =
     (find (\<lambda>e. True) (List.map_filter (\<lambda>b. map_option (\<lambda>e. Wrap [e]) (ds_err (ask b))) (pp_backends p)),
      fold (\<lambda>b. store b (seen_of (ask b))) (pp_backends p) p)"

text \<open>\<open>Describe\<close>: the stored answer while it is fresh, a stored failure for a few seconds,
  else the backend is asked.\<close>

definition Describe :: "gotime \<Rightarrow> (string \<Rightarrow> described) \<Rightarrow> string \<Rightarrow> ppool \<Rightarrow> (goerr + info) \<times> ppool" where
  "Describe now ask name p =
     (if name \<notin> set (pp_backends p) then (Inl (Opaque 1), p)
      else
        let fresh = (case map_of (pp_seen p) name of
              None \<Rightarrow> None
            | Some s \<Rightarrow>
                (case sn_err s of
                   None \<Rightarrow> if time_sub now (sn_at s) < pp_ttl p then Some (Inr (sn_info s)) else None
                 | Some e \<Rightarrow> if time_sub now (sn_failed s) < failedTTL then Some (Inl e) else None))
        in case fresh of
             Some r \<Rightarrow> (r, p)
           | None \<Rightarrow>
               let d = ask name
               in (case ds_err d of None \<Rightarrow> Inr (ds_info d) | Some e \<Rightarrow> Inl e, store name (seen_of d) p))"

subsection \<open>The filter\<close>

datatype kind = kindJavaScript | kindProject | kindModule | kindSession

datatype unfit_reason = OtherProtocol | OtherProvider | NoSessions | NoGrants | NoProject | NoModule
  | GrantOnModule | BelowFloor | OtherEnvironment | OtherSoftware

text \<open>The protocol number of this module, \<open>protocol/protocol.go\<close>.\<close>

definition Protocol :: nat where "Protocol = 5"

definition kind_env :: "kind \<Rightarrow> info \<Rightarrow> payload_env" where
  "kind_env k i = (case k of kindSession \<Rightarrow> in_SessionEnvironment i | kindProject \<Rightarrow> in_Project i
     | kindModule \<Rightarrow> in_Module i | kindJavaScript \<Rightarrow> in_JavaScript i)"

definition unfit_kind :: "kind \<Rightarrow> bool \<Rightarrow> info \<Rightarrow> unfit_reason option" where
  "unfit_kind k withGrant i =
     (case k of
        kindSession \<Rightarrow>
          if \<not> in_SupportsSessions i then Some NoSessions
          else guard_err (withGrant \<and> \<not> in_SupportsJavaScriptGrants i \<and> \<not> in_SupportsProjectGrants i) NoGrants
      | kindProject \<Rightarrow>
          if \<not> in_SupportsProject i then Some NoProject
          else guard_err (withGrant \<and> \<not> in_SupportsProjectGrants i) NoGrants
      | kindModule \<Rightarrow>
          if \<not> in_SupportsModule i then Some NoModule else guard_err withGrant GrantOnModule
      | kindJavaScript \<Rightarrow> guard_err (withGrant \<and> \<not> in_SupportsJavaScriptGrants i) NoGrants)"

definition unfit :: "info \<Rightarrow> kind \<Rightarrow> requirement \<Rightarrow> unfit_reason option" where
  "unfit i k req =
     (if in_Protocol i \<noteq> Protocol then Some OtherProtocol
      else if rq_Provider req \<noteq> '''' \<and> in_Sandbox i \<noteq> rq_Provider req then Some OtherProvider
      else
        case unfit_kind k (rq_GrantProfile req) i of
          Some r \<Rightarrow> Some r
        | None \<Rightarrow>
            let env = kind_env k i
            in if CheckMinimumIsolation (in_Isolation i) (rq_MinimumIsolation req) \<noteq> None then Some BelowFloor
               else if rq_Environment req \<noteq> '''' \<and> pe_Identity env \<noteq> rq_Environment req then Some OtherEnvironment
               else if \<not> software_Allows (rq_Software req) (pe_SoftwareIdentity env) then Some OtherSoftware
               else None)"

text \<open>\<open>SortStableFunc\<close> by the caller's preference.\<close>

fun insert_stable :: "('a \<Rightarrow> 'a \<Rightarrow> int) \<Rightarrow> 'a \<Rightarrow> 'a list \<Rightarrow> 'a list" where
  "insert_stable cmp x [] = [x]"
| "insert_stable cmp x (y # ys) = (if cmp y x < 0 then y # insert_stable cmp x ys else x # y # ys)"

definition sort_stable :: "('a \<Rightarrow> 'a \<Rightarrow> int) \<Rightarrow> 'a list \<Rightarrow> 'a list" where
  "sort_stable cmp xs = foldr (insert_stable cmp) xs []"

fun describe_all :: "gotime \<Rightarrow> (string \<Rightarrow> described) \<Rightarrow> string list \<Rightarrow> ppool \<Rightarrow> (string \<times> (goerr + info)) list \<times> ppool" where
  "describe_all now ask [] p = ([], p)"
| "describe_all now ask (b # bs) p =
     (case Describe now ask b p of (r, p) \<Rightarrow>
        case describe_all now ask bs p of (rs, p) \<Rightarrow> ((b, r) # rs, p))"

definition kept_of :: "kind \<Rightarrow> requirement \<Rightarrow> (string \<times> (goerr + info)) list \<Rightarrow> (string \<times> info) list" where
  "kept_of k req ds =
     List.map_filter (\<lambda>(b, r). case r of Inl _ \<Rightarrow> None
       | Inr i \<Rightarrow> if unfit i k req = None then Some (b, i) else None) ds"

definition no_backend :: goerr where
  "no_backend = NotDispatchedError RefusalUnsupported (Wrap [Sentinel ErrNoBackend, Sentinel ErrUnsupported])"

definition candidates :: "gotime \<Rightarrow> (string \<Rightarrow> described) \<Rightarrow> kind \<Rightarrow> requirement \<Rightarrow> ppool \<Rightarrow>
    (goerr + (string \<times> info) list) \<times> ppool" where
  "candidates now ask k req p =
     (let considered = filter (\<lambda>b. \<not> (rq_Backend req \<noteq> '''' \<and> b \<noteq> rq_Backend req)) (pp_backends p)
      in case describe_all now ask considered p of
           (ds, p) \<Rightarrow>
             let kept = kept_of k req ds
             in (if length kept = 0 then Inl no_backend
                 else Inr (case rq_Prefer req of
                       None \<Rightarrow> kept
                     | Some prefer \<Rightarrow> sort_stable (\<lambda>a b. prefer (snd a) (snd b)) kept), p))"

subsection \<open>The floor\<close>

definition floor_of :: "requirement \<Rightarrow> isolation_class \<Rightarrow> goerr + (requirement \<times> isolation_class)" where
  "floor_of req payload =
     (if list_ex (\<lambda>c. c \<noteq> IsolationUnknown \<and> \<not> Meets c IsolationProcess) [rq_MinimumIsolation req, payload]
        then Inl (NotDispatchedError RefusalRequest (Wrap [Sentinel ErrInvalidRequest]))
      else
        let req = (if payload > rq_MinimumIsolation req then req\<lparr>rq_MinimumIsolation := payload\<rparr> else req)
        in Inr (req, rq_MinimumIsolation req))"

subsection \<open>Sending\<close>

definition retryable :: "goerr \<Rightarrow> refusal \<times> bool" where
  "retryable e =
     (case not_dispatched_reason (Some e) of
        (reason, marked) \<Rightarrow>
          if \<not> marked then (reason, False)
          else (reason, reason \<in> {RefusalUnsupported, RefusalIsolation, RefusalCapacity, RefusalEnvironment}))"

definition ranIn :: "string option \<Rightarrow> string \<Rightarrow> goerr option" where
  "ranIn rec want =
     (if want = '''' then None
      else if rec \<noteq> Some want then Some (Wrap [Sentinel ErrEnvironmentMismatch])
      else None)"

definition ranAs :: "string option \<Rightarrow> string \<Rightarrow> goerr option \<Rightarrow> goerr option" where
  "ranAs rec want err =
     (if err \<noteq> None \<and> \<not> err_is (the err) ErrNotRecorded then err
      else case ranIn rec want of
             Some e \<Rightarrow> Some (Wrap (e # (case err of None \<Rightarrow> [] | Some x \<Rightarrow> [x])))
           | None \<Rightarrow> err)"

text \<open>
  The loop of \<open>send\<close>: \<open>run i b\<close> is what attempt \<open>i\<close> at \<open>b\<close> answered and \<open>ctxDone i\<close>
  whether the caller's context had ended by then.
\<close>

fun send_loop :: "(nat \<Rightarrow> bool) \<Rightarrow> (nat \<Rightarrow> string \<Rightarrow> 'r \<times> goerr option) \<Rightarrow> nat \<Rightarrow> string list \<Rightarrow> choice \<Rightarrow>
    'r option \<times> choice \<times> goerr option" where
  "send_loop ctxDone run i [] c = (None, c, Some no_backend)"
| "send_loop ctxDone run i (b # bs) c =
     (case run i b of
        (res, None) \<Rightarrow> (Some res, c\<lparr>co_Backend := b\<rparr>, None)
      | (res, Some e) \<Rightarrow>
          (case retryable e of
             (reason, again) \<Rightarrow>
               if \<not> again \<or> bs = [] \<or> ctxDone i then (Some res, c\<lparr>co_Backend := b\<rparr>, Some e)
               else send_loop ctxDone run (i + 1) bs
                      (c\<lparr>co_Retried := co_Retried c @ [\<lparr>pr_Backend = b, pr_Reason = reason, pr_Err = e\<rparr>]\<rparr>)))"

definition no_choice :: choice where "no_choice = \<lparr>co_Backend = '''', co_Retried = []\<rparr>"

definition send :: "(nat \<Rightarrow> bool) \<Rightarrow> (nat \<Rightarrow> string \<Rightarrow> 'r \<times> goerr option) \<Rightarrow> string list \<Rightarrow> 'r option \<times> choice \<times> goerr option" where
  "send ctxDone run backends = send_loop ctxDone run 0 backends no_choice"

text \<open>
  What the four entry points share: merge the floors and the software rules, stamp both on
  the payload, choose, send. A payload is its floor, its software rule and the rest; a
  run's answer carries the environment its record states, where it has a record.
\<close>

record 'p payload =
  py_MinimumIsolation :: isolation_class
  py_Software :: software_rule
  py_rest :: 'p

record ('p, 'r) backend_ops =
  bo_now :: gotime
  bo_ask :: "string \<Rightarrow> described"
  bo_ctxDone :: "nat \<Rightarrow> bool"
  bo_run :: "nat \<Rightarrow> string \<Rightarrow> 'p payload \<Rightarrow> 'r \<times> string option \<times> goerr option"

definition stamp :: "'p payload \<Rightarrow> requirement \<Rightarrow> goerr + ('p payload \<times> requirement)" where
  "stamp pl req =
     (case floor_of req (py_MinimumIsolation pl) of
        Inl e \<Rightarrow> Inl e
      | Inr (req, m) \<Rightarrow>
          (case MergeSoftwareRules (py_Software pl) (rq_Software req) of
             Inl e \<Rightarrow> Inl e
           | Inr rule \<Rightarrow> Inr (pl\<lparr>py_MinimumIsolation := m, py_Software := rule\<rparr>, req\<lparr>rq_Software := rule\<rparr>)))"

definition place_run :: "kind \<Rightarrow> (requirement \<Rightarrow> 'r \<times> string option \<times> goerr option \<Rightarrow> 'r \<times> goerr option) \<Rightarrow>
    ('p, 'r) backend_ops \<Rightarrow> 'p payload \<Rightarrow> requirement \<Rightarrow> ppool \<Rightarrow> ('r option \<times> choice \<times> goerr option) \<times> ppool" where
  "place_run k verdict ops pl req p =
     (case stamp pl req of
        Inl e \<Rightarrow> ((None, no_choice, Some e), p)
      | Inr (pl, req) \<Rightarrow>
          (case candidates (bo_now ops) (bo_ask ops) k req p of
             (Inl e, p) \<Rightarrow> ((None, no_choice, Some e), p)
           | (Inr bs, p) \<Rightarrow>
               (send (bo_ctxDone ops) (\<lambda>i b. verdict req (bo_run ops i b pl)) (map fst bs), p)))"

definition checked :: "requirement \<Rightarrow> 'r \<times> string option \<times> goerr option \<Rightarrow> 'r \<times> goerr option" where
  "checked req ans = (case ans of (res, rec, err) \<Rightarrow> (res, ranAs rec (rq_Environment req) err))"

definition as_said :: "requirement \<Rightarrow> 'r \<times> string option \<times> goerr option \<Rightarrow> 'r \<times> goerr option" where
  "as_said req ans = (case ans of (res, rec, err) \<Rightarrow> (res, err))"

definition RunJavaScript :: "('p, 'r) backend_ops \<Rightarrow> 'p payload \<Rightarrow> requirement \<Rightarrow> ppool \<Rightarrow>
    ('r option \<times> choice \<times> goerr option) \<times> ppool" where
  "RunJavaScript = place_run kindJavaScript checked"

definition RunProject :: "('p, 'r) backend_ops \<Rightarrow> 'p payload \<Rightarrow> requirement \<Rightarrow> ppool \<Rightarrow>
    ('r option \<times> choice \<times> goerr option) \<times> ppool" where
  "RunProject = place_run kindProject checked"

definition RunModule :: "('p, 'r) backend_ops \<Rightarrow> 'p payload \<Rightarrow> requirement \<Rightarrow> ppool \<Rightarrow>
    ('r option \<times> choice \<times> goerr option) \<times> ppool" where
  "RunModule = place_run kindModule checked"

definition OpenSession :: "('p, 'r) backend_ops \<Rightarrow> 'p payload \<Rightarrow> requirement \<Rightarrow> ppool \<Rightarrow>
    ('r option \<times> choice \<times> goerr option) \<times> ppool" where
  "OpenSession = place_run kindSession as_said"

subsection \<open>The stored descriptions\<close>

lemma store_at:
  "map_of (pp_seen (store name s p)) n = (if n = name \<and> (\<forall>cur. map_of (pp_seen p) name = Some cur \<longrightarrow> sn_at cur \<le> sn_at s)
     then Some s else map_of (pp_seen p) n)"
  by (auto simp: store_def update_conv' not_less split: option.splits)

lemma store_keeps [simp]: "pp_backends (store name s p) = pp_backends p" "pp_ttl (store name s p) = pp_ttl p"
  by (auto simp: store_def split: option.splits)

text \<open>Answers that arrive in any order leave the one that was asked for last.\<close>

lemma stores_latest:
  assumes "map_of (pp_seen (fold (\<lambda>(n, s). store n s) xs p)) name = Some s"
  shows "(\<forall>s'. (name, s') \<in> set xs \<longrightarrow> sn_at s' \<le> sn_at s) \<and>
    (\<forall>s'. map_of (pp_seen p) name = Some s' \<longrightarrow> sn_at s' \<le> sn_at s) \<and>
    ((name, s) \<in> set xs \<or> map_of (pp_seen p) name = Some s)"
  using assms
proof (induction xs arbitrary: p)
  case (Cons x xs)
  obtain n s1 where x: "x = (n, s1)" by force
  from Cons.prems have "map_of (pp_seen (fold (\<lambda>(n, s). store n s) xs (store n s1 p))) name = Some s" by (simp add: x)
  from Cons.IH [OF this] show ?case
    by (fastforce simp: x store_at split: if_splits)
qed auto

lemma Describe_keeps [simp]:
  "pp_backends (snd (Describe now ask name p)) = pp_backends p" "pp_ttl (snd (Describe now ask name p)) = pp_ttl p"
  by (auto simp: Describe_def Let_def split: option.splits)

text \<open>What \<open>Describe\<close> says a backend is: the backend's own answer, asked for no longer ago
  than the pool's limit.\<close>

lemma Describe_said:
  assumes "fst (Describe now ask name p) = Inr i"
  shows "name \<in> set (pp_backends p) \<and>
    ((\<exists>s. map_of (pp_seen p) name = Some s \<and> sn_err s = None \<and> sn_info s = i \<and> time_sub now (sn_at s) < pp_ttl p) \<or>
     ds_err (ask name) = None \<and> ds_info (ask name) = i)"
  using assms by (auto simp: Describe_def Let_def split: option.splits if_splits)

subsection \<open>Sorting\<close>

lemma mset_insert_stable: "mset (insert_stable cmp x ys) = add_mset x (mset ys)"
  by (induction ys) auto

lemma mset_sort_stable: "mset (sort_stable cmp xs) = mset xs"
  by (induction xs) (auto simp: sort_stable_def mset_insert_stable)

lemma set_sort_stable [simp]: "set (sort_stable cmp xs) = set xs"
  by (metis mset_sort_stable set_mset_mset)

text \<open>A comparison that is a weak order.\<close>

definition weak_order :: "('a \<Rightarrow> 'a \<Rightarrow> int) \<Rightarrow> bool" where
  "weak_order cmp \<longleftrightarrow> (\<forall>x y. \<not> (cmp x y < 0 \<and> cmp y x < 0)) \<and>
     (\<forall>x y z. cmp x y < 0 \<longrightarrow> cmp x z < 0 \<or> cmp z y < 0)"

lemma set_insert_stable: "set (insert_stable cmp x ys) = insert x (set ys)"
  by (induction ys) auto

lemma sorted_insert_stable:
  assumes "weak_order cmp" and "sorted_wrt (\<lambda>a b. \<not> cmp b a < 0) ys"
  shows "sorted_wrt (\<lambda>a b. \<not> cmp b a < 0) (insert_stable cmp x ys)"
  using assms(2)
proof (induction ys)
  case (Cons y ys)
  show ?case
  proof (cases "cmp y x < 0")
    case True
    with assms(1) have "\<not> cmp x y < 0" by (auto simp: weak_order_def)
    with True Cons show ?thesis by (auto simp: set_insert_stable)
  next
    case False
    have "\<not> cmp z x < 0" if "z \<in> set ys" for z
      using Cons.prems that False assms(1) unfolding weak_order_def by (metis sorted_wrt.simps(2))
    with False Cons.prems show ?thesis by auto
  qed
qed simp

lemma sorted_sort_stable: "weak_order cmp \<Longrightarrow> sorted_wrt (\<lambda>a b. \<not> cmp b a < 0) (sort_stable cmp xs)"
  by (induction xs) (auto simp: sort_stable_def sorted_insert_stable)

lemma insert_stable_filter:
  assumes "weak_order cmp" and "sorted_wrt (\<lambda>a b. \<not> cmp b a < 0) ys"
  shows "filter (\<lambda>y. \<not> cmp y z < 0 \<and> \<not> cmp z y < 0) (insert_stable cmp x ys) =
    filter (\<lambda>y. \<not> cmp y z < 0 \<and> \<not> cmp z y < 0) (x # ys)"
  using assms(2)
proof (induction ys)
  case (Cons y ys)
  have "\<not> (cmp y x < 0 \<and> (\<not> cmp y z < 0 \<and> \<not> cmp z y < 0) \<and> \<not> cmp x z < 0 \<and> \<not> cmp z x < 0)"
    using assms(1) unfolding weak_order_def by metis
  with Cons show ?case by auto
qed simp

text \<open>Backends the preference does not tell apart keep the pool's order.\<close>

lemma sort_stable_stable:
  "weak_order cmp \<Longrightarrow> filter (\<lambda>y. \<not> cmp y z < 0 \<and> \<not> cmp z y < 0) (sort_stable cmp xs) =
     filter (\<lambda>y. \<not> cmp y z < 0 \<and> \<not> cmp z y < 0) xs"
proof (induction xs)
  case (Cons x xs)
  have "sort_stable cmp (x # xs) = insert_stable cmp x (sort_stable cmp xs)" by (simp add: sort_stable_def)
  with insert_stable_filter [OF Cons.prems sorted_sort_stable [OF Cons.prems], of z x xs] Cons show ?case by simp
qed (simp add: sort_stable_def)

subsection \<open>The candidates\<close>

lemma describe_all_set:
  assumes "describe_all now ask bs p = (ds, p')"
  shows "map fst ds = bs \<and> pp_backends p' = pp_backends p \<and> pp_ttl p' = pp_ttl p \<and>
    (\<forall>(b, r) \<in> set ds. \<exists>q. pp_backends q = pp_backends p \<and> pp_ttl q = pp_ttl p \<and> fst (Describe now ask b q) = r)"
  using assms
proof (induction bs arbitrary: p ds)
  case (Cons b bs)
  obtain r p1 where d: "Describe now ask b p = (r, p1)" by force
  obtain rs where rs: "describe_all now ask bs p1 = (rs, p')" and ds: "ds = (b, r) # rs"
    using Cons.prems d by (auto split: prod.splits)
  have p1: "pp_backends p1 = pp_backends p" "pp_ttl p1 = pp_ttl p" using Describe_keeps [of now ask b p] d by auto
  from Cons.IH [OF rs] p1 ds d show ?case by fastforce
qed simp

lemma kept_of_fit:
  "(b, i) \<in> set (kept_of k req ds) \<longleftrightarrow> (b, Inr i) \<in> set ds \<and> unfit i k req = None"
  by (force simp: kept_of_def map_filter_def split: sum.splits if_splits)

lemma candidates_fit:
  assumes "candidates now ask k req p = (Inr cs, p')" and "(b, i) \<in> set cs"
  shows "b \<in> set (pp_backends p) \<and> (rq_Backend req \<noteq> '''' \<longrightarrow> b = rq_Backend req) \<and> unfit i k req = None \<and> cs \<noteq> []"
proof -
  let ?bs = "filter (\<lambda>b. \<not> (rq_Backend req \<noteq> '''' \<and> b \<noteq> rq_Backend req)) (pp_backends p)"
  obtain ds where ds: "describe_all now ask ?bs p = (ds, p')"
    and cs: "set cs = set (kept_of k req ds)"
    using assms(1) by (auto simp: candidates_def Let_def split: prod.splits if_splits option.splits)
  have "b \<in> set (map fst ds)" "unfit i k req = None"
    using assms(2) cs kept_of_fit by force+
  moreover have "map fst ds = ?bs" using describe_all_set [OF ds] by blast
  ultimately show ?thesis using assms(2) by auto
qed

lemma unfit_None:
  assumes "unfit i k req = None"
  shows "in_Protocol i = Protocol" "CheckMinimumIsolation (in_Isolation i) (rq_MinimumIsolation req) = None"
    "software_Allows (rq_Software req) (pe_SoftwareIdentity (kind_env k i))"
    "rq_Environment req \<noteq> '''' \<Longrightarrow> pe_Identity (kind_env k i) = rq_Environment req"
    "rq_Provider req \<noteq> '''' \<Longrightarrow> in_Sandbox i = rq_Provider req"
    "unfit_kind k (rq_GrantProfile req) i = None"
  using assms by (auto simp: unfit_def Let_def split: if_splits option.splits)

lemma retryable_marked: "retryable e = (reason, True) \<Longrightarrow> as_not_dispatched e = Some reason"
  by (auto simp: retryable_def not_dispatched_reason_def split: option.splits prod.splits if_splits)

lemma send_loop_trace:
  assumes "send_loop ctxDone run i bs c = (r, c', e)" and "bs \<noteq> []"
  shows "\<exists>pre b post. bs = pre @ b # post \<and> co_Backend c' = b \<and>
    map pr_Backend (co_Retried c') = map pr_Backend (co_Retried c) @ pre \<and>
    (\<forall>j < length pre. \<exists>err reason. snd (run (i + j) (pre ! j)) = Some err \<and> retryable err = (reason, True) \<and> \<not> ctxDone (i + j)) \<and>
    r = Some (fst (run (i + length pre) b)) \<and> e = snd (run (i + length pre) b) \<and>
    (\<forall>err. e = Some err \<and> snd (retryable err) \<longrightarrow> post = [] \<or> ctxDone (i + length pre))"
  using assms
proof (induction bs arbitrary: i c)
  case (Cons b bs)
  show ?case
  proof (cases "\<exists>err reason. snd (run i b) = Some err \<and> retryable err = (reason, True) \<and> bs \<noteq> [] \<and> \<not> ctxDone i")
    case False
    then have "r = Some (fst (run i b)) \<and> c' = c\<lparr>co_Backend := b\<rparr> \<and> e = snd (run i b) \<and>
        (\<forall>err. e = Some err \<and> snd (retryable err) \<longrightarrow> bs = [] \<or> ctxDone i)"
      using Cons.prems(1) by (cases "run i b") (auto split: option.splits prod.splits if_splits)
    then show ?thesis by (intro exI [of _ "[]"] exI [of _ b] exI [of _ bs]) simp
  next
    case True
    then obtain err reason where t: "snd (run i b) = Some err" "retryable err = (reason, True)" "bs \<noteq> []" "\<not> ctxDone i" by blast
    let ?c = "c\<lparr>co_Retried := co_Retried c @ [\<lparr>pr_Backend = b, pr_Reason = reason, pr_Err = err\<rparr>]\<rparr>"
    have "send_loop ctxDone run (i + 1) bs ?c = (r, c', e)"
      using Cons.prems(1) t by (cases "run i b") simp
    from Cons.IH [OF this t(3)] obtain pre x post where ih: "bs = pre @ x # post" "co_Backend c' = x"
      "map pr_Backend (co_Retried c') = map pr_Backend (co_Retried ?c) @ pre"
      "\<forall>j < length pre. \<exists>err reason. snd (run (i + 1 + j) (pre ! j)) = Some err \<and> retryable err = (reason, True) \<and> \<not> ctxDone (i + 1 + j)"
      "r = Some (fst (run (i + 1 + length pre) x))" "e = snd (run (i + 1 + length pre) x)"
      "\<forall>err. e = Some err \<and> snd (retryable err) \<longrightarrow> post = [] \<or> ctxDone (i + 1 + length pre)" by blast
    have "\<exists>err reason. snd (run (i + j) ((b # pre) ! j)) = Some err \<and> retryable err = (reason, True) \<and> \<not> ctxDone (i + j)"
      if "j < length (b # pre)" for j
      using that ih(4) t by (cases j) auto
    then show ?thesis using ih
      by (intro exI [of _ "b # pre"] exI [of _ x] exI [of _ post]) simp
  qed
qed simp

lemma floor_of_strongest:
  assumes "floor_of req m = Inr (req', m')"
  shows "m' = rq_MinimumIsolation req'" "m' = max m (rq_MinimumIsolation req)"
    "req' = req\<lparr>rq_MinimumIsolation := m'\<rparr>"
  using assms by (auto simp: floor_of_def Let_def split: if_splits)

lemma stamp_facts:
  assumes "stamp pl req = Inr (pl', req')"
  shows "py_MinimumIsolation pl' = max (py_MinimumIsolation pl) (rq_MinimumIsolation req)"
    "rq_MinimumIsolation req' = py_MinimumIsolation pl'" "rq_Software req' = py_Software pl'" "py_rest pl' = py_rest pl"
    "rq_Backend req' = rq_Backend req" "rq_Provider req' = rq_Provider req" "rq_Environment req' = rq_Environment req"
    "rq_GrantProfile req' = rq_GrantProfile req"
    "software_Allows (py_Software pl') x \<longleftrightarrow> software_Allows (py_Software pl) x \<and> software_Allows (rq_Software req) x"
proof -
  obtain r1 m where f: "floor_of req (py_MinimumIsolation pl) = Inr (r1, m)"
    using assms by (auto simp: stamp_def split: sum.splits)
  obtain rule where g: "MergeSoftwareRules (py_Software pl) (rq_Software r1) = Inr rule"
    using assms f by (auto simp: stamp_def split: sum.splits)
  have e: "pl' = pl\<lparr>py_MinimumIsolation := m, py_Software := rule\<rparr>" "req' = r1\<lparr>rq_Software := rule\<rparr>"
    using assms f g by (auto simp: stamp_def)
  note fl = floor_of_strongest [OF f]
  have same: "rq_Software r1 = rq_Software req" "rq_Backend r1 = rq_Backend req" "rq_Provider r1 = rq_Provider req"
    "rq_Environment r1 = rq_Environment req" "rq_GrantProfile r1 = rq_GrantProfile req" using fl(3) by simp_all
  show "py_MinimumIsolation pl' = max (py_MinimumIsolation pl) (rq_MinimumIsolation req)"
    "rq_MinimumIsolation req' = py_MinimumIsolation pl'" "rq_Software req' = py_Software pl'" "py_rest pl' = py_rest pl"
    "rq_Backend req' = rq_Backend req" "rq_Provider req' = rq_Provider req" "rq_Environment req' = rq_Environment req"
    "rq_GrantProfile req' = rq_GrantProfile req"
    using fl same by (simp_all add: e)
  show "software_Allows (py_Software pl') x \<longleftrightarrow> software_Allows (py_Software pl) x \<and> software_Allows (rq_Software req) x"
    using merge_allows [OF g] same(1) by (simp add: e)
qed

lemma place_run_sent:
  assumes "place_run k verdict ops pl req p = ((Some r, c, e), p')"
  shows "\<exists>pl' req' cs p1. stamp pl req = Inr (pl', req') \<and> candidates (bo_now ops) (bo_ask ops) k req' p = (Inr cs, p1) \<and>
    send (bo_ctxDone ops) (\<lambda>i b. verdict req' (bo_run ops i b pl')) (map fst cs) = (Some r, c, e) \<and> p' = p1"
  using assms by (auto simp: place_run_def split: sum.splits prod.splits)

subsection \<open>Properties\<close>

text \<open>C16: A request that may have run is never sent again. The backends that got the request are
  an initial part of the candidates, in order; every one but the last answered with an
  error that carries the mark that nothing ran, with a reason another backend can cure;
  the answer and the error returned are the last one's, the choice names exactly these
  backends, and a refusal that could be retried is returned only when there was no other
  candidate or the caller had gone.\<close>

theorem never_resent_after_it_may_have_run:
  assumes "send ctxDone run bs = (r, c, e)" and "bs \<noteq> []"
  shows "\<exists>pre b post. bs = pre @ b # post \<and> co_Backend c = b \<and> map pr_Backend (co_Retried c) = pre \<and>
    (\<forall>j < length pre. \<exists>err reason. snd (run j (pre ! j)) = Some err \<and> as_not_dispatched err = Some reason \<and>
       reason \<in> {RefusalUnsupported, RefusalIsolation, RefusalCapacity, RefusalEnvironment}) \<and>
    r = Some (fst (run (length pre) b)) \<and> e = snd (run (length pre) b) \<and>
    (\<forall>err. e = Some err \<and> snd (retryable err) \<longrightarrow> post = [] \<or> ctxDone (length pre))"
proof -
  from send_loop_trace [OF assms(1) [unfolded send_def] assms(2), unfolded add_0] obtain pre b post where
    s: "bs = pre @ b # post" "co_Backend c = b" "map pr_Backend (co_Retried c) = map pr_Backend (co_Retried no_choice) @ pre"
      "\<forall>j < length pre. \<exists>err reason. snd (run j (pre ! j)) = Some err \<and> retryable err = (reason, True) \<and> \<not> ctxDone j"
      "r = Some (fst (run (length pre) b))" "e = snd (run (length pre) b)"
      "\<forall>err. e = Some err \<and> snd (retryable err) \<longrightarrow> post = [] \<or> ctxDone (length pre)"
    by blast
  have "\<exists>err reason. snd (run j (pre ! j)) = Some err \<and> as_not_dispatched err = Some reason \<and>
      reason \<in> {RefusalUnsupported, RefusalIsolation, RefusalCapacity, RefusalEnvironment}" if "j < length pre" for j
  proof -
    from s(4) that obtain err reason where r: "snd (run j (pre ! j)) = Some err" "retryable err = (reason, True)" by blast
    from retryable_marked [OF r(2)] r show ?thesis
      by (auto simp: retryable_def not_dispatched_reason_def split: prod.splits if_splits)
  qed
  with s(1,2,3,5-7) show ?thesis
    by (intro exI [of _ pre] exI [of _ b] exI [of _ post]) (simp add: no_choice_def)
qed

text \<open>A placed request runs only where it may. The backend chosen is one of the pool's, the one
  named if one was named; by what it last said it speaks this protocol, its tier meets the
  stronger of the two floors, its software is allowed by both rules and its environment is
  the one required; and the payload it gets carries that floor and that rule, so that the
  daemon checks them again.\<close>

theorem placed_only_where_fit:
  assumes "place_run k verdict ops pl req p = ((Some r, c, e), p')"
  shows "\<exists>pl' req' i. stamp pl req = Inr (pl', req') \<and> co_Backend c \<in> set (pp_backends p) \<and>
    (rq_Backend req \<noteq> '''' \<longrightarrow> co_Backend c = rq_Backend req) \<and>
    py_MinimumIsolation pl' = max (py_MinimumIsolation pl) (rq_MinimumIsolation req) \<and>
    in_Protocol i = Protocol \<and> CheckMinimumIsolation (in_Isolation i) (py_MinimumIsolation pl') = None \<and>
    software_Allows (py_Software pl) (pe_SoftwareIdentity (kind_env k i)) \<and>
    software_Allows (rq_Software req) (pe_SoftwareIdentity (kind_env k i)) \<and>
    (rq_Environment req \<noteq> '''' \<longrightarrow> pe_Identity (kind_env k i) = rq_Environment req) \<and>
    (\<exists>n. r = fst (verdict req' (bo_run ops n (co_Backend c) pl')) \<and> e = snd (verdict req' (bo_run ops n (co_Backend c) pl')))"
proof -
  from place_run_sent [OF assms] obtain pl' req' cs p1 where s: "stamp pl req = Inr (pl', req')"
    and cand: "candidates (bo_now ops) (bo_ask ops) k req' p = (Inr cs, p1)"
    and sent: "send (bo_ctxDone ops) (\<lambda>i b. verdict req' (bo_run ops i b pl')) (map fst cs) = (Some r, c, e)" by blast
  have ne: "map fst cs \<noteq> []" using sent by (auto simp: send_def)
  from send_loop_trace [OF sent [unfolded send_def] ne] obtain pre b post where
    t: "map fst cs = pre @ b # post" "co_Backend c = b" "r = fst (verdict req' (bo_run ops (length pre) b pl'))"
      "e = snd (verdict req' (bo_run ops (length pre) b pl'))" by auto
  have "b \<in> set (map fst cs)" unfolding t(1) by simp
  then obtain i where "(b, i) \<in> set cs" by auto
  note f = candidates_fit [OF cand this]
  note st = stamp_facts [OF s]
  have "software_Allows (py_Software pl') (pe_SoftwareIdentity (kind_env k i))" using unfit_None(3) [of i k req'] f st(3) by simp
  then show ?thesis
    using f st t unfit_None [of i k req'] s
    by (intro exI [of _ pl'] exI [of _ req'] exI [of _ i]) auto
qed

text \<open>A slow answer never replaces a newer one: whatever order the answers of \<open>Refresh\<close> and
  of \<open>Describe\<close> arrive in, the pool keeps for each backend the answer that was asked for
  last, and keeps nothing that no backend said.\<close>

theorem latest_description_wins:
  assumes "map_of (pp_seen (fold (\<lambda>(n, s). store n s) answers p)) name = Some s" and "map_of (pp_seen p) name = None"
  shows "(name, s) \<in> set answers \<and> (\<forall>s'. (name, s') \<in> set answers \<longrightarrow> sn_at s' \<le> sn_at s)"
  using stores_latest [OF assms(1)] assms(2) by auto

subsection \<open>Two backends\<close>

definition demo_env :: payload_env where "demo_env = \<lparr>pe_Identity = ''img:1'', pe_SoftwareIdentity = ''sw:1''\<rparr>"

definition demo_info :: info where
  "demo_info = \<lparr>in_Sandbox = ''docker'', in_Isolation = IsolationVM, in_SupportsProject = True, in_SupportsModule = False,
     in_SupportsJavaScriptGrants = True, in_SupportsProjectGrants = True, in_Protocol = 5, in_SupportsSessions = True,
     in_SessionEnvironment = demo_env, in_JavaScript = demo_env, in_Project = demo_env, in_Module = demo_env\<rparr>"

definition demo_pool2 :: ppool where
  "demo_pool2 = \<lparr>pp_backends = [''a'', ''b''], pp_ttl = minute, pp_seen = []\<rparr>"

definition demo_req :: requirement where
  "demo_req = \<lparr>rq_Backend = '''', rq_Provider = '''', rq_MinimumIsolation = IsolationContainer, rq_Environment = '''',
     rq_Software = no_software_rule, rq_GrantProfile = False, rq_Prefer = None\<rparr>"

text \<open>The first backend is full, the second answers.\<close>

definition demo_run :: "nat \<Rightarrow> string \<Rightarrow> nat \<times> goerr option" where
  "demo_run i b = (if b = ''a'' then (0, Some (NotDispatchedError RefusalCapacity (Opaque 0))) else (7, None))"

definition demo_ops :: "(unit, nat) backend_ops" where
  "demo_ops = \<lparr>bo_now = 0, bo_ask = (\<lambda>b. \<lparr>ds_info = demo_info, ds_err = None, ds_asked = 0, ds_arrived = 0\<rparr>),
     bo_ctxDone = (\<lambda>i. False), bo_run = (\<lambda>i b pl. (fst (demo_run i b), Some ''img:1'', snd (demo_run i b)))\<rparr>"

definition demo_payload :: "unit payload" where
  "demo_payload = \<lparr>py_MinimumIsolation = IsolationKernel, py_Software = no_software_rule, py_rest = ()\<rparr>"

theorem never_resent_after_it_may_have_run_witness:
  "send (\<lambda>i. False) demo_run [''a'', ''b''] = (Some 7, \<lparr>co_Backend = ''b'', co_Retried =
     [\<lparr>pr_Backend = ''a'', pr_Reason = RefusalCapacity, pr_Err = NotDispatchedError RefusalCapacity (Opaque 0)\<rparr>]\<rparr>, None) \<and>
   (\<exists>pre post. [''a'', ''b''] = pre @ ''b'' # post)"
proof -
  have s: "send (\<lambda>i. False) demo_run [''a'', ''b''] = (Some 7, \<lparr>co_Backend = ''b'', co_Retried =
     [\<lparr>pr_Backend = ''a'', pr_Reason = RefusalCapacity, pr_Err = NotDispatchedError RefusalCapacity (Opaque 0)\<rparr>]\<rparr>, None)"
    by (simp add: send_def demo_run_def retryable_def not_dispatched_reason_def no_choice_def)
  from never_resent_after_it_may_have_run [OF s] obtain pre b post where
    "[''a'', ''b''] = pre @ b # post" "co_Backend \<lparr>co_Backend = ''b'', co_Retried =
       [\<lparr>pr_Backend = ''a'', pr_Reason = RefusalCapacity, pr_Err = NotDispatchedError RefusalCapacity (Opaque 0)\<rparr>]\<rparr> = b" by blast
  with s show ?thesis by (intro conjI exI [of _ pre] exI [of _ post]) simp_all
qed

theorem placed_only_where_fit_witness:
  "\<exists>r c e p'. place_run kindJavaScript checked demo_ops demo_payload demo_req demo_pool2 = ((Some r, c, e), p') \<and>
     r = 7 \<and> co_Backend c \<in> set [''a'', ''b'']"
proof -
  have f: "fst (fst (place_run kindJavaScript checked demo_ops demo_payload demo_req demo_pool2)) = Some 7" by code_simp
  obtain x c e p' where x: "place_run kindJavaScript checked demo_ops demo_payload demo_req demo_pool2 = ((x, c, e), p')"
    by (metis surj_pair)
  with f have s: "place_run kindJavaScript checked demo_ops demo_payload demo_req demo_pool2 = ((Some 7, c, e), p')" by simp
  from placed_only_where_fit [OF s] have "co_Backend c \<in> set (pp_backends demo_pool2)" by blast
  with s show ?thesis by (auto simp: demo_pool2_def)
qed

theorem latest_description_wins_witness:
  "\<exists>s. map_of (pp_seen (fold (\<lambda>(n, s). store n s)
      [(''a'', \<lparr>sn_info = demo_info, sn_at = 5, sn_err = None, sn_failed = 0\<rparr>),
       (''a'', \<lparr>sn_info = demo_info, sn_at = 3, sn_err = None, sn_failed = 0\<rparr>)] demo_pool2)) ''a'' = Some s \<and> sn_at s = 5"
proof -
  let ?xs = "[(''a'', \<lparr>sn_info = demo_info, sn_at = 5, sn_err = None, sn_failed = 0\<rparr>),
       (''a'', \<lparr>sn_info = demo_info, sn_at = 3, sn_err = None, sn_failed = 0\<rparr>)]"
  let ?s = "\<lparr>sn_info = demo_info, sn_at = 5, sn_err = None, sn_failed = 0\<rparr>"
  have s: "map_of (pp_seen (fold (\<lambda>(n, s). store n s) ?xs demo_pool2)) ''a'' = Some ?s"
    by (simp add: store_def demo_pool2_def)
  have "map_of (pp_seen demo_pool2) ''a'' = None" by (simp add: demo_pool2_def)
  from latest_description_wins [OF s this] s show ?thesis by (intro exI [of _ ?s]) simp
qed

end
