(* ===== verification/Interp.thy ===== *)
theory Interp
  imports Go_Strings
begin

text \<open>
  The interpreters a session keeps between its calls and the relay a cell runs through,
  \<open>sandbox/internal/sessionkit/interp.go\<close> and \<open>relay.go\<close>. What the sandbox does (an exec's
  result, the frames a relay writes, a deadline that passes) is an input of each
  definition; the programs that run in the sandbox are parameters. A cell's function also
  returns the identity of the interpreter its code was sent to, if it was sent.
\<close>

subsection \<open>Encodings\<close>

definition hex_low :: "nat \<Rightarrow> char" where
  "hex_low n = (if n < 10 then char_of (48 + n) else char_of (87 + n))"

definition hex_of :: "string \<Rightarrow> string" where
  "hex_of s = concat (map (\<lambda>c. [hex_low (byte c div 16), hex_low (byte c mod 16)]) s)"

definition b64_val :: "char \<Rightarrow> nat option" where
  "b64_val c =
     (if is_upper c then Some (byte c - 65) else if is_lower c then Some (byte c - 71)
      else if is_digit c then Some (byte c + 4) else if c = CHR ''+'' then Some 62
      else if c = CHR ''/'' then Some 63 else None)"

text \<open>\<open>base64.StdEncoding.DecodeString\<close>: padded groups of four, line breaks ignored.\<close>

fun b64_groups :: "string \<Rightarrow> string option" where
  "b64_groups [] = Some []"
| "b64_groups (a # b # c # d # s) =
     (case (b64_val a, b64_val b) of
        (Some x, Some y) \<Rightarrow>
          if c = CHR ''='' \<and> d = CHR ''='' \<and> s = [] then Some [char_of (4 * x + y div 16)]
          else (case b64_val c of
             None \<Rightarrow> None
           | Some z \<Rightarrow>
               if d = CHR ''='' \<and> s = [] then Some [char_of (4 * x + y div 16), char_of (16 * (y mod 16) + z div 4)]
               else (case b64_val d of
                  None \<Rightarrow> None
                | Some w \<Rightarrow> map_option (\<lambda>t. char_of (4 * x + y div 16) # char_of (16 * (y mod 16) + z div 4) #
                      char_of (64 * (z mod 4) + w) # t) (b64_groups s)))
      | _ \<Rightarrow> None)"
| "b64_groups _ = None"

definition b64_decode :: "string \<Rightarrow> string option" where
  "b64_decode s = b64_groups (filter (\<lambda>c. byte c \<noteq> 10 \<and> byte c \<noteq> 13) s)"

subsection \<open>Identities\<close>

definition interpRoot :: string where "interpRoot = ''/tmp/.plimsoll-interp/''"

text \<open>The embedded programs: each language's interpreter command, and the relay's text.\<close>

record programs =
  pg_command :: "(string, string list) gomap"
  pg_relayJS :: string

definition interpArgv :: "programs \<Rightarrow> string \<Rightarrow> string list" where
  "interpArgv pg lang = (case map_of (pg_command pg) lang of None \<Rightarrow> [] | Some argv \<Rightarrow> argv) @ [interpRoot @ lang]"

definition RelayArgv :: "programs \<Rightarrow> string \<Rightarrow> string \<Rightarrow> string list" where
  "RelayArgv pg lang work = [''node'', ''-e'', pg_relayJS pg, interpRoot @ lang, work]"

definition argvHex :: "string list \<Rightarrow> string" where
  "argvHex argv = hex_of (concat (map (\<lambda>a. a @ [char_of (0::nat)]) argv))"

text \<open>\<open>strings.SplitN(id, ":", 3)\<close>, and the pattern \<open>pid:starttime:cmdline-hex\<close>.\<close>

definition split3 :: "string \<Rightarrow> string list" where
  "split3 s = (case split_on CHR '':'' s of
     a # b # c # rest \<Rightarrow> [a, b, join_with CHR '':'' (c # rest)] | parts \<Rightarrow> parts)"

definition reportedCmd :: "string \<Rightarrow> string" where
  "reportedCmd i = (let parts = split3 i in if length parts \<noteq> 3 then '''' else parts ! 2)"

definition is_lower_hex :: "char \<Rightarrow> bool" where
  "is_lower_hex c \<longleftrightarrow> is_digit c \<or> 97 \<le> byte c \<and> byte c \<le> 102"

definition identityPattern :: "string \<Rightarrow> bool" where
  "identityPattern s \<longleftrightarrow> (case split_on CHR '':'' s of
     [pid, start, cmd] \<Rightarrow>
       pid \<noteq> '''' \<and> list_all is_digit pid \<and>
       (let digits = (if has_prefix start ''-'' then tl start else start) in digits \<noteq> '''' \<and> list_all is_digit digits) \<and>
       cmd \<noteq> '''' \<and> list_all is_lower_hex cmd
   | _ \<Rightarrow> False)"

definition errnoShaped :: "string \<Rightarrow> bool" where
  "errnoShaped s \<longleftrightarrow> \<not> (length s < 2 \<or> length s > 16 \<or> hd s \<noteq> CHR ''E'') \<and> list_all (\<lambda>c. is_upper c \<or> is_digit c) (tl s)"

subsection \<open>The live interpreters\<close>

record interps =
  ip_live :: "(string, string) gomap"
  ip_stale :: bool
  ip_relays :: "(string, string) gomap"
  ip_unreported :: "string list"

definition no_interps :: interps where
  "no_interps = \<lparr>ip_live = [], ip_stale = False, ip_relays = [], ip_unreported = []\<rparr>"

definition markUnreported :: "string \<Rightarrow> interps \<Rightarrow> interps" where
  "markUnreported lang s = s\<lparr>ip_unreported := List.insert lang (ip_unreported s)\<rparr>"

definition takeUnreported :: "string \<Rightarrow> interps \<Rightarrow> bool \<times> interps" where
  "takeUnreported lang s = (lang \<in> set (ip_unreported s), s\<lparr>ip_unreported := removeAll lang (ip_unreported s)\<rparr>)"

definition Keep :: "string list \<Rightarrow> interps \<Rightarrow> string list" where
  "Keep baseline s = baseline @ map snd (ip_live s) @ map snd (ip_relays s)"

definition Guests :: "interps \<Rightarrow> string list" where
  "Guests s = map snd (ip_live s)"

definition Own :: "string list \<Rightarrow> interps \<Rightarrow> string list" where
  "Own baseline s = baseline @ map snd (ip_relays s)"

definition DropAll :: "interps \<Rightarrow> interps" where
  "DropAll s = s\<lparr>ip_stale := (ip_stale s \<or> ip_live s \<noteq> []), ip_live := []\<rparr>"

definition Settled :: "interps \<Rightarrow> interps" where
  "Settled s = s\<lparr>ip_stale := False\<rparr>"

definition ip_drop :: "string \<Rightarrow> interps \<Rightarrow> interps" where
  "ip_drop lang s = s\<lparr>ip_stale := (ip_stale s \<or> map_of (ip_live s) lang \<noteq> None), ip_live := AList.delete lang (ip_live s)\<rparr>"

definition ip_set :: "string \<Rightarrow> string \<Rightarrow> interps \<Rightarrow> interps" where
  "ip_set lang i s = s\<lparr>ip_live := AList.update lang i (ip_live s)\<rparr>"

definition ip_alive :: "string \<Rightarrow> interps \<Rightarrow> bool" where
  "ip_alive lang s \<longleftrightarrow> map_of (ip_live s) lang \<noteq> None"

definition dropRelay :: "string \<Rightarrow> interps \<Rightarrow> interps" where
  "dropRelay lang s = s\<lparr>ip_relays := AList.delete lang (ip_relays s)\<rparr>"

definition ip_Close :: "interps \<Rightarrow> interps" where
  "ip_Close s = s\<lparr>ip_relays := [], ip_live := []\<rparr>"

definition Attached :: "bool \<Rightarrow> string \<Rightarrow> interps \<Rightarrow> bool" where
  "Attached gone lang s \<longleftrightarrow> map_of (ip_relays s) lang \<noteq> None \<and> map_of (ip_live s) lang \<noteq> None \<and> \<not> gone"

subsection \<open>Starting an interpreter and a relay\<close>

record exec_result =
  er_Stdout :: string
  er_Stderr :: string
  er_StdoutTruncated :: bool
  er_StderrTruncated :: bool
  er_ExitCode :: int
  er_Exited :: bool

definition no_result :: exec_result where
  "no_result = \<lparr>er_Stdout = '''', er_Stderr = '''', er_StdoutTruncated = False, er_StderrTruncated = False,
     er_ExitCode = 0, er_Exited = False\<rparr>"

text \<open>\<open>ErrFiles\<close> with the file it names, if it may, and the error code, if it has the shape of
  one; \<open>ExecFailed\<close> is an error of the provider's exec, \<open>CtxEnded\<close> the context's.\<close>

datatype cell_error = ErrLaunch | ErrFiles "int option" "string option" | ErrUnsent | UnknownLanguage | RandFailed
  | ExecFailed nat | CtxEnded

text \<open>\<open>check\<close>: nothing without a \<open>Checker\<close>, else what its exec gave.\<close>

definition ip_check :: "(nat + exec_result) option \<Rightarrow> cell_error option" where
  "ip_check checker = (case checker of
     None \<Rightarrow> None
   | Some (Inl _) \<Rightarrow> Some ErrLaunch
   | Some (Inr out) \<Rightarrow> guard_err (\<not> er_Exited out \<or> er_ExitCode out \<noteq> 0) ErrLaunch)"

definition launch :: "programs \<Rightarrow> string \<Rightarrow> nat + exec_result \<Rightarrow> (nat + exec_result) option \<Rightarrow> interps \<Rightarrow> cell_error option \<times> interps" where
  "launch pg lang res checker s = (case res of
     Inl n \<Rightarrow> (Some (ExecFailed n), s)
   | Inr out \<Rightarrow>
       if \<not> er_Exited out \<or> er_ExitCode out \<noteq> 0 then (Some ErrLaunch, s)
       else if \<not> identityPattern (er_Stdout out) then (Some ErrLaunch, s)
       else if reportedCmd (er_Stdout out) \<noteq> argvHex (interpArgv pg lang) then (Some ErrLaunch, s)
       else (case ip_check checker of
          Some e \<Rightarrow> (Some e, s)
        | None \<Rightarrow> (None, ip_set lang (er_Stdout out) s)))"

datatype relay_start = AttachFailed | ReadyFrame string | EndedAtStart | CtxAtStart

definition startRelay :: "relay_start \<Rightarrow> cell_error + string" where
  "startRelay r = (case r of
     AttachFailed \<Rightarrow> Inl ErrLaunch
   | ReadyFrame i \<Rightarrow> if \<not> identityPattern i then Inl ErrLaunch else Inr i
   | EndedAtStart \<Rightarrow> Inl ErrLaunch
   | CtxAtStart \<Rightarrow> Inl CtxEnded)"

definition attachRelay :: "programs \<Rightarrow> string \<Rightarrow> string \<Rightarrow> relay_start \<Rightarrow> (nat + exec_result) option \<Rightarrow> interps \<Rightarrow>
    cell_error option \<times> interps" where
  "attachRelay pg lang work r checker s = (case startRelay r of
     Inl e \<Rightarrow> (Some e, s)
   | Inr i \<Rightarrow>
       if reportedCmd i \<noteq> argvHex (RelayArgv pg lang work) then (Some ErrLaunch, s)
       else (case ip_check checker of
          Some e \<Rightarrow> (Some e, s)
        | None \<Rightarrow> (None, s\<lparr>ip_relays := AList.update lang i (ip_relays s)\<rparr>)))"

definition Warm :: "programs \<Rightarrow> string \<Rightarrow> string \<Rightarrow> nat + exec_result \<Rightarrow> (nat + exec_result) option \<Rightarrow> relay_start \<Rightarrow>
    (nat + exec_result) option \<Rightarrow> interps \<Rightarrow> cell_error option \<times> interps" where
  "Warm pg lang work res checker r rchecker s =
     (if map_of (pg_command pg) lang = None then (Some UnknownLanguage, s)
      else case launch pg lang res checker s of
        (Some e, s) \<Rightarrow> (Some e, s)
      | (None, s) \<Rightarrow>
          (case attachRelay pg lang work r rchecker s of
             (Some e, s) \<Rightarrow> (Some e, ip_drop lang s)
           | (None, s) \<Rightarrow> (None, markUnreported lang s)))"

subsection \<open>A cell's two steps\<close>

record frame =
  fr_N :: string
  fr_Prepared :: bool
  fr_O :: string
  fr_E :: string
  fr_Done :: "int option"
  fr_OT :: bool
  fr_ET :: bool
  fr_File :: "int option"
  fr_Errno :: string

text \<open>What \<open>select\<close> finds next: the request was written or its write failed, a frame, the
  relay's end, or the call's. When nothing more comes the call's context ends.\<close>

datatype relay_event = Wrote bool | Frame frame | RelayEnded | CallEnded

datatype prep_result = PrepFrame frame | PrepLost | PrepOutOfTurn | PrepCtx

definition cellRan :: int where "cellRan = 0"
definition cellRaised :: int where "cellRaised = 1"
definition cellFilesFailed :: int where "cellFilesFailed = 3"
definition cellNoInterpreter :: int where "cellNoInterpreter = 75"

fun relay_prepare :: "string \<Rightarrow> bool \<Rightarrow> relay_event list \<Rightarrow> prep_result" where
  "relay_prepare nonce wrote [] = PrepCtx"
| "relay_prepare nonce wrote (CallEnded # es) = PrepCtx"
| "relay_prepare nonce wrote (RelayEnded # es) = PrepLost"
| "relay_prepare nonce wrote (Wrote ok # es) =
     (if wrote then relay_prepare nonce True es else if \<not> ok then PrepLost else relay_prepare nonce True es)"
| "relay_prepare nonce wrote (Frame f # es) =
     (if fr_N f \<noteq> nonce then PrepOutOfTurn
      else if fr_Prepared f then PrepFrame f
      else if fr_Done f = Some cellFilesFailed \<or> fr_Done f = Some cellNoInterpreter then PrepFrame f
      else PrepOutOfTurn)"

text \<open>The closure \<open>add\<close> of \<open>run\<close>: the kept output and whether some of it was cut.\<close>

definition add_output :: "string \<times> bool \<Rightarrow> nat \<Rightarrow> string \<Rightarrow> string \<times> bool" where
  "add_output acc cap b64 = (case acc of (dst, trunc) \<Rightarrow>
     (case b64_decode b64 of
        None \<Rightarrow> (dst, True)
      | Some b \<Rightarrow> (dst @ take (cap - length dst) b, trunc \<or> length b > cap - length dst)))"

datatype run_end = RunDone frame | RunLost | RunOutOfTurn | RunCtx

definition run_result :: "string \<times> bool \<Rightarrow> string \<times> bool \<Rightarrow> exec_result" where
  "run_result out err = no_result\<lparr>er_Stdout := fst out, er_Stderr := fst err, er_StdoutTruncated := snd out,
     er_StderrTruncated := snd err\<rparr>"

text \<open>A write that fails loses the output kept so far, as the code does.\<close>

fun relay_run :: "string \<Rightarrow> nat \<Rightarrow> nat \<Rightarrow> bool \<Rightarrow> string \<times> bool \<Rightarrow> string \<times> bool \<Rightarrow> relay_event list \<Rightarrow> exec_result \<times> run_end" where
  "relay_run nonce oc ec wrote out err [] = (run_result out err, RunCtx)"
| "relay_run nonce oc ec wrote out err (CallEnded # es) = (run_result out err, RunCtx)"
| "relay_run nonce oc ec wrote out err (RelayEnded # es) = (run_result out err, RunLost)"
| "relay_run nonce oc ec wrote out err (Wrote ok # es) =
     (if \<not> wrote \<and> \<not> ok then (run_result ('''', snd out) ('''', snd err), RunLost)
      else relay_run nonce oc ec True out err es)"
| "relay_run nonce oc ec wrote out err (Frame f # es) =
     (if fr_N f \<noteq> nonce then (run_result out err, RunOutOfTurn)
      else if fr_Done f \<noteq> None then
        (run_result (fst out, snd out \<or> fr_OT f) (fst err, snd err \<or> fr_ET f), RunDone f)
      else if fr_O f \<noteq> '''' then relay_run nonce oc ec wrote (add_output out oc (fr_O f)) err es
      else if fr_E f \<noteq> '''' then relay_run nonce oc ec wrote out (add_output err ec (fr_E f)) es
      else relay_run nonce oc ec wrote out err es)"

subsection \<open>Running a cell\<close>

record cell =
  cl_Language :: string
  cl_Files :: nat
  cl_Work :: string
  cl_OutCap :: nat
  cl_ErrCap :: nat

record outcome =
  oc_result :: exec_result
  oc_Raised :: bool
  oc_TimedOut :: bool
  oc_Started :: bool
  oc_Ended :: bool

definition no_outcome :: outcome where
  "no_outcome = \<lparr>oc_result = no_result, oc_Raised = False, oc_TimedOut = False, oc_Started = False, oc_Ended = False\<rparr>"

definition filesError :: "frame \<Rightarrow> int \<Rightarrow> cell_error" where
  "filesError f n =
     ErrFiles (case fr_File f of None \<Rightarrow> None | Some i \<Rightarrow> if 0 \<le> i \<and> i < n then Some (i + 1) else None)
       (if errnoShaped (fr_Errno f) then Some (fr_Errno f) else None)"

definition lose :: "string \<Rightarrow> interps \<Rightarrow> interps" where
  "lose lang s = ip_drop lang (dropRelay lang s)"

text \<open>What one turn of the loop meets: the launch and its check, whether the relay is gone, its
  start and check, the events of the prepare, and after each whether the deadline has passed.\<close>

record attempt_world =
  aw_launch :: "nat + exec_result"
  aw_check :: "(nat + exec_result) option"
  aw_launchLate :: bool
  aw_gone :: bool
  aw_start :: relay_start
  aw_rcheck :: "(nat + exec_result) option"
  aw_attachLate :: bool
  aw_events :: "relay_event list"
  aw_prepareLate :: bool

datatype attempt_end = Refuses cell_error | Again | Prepared

definition attempt_prepare :: "cell \<Rightarrow> string \<Rightarrow> attempt_world \<Rightarrow> bool \<Rightarrow> interps \<Rightarrow> attempt_end \<times> bool \<times> interps" where
  "attempt_prepare c nonce w started s =
     (let lang = cl_Language c
      in if aw_prepareLate w then (Refuses ErrUnsent, started, lose lang s)
         else case relay_prepare nonce False (aw_events w) of
           PrepFrame f \<Rightarrow>
             if fr_Prepared f then (Prepared, started, s)
             else if fr_Done f = Some cellFilesFailed then
               (Refuses (filesError f (int (cl_Files c))), started, if started then markUnreported lang s else s)
             else (Again, started, lose lang s)
         | _ \<Rightarrow> (Refuses ErrLaunch, started, lose lang s))"

definition attempt_relay :: "programs \<Rightarrow> cell \<Rightarrow> string \<Rightarrow> attempt_world \<Rightarrow> bool \<Rightarrow> interps \<Rightarrow> attempt_end \<times> bool \<times> interps" where
  "attempt_relay pg c nonce w started s =
     (let lang = cl_Language c;
          has = (map_of (ip_relays s) lang \<noteq> None);
          s = (if has \<and> aw_gone w then dropRelay lang s else s)
      in if has \<and> \<not> aw_gone w then attempt_prepare c nonce w started s
         else case attachRelay pg lang (cl_Work c) (aw_start w) (aw_rcheck w) s of
           (Some e, s) \<Rightarrow>
             (Refuses (if aw_attachLate w then ErrUnsent else e), started, lose lang s)
         | (None, s) \<Rightarrow> attempt_prepare c nonce w started s)"

definition attempt :: "programs \<Rightarrow> cell \<Rightarrow> string \<Rightarrow> attempt_world \<Rightarrow> bool \<Rightarrow> interps \<Rightarrow> attempt_end \<times> bool \<times> interps" where
  "attempt pg c nonce w started s =
     (let lang = cl_Language c
      in if \<not> ip_alive lang s then
           (case launch pg lang (aw_launch w) (aw_check w) (dropRelay lang s) of
              (Some e, s) \<Rightarrow>
                if aw_launchLate w then (Refuses ErrUnsent, started, lose lang s) else (Refuses e, started, s)
            | (None, s) \<Rightarrow> attempt_relay pg c nonce w True s)
         else attempt_relay pg c nonce w started s)"

text \<open>What the run step meets: the events of the relay and whether the deadline has passed.\<close>

record run_world =
  rw_events :: "relay_event list"
  rw_late :: bool

definition run_code :: "cell \<Rightarrow> string \<Rightarrow> run_world \<Rightarrow> bool \<Rightarrow> interps \<Rightarrow> (outcome \<times> cell_error option) \<times> interps" where
  "run_code c nonce w started s =
     (let lang = cl_Language c;
          (out, fin) = relay_run nonce (cl_OutCap c) (cl_ErrCap c) False ('''', False) ('''', False) (rw_events w);
          oc = no_outcome\<lparr>oc_Started := started, oc_result := out\<rparr>
      in if rw_late w then ((oc\<lparr>oc_TimedOut := True, oc_Raised := True, oc_Ended := True\<rparr>, None), lose lang s)
         else case fin of
           RunLost \<Rightarrow> ((oc\<lparr>oc_Raised := True, oc_Ended := True\<rparr>, None), lose lang s)
         | RunOutOfTurn \<Rightarrow> ((oc\<lparr>oc_Raised := True, oc_Ended := True\<rparr>, None), lose lang s)
         | RunCtx \<Rightarrow> ((oc, Some CtxEnded), lose lang s)
         | RunDone f \<Rightarrow>
             let status = the (fr_Done f);
                 oc = oc\<lparr>oc_result := out\<lparr>er_ExitCode := status, er_Exited := True\<rparr>\<rparr>
             in if status = cellRan then ((oc, None), s)
                else if status = cellRaised then ((oc\<lparr>oc_Raised := True\<rparr>, None), s)
                else ((oc\<lparr>oc_Raised := True, oc_Ended := True\<rparr>, None), lose lang s))"

fun attempts :: "programs \<Rightarrow> cell \<Rightarrow> string \<Rightarrow> attempt_world list \<Rightarrow> bool \<Rightarrow> interps \<Rightarrow> attempt_end \<times> bool \<times> interps" where
  "attempts pg c nonce [] started s = (Again, started, s)"
| "attempts pg c nonce (w # ws) started s =
     (case attempt pg c nonce w started s of
        (Again, started, s) \<Rightarrow> attempts pg c nonce ws started s
      | r \<Rightarrow> r)"

text \<open>\<open>RunRelayed\<close>: two turns of the loop at most, then the code.\<close>

definition RunRelayed :: "programs \<Rightarrow> string option \<Rightarrow> attempt_world \<Rightarrow> attempt_world \<Rightarrow> run_world \<Rightarrow> cell \<Rightarrow> interps \<Rightarrow>
    (outcome \<times> cell_error option) \<times> string option \<times> interps" where
  "RunRelayed pg rand w0 w1 rw c s =
     (if map_of (pg_command pg) (cl_Language c) = None then ((no_outcome, Some UnknownLanguage), None, s)
      else case rand of
        None \<Rightarrow> ((no_outcome, Some RandFailed), None, s)
      | Some nonce \<Rightarrow>
          (case takeUnreported (cl_Language c) s of (was, s) \<Rightarrow>
             (case attempts pg c nonce [w0, w1] was s of
                (Refuses e, started, s) \<Rightarrow> ((no_outcome, Some e), None, s)
              | (Again, started, s) \<Rightarrow> ((no_outcome\<lparr>oc_Started := started\<rparr>, Some ErrLaunch), None, s)
              | (Prepared, started, s) \<Rightarrow>
                  (case run_code c nonce rw started s of
                     (r, s') \<Rightarrow> (r, Some (the (map_of (ip_live s) (cl_Language c))), s')))))"

subsection \<open>Command lines are read back exactly\<close>

lemma hex_low_inj: "m < 16 \<Longrightarrow> n < 16 \<Longrightarrow> hex_low m = hex_low n \<longleftrightarrow> m = n"
  by (auto simp: hex_low_def split: if_splits dest!: arg_cong [of _ _ "of_char :: char \<Rightarrow> nat"])

lemma byte_less: "byte c < 256"
  by (metis of_char_of mod_less_divisor of_char_mod_256 zero_less_numeral)

lemma hex_of_inj: "hex_of s = hex_of t \<Longrightarrow> s = t"
proof (induction s arbitrary: t)
  case Nil
  then show ?case by (cases t) (auto simp: hex_of_def)
next
  case (Cons c s)
  then obtain d u where t: "t = d # u" by (cases t) (auto simp: hex_of_def)
  have b: "byte c div 16 < 16" "byte d div 16 < 16" "byte c mod 16 < 16" "byte d mod 16 < 16"
    using byte_less [of c] byte_less [of d] by (auto intro!: less_mult_imp_div_less)
  from Cons.prems have h: "hex_low (byte c div 16) = hex_low (byte d div 16)" "hex_low (byte c mod 16) = hex_low (byte d mod 16)"
    "hex_of s = hex_of u" by (auto simp: hex_of_def t)
  have "byte c = byte d" using h(1,2) b hex_low_inj by (metis div_mult_mod_eq)
  then have "c = d" by (simp only: of_char_eq_iff)
  with Cons.IH [OF h(3)] show ?case by (simp add: t)
qed

lemma nul_join_inj:
  assumes "\<forall>a \<in> set xs. char_of (0::nat) \<notin> set a" and "\<forall>a \<in> set ys. char_of (0::nat) \<notin> set a"
    and "concat (map (\<lambda>a. a @ [char_of (0::nat)]) xs) = concat (map (\<lambda>a. a @ [char_of (0::nat)]) ys)"
  shows "xs = ys"
  using assms
proof (induction xs arbitrary: ys)
  case Nil
  then show ?case by (cases ys) auto
next
  case (Cons x xs)
  let ?z = "char_of (0::nat)"
  obtain y zs where ys: "ys = y # zs" using Cons.prems by (cases ys) auto
  let ?f = "\<lambda>s. takeWhile (\<lambda>c. c \<noteq> ?z) s"
  have tw: "?f (a @ ?z # r) = a" if "?z \<notin> set a" for a r
    using that by (induction a) auto
  from Cons.prems(3) have e: "x @ ?z # concat (map (\<lambda>a. a @ [?z]) xs) = y @ ?z # concat (map (\<lambda>a. a @ [?z]) zs)"
    by (simp add: ys)
  have "x = y" using arg_cong [OF e, of ?f] tw [of x] tw [of y] Cons.prems by (auto simp: ys)
  with e have "concat (map (\<lambda>a. a @ [?z]) xs) = concat (map (\<lambda>a. a @ [?z]) zs)" by simp
  with Cons.IH [of zs] Cons.prems \<open>x = y\<close> show ?case by (auto simp: ys)
qed

lemma argvHex_inj:
  "\<forall>a \<in> set xs. char_of (0::nat) \<notin> set a \<Longrightarrow> \<forall>a \<in> set ys. char_of (0::nat) \<notin> set a \<Longrightarrow> argvHex xs = argvHex ys \<Longrightarrow> xs = ys"
  by (rule nul_join_inj) (auto simp: argvHex_def dest: hex_of_inj)

lemma identityPattern_parts:
  assumes "identityPattern s"
  shows "\<exists>pid start cmd. s = pid @ '':'' @ start @ '':'' @ cmd \<and> reportedCmd s = cmd \<and> list_all is_lower_hex cmd"
proof -
  obtain pid start cmd where p: "split_on CHR '':'' s = [pid, start, cmd]" "list_all is_lower_hex cmd"
    using assms by (auto simp: identityPattern_def Let_def split: list.splits)
  have "s = pid @ '':'' @ start @ '':'' @ cmd" using join_split [of "CHR '':''" s] p(1) by simp
  moreover have "reportedCmd s = cmd" using p(1) by (simp add: reportedCmd_def split3_def)
  ultimately show ?thesis using p(2) by blast
qed

subsection \<open>Output\<close>

lemma add_output_bound: "length (fst acc) \<le> cap \<Longrightarrow> length (fst (add_output acc cap b)) \<le> cap"
  by (cases acc) (auto simp: add_output_def split: option.splits)

lemma relay_run_bound:
  assumes "length (fst out) \<le> oc" and "length (fst err) \<le> ec"
  shows "length (er_Stdout (fst (relay_run nonce oc ec wrote out err es))) \<le> oc \<and>
    length (er_Stderr (fst (relay_run nonce oc ec wrote out err es))) \<le> ec"
  using assms
  by (induction nonce oc ec wrote out err es rule: relay_run.induct)
     (auto simp: run_result_def add_output_bound)

lemma relay_run_done:
  "snd (relay_run nonce oc ec wrote out err es) = RunDone f \<Longrightarrow> \<exists>n. fr_Done f = Some n \<and> fr_N f = nonce"
  by (induction nonce oc ec wrote out err es rule: relay_run.induct) (auto split: if_splits)

subsection \<open>Which interpreter is live\<close>

lemma lose_live [simp]: "map_of (ip_live (lose lang s)) l = (if l = lang then None else map_of (ip_live s) l)"
  by (auto simp: lose_def ip_drop_def dropRelay_def delete_conv')

lemma lose_unreported [simp]: "ip_unreported (lose lang s) = ip_unreported s"
  by (simp add: lose_def ip_drop_def dropRelay_def)

lemma dropRelay_live [simp]: "ip_live (dropRelay lang s) = ip_live s" "ip_unreported (dropRelay lang s) = ip_unreported s"
  by (simp_all add: dropRelay_def)

lemma mark_live [simp]: "ip_live (markUnreported lang s) = ip_live s" "set (ip_unreported (markUnreported lang s)) = insert lang (set (ip_unreported s))"
  by (simp_all add: markUnreported_def)

lemma attachRelay_live:
  "attachRelay pg lang work r ch s = (e, s') \<Longrightarrow> ip_live s' = ip_live s \<and> ip_unreported s' = ip_unreported s"
  by (auto simp: attachRelay_def split: sum.splits if_splits option.splits)

lemma launch_live:
  "launch pg lang res ch s = (e, s') \<Longrightarrow> ip_unreported s' = ip_unreported s \<and>
     (e \<noteq> None \<and> s' = s \<or> e = None \<and> (\<exists>out. res = Inr out \<and> identityPattern (er_Stdout out) \<and>
        reportedCmd (er_Stdout out) = argvHex (interpArgv pg lang) \<and>
        ip_live s' = AList.update lang (er_Stdout out) (ip_live s)))"
  by (auto simp: launch_def ip_set_def split: sum.splits if_splits option.splits)

text \<open>
  An interpreter that no answered cell has announced is remembered: between cells in
  \<open>ip_unreported\<close>, during one in the flag \<open>started\<close>. \<open>rep\<close> are the interpreters announced.
\<close>

definition announced :: "string set \<Rightarrow> interps \<Rightarrow> bool" where
  "announced rep s \<longleftrightarrow> (\<forall>l i. map_of (ip_live s) l = Some i \<longrightarrow> i \<in> rep \<or> l \<in> set (ip_unreported s))"

definition announcing :: "string set \<Rightarrow> string \<Rightarrow> bool \<Rightarrow> interps \<Rightarrow> bool" where
  "announcing rep lang started s \<longleftrightarrow>
     (\<forall>l i. map_of (ip_live s) l = Some i \<longrightarrow> i \<in> rep \<or> (if l = lang then started else l \<in> set (ip_unreported s)))"

definition attempt_ok :: "string set \<Rightarrow> string \<Rightarrow> attempt_end \<times> bool \<times> interps \<Rightarrow> bool" where
  "attempt_ok rep lang r \<longleftrightarrow> (case r of
     (Refuses e, st, s) \<Rightarrow> announced rep s
   | (Again, st, s) \<Rightarrow> announcing rep lang st s \<and> map_of (ip_live s) lang = None
   | (Prepared, st, s) \<Rightarrow> announcing rep lang st s \<and> map_of (ip_live s) lang \<noteq> None)"

lemma announcing_lose: "announcing rep lang st s \<Longrightarrow> announced rep (lose lang s) \<and> announcing rep lang st' (lose lang s)"
  by (auto simp: announced_def announcing_def split: if_splits)

lemma announcing_same:
  "ip_live s' = ip_live s \<Longrightarrow> ip_unreported s' = ip_unreported s \<Longrightarrow> announcing rep l st s' = announcing rep l st s"
  by (simp add: announcing_def)

lemma announcing_gone: "announcing rep lang st s \<Longrightarrow> map_of (ip_live s) lang = None \<Longrightarrow> announced rep s"
  unfolding announced_def announcing_def by (metis option.distinct(1))

lemma announcing_used:
  "announcing rep lang st s \<Longrightarrow> map_of (ip_live s) lang = Some i \<Longrightarrow> announced (insert i rep) s"
  unfolding announced_def announcing_def by (metis insertCI option.inject)

lemma announced_mono: "announced rep s \<Longrightarrow> announced (insert i rep) s"
  unfolding announced_def by blast

lemma announced_take:
  assumes "announced rep s" and "takeUnreported lang s = (was, s1)"
  shows "announcing rep lang was s1"
  unfolding announcing_def
proof (intro allI impI)
  fix l i
  assume "map_of (ip_live s1) l = Some i"
  moreover have "ip_live s1 = ip_live s" using assms(2) by (auto simp: takeUnreported_def)
  ultimately have "i \<in> rep \<or> l \<in> set (ip_unreported s)" using assms(1) unfolding announced_def by metis
  with assms(2) show "i \<in> rep \<or> (if l = lang then was else l \<in> set (ip_unreported s1))"
    by (cases "l = lang") (auto simp: takeUnreported_def)
qed

lemma announcing_files: "announcing rep lang st s \<Longrightarrow> announced rep (if st then markUnreported lang s else s)"
  by (cases st) (auto simp: announced_def announcing_def split: if_splits)

lemma attempt_prepare_ok:
  assumes "announcing rep (cl_Language c) st s" and "map_of (ip_live s) (cl_Language c) \<noteq> None"
  shows "attempt_ok rep (cl_Language c) (attempt_prepare c nonce w st s)"
  using assms announcing_lose [OF assms(1)] announcing_files [OF assms(1)]
  by (cases st) (simp_all add: attempt_prepare_def Let_def attempt_ok_def split: prep_result.splits)

lemma attempt_relay_ok:
  assumes "announcing rep (cl_Language c) st s" and "map_of (ip_live s) (cl_Language c) \<noteq> None"
  shows "attempt_ok rep (cl_Language c) (attempt_relay pg c nonce w st s)"
proof -
  let ?l = "cl_Language c"
  let ?s = "if map_of (ip_relays s) ?l \<noteq> None \<and> aw_gone w then dropRelay ?l s else s"
  have 1: "announcing rep ?l st ?s" "map_of (ip_live ?s) ?l \<noteq> None" using assms announcing_same [of ?s s] by simp_all
  obtain e s1 where a: "attachRelay pg ?l (cl_Work c) (aw_start w) (aw_rcheck w) ?s = (e, s1)" by force
  have 2: "announcing rep ?l st s1" "map_of (ip_live s1) ?l \<noteq> None"
    using 1 attachRelay_live [OF a] announcing_same [of s1 ?s] by simp_all
  have "attempt_ok rep ?l (Refuses e', st, lose ?l s1)" for e' using announcing_lose [OF 2(1)] by (simp add: attempt_ok_def)
  then show ?thesis
    using attempt_prepare_ok [OF 1, of nonce w] attempt_prepare_ok [OF 2, of nonce w] a
    by (auto simp: attempt_relay_def Let_def split: option.splits)
qed

lemma attempt_ok_step:
  assumes "announcing rep (cl_Language c) st s"
  shows "attempt_ok rep (cl_Language c) (attempt pg c nonce w st s)"
proof (cases "ip_alive (cl_Language c) s")
  case True
  with attempt_relay_ok [OF assms] show ?thesis by (auto simp: attempt_def ip_alive_def Let_def)
next
  case False
  let ?l = "cl_Language c"
  obtain e s1 where l: "launch pg ?l (aw_launch w) (aw_check w) (dropRelay ?l s) = (e, s1)" by force
  have gone: "map_of (ip_live s) ?l = None" using False by (simp add: ip_alive_def)
  show ?thesis
  proof (cases e)
    case (Some x)
    then have "s1 = dropRelay ?l s" using launch_live [OF l] by auto
    then have "announcing rep ?l st s1" "map_of (ip_live s1) ?l = None"
      using assms gone announcing_same [of s1 s] by simp_all
    then have "announced rep s1" "announcing rep ?l st s1" using announcing_gone by blast+
    then show ?thesis using False l Some announcing_lose [of rep ?l st s1]
      by (simp add: attempt_def Let_def attempt_ok_def)
  next
    case None
    then obtain i where "ip_live s1 = AList.update ?l i (ip_live s)" "ip_unreported s1 = ip_unreported s"
      using launch_live [OF l] by auto
    then have "announcing rep ?l True s1" "map_of (ip_live s1) ?l \<noteq> None"
      using assms by (auto simp: announcing_def update_conv' split: if_splits)
    from attempt_relay_ok [OF this] False l None show ?thesis by (simp add: attempt_def Let_def)
  qed
qed

lemma attempts_ok:
  assumes "announcing rep (cl_Language c) st s" and "ws \<noteq> []"
  shows "attempt_ok rep (cl_Language c) (attempts pg c nonce ws st s)"
  using assms
proof (induction ws arbitrary: st s)
  case (Cons w ws)
  obtain e st' s' where a: "attempt pg c nonce w st s = (e, st', s')" by (metis surj_pair)
  have ok: "attempt_ok rep (cl_Language c) (e, st', s')" using attempt_ok_step [OF Cons.prems(1)] a by metis
  show ?case
  proof (cases "e = Again")
    case True
    with ok have "announcing rep (cl_Language c) st' s'" by (simp add: attempt_ok_def)
    with Cons.IH [of st' s'] ok a True show ?thesis by (cases ws) auto
  next
    case False
    with ok a show ?thesis by (cases e) auto
  qed
qed simp

lemma run_code_live:
  assumes "run_code c nonce rw st s = ((oc, e), s')"
  shows "oc_Started oc = st \<and> ip_unreported s' = ip_unreported s \<and>
    (s' = s \<and> e = None \<or> s' = lose (cl_Language c) s) \<and> (e = None \<or> e = Some CtxEnded)"
  using assms
  by (auto simp: run_code_def Let_def no_outcome_def split: prod.splits if_splits run_end.splits)

subsection \<open>A session's cells\<close>

text \<open>What happens to a session's interpreters, in order.\<close>

datatype interp_event =
    RunCell "string option" attempt_world attempt_world run_world cell
  | WarmUp string string "nat + exec_result" "(nat + exec_result) option" relay_start "(nat + exec_result) option"
  | DroppedAll | Swept | ClosedAll

type_synonym cell_answer = "(outcome \<times> cell_error option) \<times> string option"

fun interp_step :: "programs \<Rightarrow> interp_event \<Rightarrow> interps \<Rightarrow> cell_answer option \<times> interps" where
  "interp_step pg (RunCell rand w0 w1 rw c) s = (case RunRelayed pg rand w0 w1 rw c s of (r, sent, s) \<Rightarrow> (Some (r, sent), s))"
| "interp_step pg (WarmUp lang work res ch st rch) s = (None, snd (Warm pg lang work res ch st rch s))"
| "interp_step pg DroppedAll s = (None, DropAll s)"
| "interp_step pg Swept s = (None, Settled s)"
| "interp_step pg ClosedAll s = (None, ip_Close s)"

fun interp_run :: "programs \<Rightarrow> interp_event list \<Rightarrow> interps \<Rightarrow> cell_answer list" where
  "interp_run pg [] s = []"
| "interp_run pg (e # es) s = (case interp_step pg e s of (a, s) \<Rightarrow>
     (case a of None \<Rightarrow> [] | Some a \<Rightarrow> [a]) @ interp_run pg es s)"

definition answered_by :: "cell_answer \<Rightarrow> string option" where
  "answered_by a = (case a of ((oc, None), sent) \<Rightarrow> sent | _ \<Rightarrow> None)"

lemma RunRelayed_cases:
  assumes "RunRelayed pg rand w0 w1 rw c s = ((oc, e), sent, s')" and "announced rep s"
  shows "(sent = None \<and> e \<noteq> None \<and> announced rep s') \<or>
    (\<exists>i. sent = Some i \<and> (e = None \<or> e = Some CtxEnded) \<and> (oc_Started oc \<or> i \<in> rep) \<and>
       announced (if e = None then insert i rep else rep) s')"
proof -
  consider (none) "sent = None" "e \<noteq> None" "s' = s"
    | (run) nonce where "rand = Some nonce" "map_of (pg_command pg) (cl_Language c) \<noteq> None"
    using assms(1) by (cases rand) (auto simp: RunRelayed_def split: if_splits)
  then show ?thesis
  proof cases
    case none
    with assms(2) show ?thesis by simp
  next
    case (run nonce)
    let ?l = "cl_Language c"
    obtain was s1 where t: "takeUnreported ?l s = (was, s1)" by force
    obtain r st s2 where a: "attempts pg c nonce [w0, w1] was s1 = (r, st, s2)" by (metis surj_pair)
    from attempts_ok [OF announced_take [OF assms(2) t], of "[w0, w1]" pg nonce] a have ok: "attempt_ok rep ?l (r, st, s2)" by simp
    show ?thesis
    proof (cases r)
      case (Refuses x)
      with assms(1) run t a ok show ?thesis by (auto simp: RunRelayed_def attempt_ok_def)
    next
      case Again
      with assms(1) run t a have "sent = None" "e \<noteq> None" "s' = s2" by (auto simp: RunRelayed_def)
      moreover have "announced rep s2" using ok Again announcing_gone by (auto simp: attempt_ok_def)
      ultimately show ?thesis by simp
    next
      case Prepared
      then obtain i where i: "map_of (ip_live s2) ?l = Some i" "announcing rep ?l st s2" using ok by (auto simp: attempt_ok_def)
      obtain oc' e' s3 where rc: "run_code c nonce rw st s2 = ((oc', e'), s3)" by (metis surj_pair)
      have e: "oc = oc'" "e = e'" "sent = Some i" "s' = s3" using assms(1) run t a Prepared rc i(1) by (auto simp: RunRelayed_def)
      note lv = run_code_live [OF rc]
      have "oc_Started oc \<or> i \<in> rep" using i lv e(1) by (auto simp: announcing_def split: if_splits)
      moreover have "announced (if e = None then insert i rep else rep) s'"
      proof -
        consider "s3 = s2" "e' = None" | "s3 = lose ?l s2" using lv by blast
        then show ?thesis
        proof cases
          case 1
          with announcing_used [OF i(2,1)] e show ?thesis by simp
        next
          case 2
          with announcing_lose [OF i(2)] e show ?thesis by (auto intro: announced_mono)
        qed
      qed
      ultimately show ?thesis using e lv by auto
    qed
  qed
qed

lemma Warm_announced:
  assumes "announced rep s"
  shows "announced rep (snd (Warm pg lang work res ch st rch s))"
proof (cases "map_of (pg_command pg) lang = None")
  case True
  with assms show ?thesis by (simp add: Warm_def)
next
  case False
  obtain e s1 where l: "launch pg lang res ch s = (e, s1)" by force
  obtain e2 s2 where a: "attachRelay pg lang work st rch s1 = (e2, s2)" by force
  note al = attachRelay_live [OF a] and ll = launch_live [OF l]
  show ?thesis
  proof (cases e)
    case (Some x)
    with False l ll assms show ?thesis by (auto simp: Warm_def)
  next
    case None
    then obtain i where "ip_live s1 = AList.update lang i (ip_live s)" "ip_unreported s1 = ip_unreported s" using ll by auto
    with None False l a al assms show ?thesis
      by (cases e2) (auto simp: Warm_def announced_def ip_drop_def update_conv' delete_conv' split: if_splits)
  qed
qed

lemma interp_run_announces:
  assumes "announced rep s" and "interp_run pg es s = pre @ a # post" and "answered_by a = Some i"
    and "i \<notin> rep" and "\<forall>b \<in> set pre. answered_by b \<noteq> Some i"
  shows "oc_Started (fst (fst a))"
  using assms
proof (induction es arbitrary: s rep pre)
  case (Cons ev es)
  show ?case
  proof (cases "\<exists>rand w0 w1 rw c. ev = RunCell rand w0 w1 rw c")
    case False
    then obtain s1 where st: "interp_step pg ev s = (None, s1)" "announced rep s1"
    proof (cases ev)
      case (WarmUp lang work res ch r rch)
      with Warm_announced [OF Cons.prems(1)] that show ?thesis by simp
    qed (use Cons.prems(1) that in \<open>auto simp: announced_def DropAll_def Settled_def ip_Close_def\<close>)
    then have "interp_run pg es s1 = pre @ a # post" using Cons.prems(2) by simp
    from Cons.IH [OF st(2) this Cons.prems(3-5)] show ?thesis .
  next
    case True
    then obtain rand w0 w1 rw c where ev: "ev = RunCell rand w0 w1 rw c" by blast
    obtain oc e sent s1 where r: "RunRelayed pg rand w0 w1 rw c s = ((oc, e), sent, s1)" by (metis surj_pair)
    note cs = RunRelayed_cases [OF r Cons.prems(1)]
    have tl: "interp_run pg (ev # es) s = ((oc, e), sent) # interp_run pg es s1" by (simp add: ev r)
    let ?a = "((oc, e), sent)"
    show ?thesis
    proof (cases pre)
      case Nil
      with Cons.prems(2) tl have "a = ?a" by simp
      with Cons.prems(3,4) cs show ?thesis by (auto simp: answered_by_def split: option.splits)
    next
      case (Cons b pre')
      with Cons.prems(2) tl have b: "b = ?a" "interp_run pg es s1 = pre' @ a # post" by simp_all
      have ne: "answered_by ?a \<noteq> Some i" using Cons.prems(5) Cons b(1) by simp
      obtain rep' where rep': "announced rep' s1" "i \<notin> rep'"
        using cs ne Cons.prems(4) by (auto simp: answered_by_def split: option.splits if_splits)
      from Cons.IH [OF rep'(1) b(2) Cons.prems(3) rep'(2)] Cons.prems(5) Cons show ?thesis by simp
    qed
  qed
qed simp

subsection \<open>Code goes only to interpreters that were started for it\<close>

definition genuine :: "programs \<Rightarrow> interps \<Rightarrow> bool" where
  "genuine pg s \<longleftrightarrow> (\<forall>l i. map_of (ip_live s) l = Some i \<longrightarrow> identityPattern i \<and> reportedCmd i = argvHex (interpArgv pg l))"

lemma genuine_same: "genuine pg s \<Longrightarrow> ip_live s' = ip_live s \<Longrightarrow> genuine pg s'"
  by (simp add: genuine_def)

lemma genuine_lose: "genuine pg s \<Longrightarrow> genuine pg (lose lang s)"
  by (simp add: genuine_def)

lemma genuine_launch:
  assumes "launch pg lang res ch s = (e, s')" and "genuine pg s"
  shows "genuine pg s'"
  using launch_live [OF assms(1)] assms(2) by (auto simp: genuine_def update_conv' split: if_splits)

lemma genuine_prepare: "genuine pg s \<Longrightarrow> genuine pg (snd (snd (attempt_prepare c nonce w st s)))"
  by (auto simp: attempt_prepare_def Let_def genuine_lose split: prep_result.splits intro: genuine_same)

lemma genuine_relay:
  assumes "genuine pg s"
  shows "genuine pg (snd (snd (attempt_relay pg c nonce w st s)))"
proof -
  let ?l = "cl_Language c"
  let ?s = "if map_of (ip_relays s) ?l \<noteq> None \<and> aw_gone w then dropRelay ?l s else s"
  have 1: "genuine pg ?s" using assms by (auto intro: genuine_same)
  obtain e s1 where a: "attachRelay pg ?l (cl_Work c) (aw_start w) (aw_rcheck w) ?s = (e, s1)" by force
  have 2: "genuine pg s1" using 1 attachRelay_live [OF a] genuine_same by metis
  show ?thesis
    using genuine_prepare [OF 1, of c nonce w st] genuine_prepare [OF 2, of c nonce w st] genuine_lose [OF 2] a
    by (auto simp: attempt_relay_def Let_def split: option.splits)
qed

lemma genuine_attempt:
  assumes "genuine pg s"
  shows "genuine pg (snd (snd (attempt pg c nonce w st s)))"
proof -
  let ?l = "cl_Language c"
  obtain e s1 where l: "launch pg ?l (aw_launch w) (aw_check w) (dropRelay ?l s) = (e, s1)" by force
  have "genuine pg (dropRelay ?l s)" using assms by (auto intro: genuine_same)
  from genuine_launch [OF l this] have "genuine pg s1" .
  with genuine_relay [of pg s1 c nonce w True] genuine_relay [OF assms, of c nonce w st] genuine_lose [of pg s1] l show ?thesis
    by (auto simp: attempt_def Let_def split: option.splits)
qed

lemma genuine_attempts: "genuine pg s \<Longrightarrow> genuine pg (snd (snd (attempts pg c nonce ws st s)))"
proof (induction ws arbitrary: st s)
  case (Cons w ws)
  obtain e st' s' where a: "attempt pg c nonce w st s = (e, st', s')" by (metis surj_pair)
  have "genuine pg s'" using genuine_attempt [OF Cons.prems, of c nonce w st] a by simp
  with Cons.IH a show ?case by (cases e) auto
qed simp

lemma genuine_run:
  assumes "RunRelayed pg rand w0 w1 rw c s = (r, sent, s')" and "genuine pg s"
  shows "genuine pg s' \<and> (\<forall>i. sent = Some i \<longrightarrow> (\<exists>s1. genuine pg s1 \<and> i = the (map_of (ip_live s1) (cl_Language c)) \<and>
    (\<exists>nonce was s0 st. attempts pg c nonce [w0, w1] was s0 = (Prepared, st, s1))))"
proof (cases "map_of (pg_command pg) (cl_Language c) = None \<or> rand = None")
  case True
  then have "sent = None" "s' = s" using assms(1) by (cases rand; auto simp: RunRelayed_def split: if_splits)+
  with assms(2) show ?thesis by simp
next
  case False
  then obtain nonce where n: "rand = Some nonce" by blast
  let ?l = "cl_Language c"
  obtain was s1 where t: "takeUnreported ?l s = (was, s1)" by force
  obtain x st s2 where a: "attempts pg c nonce [w0, w1] was s1 = (x, st, s2)" by (metis surj_pair)
  obtain oc e s3 where rc: "run_code c nonce rw st s2 = ((oc, e), s3)" by (metis surj_pair)
  have "genuine pg s1" using assms(2) t by (auto simp: takeUnreported_def genuine_def)
  from genuine_attempts [OF this, of c nonce "[w0, w1]" was] a have 2: "genuine pg s2" by simp
  have 3: "genuine pg s3" using run_code_live [OF rc] 2 genuine_lose by metis
  show ?thesis
  proof (cases x)
    case Prepared
    with assms(1) False n t a rc have "s' = s3" "sent = Some (the (map_of (ip_live s2) ?l))" by (auto simp: RunRelayed_def)
    with 2 3 a Prepared show ?thesis by blast
  qed (use assms(1) False n t a 2 in \<open>auto simp: RunRelayed_def\<close>)
qed

lemma prepared_live: "attempts pg c nonce ws st s = (Prepared, st', s') \<Longrightarrow> ws \<noteq> [] \<Longrightarrow> map_of (ip_live s') (cl_Language c) \<noteq> None"
proof -
  assume a: "attempts pg c nonce ws st s = (Prepared, st', s')" and ws: "ws \<noteq> []"
  have "announcing UNIV (cl_Language c) st s" by (simp add: announcing_def)
  from attempts_ok [OF this ws, of pg nonce] a show ?thesis by (simp add: attempt_ok_def)
qed

lemma run_code_caps:
  assumes "run_code c nonce rw st s = ((oc, e), s')"
  shows "length (er_Stdout (oc_result oc)) \<le> cl_OutCap c \<and> length (er_Stderr (oc_result oc)) \<le> cl_ErrCap c"
proof -
  let ?r = "relay_run nonce (cl_OutCap c) (cl_ErrCap c) False ('''', False) ('''', False) (rw_events rw)"
  have b: "length (er_Stdout (fst ?r)) \<le> cl_OutCap c" "length (er_Stderr (fst ?r)) \<le> cl_ErrCap c"
    using relay_run_bound [of "('''', False)" "cl_OutCap c" "('''', False)" "cl_ErrCap c"] by simp_all
  obtain out fin where r: "?r = (out, fin)" by force
  show ?thesis using assms b unfolding run_code_def Let_def r
    by (auto simp: no_outcome_def split: if_splits run_end.splits)
qed

subsection \<open>Properties\<close>

text \<open>A cell's code is sent at most once, and only after the relay said it was prepared. A cell
  refused because its interpreter could not start, its files could not be written or its
  deadline passed first had no code sent; a cell with an answer had its code sent, to an
  interpreter whose reported command line is the one started for its language; and the
  output kept is within the cell's caps.\<close>

theorem refused_cell_was_not_sent:
  assumes "RunRelayed pg rand w0 w1 rw c s = ((oc, e), sent, s')" and "genuine pg s"
  shows "genuine pg s' \<and> (e = None \<longrightarrow> sent \<noteq> None) \<and> (sent \<noteq> None \<longrightarrow> e = None \<or> e = Some CtxEnded) \<and>
    (\<forall>i. sent = Some i \<longrightarrow> identityPattern i \<and> reportedCmd i = argvHex (interpArgv pg (cl_Language c))) \<and>
    length (er_Stdout (oc_result oc)) \<le> cl_OutCap c \<and> length (er_Stderr (oc_result oc)) \<le> cl_ErrCap c"
proof -
  have "announced UNIV s" by (simp add: announced_def)
  note cs = RunRelayed_cases [OF assms(1) this] and g = genuine_run [OF assms]
  have id: "identityPattern i \<and> reportedCmd i = argvHex (interpArgv pg (cl_Language c))" if "sent = Some i" for i
  proof -
    from g that obtain s1 nonce was s0 st where s1: "genuine pg s1" "i = the (map_of (ip_live s1) (cl_Language c))"
      "attempts pg c nonce [w0, w1] was s0 = (Prepared, st, s1)" by blast
    from prepared_live [OF s1(3)] s1(1,2) show ?thesis by (auto simp: genuine_def)
  qed
  have caps: "length (er_Stdout (oc_result oc)) \<le> cl_OutCap c \<and> length (er_Stderr (oc_result oc)) \<le> cl_ErrCap c"
  proof (cases "sent = None")
    case True
    then have "oc_result oc = no_result"
      using assms(1) by (auto simp: RunRelayed_def no_outcome_def split: if_splits option.splits prod.splits attempt_end.splits)
    then show ?thesis by (simp add: no_result_def)
  next
    case False
    then obtain nonce st s1 s2 where "run_code c nonce rw st s1 = ((oc, e), s2)"
      using assms(1) by (auto simp: RunRelayed_def split: if_splits option.splits prod.splits attempt_end.splits)
    then show ?thesis by (rule run_code_caps)
  qed
  show ?thesis using cs g id caps by auto
qed

text \<open>C17: A session never loses its state silently. Through any sequence of cells, refused cells,
  warm starts, sweeps and restarts, the first cell answered by an interpreter says that the
  interpreter is new.\<close>

theorem new_interpreter_is_announced:
  assumes "interp_run pg es no_interps = pre @ a # post" and "answered_by a = Some i"
    and "\<forall>b \<in> set pre. answered_by b \<noteq> Some i"
  shows "oc_Started (fst (fst a))"
  by (rule interp_run_announces [OF _ assms(1,2) _ assms(3), of "{}"]) (simp_all add: announced_def no_interps_def)

subsection \<open>One cell\<close>

definition demo_programs :: programs where
  "demo_programs = \<lparr>pg_command = [(''js'', [''node''])], pg_relayJS = ''r''\<rparr>"

definition demo_exec :: exec_result where
  "demo_exec = no_result\<lparr>er_Exited := True, er_Stdout := ''12:5:'' @ argvHex (interpArgv demo_programs ''js'')\<rparr>"

definition demo_frame :: frame where
  "demo_frame = \<lparr>fr_N = ''n'', fr_Prepared = True, fr_O = '''', fr_E = '''', fr_Done = None, fr_OT = False, fr_ET = False,
     fr_File = None, fr_Errno = ''''\<rparr>"

definition demo_attempt :: attempt_world where
  "demo_attempt = \<lparr>aw_launch = Inr demo_exec, aw_check = None, aw_launchLate = False, aw_gone = False,
     aw_start = ReadyFrame (''13:6:'' @ argvHex (RelayArgv demo_programs ''js'' ''/w'')), aw_rcheck = None, aw_attachLate = False,
     aw_events = [Wrote True, Frame demo_frame], aw_prepareLate = False\<rparr>"

definition demo_runs :: run_world where
  "demo_runs = \<lparr>rw_events = [Wrote True, Frame (demo_frame\<lparr>fr_Prepared := False, fr_O := ''aGk=''\<rparr>),
     Frame (demo_frame\<lparr>fr_Prepared := False, fr_Done := Some 0\<rparr>)], rw_late = False\<rparr>"

definition demo_cell :: cell where
  "demo_cell = \<lparr>cl_Language = ''js'', cl_Files = 0, cl_Work = ''/w'', cl_OutCap = 1, cl_ErrCap = 1\<rparr>"

abbreviation demo_answer :: "(outcome \<times> cell_error option) \<times> string option \<times> interps" where
  "demo_answer \<equiv> RunRelayed demo_programs (Some ''n'') demo_attempt demo_attempt demo_runs demo_cell no_interps"

theorem refused_cell_was_not_sent_witness:
  "snd (fst demo_answer) = None \<and> fst (snd demo_answer) \<noteq> None \<and> length (er_Stdout (oc_result (fst (fst demo_answer)))) \<le> 1"
proof -
  have g: "genuine demo_programs no_interps" by (simp add: genuine_def no_interps_def)
  have e: "snd (fst demo_answer) = None" by code_simp
  obtain oc e sent s' where r: "demo_answer = ((oc, e), sent, s')" by (metis surj_pair)
  with refused_cell_was_not_sent [OF r g] e show ?thesis by (simp add: demo_cell_def)
qed

theorem new_interpreter_is_announced_witness:
  "\<exists>a. interp_run demo_programs [RunCell (Some ''n'') demo_attempt demo_attempt demo_runs demo_cell] no_interps = [a] \<and>
     answered_by a \<noteq> None \<and> oc_Started (fst (fst a))"
proof -
  obtain oc e sent s' where r: "demo_answer = ((oc, e), sent, s')" by (metis surj_pair)
  have run: "interp_run demo_programs [RunCell (Some ''n'') demo_attempt demo_attempt demo_runs demo_cell] no_interps = [] @ ((oc, e), sent) # []"
    by (simp add: r)
  have "(case demo_answer of ((oc, e), sent, s) \<Rightarrow> answered_by ((oc, e), sent)) \<noteq> None" by code_simp
  then obtain i where i: "answered_by ((oc, e), sent) = Some i" by (auto simp: r)
  from new_interpreter_is_announced [OF run i] run i show ?thesis by simp
qed

end
