(* ===== verification/Session_Life.thy ===== *)
theory Session_Life
  imports Interp Refusals
begin

text \<open>
  The lifecycle every session shares, \<open>sandbox/internal/sessionkit/life.go\<close>: one call at a
  time, the sandbox made ready before each call and swept after it, suspends, and an end
  that is reported at once while the sandbox is removed behind it; and how package sandbox
  turns its errors into marked refusals (\<open>sandbox/session.go\<close>). Each atomic action of the
  code is a definition; a goroutine that uses the session is an actor with a phase, and what
  the provider's hooks answer is an input of the step that calls them.
\<close>

subsection \<open>State\<close>

text \<open>How far the one effective \<open>finish\<close> has come, and \<open>Abandon\<close>.\<close>

datatype fin_phase = FNone | FEnded | FCancelled | FUnregistered | FClosed | FTorn | FDone | FGone

datatype timer_state = NoTimer | Armed | TimerStopped

text \<open>
  \<open>l_turn\<close>: the one slot is taken. \<open>l_reg\<close>: a registry was set by \<open>Activate\<close>.
  \<open>l_teardowns\<close> counts the returns of \<open>Teardown\<close>, and \<open>l_unswept\<close> says that code of a call was
  dispatched and the boundary after it has not reported yet: no sweep has exited as clean since, and
  \<open>Unproven\<close> has not answered nil. Neither is a field of the code, and neither says what a call left:
  files and live interpreters stay by design.
\<close>

record life =
  l_end :: "ended option"
  l_cancelled :: bool
  l_turn :: bool
  l_done :: bool
  l_reg :: bool
  l_timer :: timer_state
  l_expires :: gotime
  l_disk :: int
  l_suspended :: bool
  l_baseline :: "string list"
  l_interps :: interps
  l_fin :: fin_phase
  l_teardowns :: nat
  l_unswept :: bool

definition NewLife :: life where
  "NewLife = \<lparr>l_end = None, l_cancelled = False, l_turn = False, l_done = False, l_reg = False, l_timer = NoTimer,
     l_expires = zero_time, l_disk = 0, l_suspended = False, l_baseline = [], l_interps = no_interps, l_fin = FNone,
     l_teardowns = 0, l_unswept = False\<rparr>"

definition SetBaseline :: "string list \<Rightarrow> life \<Rightarrow> life" where
  "SetBaseline keep l = l\<lparr>l_baseline := keep\<rparr>"

definition life_Keep :: "life \<Rightarrow> string list" where
  "life_Keep l = Keep (l_baseline l) (l_interps l)"

definition life_Err :: "life \<Rightarrow> goerr option" where
  "life_Err l = map_option EndedErr (l_end l)"

subsection \<open>The end of a session\<close>

text \<open>\<open>finish\<close>: the first end given stays; the timer stops under the same lock.\<close>

definition stop_timer :: "life \<Rightarrow> life" where
  "stop_timer l = (if l_timer l = NoTimer then l else l\<lparr>l_timer := TimerStopped\<rparr>)"

definition finish_begin :: "ended \<Rightarrow> life \<Rightarrow> life" where
  "finish_begin e l = (if l_end l \<noteq> None then l else stop_timer (l\<lparr>l_end := Some e, l_fin := FEnded\<rparr>))"

definition finish_cancel :: "life \<Rightarrow> life" where
  "finish_cancel l = l\<lparr>l_cancelled := True, l_fin := FCancelled\<rparr>"

definition finish_close :: "life \<Rightarrow> life" where
  "finish_close l = l\<lparr>l_interps := ip_Close (l_interps l), l_fin := FClosed\<rparr>"

definition finish_teardown :: "life \<Rightarrow> life" where
  "finish_teardown l = l\<lparr>l_teardowns := l_teardowns l + 1, l_fin := FTorn\<rparr>"

definition finish_done :: "life \<Rightarrow> life" where
  "finish_done l = l\<lparr>l_done := True, l_fin := FDone\<rparr>"

text \<open>The parts of \<open>finish\<close> after its critical section, in order. The registry's side of
  \<open>unregister\<close> and \<open>gone\<close> is in the registry's theory.\<close>

fun finish_next :: "fin_phase \<Rightarrow> life \<Rightarrow> life" where
  "finish_next FEnded l = finish_cancel l"
| "finish_next FCancelled l = l\<lparr>l_fin := FUnregistered\<rparr>"
| "finish_next FUnregistered l = finish_close l"
| "finish_next FClosed l = finish_teardown l"
| "finish_next FTorn l = finish_done l"
| "finish_next FDone l = l\<lparr>l_fin := FGone\<rparr>"
| "finish_next _ l = l"

definition Finish :: "session_end \<Rightarrow> string \<Rightarrow> life \<Rightarrow> life" where
  "Finish reason detail l = finish_begin \<lparr>ee_Reason = reason, ee_Detail = detail, ee_Public = False\<rparr> l"

definition FinishSaying :: "session_end \<Rightarrow> string \<Rightarrow> life \<Rightarrow> life" where
  "FinishSaying reason detail l = finish_begin \<lparr>ee_Reason = reason, ee_Detail = detail, ee_Public = True\<rparr> l"

definition FinishWith :: "ended \<Rightarrow> life \<Rightarrow> life" where
  "FinishWith e l = finish_begin e l"

definition life_Close :: "life \<Rightarrow> life" where
  "life_Close l = Finish SessionClosed '''' l"

text \<open>\<open>Abandon\<close>: its critical section, then the cancel and the close of the interpreters.\<close>

definition abandoned :: ended where
  "abandoned = \<lparr>ee_Reason = SessionClosed, ee_Detail = ''abandoned before a caller held it'', ee_Public = True\<rparr>"

definition abandon_end :: "life \<Rightarrow> life" where
  "abandon_end l = stop_timer (if l_end l = None then l\<lparr>l_end := Some abandoned\<rparr> else l)"

definition abandon_rest :: "life \<Rightarrow> life" where
  "abandon_rest l = l\<lparr>l_cancelled := True, l_interps := ip_Close (l_interps l)\<rparr>"

subsection \<open>Refusals\<close>

definition RefuseEndedSession :: "goerr option \<Rightarrow> goerr option" where
  "RefuseEndedSession e = not_dispatched RefusalRequest e"

definition RefuseUnreadable :: "goerr \<Rightarrow> goerr option" where
  "RefuseUnreadable e = not_dispatched RefusalEnvironment (Some e)"

text \<open>\<open>ctx.Err()\<close>: which of the two ends the caller's context had.\<close>

definition RefuseGaveUp :: "sentinel \<Rightarrow> goerr option" where
  "RefuseGaveUp ctxErr = not_dispatched RefusalCapacity (Some (Sentinel ctxErr))"

subsection \<open>Goroutines that use the session\<close>

text \<open>What a use of the session returns: an error, nil as the code has it if it is None.\<close>

datatype session_op = OpCall | OpSuspend | OpHold

datatype actor_phase =
    AWaiting
  | AHasTurn
  | AAcquired
  | AResuming
  | AReading
  | AReadBack
  | AHanding
  | AReady bool
  | ARunning
  | ADone
  | ASweeping
  | AUnproven
  | ASuspending
  | AHolding
  | AReleasing "goerr option"
  | AOver "goerr option"

text \<open>\<open>AReady live\<close>: \<open>Call\<close> has returned; \<open>live\<close> says whether the call's context was live then.\<close>

text \<open>\<open>acquire\<close> returns \<open>r\<close>: a nil error reads as the turn taken.\<close>

definition acq_return :: "goerr option \<Rightarrow> actor_phase" where
  "acq_return r = (case r of None \<Rightarrow> AAcquired | Some e \<Rightarrow> AOver (Some e))"

definition acq_enter :: "life \<Rightarrow> actor_phase" where
  "acq_enter l = (if l_end l \<noteq> None then acq_return (RefuseEndedSession (life_Err l)) else AWaiting)"

definition acq_turn :: "life \<Rightarrow> life \<times> actor_phase" where
  "acq_turn l = (l\<lparr>l_turn := True\<rparr>, AHasTurn)"

definition acq_ended :: "life \<Rightarrow> actor_phase" where
  "acq_ended l = acq_return (RefuseEndedSession (life_Err l))"

definition acq_gaveup :: "sentinel \<Rightarrow> actor_phase" where
  "acq_gaveup ctxErr = acq_return (RefuseGaveUp ctxErr)"

definition acq_check :: "sentinel option \<Rightarrow> life \<Rightarrow> actor_phase" where
  "acq_check ctxErr l =
     (if l_end l \<noteq> None then AReleasing (RefuseEndedSession (life_Err l))
      else case ctxErr of Some c \<Rightarrow> AReleasing (RefuseGaveUp c) | None \<Rightarrow> AAcquired)"

definition release :: "goerr option \<Rightarrow> life \<Rightarrow> life \<times> actor_phase" where
  "release r l = (l\<lparr>l_turn := False\<rparr>, AOver r)"

text \<open>\<open>prepare\<close>: resume a suspended sandbox, then read it back.\<close>

definition prep_begin :: "life \<Rightarrow> actor_phase" where
  "prep_begin l = (if l_suspended l then AResuming else AReading)"

definition prep_resume :: "string option \<Rightarrow> life \<Rightarrow> life \<times> actor_phase" where
  "prep_resume err l = (case err of
     Some text \<Rightarrow> let l = Finish SessionBoundaryFailed text l in (l, AReleasing (RefuseEndedSession (life_Err l)))
   | None \<Rightarrow> (l\<lparr>l_suspended := False\<rparr>, AReading))"

datatype read_back = ReadOk | ReadEnds ended | ReadFails goerr

definition prep_read :: "read_back \<Rightarrow> sentinel option \<Rightarrow> life \<Rightarrow> life \<times> actor_phase" where
  "prep_read r ctxErr l = (case r of
     ReadOk \<Rightarrow> (l, AReadBack)
   | ReadEnds e \<Rightarrow> let l = FinishWith e l in (l, AReleasing (RefuseEndedSession (life_Err l)))
   | ReadFails e \<Rightarrow> (l, AReleasing (case ctxErr of Some c \<Rightarrow> RefuseGaveUp c | None \<Rightarrow> RefuseUnreadable e)))"

text \<open>\<open>Call\<close> once the sandbox is ready: the last check, then the call's context, which is
  cancelled at once if the session's already is.\<close>

definition call_check :: "life \<Rightarrow> actor_phase" where
  "call_check l = (if l_end l \<noteq> None then AReleasing (RefuseEndedSession (life_Err l)) else AHanding)"

definition call_hand :: "life \<Rightarrow> actor_phase" where
  "call_hand l = AReady (\<not> l_cancelled l)"

text \<open>\<open>Suspend\<close>.\<close>

definition sus_begin :: "life \<Rightarrow> actor_phase" where
  "sus_begin l = (if l_suspended l then AReleasing None else ASuspending)"

definition sus_end :: "string option \<Rightarrow> life \<Rightarrow> life \<times> actor_phase" where
  "sus_end err l = (case err of
     Some text \<Rightarrow> let l = Finish SessionBoundaryFailed text l in (l, AReleasing (life_Err l))
   | None \<Rightarrow> (l\<lparr>l_suspended := True\<rparr>, AReleasing None))"

subsection \<open>The boundary between calls\<close>

text \<open>An exec of one of plimsoll's own programs: whether it gave an error, and its result.\<close>

type_synonym control_exec = "goerr option \<times> exec_result"

definition SweepClean :: int where "SweepClean = 0"
definition SweepOverBudget :: int where "SweepOverBudget = 10"
definition SweepUnmeasurable :: int where "SweepUnmeasurable = 11"
definition QuiesceClean :: int where "QuiesceClean = 0"

text \<open>The texts of the two disk ends are parameters: \<open>texts\<close> gives \<open>overBudget\<close> and
  \<open>unmeasurable\<close>.\<close>

definition bnd_enter :: "life \<Rightarrow> actor_phase" where
  "bnd_enter l = (if l_end l \<noteq> None then AReleasing None else ASweeping)"

definition bnd_swept :: "(int \<Rightarrow> string) \<times> string \<Rightarrow> control_exec \<Rightarrow> life \<Rightarrow> life \<times> actor_phase" where
  "bnd_swept texts res l = (case res of (err, out) \<Rightarrow>
     if l_end l \<noteq> None then (l, AReleasing None)
     else if err = None \<and> er_Exited out \<and> er_ExitCode out = SweepClean then
       (l\<lparr>l_interps := Settled (l_interps l), l_unswept := False\<rparr>, AReleasing None)
     else if err = None \<and> er_Exited out \<and> er_ExitCode out = SweepOverBudget then
       (FinishSaying SessionDiskExceeded (fst texts (l_disk l)) l, AReleasing None)
     else if err = None \<and> er_Exited out \<and> er_ExitCode out = SweepUnmeasurable then
       (FinishSaying SessionDiskExceeded (snd texts) l, AReleasing None)
     else (l, AUnproven))"

text \<open>\<open>Unproven\<close>: the provider ends the session, or answers nil, which says that it gave the next call
  its sandbox another way (a restart).\<close>

definition bnd_unproven :: "ended option \<Rightarrow> life \<Rightarrow> life \<times> actor_phase" where
  "bnd_unproven e l = (case e of
     Some e \<Rightarrow> (FinishWith e l, AReleasing None)
   | None \<Rightarrow> (l\<lparr>l_unswept := False\<rparr>, AReleasing None))"

text \<open>\<open>Quiesce\<close>, with the turn held before a call: \<open>has\<close> says whether the provider needs one,
  \<open>res\<close> is what it gave, \<open>ctxErr\<close> the caller's context and \<open>unproven\<close> the answer of
  \<open>Unproven\<close>.\<close>

definition Quiesce :: "bool \<Rightarrow> control_exec \<Rightarrow> sentinel option \<Rightarrow> ended option \<Rightarrow> goerr \<Rightarrow> life \<Rightarrow> goerr option \<times> life" where
  "Quiesce has res ctxErr unproven why l =
     (if \<not> has then (None, l)
      else if Guests (l_interps l) = [] \<and> \<not> ip_stale (l_interps l) then (None, l)
      else case res of (err, out) \<Rightarrow>
        if err = None \<and> er_Exited out \<and> er_ExitCode out = QuiesceClean then
          (None, l\<lparr>l_interps := Settled (DropAll (l_interps l))\<rparr>)
        else if \<not> er_Exited out then
          (if l_end l \<noteq> None then (RefuseEndedSession (life_Err l), l)
           else case ctxErr of Some c \<Rightarrow> (RefuseGaveUp c, l) | None \<Rightarrow> (RefuseUnreadable why, l))
        else
          let l = (case unproven of Some e \<Rightarrow> FinishWith e l | None \<Rightarrow> l)
          in if l_end l \<noteq> None then (RefuseEndedSession (life_Err l), l) else (RefuseUnreadable why, l))"

text \<open>\<open>CallError\<close>: \<open>runErr\<close> is \<open>deadline.Expired(runCtx)\<close>.\<close>

definition CallError :: "sentinel option \<Rightarrow> goerr \<Rightarrow> life \<Rightarrow> goerr" where
  "CallError runErr e l = (case l_end l of
     Some x \<Rightarrow> EndedErr x
   | None \<Rightarrow> (case runErr of Some c \<Rightarrow> Sentinel c | None \<Rightarrow> e))"

subsection \<open>All of it side by side\<close>

record actor =
  ac_op :: session_op
  ac_phase :: actor_phase

text \<open>
  The actions of one actor: \<open>act op p l = (l', p')\<close> relations, one rule each. A call
  that \<open>Quiesce\<close> refused, or whose provider gave up before it dispatched anything, still
  runs \<open>done\<close>, and so the boundary.
\<close>

inductive actor_step :: "session_op \<Rightarrow> life \<Rightarrow> actor_phase \<Rightarrow> life \<Rightarrow> actor_phase \<Rightarrow> bool" where
  turn: "\<not> l_turn l \<Longrightarrow> acq_turn l = (l', p) \<Longrightarrow> actor_step op l AWaiting l' p"
| ended: "l_cancelled l \<Longrightarrow> actor_step op l AWaiting l (acq_ended l)"
| gaveup: "actor_step op l AWaiting l (acq_gaveup c)"
| check: "actor_step op l AHasTurn l (acq_check c l)"
| prepare: "op = OpCall \<Longrightarrow> actor_step op l AAcquired l (prep_begin l)"
| resume: "prep_resume err l = (l', p) \<Longrightarrow> actor_step op l AResuming l' p"
| read: "prep_read r c l = (l', p) \<Longrightarrow> actor_step op l AReading l' p"
| last_check: "actor_step op l AReadBack l (call_check l)"
| hand: "actor_step op l AHanding l (call_hand l)"
| after_func: "l_cancelled l \<Longrightarrow> actor_step op l (AReady b) l (AReady False)"
| quiesce: "Quiesce has res c u why l = (e, l') \<Longrightarrow> actor_step op l (AReady b) l' (if e = None then AReady b else ADone)"
| dispatch: "actor_step op l (AReady b) (l\<lparr>l_unswept := True\<rparr>) ARunning"
| cells: "actor_step op l ARunning (l\<lparr>l_interps := snd (interp_step pg ev (l_interps l))\<rparr>) ARunning"
| nothing_ran: "actor_step op l (AReady b) l ADone"
| answered: "actor_step op l ARunning l ADone"
| boundary: "actor_step op l ADone l (bnd_enter l)"
| swept: "bnd_swept texts res l = (l', p) \<Longrightarrow> actor_step op l ASweeping l' p"
| unproven: "bnd_unproven u l = (l', p) \<Longrightarrow> actor_step op l AUnproven l' p"
| suspend: "op = OpSuspend \<Longrightarrow> actor_step op l AAcquired l (sus_begin l)"
| suspended: "sus_end err l = (l', p) \<Longrightarrow> actor_step op l ASuspending l' p"
| hold: "op = OpHold \<Longrightarrow> actor_step op l AAcquired l AHolding"
| held: "actor_step op l AHolding l (AReleasing None)"
| give: "release r l = (l', p) \<Longrightarrow> actor_step op l (AReleasing r) l' p"

type_synonym life_state = "life \<times> actor list"

text \<open>Any end at any time (a close, the lifetime's timer, a drain, a watcher of the sandbox),
  the parts of \<open>finish\<close>, an \<open>Abandon\<close>, before or after an \<open>Activate\<close> that failed, and the actors.\<close>

inductive life_step :: "life_state \<Rightarrow> life_state \<Rightarrow> bool" where
  enters: "life_step (l, as) (l, as @ [\<lparr>ac_op = op, ac_phase = acq_enter l\<rparr>])"
| acts: "i < length as \<Longrightarrow> actor_step (ac_op (as ! i)) l (ac_phase (as ! i)) l' p \<Longrightarrow>
     life_step (l, as) (l', as[i := (as ! i)\<lparr>ac_phase := p\<rparr>])"
| ends: "life_step (l, as) (finish_begin e l, as)"
| ending: "l_fin l \<noteq> FNone \<Longrightarrow> life_step (l, as) (finish_next (l_fin l) l, as)"
| abandons: "life_step (l, as) (abandon_end l, as)"
| abandoned: "l_end l \<noteq> None \<Longrightarrow> life_step (l, as) (abandon_rest l, as)"
| activates: "l_end l = None \<Longrightarrow> life_step (l, as) (l\<lparr>l_expires := t, l_disk := d, l_reg := True\<rparr>, as)"
| arms: "l_end l = None \<Longrightarrow> life_step (l, as) (l\<lparr>l_timer := Armed\<rparr>, as)"
| baseline: "life_step (l, as) (SetBaseline keep l, as)"

definition life_init :: "life_state \<Rightarrow> bool" where
  "life_init s \<longleftrightarrow> s = (NewLife, [])"

subsection \<open>One call at a time, after the boundary of the last\<close>

lemmas life_defs = acq_return_def acq_enter_def acq_turn_def acq_ended_def acq_gaveup_def acq_check_def release_def
  prep_begin_def prep_resume_def prep_read_def call_check_def call_hand_def sus_begin_def sus_end_def bnd_enter_def
  bnd_swept_def bnd_unproven_def Finish_def FinishSaying_def FinishWith_def life_Err_def
  RefuseEndedSession_def RefuseGaveUp_def RefuseUnreadable_def not_dispatched_def Let_def

text \<open>\<open>holds\<close>: the actor has the turn. \<open>leaves\<close>: its call's code may have run and its boundary has not reported.\<close>

fun holds :: "actor_phase \<Rightarrow> bool" where
  "holds AWaiting = False"
| "holds (AOver r) = False"
| "holds _ = True"

fun leaves :: "actor_phase \<Rightarrow> bool" where
  "leaves ARunning = True"
| "leaves ADone = True"
| "leaves ASweeping = True"
| "leaves AUnproven = True"
| "leaves _ = False"

fun handed :: "actor_phase \<Rightarrow> bool" where
  "handed AHanding = True"
| "handed (AReady b) = True"
| "handed _ = False"

fun awake :: "actor_phase \<Rightarrow> bool" where
  "awake AReading = True"
| "awake AReadBack = True"
| "awake p = (handed p \<or> leaves p)"

lemma handed_holds [simp]: "handed p \<Longrightarrow> holds p" "leaves p \<Longrightarrow> holds p" "awake p \<Longrightarrow> holds p"
  by (cases p; simp)+

text \<open>What holds of a session whose turn is with an actor in phase \<open>hp\<close>, or with none.\<close>

definition life_ok :: "life \<Rightarrow> actor_phase option \<Rightarrow> bool" where
  "life_ok l hp \<longleftrightarrow> l_turn l = (hp \<noteq> None) \<and>
     (l_unswept l \<and> l_end l = None \<longrightarrow> (\<exists>p. hp = Some p \<and> leaves p)) \<and>
     (\<forall>p. hp = Some p \<longrightarrow> (handed p \<longrightarrow> \<not> l_unswept l) \<and> (awake p \<longrightarrow> \<not> l_suspended l)) \<and>
     (l_cancelled l \<longrightarrow> l_end l \<noteq> None) \<and> (l_fin l \<noteq> FNone \<longrightarrow> l_end l \<noteq> None) \<and>
     l_teardowns l = of_bool (l_fin l \<in> {FTorn, FDone, FGone}) \<and> l_done l = (l_fin l \<in> {FDone, FGone})"

lemma finish_begin_simps [simp]:
  "l_end (finish_begin e l) = Some (case l_end l of None \<Rightarrow> e | Some x \<Rightarrow> x)"
  "l_turn (finish_begin e l) = l_turn l" "l_unswept (finish_begin e l) = l_unswept l"
  "l_suspended (finish_begin e l) = l_suspended l" "l_cancelled (finish_begin e l) = l_cancelled l"
  "l_teardowns (finish_begin e l) = l_teardowns l" "l_done (finish_begin e l) = l_done l"
  "l_fin (finish_begin e l) = (if l_end l = None then FEnded else l_fin l)"
  by (auto simp: finish_begin_def stop_timer_def split: option.splits)

lemma finish_begin_ok: "life_ok l hp \<Longrightarrow> life_ok (finish_begin e l) hp"
  by (auto simp: life_ok_def)

lemma finish_next_ok: "life_ok l hp \<Longrightarrow> l_fin l \<noteq> FNone \<Longrightarrow> life_ok (finish_next (l_fin l) l) hp"
  by (cases "l_fin l") (auto simp: life_ok_def finish_cancel_def finish_close_def finish_teardown_def finish_done_def)

lemma Quiesce_keeps:
  "Quiesce has res c u why l = (e, l') \<Longrightarrow> l_turn l' = l_turn l \<and> l_unswept l' = l_unswept l \<and> l_suspended l' = l_suspended l \<and>
     l_cancelled l' = l_cancelled l \<and> l_teardowns l' = l_teardowns l \<and> l_done l' = l_done l \<and>
     (l_end l' = l_end l \<and> l_fin l' = l_fin l \<or> l_end l = None \<and> l_end l' \<noteq> None \<and> l_fin l' = FEnded)"
  by (auto simp: Quiesce_def Let_def FinishWith_def split: if_splits prod.splits option.splits)

text \<open>The holder's phase after an actor moved from \<open>p\<close> to \<open>p'\<close>.\<close>

definition now_held :: "actor_phase \<Rightarrow> actor_phase \<Rightarrow> actor_phase option \<Rightarrow> actor_phase option" where
  "now_held p p' hp = (if holds p' then Some p' else if holds p then None else hp)"

lemma ok_move:
  "life_ok l (Some p) \<Longrightarrow> holds p' \<Longrightarrow> \<not> (handed p' \<and> l_unswept l) \<Longrightarrow> \<not> (awake p' \<and> l_suspended l) \<Longrightarrow>
     (l_unswept l \<Longrightarrow> l_end l = None \<Longrightarrow> leaves p') \<Longrightarrow> life_ok l (Some p')"
  by (auto simp: life_ok_def)

lemma ok_facts:
  "life_ok l (Some p) \<Longrightarrow> (l_unswept l \<and> l_end l = None \<longrightarrow> leaves p) \<and> (handed p \<longrightarrow> \<not> l_unswept l) \<and> (awake p \<longrightarrow> \<not> l_suspended l)"
  by (auto simp: life_ok_def)

lemma ended_err: "l_end l \<noteq> None \<Longrightarrow> \<exists>e. RefuseEndedSession (life_Err l) = Some (NotDispatchedError RefusalRequest (EndedErr e))"
  by (auto simp: life_defs)

lemma releasing_ok: "life_ok l (Some p) \<Longrightarrow> l_end l \<noteq> None \<Longrightarrow> life_ok l (Some (AReleasing r))"
  by (erule ok_move) auto

lemma ends_ok: "life_ok l (Some p) \<Longrightarrow> life_ok (finish_begin e l) (Some (AReleasing r))"
  by (rule releasing_ok [OF finish_begin_ok]) auto

lemma prep_resume_ok:
  "prep_resume err l = (l', p') \<Longrightarrow> life_ok l (Some AResuming) \<Longrightarrow> holds p' \<and> life_ok l' (Some p')"
  by (cases err) (auto simp: prep_resume_def Let_def Finish_def intro: ends_ok, auto simp: life_ok_def)

lemma prep_read_ok:
  "prep_read r c l = (l', p') \<Longrightarrow> life_ok l (Some AReading) \<Longrightarrow> holds p' \<and> life_ok l' (Some p')"
  by (cases r) (auto simp: prep_read_def Let_def FinishWith_def intro: ends_ok, auto simp: life_ok_def)

lemma sus_end_ok:
  "sus_end err l = (l', p') \<Longrightarrow> life_ok l (Some ASuspending) \<Longrightarrow> holds p' \<and> life_ok l' (Some p')"
  by (cases err) (auto simp: sus_end_def Let_def Finish_def intro: ends_ok, auto simp: life_ok_def)

lemma bnd_unproven_ok:
  "bnd_unproven u l = (l', p') \<Longrightarrow> life_ok l (Some AUnproven) \<Longrightarrow> holds p' \<and> life_ok l' (Some p')"
  by (cases u) (auto simp: bnd_unproven_def FinishWith_def intro: ends_ok, auto simp: life_ok_def)

lemma bnd_swept_ok:
  "bnd_swept texts res l = (l', p') \<Longrightarrow> life_ok l (Some ASweeping) \<Longrightarrow> holds p' \<and> life_ok l' (Some p')"
  by (auto simp: bnd_swept_def FinishSaying_def split: prod.splits if_splits intro: ends_ok releasing_ok)
    (auto simp: life_ok_def)

lemma quiesce_ok:
  assumes "Quiesce has res c u why l = (e, l')" and "life_ok l (Some (AReady b))"
  shows "life_ok l' (Some (if e = None then AReady b else ADone))"
  using Quiesce_keeps [OF assms(1)] assms(2) by (auto simp: life_ok_def)

lemma release_ok: "life_ok l (Some (AReleasing r)) \<Longrightarrow> life_ok (l\<lparr>l_turn := False\<rparr>) None"
  by (auto simp: life_ok_def)

lemma dispatch_ok: "life_ok l (Some (AReady b)) \<Longrightarrow> life_ok (l\<lparr>l_unswept := True\<rparr>) (Some ARunning)"
  by (auto simp: life_ok_def)

lemma interps_ok: "life_ok (l\<lparr>l_interps := x\<rparr>) hp = life_ok l hp"
  by (simp add: life_ok_def)

lemma actor_step_ok:
  assumes "actor_step op l p l' p'" and "life_ok l hp" and "holds p \<Longrightarrow> hp = Some p"
  shows "life_ok l' (now_held p p' hp)"
  using assms
proof (cases rule: actor_step.cases)
  case turn
  with assms(2) show ?thesis by (auto simp: life_ok_def now_held_def acq_turn_def)
next
  case ended
  with assms(2) have "l_end l \<noteq> None" by (simp add: life_ok_def)
  with ended ended_err [OF this] assms(2) show ?thesis by (auto simp: now_held_def acq_ended_def acq_return_def)
next
  case (gaveup c)
  with assms(2) show ?thesis by (auto simp: now_held_def life_defs)
next
  case (give r)
  with assms(2,3) release_ok [of l r] show ?thesis by (auto simp: now_held_def release_def)
next
  case (resume err)
  with assms(2,3) prep_resume_ok [of err l l' p'] show ?thesis by (simp add: now_held_def)
next
  case (read r c)
  with assms(2,3) prep_read_ok [of r c l l' p'] show ?thesis by (simp add: now_held_def)
next
  case (suspended err)
  with assms(2,3) sus_end_ok [of err l l' p'] show ?thesis by (simp add: now_held_def)
next
  case (unproven u)
  with assms(2,3) bnd_unproven_ok [of u l l' p'] show ?thesis by (simp add: now_held_def)
next
  case (swept texts res)
  with assms(2,3) bnd_swept_ok [of texts res l l' p'] show ?thesis by (simp add: now_held_def)
next
  case (quiesce has res c u why e b)
  with assms(2,3) quiesce_ok [OF quiesce(3)] show ?thesis by (simp add: now_held_def)
next
  case (dispatch b)
  with assms(2,3) dispatch_ok [of l b] show ?thesis by (simp add: now_held_def)
next
  case cells
  with assms(2,3) show ?thesis by (simp add: now_held_def interps_ok)
qed (use assms(2,3) ok_facts [of l p] in \<open>auto simp: now_held_def acq_check_def prep_begin_def call_check_def call_hand_def
    bnd_enter_def sus_begin_def split: if_splits option.splits intro!: ok_move [of l p]\<close>)

text \<open>Who holds the turn: at most one actor, the one whose phase is \<open>hp\<close>.\<close>

definition turn_with :: "actor list \<Rightarrow> actor_phase option \<Rightarrow> bool" where
  "turn_with as hp \<longleftrightarrow>
     (case hp of
        None \<Rightarrow> \<forall>j < length as. \<not> holds (ac_phase (as ! j))
      | Some p \<Rightarrow> \<exists>i < length as. ac_phase (as ! i) = p \<and> holds p \<and> (\<forall>j < length as. j \<noteq> i \<longrightarrow> \<not> holds (ac_phase (as ! j))))"

definition life_inv :: "life_state \<Rightarrow> bool" where
  "life_inv s \<longleftrightarrow> (\<exists>hp. turn_with (snd s) hp \<and> life_ok (fst s) hp)"

lemma turn_with_holder:
  "turn_with as hp \<Longrightarrow> i < length as \<Longrightarrow> holds (ac_phase (as ! i)) \<Longrightarrow>
     hp = Some (ac_phase (as ! i)) \<and> (\<forall>j < length as. j \<noteq> i \<longrightarrow> \<not> holds (ac_phase (as ! j)))"
  by (cases hp) (auto simp: turn_with_def)

lemma turn_with_none: "turn_with as hp \<Longrightarrow> hp = None \<or> (\<exists>i < length as. hp = Some (ac_phase (as ! i)) \<and> holds (ac_phase (as ! i)))"
  by (cases hp) (auto simp: turn_with_def)

lemma turn_with_move:
  assumes "turn_with as hp" and i: "i < length as" and "holds p' \<Longrightarrow> \<not> holds (ac_phase (as ! i)) \<Longrightarrow> hp = None"
  shows "turn_with (as[i := (as ! i)\<lparr>ac_phase := p'\<rparr>]) (now_held (ac_phase (as ! i)) p' hp)"
proof (cases "holds (ac_phase (as ! i))")
  case True
  with turn_with_holder [OF assms(1) i] i show ?thesis
    by (auto simp: turn_with_def now_held_def nth_list_update)
next
  case False
  show ?thesis
  proof (cases "holds p'")
    case True
    with assms(1,3) False i show ?thesis by (auto simp: turn_with_def now_held_def nth_list_update)
  next
    case no: False
    with False have n: "now_held (ac_phase (as ! i)) p' hp = hp" by (simp add: now_held_def)
    show ?thesis
    proof (cases hp)
      case None
      with assms(1) no i n show ?thesis by (auto simp: turn_with_def nth_list_update)
    next
      case (Some p)
      with assms(1) obtain k where k: "k < length as" "ac_phase (as ! k) = p" "holds p"
        "\<forall>j < length as. j \<noteq> k \<longrightarrow> \<not> holds (ac_phase (as ! j))" by (auto simp: turn_with_def)
      with False have "k \<noteq> i" by auto
      with k no i n Some show ?thesis by (auto simp: turn_with_def nth_list_update intro!: exI [of _ k])
    qed
  qed
qed

lemma turn_with_enter: "turn_with as hp \<Longrightarrow> \<not> holds (ac_phase a) \<Longrightarrow> turn_with (as @ [a]) hp"
proof (cases hp)
  case (Some p)
  assume "turn_with as hp" "\<not> holds (ac_phase a)"
  with Some obtain k where "k < length as" "ac_phase (as ! k) = p" "holds p"
    "\<forall>j < length as. j \<noteq> k \<longrightarrow> \<not> holds (ac_phase (as ! j))" by (auto simp: turn_with_def)
  with \<open>\<not> holds (ac_phase a)\<close> Some show ?thesis by (auto simp: turn_with_def nth_append less_Suc_eq intro!: exI [of _ k])
qed (auto simp: turn_with_def nth_append less_Suc_eq)

lemma takes_free_turn: "actor_step op l p l' p' \<Longrightarrow> life_ok l hp \<Longrightarrow> holds p' \<Longrightarrow> \<not> holds p \<Longrightarrow> hp = None"
  by (erule actor_step.cases) (use ended_err [of l] in \<open>auto simp: life_ok_def acq_turn_def acq_ended_def acq_gaveup_def acq_return_def RefuseGaveUp_def not_dispatched_def\<close>)

lemma life_inv_step: "life_step s t \<Longrightarrow> life_inv s \<Longrightarrow> life_inv t"
proof (induction rule: life_step.induct)
  case (enters l as op)
  have "\<not> holds (acq_enter l)" using ended_err [of l] by (auto simp: acq_enter_def acq_return_def)
  with enters turn_with_enter [of as _ "\<lparr>ac_op = op, ac_phase = acq_enter l\<rparr>"] show ?case by (auto simp: life_inv_def)
next
  case (acts i as l l' p)
  then obtain hp where hp: "turn_with as hp" "life_ok l hp" by (auto simp: life_inv_def)
  have "life_ok l' (now_held (ac_phase (as ! i)) p hp)"
    using actor_step_ok [OF acts(2) hp(2)] turn_with_holder [OF hp(1) acts(1)] by blast
  moreover have "turn_with (as[i := (as ! i)\<lparr>ac_phase := p\<rparr>]) (now_held (ac_phase (as ! i)) p hp)"
    using turn_with_move [OF hp(1) acts(1)] takes_free_turn [OF acts(2) hp(2)] by blast
  ultimately show ?case by (auto simp: life_inv_def)
next
  case (ends l as e)
  then show ?case by (auto simp: life_inv_def intro: finish_begin_ok)
next
  case (ending l as)
  then show ?case by (auto simp: life_inv_def intro: finish_next_ok)
qed (auto simp: life_inv_def life_ok_def abandon_end_def abandon_rest_def stop_timer_def SetBaseline_def)

interpretation session: inductive_invariant life_init life_step life_inv
proof
  fix s
  assume "life_init s"
  then show "life_inv s"
    by (auto simp: life_init_def life_inv_def NewLife_def life_ok_def turn_with_def intro!: exI [of _ None])
qed (rule life_inv_step)

subsection \<open>After the end\<close>

text \<open>\<open>let_in\<close>: the last check of \<open>Call\<close> has let the actor's call pass.\<close>

definition let_in :: "actor_phase \<Rightarrow> bool" where
  "let_in p \<longleftrightarrow> handed p \<or> leaves p"

lemma actor_step_end:
  assumes "actor_step op l p l' p'" and "l_end l = Some e"
  shows "l_end l' = Some e \<and> (let_in p' \<longrightarrow> let_in p)"
  using assms
proof (cases rule: actor_step.cases)
  case (quiesce has res c u why x b)
  with Quiesce_keeps [OF quiesce(3)] assms(2) show ?thesis by (auto simp: let_in_def)
next
  case (swept texts res)
  with assms(2) show ?thesis by (auto simp: bnd_swept_def let_in_def split: prod.splits)
qed (use assms(2) ended_err [of l] in \<open>auto simp: let_in_def acq_return_def acq_turn_def acq_ended_def acq_gaveup_def acq_check_def release_def
  prep_begin_def prep_resume_def prep_read_def call_check_def call_hand_def sus_begin_def sus_end_def bnd_enter_def
  bnd_unproven_def Finish_def FinishWith_def RefuseGaveUp_def not_dispatched_def Let_def split: option.splits read_back.splits\<close>)

lemma finish_next_end [simp]: "l_end (finish_next p l) = l_end l"
  by (cases p) (simp_all add: finish_cancel_def finish_close_def finish_teardown_def finish_done_def)

lemma life_step_end:
  "life_step s t \<Longrightarrow> l_end (fst s) = Some e \<Longrightarrow> l_end (fst t) = Some e"
  by (induction rule: life_step.induct)
    (auto simp: abandon_end_def abandon_rest_def stop_timer_def SetBaseline_def dest: actor_step_end)

definition late_calls_refused :: "life_state \<Rightarrow> life_state \<Rightarrow> bool" where
  "late_calls_refused s t \<longleftrightarrow> length (snd s) \<le> length (snd t) \<and> (\<forall>i < length (snd t).
     (i < length (snd s) \<and> \<not> let_in (ac_phase (snd s ! i)) \<longrightarrow> \<not> let_in (ac_phase (snd t ! i))) \<and>
     (length (snd s) \<le> i \<longrightarrow> ac_phase (snd t ! i) = AOver (RefuseEndedSession (life_Err (fst s)))))"

lemma over_is_over: "actor_step op l (AOver r) l' p \<Longrightarrow> False"
  by (erule actor_step.cases) auto

lemma life_step_late:
  assumes "life_step t u" and "late_calls_refused s t" and "l_end (fst s) = Some e" and "l_end (fst t) = Some e"
  shows "late_calls_refused s u"
  using assms
proof (induction rule: life_step.induct)
  case (enters l as op)
  obtain x where "RefuseEndedSession (life_Err l) = Some x" "life_Err l = life_Err (fst s)"
    using ended_err [of l] enters by (auto simp: life_Err_def)
  with enters show ?case by (auto simp: late_calls_refused_def nth_append less_Suc_eq acq_enter_def acq_return_def)
next
  case (acts i as l l' p)
  have "let_in p \<Longrightarrow> let_in (ac_phase (as ! i))" using actor_step_end [OF acts(2)] acts(5) by simp
  moreover have "ac_phase (as ! i) \<noteq> AOver r" for r using over_is_over acts(2) by metis
  ultimately show ?case using acts(1,3) by (cases "i < length (snd s)") (auto simp: late_calls_refused_def nth_list_update)
qed (auto simp: late_calls_refused_def)

lemma after_end:
  assumes "life_step\<^sup>*\<^sup>* s t" and "l_end (fst s) = Some e"
  shows "l_end (fst t) = Some e \<and> late_calls_refused s t"
  using assms
proof (induction rule: rtranclp_induct)
  case base
  then show ?case by (auto simp: late_calls_refused_def)
next
  case (step t u)
  with life_step_end [OF step(2)] life_step_late [OF step(2)] show ?case by blast
qed

subsection \<open>A cell's answer\<close>

text \<open>
  \<open>RefuseCell\<close>: \<open>ctxErr\<close> is the end of the call's context and \<open>e\<close> the session's, if any.
  The private text of a launch error is not modelled.
\<close>

definition RefuseCell :: "sentinel option \<Rightarrow> cell_error option \<Rightarrow> goerr option \<Rightarrow> goerr option" where
  "RefuseCell ctxErr err e = (case err of
     Some ErrLaunch \<Rightarrow>
       (if e \<noteq> None then RefuseEndedSession e
        else case ctxErr of
          Some c \<Rightarrow> RefuseGaveUp c
        | None \<Rightarrow> not_dispatched RefusalEnvironment (Some (Wrap [Sentinel ErrUnsupported, PrivateError (Opaque 0)])))
   | Some (ErrFiles f n) \<Rightarrow> not_dispatched RefusalRequest (Some (Wrap [Sentinel ErrInvalidRequest]))
   | Some ErrUnsent \<Rightarrow> not_dispatched RefusalCapacity (Some (Wrap [Sentinel DeadlineExceeded]))
   | _ \<Rightarrow> None)"

text \<open>The error values of the cell errors that are not refusals; \<open>execErr\<close> gives the provider's
  exec errors and \<open>c\<close> the context's.\<close>

definition cell_goerr :: "(nat \<Rightarrow> goerr) \<Rightarrow> sentinel \<Rightarrow> cell_error \<Rightarrow> goerr" where
  "cell_goerr execErr c e = (case e of ExecFailed n \<Rightarrow> execErr n | CtxEnded \<Rightarrow> Sentinel c | _ \<Rightarrow> Opaque 1)"

record cell_result =
  cr_Stdout :: string
  cr_Stderr :: string
  cr_StdoutTruncated :: bool
  cr_StderrTruncated :: bool
  cr_TimedOut :: bool
  cr_InterpreterStarted :: bool
  cr_InterpreterEnded :: bool
  cr_ExitCode :: int

definition cell_result_of :: "outcome \<Rightarrow> cell_result" where
  "cell_result_of out =
     \<lparr>cr_Stdout = er_Stdout (oc_result out), cr_Stderr = er_Stderr (oc_result out),
      cr_StdoutTruncated = er_StdoutTruncated (oc_result out), cr_StderrTruncated = er_StderrTruncated (oc_result out),
      cr_TimedOut = oc_TimedOut out, cr_InterpreterStarted = oc_Started out, cr_InterpreterEnded = oc_Ended out,
      cr_ExitCode = (if oc_TimedOut out then 124 else if oc_Raised out then 1 else 0)\<rparr>"

text \<open>\<open>l1\<close> and \<open>l2\<close> are the session when \<open>ended\<close> is asked the first and the second time, \<open>l3\<close>
  when \<open>callError\<close> is; \<open>stopped\<close> is the provider's check of the sandbox.\<close>

definition SessionCellResult :: "(nat \<Rightarrow> goerr) \<Rightarrow> sentinel option \<Rightarrow> sentinel option \<Rightarrow> outcome \<Rightarrow> cell_error option \<Rightarrow>
    life \<Rightarrow> life \<Rightarrow> life \<Rightarrow> ended option \<Rightarrow> goerr + cell_result" where
  "SessionCellResult execErr ctxErr runErr out err l1 l2 l3 stopped =
     (case RefuseCell ctxErr err (life_Err l1) of
        Some r \<Rightarrow> Inl r
      | None \<Rightarrow>
          (case err of
             Some e \<Rightarrow> Inl (CallError runErr (cell_goerr execErr (case ctxErr of Some c \<Rightarrow> c | None \<Rightarrow> Canceled) e) l3)
           | None \<Rightarrow>
               if oc_Ended out \<and> \<not> oc_TimedOut out then
                 (case l_end l2 of
                    Some e \<Rightarrow> Inl (CallError runErr (EndedErr e) l3)
                  | None \<Rightarrow> (case stopped of Some e \<Rightarrow> Inl (EndedErr e) | None \<Rightarrow> Inr (cell_result_of out)))
               else Inr (cell_result_of out)))"

lemma RefuseCell_marked: "RefuseCell ctxErr err e = Some r \<Longrightarrow> snd (not_dispatched_reason (Some r)) \<and>
    (\<exists>x. err = Some x \<and> (x = ErrLaunch \<or> x = ErrUnsent \<or> (\<exists>f n. x = ErrFiles f n)))"
  by (auto simp: RefuseCell_def life_defs not_dispatched_reason_def split: option.splits cell_error.splits if_splits)

lemma RefuseCell_refuses: "err = ErrLaunch \<or> err = ErrUnsent \<or> (\<exists>f n. err = ErrFiles f n) \<Longrightarrow> RefuseCell ctxErr (Some err) e \<noteq> None"
  by (auto simp: RefuseCell_def life_defs split: option.splits)

lemma CallError_unmarked [simp]:
  "as_not_dispatched (CallError r (Sentinel c) l) = None" "as_not_dispatched (CallError r (EndedErr e) l) = None"
  by (simp_all add: CallError_def split: option.splits)

subsection \<open>Properties\<close>

lemma starts_from_ready: "actor_step op l p l' ARunning \<Longrightarrow> p = ARunning \<or> (\<exists>b. p = AReady b)"
  by (erule actor_step.cases) (auto simp: life_defs split: option.splits if_splits prod.splits read_back.splits)

text \<open>C18: Calls run one at a time, and never before the boundary of the call before has reported.
  Whenever the code of a call starts, its caller holds the session's only turn, the sandbox is not
  suspended, and if code of an earlier call was dispatched, then since the last of it a sweep has
  exited as clean or \<open>Unproven\<close> has answered that the session goes on. What the sweep spares,
  the session's files and its live interpreters, is shared between its calls.\<close>

theorem calls_wait_for_the_boundary:
  assumes "reach life_init life_step (l, as)" and "life_step (l, as) (l', as')" and "i < length as"
    and "ac_phase (as' ! i) = ARunning" and "ac_phase (as ! i) \<noteq> ARunning"
  shows "\<not> l_unswept l \<and> \<not> l_suspended l \<and> l_turn l \<and> (\<forall>j < length as. j \<noteq> i \<longrightarrow> \<not> holds (ac_phase (as ! j)))"
proof -
  obtain hp where hp: "turn_with as hp" "life_ok l hp" using session.reach_inv [OF assms(1)] by (auto simp: life_inv_def)
  from assms(2) obtain b where "ac_phase (as ! i) = AReady b"
  proof cases
    case (acts k p)
    with assms(3-5) have "k = i" "p = ARunning" by (auto simp: nth_list_update split: if_splits)
    with acts starts_from_ready assms(5) that show ?thesis by blast
  qed (use assms(3-5) in \<open>auto simp: nth_append\<close>)
  with turn_with_holder [OF hp(1) assms(3)] hp(2) show ?thesis by (auto simp: life_ok_def)
qed

text \<open>C19: A session ends once and for good. From the moment it has an end, that end stays; no call
  that had not passed its last check is let in any more; a call that comes later is
  refused at once, with that end, marked as not dispatched; the sandbox is torn down at
  most once, and \<open>Done\<close> closes only after the teardown has returned.\<close>

theorem ended_session_lets_no_call_in:
  assumes "reach life_init life_step (l, as)" and "l_end l = Some e" and "life_step\<^sup>*\<^sup>* (l, as) (l', as')"
  shows "l_end l' = Some e \<and> l_teardowns l' \<le> 1 \<and> (l_done l' \<longrightarrow> l_teardowns l' = 1) \<and>
    (\<forall>i < length as'. (i < length as \<longrightarrow> \<not> let_in (ac_phase (as ! i)) \<longrightarrow> \<not> let_in (ac_phase (as' ! i))) \<and>
       (length as \<le> i \<longrightarrow> ac_phase (as' ! i) = AOver (Some (NotDispatchedError RefusalRequest (EndedErr e)))))"
proof -
  have "life_inv (l', as')" using session.steps_inv [OF assms(3)] session.reach_inv [OF assms(1)] by blast
  then have "l_teardowns l' \<le> 1 \<and> (l_done l' \<longrightarrow> l_teardowns l' = 1)" by (auto simp: life_inv_def life_ok_def)
  moreover have "RefuseEndedSession (life_Err l) = Some (NotDispatchedError RefusalRequest (EndedErr e))"
    by (simp add: life_defs assms(2))
  ultimately show ?thesis using after_end [OF assms(3)] assms(2) by (auto simp: late_calls_refused_def)
qed

text \<open>C37: The mark of a cell's answer is true. An answer marked as not dispatched had none of the
  cell's code sent; a cell refused because its interpreter did not start, its files were
  not written or its deadline passed first is marked; and a cell with a result had its
  code sent.\<close>

theorem marked_cell_never_ran:
  assumes "RunRelayed pg rand w0 w1 rw c s = ((out, err), sent, s')"
    and "SessionCellResult execErr ctxErr runErr out err l1 l2 l3 stopped = res"
  shows "(\<forall>r. res = Inl r \<longrightarrow> snd (not_dispatched_reason (Some r)) \<longrightarrow> sent = None) \<and>
    (\<forall>x. err = Some x \<longrightarrow> x = ErrLaunch \<or> x = ErrUnsent \<or> (\<exists>f n. x = ErrFiles f n) \<longrightarrow>
       (\<exists>r. res = Inl r \<and> snd (not_dispatched_reason (Some r)))) \<and>
    (\<forall>r. res = Inr r \<longrightarrow> sent \<noteq> None)"
proof -
  have "announced UNIV s" by (simp add: announced_def)
  note cs = RunRelayed_cases [OF assms(1) this]
  show ?thesis
  proof (cases "RefuseCell ctxErr err (life_Err l1)")
    case (Some r)
    then have "res = Inl r" using assms(2) by (simp add: SessionCellResult_def)
    with RefuseCell_marked [OF Some] cs show ?thesis by auto
  next
    case None
    show ?thesis
    proof (cases err)
      case e: (Some x)
      then have "res = Inl (CallError runErr (cell_goerr execErr (case ctxErr of Some c \<Rightarrow> c | None \<Rightarrow> Canceled) x) l3)"
        using None assms(2) by (auto simp: SessionCellResult_def)
      moreover have "sent = None \<or> x = CtxEnded" using cs e by auto
      ultimately show ?thesis using None e RefuseCell_refuses [of x ctxErr "life_Err l1"]
        by (auto simp: cell_goerr_def not_dispatched_reason_def)
    next
      case n: None
      then have "sent \<noteq> None" using cs by auto
      moreover have "\<not> snd (not_dispatched_reason (Some r))" if "res = Inl r" for r
        using that assms(2) None n by (auto simp: SessionCellResult_def not_dispatched_reason_def split: if_splits option.splits)
      ultimately show ?thesis using n by auto
    qed
  qed
qed

subsection \<open>One call\<close>

definition demo_call :: "actor_phase \<Rightarrow> life_state" where
  "demo_call p = (NewLife\<lparr>l_turn := True\<rparr>, [\<lparr>ac_op = OpCall, ac_phase = p\<rparr>])"

lemma demo_moves:
  assumes "reach life_init life_step (demo_call p)" and "actor_step OpCall (NewLife\<lparr>l_turn := True\<rparr>) p (NewLife\<lparr>l_turn := True\<rparr>) p'"
  shows "reach life_init life_step (demo_call p')"
proof -
  have "life_step (demo_call p) (demo_call p')"
    using life_step.acts [of 0 "[\<lparr>ac_op = OpCall, ac_phase = p\<rparr>]"] assms(2) by (simp add: demo_call_def)
  with assms(1) show ?thesis by (rule reach.reach_step)
qed

lemma demo_ready: "reach life_init life_step (demo_call (AReady True))"
proof -
  have "reach life_init life_step (NewLife, [])" by (rule reach.reach_init) (simp add: life_init_def)
  moreover have "life_step (NewLife, []) (NewLife, [\<lparr>ac_op = OpCall, ac_phase = AWaiting\<rparr>])"
    using life_step.enters [of NewLife "[]" OpCall] by (simp add: acq_enter_def NewLife_def)
  moreover have "life_step (NewLife, [\<lparr>ac_op = OpCall, ac_phase = AWaiting\<rparr>]) (demo_call AHasTurn)"
    using life_step.acts [of 0 "[\<lparr>ac_op = OpCall, ac_phase = AWaiting\<rparr>]" NewLife] actor_step.turn [of NewLife _ _ OpCall]
    by (simp add: demo_call_def acq_turn_def NewLife_def)
  ultimately have 1: "reach life_init life_step (demo_call AHasTurn)" by (blast intro: reach.reach_step)
  let ?l = "NewLife\<lparr>l_turn := True\<rparr>"
  have 2: "reach life_init life_step (demo_call AAcquired)"
    by (rule demo_moves [OF 1]) (use actor_step.check [of OpCall ?l None] in \<open>simp add: acq_check_def NewLife_def\<close>)
  have 3: "reach life_init life_step (demo_call AReading)"
    by (rule demo_moves [OF 2]) (use actor_step.prepare [of OpCall ?l] in \<open>simp add: prep_begin_def NewLife_def\<close>)
  have 4: "reach life_init life_step (demo_call AReadBack)"
    by (rule demo_moves [OF 3], rule actor_step.read [of ReadOk None]) (simp add: prep_read_def)
  have 5: "reach life_init life_step (demo_call AHanding)"
    by (rule demo_moves [OF 4]) (use actor_step.last_check [of OpCall ?l] in \<open>simp add: call_check_def NewLife_def\<close>)
  show ?thesis
    by (rule demo_moves [OF 5]) (use actor_step.hand [of OpCall ?l] in \<open>simp add: call_hand_def NewLife_def\<close>)
qed

theorem calls_wait_for_the_boundary_witness:
  "reach life_init life_step (demo_call (AReady True)) \<and> \<not> l_unswept (fst (demo_call (AReady True))) \<and> l_turn (fst (demo_call (AReady True)))"
proof -
  let ?l = "NewLife\<lparr>l_turn := True\<rparr>" and ?a = "\<lparr>ac_op = OpCall, ac_phase = AReady True\<rparr>"
  have "life_step (?l, [?a]) (?l\<lparr>l_unswept := True\<rparr>, [?a\<lparr>ac_phase := ARunning\<rparr>])"
    using life_step.acts [of 0 "[?a]" ?l] actor_step.dispatch [of OpCall ?l True] by simp
  from calls_wait_for_the_boundary [OF _ this, of 0] demo_ready show ?thesis by (simp add: demo_call_def)
qed

theorem ended_session_lets_no_call_in_witness:
  "\<exists>e. l_end (life_Close (fst (demo_call (AReady True)))) = Some e \<and> ee_Reason e = SessionClosed \<and>
     l_teardowns (life_Close (fst (demo_call (AReady True)))) \<le> 1"
proof -
  let ?e = "\<lparr>ee_Reason = SessionClosed, ee_Detail = '''', ee_Public = False\<rparr>"
  let ?l = "finish_begin ?e (fst (demo_call (AReady True)))" and ?as = "snd (demo_call (AReady True))"
  have "life_step (demo_call (AReady True)) (?l, ?as)"
    using life_step.ends [of "fst (demo_call (AReady True))" ?as ?e] by simp
  with demo_ready have "reach life_init life_step (?l, ?as)" by (rule reach.reach_step)
  moreover have "l_end ?l = Some ?e" by (simp add: demo_call_def NewLife_def)
  ultimately show ?thesis using ended_session_lets_no_call_in [of ?l ?as ?e ?l ?as]
    by (simp add: life_Close_def Finish_def)
qed

theorem marked_cell_never_ran_witness:
  "(case SessionCellResult Opaque None None (fst (fst demo_answer)) (snd (fst demo_answer)) NewLife NewLife NewLife None of
      Inr r \<Rightarrow> cr_Stdout r = ''h'' \<and> cr_StdoutTruncated r | Inl e \<Rightarrow> False) \<and> fst (snd demo_answer) \<noteq> None"
proof -
  let ?res = "SessionCellResult Opaque None None (fst (fst demo_answer)) (snd (fst demo_answer)) NewLife NewLife NewLife None"
  have v: "case ?res of Inr r \<Rightarrow> cr_Stdout r = ''h'' \<and> cr_StdoutTruncated r | Inl e \<Rightarrow> False" by code_simp
  then obtain r where r: "?res = Inr r" by (auto split: sum.splits)
  obtain oc e sent s' where a: "demo_answer = ((oc, e), sent, s')" by (metis surj_pair)
  from marked_cell_never_ran [OF a, of Opaque None None NewLife NewLife NewLife None] r v show ?thesis by (simp add: a)
qed

end
