(* ===== verification/Session_Registry.thy ===== *)
theory Session_Registry
  imports Session_Life
begin

text \<open>
  A provider's open sessions, the type \<open>Registry\<close> of \<open>sandbox/internal/sessionkit/life.go\<close>:
  opens in flight, sessions handed over, removals still running, and a drain, which ends
  everything. \<open>Activate\<close> is cut at its three critical sections. A drain is the
  sequence \<open>Drain\<close>, \<open>Opened\<close>, \<open>EndAll\<close>, its wait, \<open>WaitRemovals\<close> that a provider's
  \<open>Drain\<close> makes (\<open>sandbox/docker_session.go\<close>).
\<close>

subsection \<open>The registry\<close>

text \<open>Sessions are numbered; \<open>rg_open\<close> is the set \<open>open\<close>, and the two wait groups are their
  counts.\<close>

record registry =
  rg_open :: "nat list"
  rg_opening :: nat
  rg_removals :: nat
  rg_draining :: bool

definition new_registry :: registry where
  "new_registry = \<lparr>rg_open = [], rg_opening = 0, rg_removals = 0, rg_draining = False\<rparr>"

definition Enter :: "registry \<Rightarrow> bool \<times> registry" where
  "Enter r = (if rg_draining r then (False, r) else (True, r\<lparr>rg_opening := rg_opening r + 1\<rparr>))"

definition leave :: "registry \<Rightarrow> registry" where
  "leave r = r\<lparr>rg_opening := rg_opening r - 1\<rparr>"

definition Unless :: "(registry \<Rightarrow> registry) \<Rightarrow> registry \<Rightarrow> bool \<times> registry" where
  "Unless f r = (if rg_draining r then (False, r) else (True, f r))"

definition register :: "nat \<Rightarrow> registry \<Rightarrow> bool \<times> registry" where
  "register i r = Unless (\<lambda>r. r\<lparr>rg_open := List.insert i (rg_open r)\<rparr>) r"

definition unregister :: "nat \<Rightarrow> registry \<Rightarrow> registry" where
  "unregister i r = r\<lparr>rg_open := removeAll i (rg_open r), rg_removals := rg_removals r + 1\<rparr>"

definition Removal :: "registry \<Rightarrow> registry" where
  "Removal r = r\<lparr>rg_removals := rg_removals r + 1\<rparr>"

definition removal_done :: "registry \<Rightarrow> registry" where
  "removal_done r = r\<lparr>rg_removals := rg_removals r - 1\<rparr>"

definition Drain_begin :: "registry \<Rightarrow> registry" where
  "Drain_begin r = r\<lparr>rg_draining := True\<rparr>"

subsection \<open>Opening a session\<close>

text \<open>
  An open: counted in, its sandbox being made; \<open>Activate\<close> after its first and after its
  second critical section; handed over; given up, by a failure or a refused \<open>Activate\<close>,
  with its sandbox not yet removed; removed, or quarantined because the removal could not be
  confirmed (\<open>removeOrHold\<close>). \<open>op_left\<close>: it is no longer counted, which happens when it has been
  handed over or its removal has returned. A session's number is its place in the
  list of opens.
\<close>

datatype open_phase = OMaking | OSet | ORegistered | OHanded | OGivenUp | ORemoved | OQuarantined

record in_open =
  op_phase :: open_phase
  op_left :: bool
  op_life :: life

definition act_set :: "gotime \<Rightarrow> int \<Rightarrow> life \<Rightarrow> open_phase \<times> life" where
  "act_set expires disk l =
     (if l_end l \<noteq> None then (OGivenUp, l) else (OSet, l\<lparr>l_expires := expires, l_disk := disk, l_reg := True\<rparr>))"

definition act_register :: "nat \<Rightarrow> registry \<Rightarrow> open_phase \<times> registry" where
  "act_register i r = (case register i r of (ok, r) \<Rightarrow> (if ok then ORegistered else OGivenUp, r))"

definition act_arm :: "life \<Rightarrow> life" where
  "act_arm l = (if l_end l = None then l\<lparr>l_timer := Armed\<rparr> else l)"

text \<open>\<open>finish\<close> with the registry: \<open>unregister\<close> when the session has one, \<open>gone\<close> at the end.\<close>

definition finish_reg :: "nat \<Rightarrow> life \<Rightarrow> registry \<Rightarrow> life \<times> registry" where
  "finish_reg i l r =
     (finish_next (l_fin l) l,
      if l_reg l \<and> l_fin l = FCancelled then unregister i r
      else if l_reg l \<and> l_fin l = FDone then removal_done r else r)"

subsection \<open>A drain\<close>

text \<open>\<open>DEnding\<close>: the sessions found open, and how many of them have been told to end.\<close>

datatype drain_phase = DNone | DDraining | DOpened | DEnding "nat list" nat | DWaited "nat list" | DDrained

record reg_state =
  rs_reg :: registry
  rs_opens :: "in_open list"
  rs_extra :: nat
  rs_drain :: drain_phase

text \<open>\<open>rs_extra\<close> counts the removals outside a session's end that are still running.\<close>

definition shutdown :: ended where
  "shutdown = \<lparr>ee_Reason = SessionShutdown, ee_Detail = '''', ee_Public = False\<rparr>"

definition upd_open :: "nat \<Rightarrow> in_open \<Rightarrow> reg_state \<Rightarrow> reg_state" where
  "upd_open i o' s = s\<lparr>rs_opens := (rs_opens s)[i := o']\<rparr>"

abbreviation nth_open :: "reg_state \<Rightarrow> nat \<Rightarrow> in_open" where
  "nth_open s i \<equiv> rs_opens s ! i"

text \<open>
  An end may come at any time except between the first two critical sections of
  \<open>Activate\<close>: until the second, nobody else holds the session.
\<close>

inductive reg_step :: "reg_state \<Rightarrow> reg_state \<Rightarrow> bool" where
  enter: "Enter (rs_reg s) = (True, r) \<Longrightarrow>
     reg_step s (s\<lparr>rs_reg := r, rs_opens := rs_opens s @ [\<lparr>op_phase = OMaking, op_left = False, op_life = NewLife\<rparr>]\<rparr>)"
| fails: "i < length (rs_opens s) \<Longrightarrow> op_phase (nth_open s i) = OMaking \<Longrightarrow>
     reg_step s (upd_open i ((nth_open s i)\<lparr>op_phase := OGivenUp\<rparr>) s)"
| sets: "i < length (rs_opens s) \<Longrightarrow> op_phase (nth_open s i) = OMaking \<Longrightarrow> act_set e d (op_life (nth_open s i)) = (p, l) \<Longrightarrow>
     reg_step s (upd_open i ((nth_open s i)\<lparr>op_phase := p, op_life := l\<rparr>) s)"
| registers: "i < length (rs_opens s) \<Longrightarrow> op_phase (nth_open s i) = OSet \<Longrightarrow> act_register i (rs_reg s) = (p, r) \<Longrightarrow>
     reg_step s (upd_open i ((nth_open s i)\<lparr>op_phase := p\<rparr>) s\<lparr>rs_reg := r\<rparr>)"
| arms: "i < length (rs_opens s) \<Longrightarrow> op_phase (nth_open s i) = ORegistered \<Longrightarrow>
     reg_step s (upd_open i ((nth_open s i)\<lparr>op_phase := OHanded, op_life := act_arm (op_life (nth_open s i))\<rparr>) s)"
| gives_up: "i < length (rs_opens s) \<Longrightarrow> op_phase (nth_open s i) = OGivenUp \<Longrightarrow> p \<in> {ORemoved, OQuarantined} \<Longrightarrow>
     reg_step s (upd_open i ((nth_open s i)\<lparr>op_phase := p, op_life := abandon_rest (abandon_end (op_life (nth_open s i)))\<rparr>) s)"
| reconciled: "i < length (rs_opens s) \<Longrightarrow> op_phase (nth_open s i) = OQuarantined \<Longrightarrow>
     reg_step s (upd_open i ((nth_open s i)\<lparr>op_phase := ORemoved\<rparr>) s)"
| leaves: "i < length (rs_opens s) \<Longrightarrow> op_phase (nth_open s i) \<in> {OHanded, ORemoved, OQuarantined} \<Longrightarrow> \<not> op_left (nth_open s i) \<Longrightarrow>
     reg_step s (upd_open i ((nth_open s i)\<lparr>op_left := True\<rparr>) s\<lparr>rs_reg := leave (rs_reg s)\<rparr>)"
| lives: "i < length (rs_opens s) \<Longrightarrow> op_phase (nth_open s i) \<in> {ORegistered, OHanded} \<Longrightarrow>
     actor_step op (op_life (nth_open s i)) p l' p' \<Longrightarrow> reg_step s (upd_open i ((nth_open s i)\<lparr>op_life := l'\<rparr>) s)"
| ends: "i < length (rs_opens s) \<Longrightarrow> op_phase (nth_open s i) \<in> {ORegistered, OHanded} \<Longrightarrow>
     reg_step s (upd_open i ((nth_open s i)\<lparr>op_life := finish_begin e (op_life (nth_open s i))\<rparr>) s)"
| ending: "i < length (rs_opens s) \<Longrightarrow> l_fin (op_life (nth_open s i)) \<noteq> FNone \<Longrightarrow>
     finish_reg i (op_life (nth_open s i)) (rs_reg s) = (l, r) \<Longrightarrow>
     reg_step s (upd_open i ((nth_open s i)\<lparr>op_life := l\<rparr>) s\<lparr>rs_reg := r\<rparr>)"
| removal: "rs_drain s \<in> {DNone, DDraining} \<Longrightarrow> reg_step s (s\<lparr>rs_reg := Removal (rs_reg s), rs_extra := rs_extra s + 1\<rparr>)"
| removed: "0 < rs_extra s \<Longrightarrow> reg_step s (s\<lparr>rs_reg := removal_done (rs_reg s), rs_extra := rs_extra s - 1\<rparr>)"
| drain: "rs_drain s = DNone \<Longrightarrow> reg_step s (s\<lparr>rs_reg := Drain_begin (rs_reg s), rs_drain := DDraining\<rparr>)"
| opened: "rs_drain s = DDraining \<Longrightarrow> rg_opening (rs_reg s) = 0 \<Longrightarrow> reg_step s (s\<lparr>rs_drain := DOpened\<rparr>)"
| end_all: "rs_drain s = DOpened \<Longrightarrow> reg_step s (s\<lparr>rs_drain := DEnding (rg_open (rs_reg s)) 0\<rparr>)"
| end_next: "rs_drain s = DEnding ids k \<Longrightarrow> k < length ids \<Longrightarrow>
     reg_step s (upd_open (ids ! k) ((nth_open s (ids ! k))\<lparr>op_life := finish_begin shutdown (op_life (nth_open s (ids ! k)))\<rparr>) s
       \<lparr>rs_drain := DEnding ids (k + 1)\<rparr>)"
| waited: "rs_drain s = DEnding ids k \<Longrightarrow> k = length ids \<Longrightarrow> \<forall>i \<in> set ids. l_done (op_life (nth_open s i)) \<Longrightarrow>
     reg_step s (s\<lparr>rs_drain := DWaited ids\<rparr>)"
| drained: "rs_drain s = DWaited ids \<Longrightarrow> rg_removals (rs_reg s) = 0 \<Longrightarrow> reg_step s (s\<lparr>rs_drain := DDrained\<rparr>)"

definition reg_init :: "reg_state \<Rightarrow> bool" where
  "reg_init s \<longleftrightarrow> s = \<lparr>rs_reg = new_registry, rs_opens = [], rs_extra = 0, rs_drain = DNone\<rparr>"

subsection \<open>What a drain can rely on\<close>

definition registered :: "in_open \<Rightarrow> bool" where
  "registered o' \<longleftrightarrow> op_phase o' \<in> {ORegistered, OHanded}"

definition early :: "fin_phase \<Rightarrow> bool" where
  "early f \<longleftrightarrow> f \<in> {FNone, FEnded, FCancelled}"

definition listed :: "in_open \<Rightarrow> bool" where
  "listed o' \<longleftrightarrow> registered o' \<and> early (l_fin (op_life o'))"

definition removing :: "in_open \<Rightarrow> bool" where
  "removing o' \<longleftrightarrow> l_reg (op_life o') \<and> l_fin (op_life o') \<in> {FUnregistered, FClosed, FTorn, FDone}"

definition fin_ok :: "life \<Rightarrow> bool" where
  "fin_ok l \<longleftrightarrow> (l_fin l \<noteq> FNone \<longrightarrow> l_end l \<noteq> None) \<and> l_done l = (l_fin l \<in> {FDone, FGone}) \<and>
     l_teardowns l = of_bool (l_fin l \<in> {FTorn, FDone, FGone})"

definition opening_ok :: "in_open \<Rightarrow> bool" where
  "opening_ok o' \<longleftrightarrow> fin_ok (op_life o') \<and> (registered o' \<longrightarrow> l_reg (op_life o')) \<and>
     (\<not> registered o' \<longrightarrow> l_fin (op_life o') = FNone) \<and> (op_phase o' = OSet \<longrightarrow> l_reg (op_life o')) \<and>
     (op_left o' \<longrightarrow> op_phase o' \<in> {OHanded, ORemoved, OQuarantined})"

definition drain_ok :: "drain_phase \<Rightarrow> bool \<Rightarrow> in_open list \<Rightarrow> bool" where
  "drain_ok d draining os \<longleftrightarrow> (d \<noteq> DNone \<longrightarrow> draining) \<and>
     (d \<noteq> DNone \<and> d \<noteq> DDraining \<longrightarrow> (\<forall>i < length os. op_left (os ! i))) \<and>
     (case d of
        DEnding ids k \<Rightarrow> (\<forall>i < length os. listed (os ! i) \<longrightarrow> i \<in> set ids) \<and> (\<forall>i \<in> set ids. i < length os \<and> registered (os ! i))
      | DWaited ids \<Rightarrow> (\<forall>i < length os. listed (os ! i) \<longrightarrow> i \<in> set ids) \<and>
          (\<forall>i \<in> set ids. i < length os \<and> l_done (op_life (os ! i)))
      | DDrained \<Rightarrow> \<forall>i < length os. registered (os ! i) \<longrightarrow> l_done (op_life (os ! i))
      | _ \<Rightarrow> True)"

definition reg_inv :: "reg_state \<Rightarrow> bool" where
  "reg_inv s \<longleftrightarrow>
     (\<forall>i < length (rs_opens s). opening_ok (nth_open s i)) \<and>
     (\<forall>i. i \<in> set (rg_open (rs_reg s)) \<longleftrightarrow> i < length (rs_opens s) \<and> listed (nth_open s i)) \<and>
     rg_removals (rs_reg s) = rs_extra s + length (filter removing (rs_opens s)) \<and>
     rg_opening (rs_reg s) = length (filter (\<lambda>o'. \<not> op_left o') (rs_opens s)) \<and>
     drain_ok (rs_drain s) (rg_draining (rs_reg s)) (rs_opens s)"

text \<open>A move of one open keeps what a drain has established.\<close>

definition keeps_drain :: "bool \<Rightarrow> in_open \<Rightarrow> in_open \<Rightarrow> bool" where
  "keeps_drain draining o' u \<longleftrightarrow> (listed u \<longrightarrow> listed o' \<or> \<not> draining) \<and> (registered o' \<longrightarrow> registered u) \<and>
     (registered u \<longrightarrow> registered o' \<or> \<not> draining) \<and> (l_done (op_life o') \<longrightarrow> l_done (op_life u)) \<and> (op_left o' \<longrightarrow> op_left u)"

lemma drain_ok_upd:
  "drain_ok d draining os \<Longrightarrow> i < length os \<Longrightarrow> keeps_drain draining (os ! i) u \<Longrightarrow> drain_ok d draining (os[i := u])"
  by (cases d) (auto simp: drain_ok_def keeps_drain_def nth_list_update)

text \<open>One open and the registry move together: what remains to be shown of such a step.\<close>

lemma reg_inv_upd:
  assumes "reg_inv s" and i: "i < length (rs_opens s)" and "opening_ok u"
    and "\<And>j. j \<in> set (rg_open r) \<longleftrightarrow> (if j = i then listed u else j \<in> set (rg_open (rs_reg s)))"
    and "rg_removals r + of_bool (removing (nth_open s i)) = rg_removals (rs_reg s) + of_bool (removing u)"
    and "rg_opening r + of_bool (\<not> op_left (nth_open s i)) = rg_opening (rs_reg s) + of_bool (\<not> op_left u)"
    and "rg_draining r = rg_draining (rs_reg s)" and "keeps_drain (rg_draining r) (nth_open s i) u"
  shows "reg_inv (upd_open i u s\<lparr>rs_reg := r\<rparr>)"
proof -
  note inv = assms(1) [unfolded reg_inv_def]
  have "drain_ok (rs_drain s) (rg_draining r) ((rs_opens s)[i := u])"
    using drain_ok_upd [OF _ i assms(8)] inv assms(7) by simp
  moreover have "\<forall>j < length (rs_opens s). opening_ok ((rs_opens s)[i := u] ! j)"
    using inv assms(3) i by (auto simp: nth_list_update)
  moreover have "\<forall>j. j \<in> set (rg_open r) \<longleftrightarrow> j < length (rs_opens s) \<and> listed ((rs_opens s)[i := u] ! j)"
    using inv assms(4) i by (auto simp: nth_list_update)
  ultimately show ?thesis
    using inv assms(5,6) length_filter_upd [OF i, of removing u] length_filter_upd [OF i, of "\<lambda>o'. \<not> op_left o'" u]
    by (simp add: reg_inv_def upd_open_def)
qed

lemma reg_inv_upd_same:
  assumes "reg_inv s" and i: "i < length (rs_opens s)" and "opening_ok u" and "listed u = listed (nth_open s i)"
    and "removing u = removing (nth_open s i)" and "op_left u = op_left (nth_open s i)"
    and "keeps_drain (rg_draining (rs_reg s)) (nth_open s i) u"
  shows "reg_inv (upd_open i u s)"
proof -
  have "reg_inv (upd_open i u s\<lparr>rs_reg := rs_reg s\<rparr>)"
    by (rule reg_inv_upd [OF assms(1-3)]) (use assms in \<open>auto simp: reg_inv_def\<close>)
  then show ?thesis by (simp add: upd_open_def)
qed

text \<open>What an actor or an end may do to a session's life, as the registry sees it.\<close>

definition ends_only :: "life \<Rightarrow> life \<Rightarrow> bool" where
  "ends_only l l' \<longleftrightarrow> l_reg l' = l_reg l \<and> l_done l' = l_done l \<and> l_teardowns l' = l_teardowns l \<and>
     (l_fin l' = l_fin l \<and> l_end l' = l_end l \<or> l_end l = None \<and> l_end l' \<noteq> None \<and> l_fin l' = FEnded)"

lemma ends_only_refl [simp]: "ends_only l l"
  by (simp add: ends_only_def)

lemma finish_begin_reg [simp]: "l_reg (finish_begin e l) = l_reg l"
  by (simp add: finish_begin_def stop_timer_def)

lemma ends_only_finish: "ends_only l (finish_begin e l)"
  by (auto simp: ends_only_def split: option.splits)

lemma Quiesce_ends_only: "Quiesce has res c u why l = (e, l') \<Longrightarrow> ends_only l l'"
  by (auto simp: Quiesce_def Let_def FinishWith_def ends_only_finish split: if_splits prod.splits option.splits)
    (auto simp: ends_only_def)

lemma actor_step_ends_only:
  assumes "actor_step op l p l' p'"
  shows "ends_only l l'"
  using assms
proof (cases rule: actor_step.cases)
  case (quiesce has res c u why x b)
  then show ?thesis using Quiesce_ends_only by blast
next
  case (swept texts res)
  then show ?thesis
    by (auto simp: bnd_swept_def FinishSaying_def ends_only_finish split: prod.splits if_splits) (auto simp: ends_only_def)
qed (auto simp: acq_turn_def release_def prep_resume_def prep_read_def sus_end_def bnd_unproven_def Finish_def FinishWith_def Let_def
    ends_only_finish split: option.splits read_back.splits, auto simp: ends_only_def)

lemma ends_only_ok:
  assumes "ends_only (op_life o') l'" and "opening_ok o'" and "registered o'"
  shows "opening_ok (o'\<lparr>op_life := l'\<rparr>) \<and> listed (o'\<lparr>op_life := l'\<rparr>) = listed o' \<and>
    removing (o'\<lparr>op_life := l'\<rparr>) = removing o' \<and> keeps_drain d o' (o'\<lparr>op_life := l'\<rparr>)"
proof -
  have f: "fin_ok (op_life o')" using assms(2) by (simp add: opening_ok_def)
  then have e: "l_end (op_life o') = None \<Longrightarrow> l_fin (op_life o') = FNone" by (auto simp: fin_ok_def)
  consider "l_fin l' = l_fin (op_life o')" "l_end l' = l_end (op_life o')"
    | "l_fin (op_life o') = FNone" "l_fin l' = FEnded" "l_end l' \<noteq> None"
    using assms(1) e by (auto simp: ends_only_def)
  then show ?thesis
  proof cases
    case 1
    with assms f show ?thesis
      by (auto simp: ends_only_def opening_ok_def fin_ok_def listed_def removing_def registered_def keeps_drain_def)
  next
    case 2
    with assms f show ?thesis
      by (auto simp: ends_only_def opening_ok_def fin_ok_def listed_def removing_def registered_def keeps_drain_def early_def)
  qed
qed

lemma filter_none_pos: "i < length xs \<Longrightarrow> P (xs ! i) \<Longrightarrow> 0 < length (filter P xs)"
  by (auto simp: filter_empty_conv intro: nth_mem)

lemmas opening_defs = opening_ok_def fin_ok_def registered_def listed_def early_def removing_def keeps_drain_def

lemmas finish_defs = finish_reg_def finish_cancel_def finish_close_def finish_teardown_def finish_done_def

text \<open>A step of one open that the registry does not see.\<close>

definition plain :: "bool \<Rightarrow> in_open \<Rightarrow> in_open \<Rightarrow> bool" where
  "plain d o' u \<longleftrightarrow> opening_ok u \<and> listed u = listed o' \<and> removing u = removing o' \<and> op_left u = op_left o' \<and> keeps_drain d o' u"

lemma plain_inv:
  "reg_inv s \<Longrightarrow> i < length (rs_opens s) \<Longrightarrow> plain (rg_draining (rs_reg s)) (nth_open s i) u \<Longrightarrow> reg_inv (upd_open i u s)"
  by (rule reg_inv_upd_same) (simp_all add: plain_def)

lemma finish_quiet:
  assumes "opening_ok o'" and "registered o'" and "l_fin (op_life o') \<in> {FEnded, FUnregistered, FClosed, FTorn, FGone}"
  shows "plain d o' (o'\<lparr>op_life := finish_next (l_fin (op_life o')) (op_life o')\<rparr>)"
proof -
  have "l_reg (op_life o')" using assms by (simp add: opening_ok_def)
  with assms show ?thesis by (cases "l_fin (op_life o')") (simp_all add: plain_def opening_defs finish_defs)
qed

lemma unheld_plain:
  assumes "opening_ok o'" and "op_phase o' = OMaking"
  shows "plain d o' (o'\<lparr>op_phase := OGivenUp\<rparr>)" and "act_set e x (op_life o') = (p, l) \<Longrightarrow> plain d o' (o'\<lparr>op_phase := p, op_life := l\<rparr>)"
  using assms by (simp_all add: plain_def opening_defs) (auto simp: act_set_def split: if_splits)

lemma refused_plain:
  assumes "opening_ok o'" and "op_phase o' = OSet"
  shows "plain d o' (o'\<lparr>op_phase := OGivenUp\<rparr>)"
  using assms by (simp add: plain_def opening_defs)

lemma given_up_plain:
  assumes "opening_ok o'" and "op_phase o' = OGivenUp" and "p \<in> {ORemoved, OQuarantined}"
  shows "plain d o' (o'\<lparr>op_phase := p, op_life := abandon_rest (abandon_end (op_life o'))\<rparr>)"
  using assms by (auto simp: plain_def opening_defs abandon_end_def abandon_rest_def stop_timer_def)

lemma reconciled_plain:
  assumes "opening_ok o'" and "op_phase o' = OQuarantined"
  shows "plain d o' (o'\<lparr>op_phase := ORemoved\<rparr>)"
  using assms by (auto simp: plain_def opening_defs)

lemma armed_plain:
  assumes "opening_ok o'" and "op_phase o' = ORegistered"
  shows "plain d o' (o'\<lparr>op_phase := OHanded, op_life := act_arm (op_life o')\<rparr>)"
  using assms by (cases "l_fin (op_life o')") (simp_all add: plain_def opening_defs act_arm_def)

lemma ends_plain: "ends_only (op_life o') l' \<Longrightarrow> opening_ok o' \<Longrightarrow> registered o' \<Longrightarrow> plain d o' (o'\<lparr>op_life := l'\<rparr>)"
  using ends_only_ok [of o' l' d] by (simp add: plain_def)

lemma finish_reg_inv:
  assumes "reg_inv s" and i: "i < length (rs_opens s)" and f: "l_fin (op_life (nth_open s i)) \<noteq> FNone"
    and r: "finish_reg i (op_life (nth_open s i)) (rs_reg s) = (l, r)"
  shows "reg_inv (upd_open i ((nth_open s i)\<lparr>op_life := l\<rparr>) s\<lparr>rs_reg := r\<rparr>)"
proof -
  let ?o = "nth_open s i" and ?u = "(nth_open s i)\<lparr>op_life := l\<rparr>"
  have ok: "opening_ok ?o" and mem: "i \<in> set (rg_open (rs_reg s)) \<longleftrightarrow> listed ?o" using assms(1) i by (simp_all add: reg_inv_def)
  then have reg: "registered ?o" "l_reg (op_life ?o)" using f by (auto simp: opening_ok_def)
  consider (quiet) "l_fin (op_life ?o) \<in> {FEnded, FUnregistered, FClosed, FTorn, FGone}"
    | (unreg) "l_fin (op_life ?o) = FCancelled" | (gone) "l_fin (op_life ?o) = FDone"
    using f by (cases "l_fin (op_life ?o)") auto
  then show ?thesis
  proof cases
    case quiet
    then have "r = rs_reg s" "l = finish_next (l_fin (op_life ?o)) (op_life ?o)" using r by (auto simp: finish_reg_def)
    with plain_inv [OF assms(1) i finish_quiet [OF ok reg(1) quiet]] show ?thesis by (simp add: upd_open_def)
  next
    case unreg
    then have r: "r = unregister i (rs_reg s)" "l = (op_life ?o)\<lparr>l_fin := FUnregistered\<rparr>" using r reg by (auto simp: finish_reg_def)
    show ?thesis
      by (rule reg_inv_upd [OF assms(1) i]) (use r ok reg unreg mem in \<open>auto simp: unregister_def opening_defs\<close>)
  next
    case gone
    then have r: "r = removal_done (rs_reg s)" "l = (op_life ?o)\<lparr>l_fin := FGone\<rparr>" using r reg by (auto simp: finish_reg_def)
    have "0 < rg_removals (rs_reg s)"
      using filter_none_pos [of i "rs_opens s" removing] assms(1) i gone reg by (auto simp: reg_inv_def removing_def)
    then show ?thesis
      by - (rule reg_inv_upd [OF assms(1) i], use r ok reg gone mem in \<open>auto simp: removal_done_def opening_defs\<close>)
  qed
qed

lemma drain_all_left:
  "reg_inv s \<Longrightarrow> rg_opening (rs_reg s) = 0 \<Longrightarrow> i < length (rs_opens s) \<Longrightarrow> op_left (nth_open s i)"
  using filter_none_pos [of i "rs_opens s" "\<lambda>o'. \<not> op_left o'"] by (auto simp: reg_inv_def)

lemma drained_ok:
  assumes "reg_inv s" and "rs_drain s = DWaited ids" and "rg_removals (rs_reg s) = 0"
    and i: "i < length (rs_opens s)" and "registered (nth_open s i)"
  shows "l_done (op_life (nth_open s i))"
proof (cases "listed (nth_open s i)")
  case True
  with assms(1,2) i show ?thesis by (auto simp: reg_inv_def drain_ok_def)
next
  case False
  have "\<not> removing (nth_open s i)" using filter_none_pos [of i "rs_opens s" removing] assms(1,3) i by (auto simp: reg_inv_def)
  moreover have "opening_ok (nth_open s i)" using assms(1) i by (simp add: reg_inv_def)
  ultimately show ?thesis using False assms(5)
    by (cases "l_fin (op_life (nth_open s i))") (auto simp: opening_ok_def fin_ok_def listed_def early_def removing_def)
qed

lemma reg_inv_step: "reg_step s t \<Longrightarrow> reg_inv s \<Longrightarrow> reg_inv t"
proof (induction rule: reg_step.induct)
  case (enter s r)
  let ?o = "\<lparr>op_phase = OMaking, op_left = False, op_life = NewLife\<rparr>"
  have o: "opening_ok ?o" "\<not> listed ?o" "\<not> removing ?o"
    by (simp_all add: opening_ok_def registered_def fin_ok_def listed_def removing_def NewLife_def)
  have "rs_drain s = DNone" "r = (rs_reg s)\<lparr>rg_opening := rg_opening (rs_reg s) + 1\<rparr>"
    using enter by (auto simp: Enter_def reg_inv_def drain_ok_def split: if_splits)
  with enter(2) o show ?case by (auto simp: reg_inv_def drain_ok_def nth_append less_Suc_eq)
next
  case (fails i s)
  then have "opening_ok (nth_open s i)" by (simp add: reg_inv_def)
  from plain_inv [OF fails(3,1) unheld_plain(1) [OF this fails(2)]] show ?case .
next
  case (sets i s e d p l)
  then have "opening_ok (nth_open s i)" by (simp add: reg_inv_def)
  from plain_inv [OF sets(4,1) unheld_plain(2) [OF this sets(2,3)]] show ?case .
next
  case (registers i s p r)
  let ?o = "nth_open s i"
  have o: "opening_ok ?o" using registers(1,4) by (simp add: reg_inv_def)
  with registers(2) have "\<not> listed ?o" "l_fin (op_life ?o) = FNone" by (simp_all add: opening_ok_def listed_def registered_def)
  with o registers(4) have ok: "opening_ok ?o" "\<not> listed ?o" "l_fin (op_life ?o) = FNone" "i \<notin> set (rg_open (rs_reg s))"
    by (simp_all add: reg_inv_def)
  show ?case
  proof (cases "rg_draining (rs_reg s)")
    case True
    then have "p = OGivenUp" "r = rs_reg s" using registers(3) by (simp_all add: act_register_def register_def Unless_def)
    with plain_inv [OF registers(4,1) refused_plain [OF ok(1) registers(2)]] show ?thesis by (simp add: upd_open_def)
  next
    case False
    then have p: "p = ORegistered" "r = (rs_reg s)\<lparr>rg_open := List.insert i (rg_open (rs_reg s))\<rparr>"
      using registers(3) by (simp_all add: act_register_def register_def Unless_def)
    have u: "opening_ok (?o\<lparr>op_phase := p\<rparr>)" "listed (?o\<lparr>op_phase := p\<rparr>)" "removing (?o\<lparr>op_phase := p\<rparr>) = removing ?o"
      "keeps_drain False ?o (?o\<lparr>op_phase := p\<rparr>)"
      using ok registers(2) p(1) by (simp_all add: opening_defs)
    show ?thesis by (rule reg_inv_upd [OF registers(4,1) u(1)]) (use False p u in simp_all)
  qed
next
  case (arms i s)
  then have "opening_ok (nth_open s i)" by (simp add: reg_inv_def)
  from plain_inv [OF arms(3,1) armed_plain [OF this arms(2)]] show ?case .
next
  case (gives_up i s p)
  then have "opening_ok (nth_open s i)" by (simp add: reg_inv_def)
  from plain_inv [OF gives_up(4,1) given_up_plain [OF this gives_up(2,3)]] show ?case .
next
  case (reconciled i s)
  then have "opening_ok (nth_open s i)" by (simp add: reg_inv_def)
  from plain_inv [OF reconciled(3,1) reconciled_plain [OF this reconciled(2)]] show ?case .
next
  case (leaves i s)
  let ?o = "nth_open s i"
  have ok: "opening_ok ?o" "0 < rg_opening (rs_reg s)" "i \<in> set (rg_open (rs_reg s)) \<longleftrightarrow> listed ?o"
    using leaves(1,3,4) filter_none_pos [of i "rs_opens s" "\<lambda>o'. \<not> op_left o'"] by (simp_all add: reg_inv_def)
  have u: "opening_ok (?o\<lparr>op_left := True\<rparr>)" "listed (?o\<lparr>op_left := True\<rparr>) = listed ?o"
    "removing (?o\<lparr>op_left := True\<rparr>) = removing ?o" "keeps_drain d ?o (?o\<lparr>op_left := True\<rparr>)" for d
    using ok(1) leaves(2) by (auto simp: opening_ok_def registered_def listed_def removing_def keeps_drain_def)
  show ?case by (rule reg_inv_upd [OF leaves(4,1) u(1)]) (use leaves(3) ok u in \<open>simp_all add: leave_def\<close>)
next
  case (lives i s op p l' p')
  then have "opening_ok (nth_open s i)" "registered (nth_open s i)" by (auto simp: reg_inv_def registered_def)
  from plain_inv [OF lives(4,1) ends_plain [OF actor_step_ends_only [OF lives(3)] this]] show ?case .
next
  case (ends i s e)
  then have "opening_ok (nth_open s i)" "registered (nth_open s i)" by (auto simp: reg_inv_def registered_def)
  from plain_inv [OF ends(3,1) ends_plain [OF ends_only_finish this]] show ?case .
next
  case (ending i s l r)
  then show ?case by (rule_tac finish_reg_inv)
next
  case (end_next s ids k)
  let ?i = "ids ! k"
  have i: "?i < length (rs_opens s)" "registered (nth_open s ?i)" using end_next by (auto simp: reg_inv_def drain_ok_def)
  then have "opening_ok (nth_open s ?i)" using end_next(3) by (auto simp: reg_inv_def)
  from plain_inv [OF end_next(3) i(1) ends_plain [OF ends_only_finish this i(2)]]
  have "reg_inv (upd_open ?i ((nth_open s ?i)\<lparr>op_life := finish_begin shutdown (op_life (nth_open s ?i))\<rparr>) s)" .
  with end_next(1) show ?case by (simp add: reg_inv_def drain_ok_def upd_open_def)
next
  case (opened s)
  with drain_all_left [OF opened(3,2)] show ?case by (auto simp: reg_inv_def drain_ok_def)
next
  case (drained s ids)
  with drained_ok [OF drained(3,1,2)] show ?case by (auto simp: reg_inv_def drain_ok_def)
next
  case (end_all s)
  then show ?case by (auto simp: reg_inv_def drain_ok_def listed_def)
qed (auto simp: reg_inv_def drain_ok_def Removal_def removal_done_def Drain_begin_def)

interpretation sessions: inductive_invariant reg_init reg_step reg_inv
proof
  fix s
  assume "reg_init s"
  then show "reg_inv s" by (simp add: reg_init_def reg_inv_def new_registry_def drain_ok_def)
qed (rule reg_inv_step)

subsection \<open>Properties\<close>

text \<open>C20: When a drain has returned without an error, no session is left. Every open that was ever let
  in has either handed its session over, and that session has ended and its teardown has
  returned, exactly once, or has given up and its removal has returned, with the sandbox gone or,
  where that could not be confirmed, quarantined for the reconciler; no session is listed as
  open, and no further open is let in. It holds however opens, activations, calls, ends and
  removals interleave with the drain.\<close>

theorem drained_leaves_no_session:
  assumes "reach reg_init reg_step s" and "rs_drain s = DDrained" and "i < length (rs_opens s)"
  shows "(op_phase (nth_open s i) = ORemoved \<or> op_phase (nth_open s i) = OQuarantined \<or>
      op_phase (nth_open s i) = OHanded \<and> l_done (op_life (nth_open s i)) \<and> l_teardowns (op_life (nth_open s i)) = 1) \<and>
    rg_open (rs_reg s) = [] \<and> Enter (rs_reg s) = (False, rs_reg s)"
proof -
  note inv = sessions.reach_inv [OF assms(1), unfolded reg_inv_def]
  have d: "rg_draining (rs_reg s)" "\<forall>i < length (rs_opens s). op_left (nth_open s i) \<and> (registered (nth_open s i) \<longrightarrow> l_done (op_life (nth_open s i)))"
    using inv assms(2) by (auto simp: drain_ok_def)
  have fin: "l_done (op_life (nth_open s j)) = (l_fin (op_life (nth_open s j)) \<in> {FDone, FGone})" if "j < length (rs_opens s)" for j
    using inv that by (auto simp: opening_ok_def fin_ok_def)
  have "j \<notin> set (rg_open (rs_reg s))" for j
    using inv d(2) fin [of j] by (auto simp: listed_def early_def)
  then have "rg_open (rs_reg s) = []" by (metis list.set_intros(1) neq_Nil_conv)
  moreover have ok: "opening_ok (nth_open s i)" using inv assms(3) by blast
  ultimately show ?thesis using d fin [OF assms(3)] assms(3)
    by (auto simp: opening_ok_def fin_ok_def registered_def Enter_def)
qed

subsection \<open>One session, drained\<close>

definition demo_reg :: "nat list \<Rightarrow> nat \<Rightarrow> nat \<Rightarrow> bool \<Rightarrow> open_phase \<Rightarrow> bool \<Rightarrow> life \<Rightarrow> drain_phase \<Rightarrow> reg_state" where
  "demo_reg os n m dr p left l d =
     \<lparr>rs_reg = \<lparr>rg_open = os, rg_opening = n, rg_removals = m, rg_draining = dr\<rparr>,
      rs_opens = [\<lparr>op_phase = p, op_left = left, op_life = l\<rparr>], rs_extra = 0, rs_drain = d\<rparr>"

definition demo_life :: life where
  "demo_life = NewLife\<lparr>l_reg := True, l_timer := Armed\<rparr>"

definition demo_end :: "fin_phase \<Rightarrow> life" where
  "demo_end f = demo_life\<lparr>l_end := Some shutdown, l_timer := TimerStopped, l_fin := f, l_cancelled := (f \<noteq> FEnded),
     l_teardowns := of_bool (f \<in> {FTorn, FDone, FGone}), l_done := (f \<in> {FDone, FGone})\<rparr>"

lemma demo_handed: "reach reg_init reg_step (demo_reg [0] 0 0 False OHanded True demo_life DNone)"
proof -
  have s0: "reach reg_init reg_step \<lparr>rs_reg = new_registry, rs_opens = [], rs_extra = 0, rs_drain = DNone\<rparr>"
    by (rule reach.reach_init) (simp add: reg_init_def)
  have s1: "reg_step \<lparr>rs_reg = new_registry, rs_opens = [], rs_extra = 0, rs_drain = DNone\<rparr> (demo_reg [] 1 0 False OMaking False NewLife DNone)"
    using reg_step.enter [of "\<lparr>rs_reg = new_registry, rs_opens = [], rs_extra = 0, rs_drain = DNone\<rparr>"]
    by (simp add: demo_reg_def Enter_def new_registry_def)
  have s2: "reg_step (demo_reg [] 1 0 False OMaking False NewLife DNone) (demo_reg [] 1 0 False OSet False (NewLife\<lparr>l_reg := True\<rparr>) DNone)"
    using reg_step.sets [of 0 "demo_reg [] 1 0 False OMaking False NewLife DNone" zero_time 0]
    by (simp add: demo_reg_def act_set_def upd_open_def NewLife_def)
  have s3: "reg_step (demo_reg [] 1 0 False OSet False (NewLife\<lparr>l_reg := True\<rparr>) DNone)
      (demo_reg [0] 1 0 False ORegistered False (NewLife\<lparr>l_reg := True\<rparr>) DNone)"
    using reg_step.registers [of 0 "demo_reg [] 1 0 False OSet False (NewLife\<lparr>l_reg := True\<rparr>) DNone"]
    by (simp add: demo_reg_def act_register_def register_def Unless_def upd_open_def)
  have s4: "reg_step (demo_reg [0] 1 0 False ORegistered False (NewLife\<lparr>l_reg := True\<rparr>) DNone) (demo_reg [0] 1 0 False OHanded False demo_life DNone)"
    using reg_step.arms [of 0 "demo_reg [0] 1 0 False ORegistered False (NewLife\<lparr>l_reg := True\<rparr>) DNone"]
    by (simp add: demo_reg_def demo_life_def act_arm_def upd_open_def NewLife_def)
  have s5: "reg_step (demo_reg [0] 1 0 False OHanded False demo_life DNone) (demo_reg [0] 0 0 False OHanded True demo_life DNone)"
    using reg_step.leaves [of 0 "demo_reg [0] 1 0 False OHanded False demo_life DNone"] by (simp add: demo_reg_def leave_def upd_open_def)
  show ?thesis by (rule reach.reach_step [OF reach.reach_step [OF reach.reach_step [OF reach.reach_step [OF reach.reach_step [OF s0 s1] s2] s3] s4] s5])
qed

lemma demo_fin:
  assumes "reach reg_init reg_step (demo_reg os 0 m True OHanded True (demo_end f) d)" and "f \<noteq> FNone"
    and "finish_reg 0 (demo_end f) \<lparr>rg_open = os, rg_opening = 0, rg_removals = m, rg_draining = True\<rparr> =
      (demo_end f', \<lparr>rg_open = os', rg_opening = 0, rg_removals = m', rg_draining = True\<rparr>)"
  shows "reach reg_init reg_step (demo_reg os' 0 m' True OHanded True (demo_end f') d)"
  using reach.reach_step [OF assms(1) reg_step.ending [of 0]] assms(2,3) by (simp add: demo_reg_def upd_open_def demo_end_def)

lemma demo_drained: "reach reg_init reg_step (demo_reg [] 0 0 True OHanded True (demo_end FGone) DDrained)"
proof -
  let ?d = "\<lambda>l d. demo_reg [0] 0 0 True OHanded True l d"
  have s1: "reg_step (demo_reg [0] 0 0 False OHanded True demo_life DNone) (?d demo_life DDraining)"
    using reg_step.drain [of "demo_reg [0] 0 0 False OHanded True demo_life DNone"] by (simp add: demo_reg_def Drain_begin_def)
  have s2: "reg_step (?d demo_life DDraining) (?d demo_life DOpened)"
    using reg_step.opened [of "?d demo_life DDraining"] by (simp add: demo_reg_def)
  have s3: "reg_step (?d demo_life DOpened) (?d demo_life (DEnding [0] 0))"
    using reg_step.end_all [of "?d demo_life DOpened"] by (simp add: demo_reg_def)
  have s4: "reg_step (?d demo_life (DEnding [0] 0)) (?d (demo_end FEnded) (DEnding [0] 1))"
    using reg_step.end_next [of "?d demo_life (DEnding [0] 0)" "[0]" 0]
    by (simp add: demo_reg_def upd_open_def demo_end_def demo_life_def finish_begin_def stop_timer_def NewLife_def)
  have 1: "reach reg_init reg_step (?d (demo_end FEnded) (DEnding [0] 1))" 
    by (rule reach.reach_step [OF reach.reach_step [OF reach.reach_step [OF reach.reach_step [OF demo_handed s1] s2] s3] s4])
  note fin = finish_reg_def finish_cancel_def finish_close_def finish_teardown_def finish_done_def unregister_def removal_done_def
    demo_end_def demo_life_def NewLife_def no_interps_def ip_Close_def
  have "reach reg_init reg_step (?d (demo_end FCancelled) (DEnding [0] 1))" by (rule demo_fin [OF 1]) (simp_all add: fin)
  then have "reach reg_init reg_step (demo_reg [] 0 1 True OHanded True (demo_end FUnregistered) (DEnding [0] 1))"
    by (rule demo_fin) (simp_all add: fin)
  then have "reach reg_init reg_step (demo_reg [] 0 1 True OHanded True (demo_end FClosed) (DEnding [0] 1))"
    by (rule demo_fin) (simp_all add: fin)
  then have "reach reg_init reg_step (demo_reg [] 0 1 True OHanded True (demo_end FTorn) (DEnding [0] 1))"
    by (rule demo_fin) (simp_all add: fin)
  then have "reach reg_init reg_step (demo_reg [] 0 1 True OHanded True (demo_end FDone) (DEnding [0] 1))"
    by (rule demo_fin) (simp_all add: fin)
  then have 2: "reach reg_init reg_step (demo_reg [] 0 0 True OHanded True (demo_end FGone) (DEnding [0] 1))"
    by (rule demo_fin) (simp_all add: fin)
  let ?g = "demo_reg [] 0 0 True OHanded True (demo_end FGone)"
  have w1: "reg_step (?g (DEnding [0] 1)) (?g (DWaited [0]))"
    using reg_step.waited [of "?g (DEnding [0] 1)" "[0]" 1] by (simp add: demo_reg_def demo_end_def)
  have w2: "reg_step (?g (DWaited [0])) (?g DDrained)"
    using reg_step.drained [of "?g (DWaited [0])" "[0]"] by (simp add: demo_reg_def)
  show ?thesis by (rule reach.reach_step [OF reach.reach_step [OF 2 w1] w2])
qed

theorem drained_leaves_no_session_witness:
  "\<exists>s. reach reg_init reg_step s \<and> rs_drain s = DDrained \<and> op_phase (nth_open s 0) = OHanded \<and> l_teardowns (op_life (nth_open s 0)) = 1"
proof -
  let ?s = "demo_reg [] 0 0 True OHanded True (demo_end FGone) DDrained"
  have "rs_drain ?s = DDrained" "0 < length (rs_opens ?s)" "op_phase (nth_open ?s 0) = OHanded" by (simp_all add: demo_reg_def)
  with drained_leaves_no_session [OF demo_drained this(1,2)] demo_drained show ?thesis by auto
qed

end
