(* ===== verification/Record_Encoding.thy ===== *)
theory Record_Encoding
  imports Requests "HOL-Library.Word"
begin

text \<open>
  The encodings a run record's digests are taken over, \<open>record/record.go\<close>: length-prefixed
  values, named fields in a fixed order, counted groups. SHA-256 is a parameter of every
  digest (the lower-case hexadecimal of the hash of a byte string), so the theorems here are
  about the bytes that are hashed.
\<close>

subsection \<open>Values\<close>

text \<open>\<open>binary.BigEndian.PutUint64\<close> and \<open>strconv.FormatInt\<close>.\<close>

definition be64 :: "nat \<Rightarrow> string" where
  "be64 n = map (\<lambda>k. char_of (n div 256 ^ k)) [7, 6, 5, 4, 3, 2, 1, 0]"

fun dec_nat :: "nat \<Rightarrow> string" where
  "dec_nat n = (if n < 10 then [char_of (48 + n)] else dec_nat (n div 10) @ [char_of (48 + n mod 10)])"

declare dec_nat.simps [simp del]

definition FormatInt :: "int \<Rightarrow> string" where
  "FormatInt i = (if i < 0 then CHR ''-'' # dec_nat (nat (- i)) else dec_nat (nat i))"

definition FormatBool :: "bool \<Rightarrow> string" where
  "FormatBool b = (if b then ''true'' else ''false'')"

text \<open>The encoder: a value, a field, and what each kind of field puts.\<close>

definition enc_value :: "string \<Rightarrow> string" where
  "enc_value b = be64 (length b) @ b"

type_synonym field = "string \<times> string"

definition enc_field :: "field \<Rightarrow> string" where
  "enc_field f = enc_value (fst f) @ enc_value (snd f)"

definition enc_fields :: "string \<Rightarrow> field list \<Rightarrow> string" where
  "enc_fields domain fs = enc_value domain @ concat (map enc_field fs)"

definition f_str :: "string \<Rightarrow> string \<Rightarrow> field" where "f_str n v = (n, v)"
definition f_int :: "string \<Rightarrow> int \<Rightarrow> field" where "f_int n v = (n, FormatInt v)"
definition f_uint :: "string \<Rightarrow> nat \<Rightarrow> field" where "f_uint n v = (n, FormatInt (int v))"
definition f_bool :: "string \<Rightarrow> bool \<Rightarrow> field" where "f_bool n v = (n, FormatBool v)"

text \<open>A float64 is its 64 bits.\<close>

definition f_floats :: "string \<Rightarrow> 64 word list \<Rightarrow> field" where
  "f_floats n vs = (n, concat (map (\<lambda>w. be64 (unat w)) vs))"

subsection \<open>Requests\<close>

record wire_file =
  wf_Path :: string
  wf_Content :: string

datatype wire_payload =
    PJavaScript string string
  | PProject string "wire_file list" "string list" "string list"
  | PCell string string "wire_file list"
  | PModule string "64 word" "64 word" "64 word list list"
  | PNone

text \<open>\<open>PJavaScript code profile\<close>, \<open>PProject profile files steps artifacts\<close>,
  \<open>PCell language code files\<close>, \<open>PModule model end_time step rows\<close>.\<close>

record wire_request =
  wq_Protocol :: nat
  wq_Floor :: string
  wq_TimeoutMs :: int
  wq_Rule :: software_rule
  wq_TraceId :: string
  wq_Payload :: wire_payload

definition requestDomain :: string where "requestDomain = ''plimsoll.run-request.v2''"
definition requestDomainV1 :: string where "requestDomainV1 = ''plimsoll.run-request.v1''"
definition resultDomain :: string where "resultDomain = ''plimsoll.run-result.v1''"

text \<open>A repeated group: its count, then its elements.\<close>

definition enc_group :: "string \<Rightarrow> ('a \<Rightarrow> field list) \<Rightarrow> 'a list \<Rightarrow> field list" where
  "enc_group name f xs = f_int name (int (length xs)) # concat (map f xs)"

definition file_fields :: "wire_file \<Rightarrow> field list" where
  "file_fields f = [f_str ''file_path'' (wf_Path f), f_str ''file_content'' (wf_Content f)]"

definition payload_fields :: "wire_payload \<Rightarrow> field list" where
  "payload_fields p = (case p of
     PJavaScript code profile \<Rightarrow> [f_str ''kind'' ''javascript'', f_str ''code'' code, f_str ''grant_profile'' profile]
   | PProject profile files steps artifacts \<Rightarrow>
       [f_str ''kind'' ''project'', f_str ''grant_profile'' profile] @
       enc_group ''files'' file_fields files @
       enc_group ''steps'' (\<lambda>s. [f_str ''step_command'' s]) steps @
       enc_group ''artifacts'' (\<lambda>a. [f_str ''artifact_path'' a]) artifacts
   | PCell language code files \<Rightarrow>
       [f_str ''kind'' ''cell'', f_str ''language'' language, f_str ''code'' code] @ enc_group ''files'' file_fields files
   | PModule model endTime step rows \<Rightarrow>
       [f_str ''kind'' ''module'', f_str ''model'' model, f_floats ''end_time'' [endTime], f_floats ''step'' [step]] @
       enc_group ''rows'' (\<lambda>r. [f_floats ''row_values'' r]) rows
   | PNone \<Rightarrow> [f_str ''kind'' ''''])"

definition request_fields :: "wire_request \<Rightarrow> field list" where
  "request_fields q =
     [f_uint ''protocol'' (wq_Protocol q), f_str ''minimum_isolation'' (wq_Floor q), f_int ''timeout_ms'' (wq_TimeoutMs q)] @
     (if wq_Protocol q < 2 then []
      else f_str ''software_mode'' (sr_Mode (wq_Rule q)) #
        enc_group ''software_identities'' (\<lambda>i. [f_str ''software_identity'' i]) (sr_Identities (wq_Rule q))) @
     payload_fields (wq_Payload q)"

definition request_encoding :: "wire_request \<Rightarrow> string" where
  "request_encoding q = enc_fields (if wq_Protocol q < 2 then requestDomainV1 else requestDomain) (request_fields q)"

definition requestDigest :: "(string \<Rightarrow> string) \<Rightarrow> wire_request \<Rightarrow> string" where
  "requestDigest sha q = sha (request_encoding q)"

text \<open>\<open>requestKind\<close>.\<close>

definition requestKind :: "wire_payload \<Rightarrow> string" where
  "requestKind p = (case p of PJavaScript _ _ \<Rightarrow> ''javascript'' | PProject _ _ _ _ \<Rightarrow> ''project''
   | PCell _ _ _ \<Rightarrow> ''cell'' | PModule _ _ _ _ \<Rightarrow> ''module'' | PNone \<Rightarrow> '''')"

subsection \<open>Results\<close>

record step_result =
  sp_Command :: string
  sp_ExitCode :: int
  sp_TimedOut :: bool
  sp_Stdout :: string
  sp_Stderr :: string
  sp_StdoutTruncated :: bool
  sp_StderrTruncated :: bool

record wire_output =
  wo_ExitCode :: int
  wo_TimedOut :: bool
  wo_Stdout :: string
  wo_Stderr :: string
  wo_StdoutTruncated :: bool
  wo_StderrTruncated :: bool

datatype wire_result =
    RJavaScript wire_output
  | RProject int string bool "step_result list" "wire_file list"
  | RCell wire_output bool bool
  | RModule int string int string string "(int \<times> 64 word list) list"
  | RNone

text \<open>\<open>RProject outcome detail truncated steps artifacts\<close>, \<open>RCell output started ended\<close>,
  \<open>RModule outcome detail width stdout stderr runs\<close>.\<close>

definition output_fields :: "wire_output \<Rightarrow> field list" where
  "output_fields o' =
     [f_int ''exit_code'' (wo_ExitCode o'), f_bool ''timed_out'' (wo_TimedOut o'), f_str ''stdout'' (wo_Stdout o'),
      f_str ''stderr'' (wo_Stderr o'), f_bool ''stdout_truncated'' (wo_StdoutTruncated o'),
      f_bool ''stderr_truncated'' (wo_StderrTruncated o')]"

definition step_fields :: "step_result \<Rightarrow> field list" where
  "step_fields s =
     [f_str ''step_command'' (sp_Command s), f_int ''step_exit_code'' (sp_ExitCode s), f_bool ''step_timed_out'' (sp_TimedOut s),
      f_str ''step_stdout'' (sp_Stdout s), f_str ''step_stderr'' (sp_Stderr s),
      f_bool ''step_stdout_truncated'' (sp_StdoutTruncated s), f_bool ''step_stderr_truncated'' (sp_StderrTruncated s)]"

definition artifact_fields :: "wire_file \<Rightarrow> field list" where
  "artifact_fields a = [f_str ''artifact_path'' (wf_Path a), f_str ''artifact_content'' (wf_Content a)]"

definition run_fields :: "int \<times> 64 word list \<Rightarrow> field list" where
  "run_fields r = [f_int ''run_status'' (fst r), f_floats ''run_outputs'' (snd r)]"

definition result_fields :: "wire_result \<Rightarrow> field list" where
  "result_fields r = (case r of
     RJavaScript o' \<Rightarrow> f_str ''kind'' ''javascript'' # output_fields o'
   | RProject outcome detail cut' steps artifacts \<Rightarrow>
       [f_str ''kind'' ''project'', f_int ''outcome'' outcome, f_str ''outcome_detail'' detail, f_bool ''artifacts_truncated'' cut'] @
       enc_group ''steps'' step_fields steps @ enc_group ''artifacts'' artifact_fields artifacts
   | RCell o' started ended \<Rightarrow>
       f_str ''kind'' ''cell'' # output_fields o' @ [f_bool ''interpreter_started'' started, f_bool ''interpreter_ended'' ended]
   | RModule outcome detail width out err runs \<Rightarrow>
       [f_str ''kind'' ''module'', f_int ''outcome'' outcome, f_str ''outcome_detail'' detail, f_int ''width'' width,
        f_str ''stdout'' out, f_str ''stderr'' err] @ enc_group ''runs'' run_fields runs
   | RNone \<Rightarrow> [f_str ''kind'' ''''])"

definition result_encoding :: "wire_result \<Rightarrow> string" where
  "result_encoding r = enc_fields resultDomain (result_fields r)"

definition ResultDigest :: "(string \<Rightarrow> string) \<Rightarrow> wire_result \<Rightarrow> string" where
  "ResultDigest sha r = sha (result_encoding r)"

definition resultKind :: "wire_result \<Rightarrow> string" where
  "resultKind r = (case r of RJavaScript _ \<Rightarrow> ''javascript'' | RProject _ _ _ _ _ \<Rightarrow> ''project''
   | RCell _ _ _ \<Rightarrow> ''cell'' | RModule _ _ _ _ _ _ \<Rightarrow> ''module'' | RNone \<Rightarrow> '''')"

subsection \<open>Values are read back exactly\<close>

definition be_val :: "string \<Rightarrow> nat" where
  "be_val s = fold (\<lambda>c v. 256 * v + of_char c) s 0"

lemma be_val_digits:
  "fold (\<lambda>c v. 256 * v + of_char c) (map (\<lambda>k. char_of (n div 256 ^ k)) (rev [0..<m])) a = a * 256 ^ m + n mod (256 ^ m :: nat)"
proof (induction m arbitrary: a)
  case (Suc m)
  have "n mod 256 ^ Suc m = 256 ^ m * (n div 256 ^ m mod 256) + n mod 256 ^ m"
    using mod_mult2_eq [of n "256 ^ m" 256] by (simp add: mult.commute)
  with Suc show ?case by (simp add: algebra_simps)
qed simp

lemma be_val_be64: "n < 2 ^ 64 \<Longrightarrow> be_val (be64 n) = n"
proof -
  assume n: "n < 2 ^ 64"
  have "rev [0..<8::nat] = [7, 6, 5, 4, 3, 2, 1, 0]" by (simp add: upt_rec)
  then show ?thesis using be_val_digits [of n 8 0] n by (simp add: be_val_def be64_def)
qed

lemma be64_length [simp]: "length (be64 n) = 8"
  by (simp add: be64_def)

lemma be64_inj: "m < 2 ^ 64 \<Longrightarrow> n < 2 ^ 64 \<Longrightarrow> be64 m = be64 n \<longleftrightarrow> m = n"
  by (metis be_val_be64)

lemma enc_value_inj:
  assumes "length a < 2 ^ 64" and "length b < 2 ^ 64" and "enc_value a @ s = enc_value b @ t"
  shows "a = b \<and> s = t"
proof -
  from assms(3) have "be64 (length a) @ a @ s = be64 (length b) @ b @ t" by (simp add: enc_value_def)
  then have "be64 (length a) = be64 (length b)" "a @ s = b @ t" by (metis append_eq_append_conv be64_length)+
  with assms(1,2) show ?thesis by (simp add: be64_inj)
qed

text \<open>Every Go string is shorter than \<open>2 ^ 64\<close> bytes.\<close>

definition fits :: "field list \<Rightarrow> bool" where
  "fits fs \<longleftrightarrow> (\<forall>f \<in> set fs. length (fst f) < 2 ^ 64 \<and> length (snd f) < 2 ^ 64)"

lemma enc_field_inj:
  "fits [f] \<Longrightarrow> fits [g] \<Longrightarrow> enc_field f @ s = enc_field g @ t \<Longrightarrow> f = g \<and> s = t"
proof -
  assume f: "fits [f]" "fits [g]" and "enc_field f @ s = enc_field g @ t"
  then have "enc_value (fst f) @ enc_value (snd f) @ s = enc_value (fst g) @ enc_value (snd g) @ t" by (simp add: enc_field_def)
  with f have "fst f = fst g \<and> enc_value (snd f) @ s = enc_value (snd g) @ t" by (intro enc_value_inj) (simp_all add: fits_def)
  with f enc_value_inj [of "snd f" "snd g" s t] show ?thesis by (simp add: fits_def prod_eq_iff)
qed

lemma enc_field_long: "enc_field f \<noteq> []"
  by (simp add: enc_field_def enc_value_def be64_def)

lemma enc_concat_inj:
  "fits fs \<Longrightarrow> fits gs \<Longrightarrow> concat (map enc_field fs) = concat (map enc_field gs) \<Longrightarrow> fs = gs"
proof (induction fs arbitrary: gs)
  case Nil
  then show ?case by (cases gs) (simp_all add: enc_field_long)
next
  case (Cons f fs)
  then obtain g gs' where gs: "gs = g # gs'" by (cases gs) (simp_all add: enc_field_long)
  with Cons.prems have "f = g \<and> concat (map enc_field fs) = concat (map enc_field gs')"
    by (intro enc_field_inj) (simp_all add: fits_def)
  with Cons gs show ?case by (simp add: fits_def)
qed

lemma enc_fields_inj:
  assumes "fits fs" "fits gs" "length d < 2 ^ 64" "length e < 2 ^ 64" "enc_fields d fs = enc_fields e gs"
  shows "d = e \<and> fs = gs"
  using enc_value_inj [OF assms(3,4)] enc_concat_inj [OF assms(1,2)] assms(5) by (auto simp: enc_fields_def)

subsection \<open>Numbers\<close>

definition dec_val :: "string \<Rightarrow> nat" where
  "dec_val s = fold (\<lambda>c v. 10 * v + (of_char c - 48)) s 0"

lemma dec_val_nat: "dec_val (dec_nat n) = n"
proof (induction n rule: dec_nat.induct)
  case (1 n)
  show ?case
  proof (cases "n < 10")
    case True
    then show ?thesis by (subst dec_nat.simps) (simp add: dec_val_def)
  next
    case False
    have "dec_val (dec_nat n) = 10 * dec_val (dec_nat (n div 10)) + n mod 10"
      by (subst dec_nat.simps) (simp add: False dec_val_def)
    with 1 False show ?thesis by simp
  qed
qed

lemma dec_nat_small: "n < 10 \<Longrightarrow> dec_nat n = [char_of (48 + n)]"
  by (subst dec_nat.simps) simp

lemma dec_nat_big: "\<not> n < 10 \<Longrightarrow> dec_nat n = dec_nat (n div 10) @ [char_of (48 + n mod 10)]"
  by (subst dec_nat.simps) simp

lemma dec_nat_digit: "\<exists>k < 10. \<exists>s. dec_nat n = char_of (48 + k :: nat) # s"
proof (induction n rule: dec_nat.induct)
  case (1 n)
  show ?case
  proof (cases "n < 10")
    case True
    then show ?thesis by (auto simp: dec_nat_small)
  next
    case False
    with 1 show ?thesis by (auto simp: dec_nat_big)
  qed
qed

lemma dec_nat_sign: "CHR ''-'' # s \<noteq> dec_nat n"
proof
  assume e: "CHR ''-'' # s = dec_nat n"
  obtain k t where k: "k < 10" "dec_nat n = char_of (48 + k :: nat) # t" using dec_nat_digit by blast
  with e have "of_char (CHR ''-'') = (of_char (char_of (48 + k :: nat) :: char) :: nat)" by simp
  with k(1) show False by (simp add: of_char_of)
qed

lemma dec_nat_inj: "dec_nat m = dec_nat n \<longleftrightarrow> m = n"
  by (metis dec_val_nat)

lemma FormatInt_inj [simp]: "FormatInt i = FormatInt j \<longleftrightarrow> i = j"
proof (cases "i < 0")
  case True
  then show ?thesis using dec_nat_sign by (cases "j < 0") (auto simp: FormatInt_def dec_nat_inj)
next
  case False
  then show ?thesis using dec_nat_sign [symmetric] by (cases "j < 0") (auto simp: FormatInt_def dec_nat_inj)
qed

lemma FormatBool_inj [simp]: "FormatBool a = FormatBool b \<longleftrightarrow> a = b"
  by (simp add: FormatBool_def)

lemma field_inj [simp]:
  "f_str n v = f_str m w \<longleftrightarrow> n = m \<and> v = w" "f_int n i = f_int m j \<longleftrightarrow> n = m \<and> i = j"
  "f_uint n a = f_uint m b \<longleftrightarrow> n = m \<and> a = b" "f_bool n x = f_bool m y \<longleftrightarrow> n = m \<and> x = y"
  by (auto simp: f_str_def f_int_def f_uint_def f_bool_def)

lemma floats_inj: "concat (map (\<lambda>w. be64 (unat (w :: 64 word))) xs) = concat (map (\<lambda>w. be64 (unat w)) ys) \<Longrightarrow> xs = ys"
proof (induction xs arbitrary: ys)
  case Nil
  then show ?case by (cases ys) (simp_all add: be64_def)
next
  case (Cons x xs)
  then obtain y ys' where ys: "ys = y # ys'" by (cases ys) (simp_all add: be64_def)
  with Cons.prems have "be64 (unat x) = be64 (unat y)" "concat (map (\<lambda>w. be64 (unat w)) xs) = concat (map (\<lambda>w. be64 (unat w)) ys')"
    by (simp_all add: append_eq_append_conv)
  moreover have "unat w < 2 ^ 64" for w :: "64 word" using unsigned_less [of w] by simp
  ultimately show ?case using Cons.IH ys by (simp add: be64_inj word_unat_eq_iff)
qed

lemma f_floats_inj [simp]: "f_floats n xs = f_floats m ys \<longleftrightarrow> n = m \<and> xs = ys"
  by (auto simp: f_floats_def dest: floats_inj)

subsection \<open>Groups\<close>

lemma enc_group_inj:
  assumes "\<And>x y. f x = f y \<Longrightarrow> x = y" and "\<And>x. length (f x) = k" and "enc_group n f xs @ r = enc_group n f ys @ s"
  shows "xs = ys \<and> r = s"
proof -
  from assms(3) have l: "length xs = length ys" "concat (map f xs) @ r = concat (map f ys) @ s"
    by (simp_all add: enc_group_def)
  then show ?thesis
  proof (induction xs ys rule: list_induct2)
    case (Cons x xs y ys)
    then have "f x @ concat (map f xs) @ r = f y @ concat (map f ys) @ s" by simp
    then have "f x = f y" "concat (map f xs) @ r = concat (map f ys) @ s"
      using assms(2) by (metis append_eq_append_conv)+
    with Cons.IH assms(1) show ?case by blast
  qed simp
qed

lemma file_fields_inj: "file_fields a = file_fields b \<Longrightarrow> a = b"
  by (simp add: file_fields_def wire_file.equality)

lemma files_inj: "enc_group n file_fields xs @ r = enc_group n file_fields ys @ s \<Longrightarrow> xs = ys \<and> r = s"
  by (rule enc_group_inj [of _ 2, OF file_fields_inj]) (simp_all add: file_fields_def)

lemma names_inj: "enc_group n (\<lambda>s. [f_str m s]) xs @ r = enc_group n (\<lambda>s. [f_str m s]) ys @ s \<Longrightarrow> xs = ys \<and> r = s"
  by (rule enc_group_inj [of _ 1]) simp_all

subsection \<open>Requests and results\<close>

lemma payload_fields_inj:
  assumes "payload_fields p = payload_fields q"
  shows "p = q"
proof (cases p)
  case (PJavaScript a b)
  with assms show ?thesis by (cases q) (auto simp: payload_fields_def)
next
  case (PProject profile files steps artifacts)
  with assms obtain profile' files' steps' artifacts' where q: "q = PProject profile' files' steps' artifacts'"
    by (cases q) (auto simp: payload_fields_def)
  let ?s = "enc_group ''steps'' (\<lambda>s. [f_str ''step_command'' s])" and ?a = "enc_group ''artifacts'' (\<lambda>a. [f_str ''artifact_path'' a])"
  have e: "profile = profile'" "enc_group ''files'' file_fields files @ ?s steps @ ?a artifacts =
      enc_group ''files'' file_fields files' @ ?s steps' @ ?a artifacts'"
    using assms by (simp_all add: PProject q payload_fields_def)
  then have f: "files = files'" "?s steps @ ?a artifacts = ?s steps' @ ?a artifacts'"
    using files_inj [OF e(2)] by simp_all
  from names_inj [OF f(2)] have "steps = steps'" "?a artifacts @ [] = ?a artifacts' @ []" by simp_all
  with names_inj [OF this(2)] e(1) f(1) PProject q show ?thesis by simp
next
  case (PCell language code files)
  with assms obtain language' code' files' where q: "q = PCell language' code' files'" by (cases q) (auto simp: payload_fields_def)
  have e: "language = language'" "code = code'" "enc_group ''files'' file_fields files @ [] = enc_group ''files'' file_fields files' @ []"
    using assms by (simp_all add: PCell q payload_fields_def)
  with files_inj [OF e(3)] show ?thesis by (simp add: PCell q)
next
  case (PModule model endTime step rows)
  with assms obtain model' endTime' step' rows' where q: "q = PModule model' endTime' step' rows'" by (cases q) (auto simp: payload_fields_def)
  have e: "model = model'" "endTime = endTime'" "step = step'"
    "enc_group ''rows'' (\<lambda>r. [f_floats ''row_values'' r]) rows @ [] = enc_group ''rows'' (\<lambda>r. [f_floats ''row_values'' r]) rows' @ []"
    using assms by (simp_all add: PModule q payload_fields_def)
  from enc_group_inj [OF _ _ e(4), of 1] e(1-3) show ?thesis by (simp add: PModule q)
next
  case PNone
  with assms show ?thesis by (cases q) (auto simp: payload_fields_def)
qed

text \<open>What a request's encoding covers: everything but the trace id, and, under the first
  protocol, which had none, everything but the software rule.\<close>

definition same_request :: "wire_request \<Rightarrow> wire_request \<Rightarrow> bool" where
  "same_request q r \<longleftrightarrow> wq_Protocol q = wq_Protocol r \<and> wq_Floor q = wq_Floor r \<and> wq_TimeoutMs q = wq_TimeoutMs r \<and>
     wq_Payload q = wq_Payload r \<and> (wq_Protocol q \<ge> 2 \<longrightarrow> wq_Rule q = wq_Rule r)"

lemma request_fields_inj:
  assumes "request_fields q = request_fields r"
  shows "same_request q r"
proof -
  have p: "wq_Protocol q = wq_Protocol r" "wq_Floor q = wq_Floor r" "wq_TimeoutMs q = wq_TimeoutMs r"
    using assms by (simp_all add: request_fields_def)
  show ?thesis
  proof (cases "wq_Protocol q < 2")
    case True
    with assms p payload_fields_inj show ?thesis by (simp add: request_fields_def same_request_def)
  next
    case False
    let ?g = "enc_group ''software_identities'' (\<lambda>i. [f_str ''software_identity'' i])"
    have "sr_Mode (wq_Rule q) = sr_Mode (wq_Rule r)"
      "?g (sr_Identities (wq_Rule q)) @ payload_fields (wq_Payload q) = ?g (sr_Identities (wq_Rule r)) @ payload_fields (wq_Payload r)"
      using assms p False by (simp_all add: request_fields_def)
    with names_inj [OF this(2)] p payload_fields_inj show ?thesis by (auto simp: same_request_def intro: software_rule.equality)
  qed
qed

lemma output_fields_inj: "output_fields a @ r = output_fields b @ s \<longleftrightarrow> a = b \<and> r = s"
  by (auto simp: output_fields_def intro: wire_output.equality)

lemma result_fields_inj:
  assumes "result_fields p = result_fields q"
  shows "p = q"
proof (cases p)
  case (RJavaScript a)
  with assms output_fields_inj [of a "[]" _ "[]"] show ?thesis by (cases q) (auto simp: result_fields_def)
next
  case (RProject outcome detail c steps artifacts)
  with assms obtain outcome' detail' c' steps' artifacts' where q: "q = RProject outcome' detail' c' steps' artifacts'"
    by (cases q) (auto simp: result_fields_def)
  have e: "outcome = outcome'" "detail = detail'" "c = c'"
    "enc_group ''steps'' step_fields steps @ enc_group ''artifacts'' artifact_fields artifacts =
     enc_group ''steps'' step_fields steps' @ enc_group ''artifacts'' artifact_fields artifacts'"
    using assms by (simp_all add: RProject q result_fields_def)
  have s: "step_fields x = step_fields y \<Longrightarrow> x = y" for x y by (simp add: step_fields_def step_result.equality)
  have a: "artifact_fields x = artifact_fields y \<Longrightarrow> x = y" for x y by (simp add: artifact_fields_def wire_file.equality)
  from enc_group_inj [OF s _ e(4), of 7] have "steps = steps'"
    "enc_group ''artifacts'' artifact_fields artifacts @ [] = enc_group ''artifacts'' artifact_fields artifacts' @ []"
    by (simp_all add: step_fields_def)
  with enc_group_inj [OF a _ this(2), of 2] e(1-3) RProject q show ?thesis by (simp add: artifact_fields_def)
next
  case (RCell a x y)
  with assms show ?thesis by (cases q) (auto simp: result_fields_def output_fields_inj)
next
  case (RModule outcome detail width out err runs)
  with assms obtain outcome' detail' width' out' err' runs' where q: "q = RModule outcome' detail' width' out' err' runs'"
    by (cases q) (auto simp: result_fields_def)
  have e: "outcome = outcome'" "detail = detail'" "width = width'" "out = out'" "err = err'"
    "enc_group ''runs'' run_fields runs @ [] = enc_group ''runs'' run_fields runs' @ []"
    using assms by (simp_all add: RModule q result_fields_def)
  have r: "run_fields x = run_fields y \<Longrightarrow> x = y" for x y by (cases x; cases y) (simp add: run_fields_def)
  from enc_group_inj [OF r _ e(6), of 2] e(1-5) show ?thesis by (simp add: RModule q run_fields_def)
next
  case RNone
  with assms show ?thesis by (cases q) (auto simp: result_fields_def)
qed

lemma request_encoding_inj:
  assumes "request_encoding q = request_encoding r" and "fits (request_fields q)" and "fits (request_fields r)"
  shows "same_request q r"
proof -
  have "length requestDomainV1 < 2 ^ 64" "length requestDomain < 2 ^ 64" by (simp_all add: requestDomain_def requestDomainV1_def)
  with enc_fields_inj [OF assms(2,3)] assms(1) have "request_fields q = request_fields r"
    by (simp add: request_encoding_def split: if_splits)
  then show ?thesis by (rule request_fields_inj)
qed

lemma result_encoding_inj:
  assumes "result_encoding p = result_encoding q" and "fits (result_fields p)" and "fits (result_fields q)"
  shows "p = q"
proof -
  have "length resultDomain < 2 ^ 64" by (simp add: resultDomain_def)
  with enc_fields_inj [OF assms(2,3)] assms(1) show ?thesis by (simp add: result_encoding_def result_fields_inj)
qed

subsection \<open>Properties\<close>

text \<open>No two different inputs share an encoding. Two requests encoded to the same bytes agree in
  protocol, floor, timeout, payload and, from protocol 2 on, the software rule: every string, list
  and number of them, whatever bytes they contain. Two results encoded to the same bytes are equal,
  and no result has the encoding of a request.\<close>

theorem encodings_are_injective:
  assumes "fits (request_fields q)" "fits (request_fields r)" "fits (result_fields a)" "fits (result_fields b)"
  shows "(request_encoding q = request_encoding r \<longrightarrow> same_request q r) \<and>
    (result_encoding a = result_encoding b \<longrightarrow> a = b) \<and> result_encoding a \<noteq> request_encoding q"
proof -
  have d: "length requestDomainV1 < 2 ^ 64" "length requestDomain < 2 ^ 64" "length resultDomain < 2 ^ 64"
    "resultDomain \<noteq> requestDomain" "resultDomain \<noteq> requestDomainV1"
    by (simp_all add: requestDomain_def requestDomainV1_def resultDomain_def)
  have "result_encoding a \<noteq> request_encoding q"
    using enc_fields_inj [OF assms(3,1) d(3)] d by (auto simp: result_encoding_def request_encoding_def)
  then show ?thesis using request_encoding_inj [OF _ assms(1,2)] result_encoding_inj [OF _ assms(3,4)] by blast
qed

subsection \<open>Two requests\<close>

definition demo_wire :: "string \<Rightarrow> wire_request" where
  "demo_wire code = \<lparr>wq_Protocol = 5, wq_Floor = '''', wq_TimeoutMs = 1000, wq_Rule = no_software_rule, wq_TraceId = ''t'',
     wq_Payload = PJavaScript code ''''\<rparr>"

lemma demo_wire_fits: "fits (request_fields (demo_wire ''a'')) \<and> fits (request_fields (demo_wire ''b''))"
  by code_simp

theorem encodings_are_injective_witness:
  "request_encoding (demo_wire ''a'') \<noteq> request_encoding (demo_wire ''b'') \<and> result_encoding RNone \<noteq> request_encoding (demo_wire ''a'')"
proof -
  have "fits (result_fields RNone)" by (simp add: fits_def result_fields_def f_str_def)
  moreover have "\<not> same_request (demo_wire ''a'') (demo_wire ''b'')" by (simp add: same_request_def demo_wire_def)
  ultimately show ?thesis
    using encodings_are_injective [of "demo_wire ''a''" "demo_wire ''b''" RNone RNone] demo_wire_fits by blast
qed

end
