(* ===== verification/Run_Record.thy ===== *)
theory Run_Record
  imports Record_Encoding
begin

text \<open>
  Run records, \<open>record/record.go\<close>: what a record states, its digest under every published
  version, how the daemon stamps one and how a caller checks it against the request it sent
  and the answer it got, alone and as the next link of a session's chain.
\<close>

subsection \<open>Records\<close>

record run_record =
  rr_Version :: int
  rr_RequestSHA256 :: string
  rr_ResultSHA256 :: string
  rr_Provider :: string
  rr_Isolation :: string
  rr_Environment :: string
  rr_SoftwareIdentity :: string
  rr_SoftwareRuleID :: string
  rr_Policy :: string
  rr_Started :: gotime
  rr_Ended :: gotime
  rr_Session :: string
  rr_Sequence :: nat
  rr_PreviousSHA256 :: string
  rr_Unanswered :: string
  rr_Instance :: string
  rr_SHA256 :: string

definition UnixMilli :: "gotime \<Rightarrow> int" where
  "UnixMilli t = t div 1000000"

text \<open>\<open>ToWire\<close> and \<open>FromWire\<close>: the wire form has the times in milliseconds and the version as an
  unsigned 32-bit number.\<close>

datatype wire_record = WireRecord run_record

definition ToWire :: "run_record \<Rightarrow> wire_record" where
  "ToWire r = WireRecord (r\<lparr>rr_Version := rr_Version r mod 2 ^ 32, rr_Started := UnixMilli (rr_Started r), rr_Ended := UnixMilli (rr_Ended r)\<rparr>)"

definition FromWire :: "wire_record \<Rightarrow> run_record" where
  "FromWire m = (case m of WireRecord r \<Rightarrow> r\<lparr>rr_Started := rr_Started r * 1000000, rr_Ended := rr_Ended r * 1000000\<rparr>)"

subsection \<open>Versions\<close>

record spec =
  sp_fields :: "string list"
  sp_answered :: bool
  sp_unanswered :: bool
  sp_evidence :: bool

definition Version :: int where "Version = 4"

definition published :: "(int \<times> spec) list" where
  "published =
    [(1, \<lparr>sp_fields = [''request_sha256'', ''result_sha256'', ''provider'', ''isolation'', ''environment'', ''policy'',
        ''started_unix_ms'', ''ended_unix_ms'', ''session'', ''sequence'', ''previous_sha256''],
        sp_answered = True, sp_unanswered = False, sp_evidence = False\<rparr>),
     (2, \<lparr>sp_fields = [''request_sha256'', ''result_sha256'', ''provider'', ''isolation'', ''environment'', ''policy'',
        ''software_identity'', ''software_rule_id'', ''started_unix_ms'', ''ended_unix_ms'', ''session'', ''sequence'',
        ''previous_sha256''], sp_answered = True, sp_unanswered = False, sp_evidence = True\<rparr>),
     (3, \<lparr>sp_fields = [''request_sha256'', ''result_sha256'', ''unanswered'', ''provider'', ''isolation'', ''environment'',
        ''policy'', ''software_identity'', ''software_rule_id'', ''started_unix_ms'', ''ended_unix_ms'', ''session'', ''sequence'',
        ''previous_sha256''], sp_answered = False, sp_unanswered = True, sp_evidence = True\<rparr>),
     (4, \<lparr>sp_fields = [''request_sha256'', ''result_sha256'', ''unanswered'', ''provider'', ''isolation'', ''environment'',
        ''policy'', ''software_identity'', ''software_rule_id'', ''instance'', ''started_unix_ms'', ''ended_unix_ms'', ''session'',
        ''sequence'', ''previous_sha256''], sp_answered = True, sp_unanswered = True, sp_evidence = True\<rparr>)]"

definition covers :: "spec \<Rightarrow> string \<Rightarrow> bool" where
  "covers s name \<longleftrightarrow> name \<in> set (sp_fields s)"

text \<open>How each field is put, and whether a record states it.\<close>

definition recordFields :: "(string \<times> (string \<Rightarrow> run_record \<Rightarrow> field) \<times> (run_record \<Rightarrow> bool)) list" where
  "recordFields =
    [(''request_sha256'', (\<lambda>n r. f_str n (rr_RequestSHA256 r)), (\<lambda>r. rr_RequestSHA256 r \<noteq> '''')),
     (''result_sha256'', (\<lambda>n r. f_str n (rr_ResultSHA256 r)), (\<lambda>r. rr_ResultSHA256 r \<noteq> '''')),
     (''unanswered'', (\<lambda>n r. f_str n (rr_Unanswered r)), (\<lambda>r. rr_Unanswered r \<noteq> '''')),
     (''provider'', (\<lambda>n r. f_str n (rr_Provider r)), (\<lambda>r. rr_Provider r \<noteq> '''')),
     (''isolation'', (\<lambda>n r. f_str n (rr_Isolation r)), (\<lambda>r. rr_Isolation r \<noteq> '''')),
     (''environment'', (\<lambda>n r. f_str n (rr_Environment r)), (\<lambda>r. rr_Environment r \<noteq> '''')),
     (''policy'', (\<lambda>n r. f_str n (rr_Policy r)), (\<lambda>r. rr_Policy r \<noteq> '''')),
     (''software_identity'', (\<lambda>n r. f_str n (rr_SoftwareIdentity r)), (\<lambda>r. rr_SoftwareIdentity r \<noteq> '''')),
     (''software_rule_id'', (\<lambda>n r. f_str n (rr_SoftwareRuleID r)), (\<lambda>r. rr_SoftwareRuleID r \<noteq> '''')),
     (''instance'', (\<lambda>n r. f_str n (rr_Instance r)), (\<lambda>r. rr_Instance r \<noteq> '''')),
     (''started_unix_ms'', (\<lambda>n r. f_int n (UnixMilli (rr_Started r))), (\<lambda>r. rr_Started r \<noteq> zero_time)),
     (''ended_unix_ms'', (\<lambda>n r. f_int n (UnixMilli (rr_Ended r))), (\<lambda>r. rr_Ended r \<noteq> zero_time)),
     (''session'', (\<lambda>n r. f_str n (rr_Session r)), (\<lambda>r. rr_Session r \<noteq> '''')),
     (''sequence'', (\<lambda>n r. f_uint n (rr_Sequence r)), (\<lambda>r. rr_Sequence r \<noteq> 0)),
     (''previous_sha256'', (\<lambda>n r. f_str n (rr_PreviousSHA256 r)), (\<lambda>r. rr_PreviousSHA256 r \<noteq> ''''))]"

definition recordDomain :: "int \<Rightarrow> string" where
  "recordDomain version = ''plimsoll.run-record.v'' @ FormatInt version"

definition record_fields :: "run_record \<Rightarrow> field list" where
  "record_fields r =
     (let fields = sp_fields (case map_of published (rr_Version r) of Some s \<Rightarrow> s | None \<Rightarrow> the (map_of published Version))
      in map (\<lambda>n. fst (the (map_of recordFields n)) n r) fields)"

definition record_encoding :: "run_record \<Rightarrow> string" where
  "record_encoding r = enc_fields (recordDomain (rr_Version r)) (record_fields r)"

definition Digest :: "(string \<Rightarrow> string) \<Rightarrow> run_record \<Rightarrow> string" where
  "Digest sha r = sha (record_encoding r)"

definition SessionFingerprint :: "(string \<Rightarrow> string) \<Rightarrow> string \<Rightarrow> string" where
  "SessionFingerprint sha i = sha i"

subsection \<open>What a record may state\<close>

datatype record_error = ErrVersion | ErrMismatch | ErrNoRecord | ErrChain | IsolationErr goerr

definition ValidInstance :: "string \<Rightarrow> bool" where
  "ValidInstance s \<longleftrightarrow> s = '''' \<or>
     (let kind = takeWhile (\<lambda>c. c \<noteq> CHR '':'') s; rest = dropWhile (\<lambda>c. c \<noteq> CHR '':'') s; ref = tl rest
      in rest \<noteq> [] \<and> kind \<noteq> [] \<and> is_lower (hd kind) \<and> length kind \<le> 32 \<and>
         list_all (\<lambda>c. is_lower c \<or> is_digit c \<or> c = CHR ''-'') (tl kind) \<and>
         ref \<noteq> [] \<and> length ref \<le> 127 \<and> list_all (\<lambda>c. is_alnum c \<or> c \<in> set ''._:-'') ref)"

definition unansweredCodes :: "string list" where
  "unansweredCodes = [''canceled'', ''unknown'', ''invalid_argument'', ''deadline_exceeded'', ''not_found'', ''already_exists'',
     ''permission_denied'', ''resource_exhausted'', ''failed_precondition'', ''aborted'', ''out_of_range'', ''unimplemented'',
     ''internal'', ''unavailable'', ''data_loss'', ''unauthenticated'']"

definition readable :: "int \<Rightarrow> bool \<Rightarrow> record_error + spec" where
  "readable version live = (case map_of published version of
     None \<Rightarrow> Inl ErrVersion
   | Some s \<Rightarrow> if live \<and> version \<noteq> Version then Inl ErrVersion else Inr s)"

definition statesOnly :: "(string \<Rightarrow> string) \<Rightarrow> spec \<Rightarrow> run_record \<Rightarrow> record_error option" where
  "statesOnly sha s r =
     (let unanswered = (rr_Unanswered r \<noteq> '''')
      in if unanswered \<and> \<not> sp_unanswered s then Some ErrMismatch
         else if \<not> unanswered \<and> \<not> sp_answered s then Some ErrMismatch
         else if unanswered = (rr_ResultSHA256 r \<noteq> '''') then Some ErrMismatch
         else if unanswered \<and> rr_Unanswered r \<notin> set unansweredCodes then Some ErrMismatch
         else if \<not> ValidInstance (rr_Instance r) then Some ErrMismatch
         else or_err (first_err (\<lambda>(name, f). guard_err (\<not> covers s name \<and> snd f r) ErrMismatch) recordFields)
           (guard_err (rr_SHA256 r \<noteq> Digest sha r) ErrMismatch))"

definition CheckStored :: "(string \<Rightarrow> string) \<Rightarrow> run_record \<Rightarrow> record_error option" where
  "CheckStored sha r = (case readable (rr_Version r) False of Inl e \<Rightarrow> Some e | Inr s \<Rightarrow> statesOnly sha s r)"

subsection \<open>Stamping and checking\<close>

record response =
  rp_Sandbox :: string
  rp_Isolation :: string
  rp_Environment :: string
  rp_SoftwareIdentity :: string
  rp_Instance :: string
  rp_Result :: wire_result
  rp_Record :: "wire_record option"

definition Stamp :: "(string \<Rightarrow> string) \<Rightarrow> run_record \<Rightarrow> response \<Rightarrow> wire_record" where
  "Stamp sha r resp =
     (let r = r\<lparr>rr_Version := Version, rr_ResultSHA256 := ResultDigest sha (rp_Result resp), rr_Provider := rp_Sandbox resp,
            rr_Isolation := rp_Isolation resp, rr_Environment := rp_Environment resp,
            rr_SoftwareIdentity := rp_SoftwareIdentity resp, rr_Instance := rp_Instance resp\<rparr>
      in ToWire (r\<lparr>rr_SHA256 := Digest sha r\<rparr>))"

definition StampUnanswered :: "(string \<Rightarrow> string) \<Rightarrow> run_record \<Rightarrow> string \<Rightarrow> wire_record" where
  "StampUnanswered sha r code =
     (let r = r\<lparr>rr_Version := Version, rr_ResultSHA256 := '''', rr_Unanswered := code\<rparr>
      in ToWire (r\<lparr>rr_SHA256 := Digest sha r\<rparr>))"

definition floorOf :: "string \<Rightarrow> record_error + isolation_class" where
  "floorOf floor =
     (if floor = '''' then Inr IsolationUnknown
      else if ParseIsolationClass floor \<ge> IsolationProcess then Inr (ParseIsolationClass floor) else Inl ErrMismatch)"

definition isolation_check :: "string \<Rightarrow> isolation_class \<Rightarrow> record_error option" where
  "isolation_check tier minimum = map_option IsolationErr (CheckResultIsolation (ParseIsolationClass tier) minimum)"

definition check_answer :: "(string \<Rightarrow> string) \<Rightarrow> string \<Rightarrow> string \<Rightarrow> string \<Rightarrow> software_rule \<Rightarrow> response \<Rightarrow> bool \<Rightarrow> record_error + run_record" where
  "check_answer sha requestDig kind floor rule resp live =
     (if software_Validate rule \<noteq> None then Inl ErrMismatch
      else case floorOf floor of Inl e \<Rightarrow> Inl e | Inr minimum \<Rightarrow>
      (case rp_Record resp of None \<Rightarrow> Inl ErrNoRecord | Some m \<Rightarrow>
        let r = FromWire m
        in (case readable (rr_Version r) live of Inl e \<Rightarrow> Inl e | Inr s \<Rightarrow>
           if rr_Unanswered r \<noteq> '''' then Inl ErrMismatch
           else (case statesOnly sha s r of Some e \<Rightarrow> Inl e | None \<Rightarrow>
             if resultKind (rp_Result resp) = '''' \<or> resultKind (rp_Result resp) \<noteq> kind then Inl ErrMismatch
             else if rr_Ended r < rr_Started r then Inl ErrMismatch
             else if rr_RequestSHA256 r \<noteq> requestDig then Inl ErrMismatch
             else if rr_ResultSHA256 r \<noteq> ResultDigest sha (rp_Result resp) then Inl ErrMismatch
             else if rr_Provider r \<noteq> rp_Sandbox resp \<or> rr_Isolation r \<noteq> rp_Isolation resp then Inl ErrMismatch
             else if sp_evidence s \<and> rr_Environment r \<noteq> rp_Environment resp then Inl ErrMismatch
             else if covers s ''instance'' \<and> rr_Instance r \<noteq> rp_Instance resp then Inl ErrMismatch
             else if sp_evidence s \<and> (rr_SoftwareIdentity r \<noteq> rp_SoftwareIdentity resp \<or> rr_SoftwareRuleID r \<noteq> software_ID sha rule \<or>
                 \<not> software_Allows rule (rr_SoftwareIdentity r)) then Inl ErrMismatch
             else (case isolation_check (rr_Isolation r) minimum of Some e \<Rightarrow> Inl e | None \<Rightarrow> Inr r)))))"

definition Check :: "(string \<Rightarrow> string) \<Rightarrow> wire_request \<Rightarrow> response \<Rightarrow> record_error + run_record" where
  "Check sha q resp =
     (case check_answer sha (requestDigest sha q) (requestKind (wq_Payload q)) (wq_Floor q) (wq_Rule q) resp True of
        Inl e \<Rightarrow> Inl e
      | Inr r \<Rightarrow> if rr_Session r \<noteq> '''' \<or> rr_Sequence r \<noteq> 0 \<or> rr_PreviousSHA256 r \<noteq> '''' then Inl ErrMismatch else Inr r)"

definition CheckExchange :: "(string \<Rightarrow> string) \<Rightarrow> wire_request \<Rightarrow> response \<Rightarrow> record_error + run_record" where
  "CheckExchange sha q resp =
     check_answer sha (requestDigest sha q) (requestKind (wq_Payload q)) (wq_Floor q) (wq_Rule q) resp False"

definition next_link :: "string \<Rightarrow> nat \<Rightarrow> string \<Rightarrow> run_record \<Rightarrow> record_error option" where
  "next_link fingerprint prevSeq prev r =
     (if rr_Session r \<noteq> fingerprint then Some ErrChain
      else if rr_Sequence r \<noteq> prevSeq + 1 \<or> rr_PreviousSHA256 r \<noteq> prev then Some ErrChain else None)"

definition CheckSessionCall :: "(string \<Rightarrow> string) \<Rightarrow> wire_request \<Rightarrow> response \<Rightarrow> string \<Rightarrow> nat \<Rightarrow> string \<Rightarrow> record_error + run_record" where
  "CheckSessionCall sha q resp fingerprint prevSeq prev =
     (case check_answer sha (requestDigest sha q) (requestKind (wq_Payload q)) (wq_Floor q) (wq_Rule q) resp True of
        Inl e \<Rightarrow> Inl e
      | Inr r \<Rightarrow> (case next_link fingerprint prevSeq prev r of Some e \<Rightarrow> Inl e | None \<Rightarrow> Inr r))"

definition check_unanswered :: "(string \<Rightarrow> string) \<Rightarrow> string \<Rightarrow> string \<Rightarrow> software_rule \<Rightarrow> run_record \<Rightarrow> bool \<Rightarrow> record_error option" where
  "check_unanswered sha requestDig floor rule r live =
     (case floorOf floor of Inl e \<Rightarrow> Some e | Inr minimum \<Rightarrow>
      (case readable (rr_Version r) live of Inl e \<Rightarrow> Some e | Inr s \<Rightarrow>
        if rr_Unanswered r = '''' then Some ErrMismatch
        else (case statesOnly sha s r of Some e \<Rightarrow> Some e | None \<Rightarrow>
          if rr_RequestSHA256 r \<noteq> requestDig then Some ErrMismatch
          else if rr_SoftwareRuleID r \<noteq> software_ID sha rule \<or> \<not> software_Allows rule (rr_SoftwareIdentity r) then Some ErrMismatch
          else isolation_check (rr_Isolation r) minimum)))"

definition CheckUnanswered :: "(string \<Rightarrow> string) \<Rightarrow> wire_request \<Rightarrow> wire_record option \<Rightarrow> string \<Rightarrow> nat \<Rightarrow> string \<Rightarrow> record_error + run_record" where
  "CheckUnanswered sha q m fingerprint prevSeq prev = (case m of
     None \<Rightarrow> Inl ErrNoRecord
   | Some m \<Rightarrow>
       (let r = FromWire m
        in case check_unanswered sha (requestDigest sha q) (wq_Floor q) (wq_Rule q) r True of
             Some e \<Rightarrow> Inl e
           | None \<Rightarrow> (case next_link fingerprint prevSeq prev r of Some e \<Rightarrow> Inl e | None \<Rightarrow> Inr r)))"

definition CheckUnansweredExchange :: "(string \<Rightarrow> string) \<Rightarrow> wire_request \<Rightarrow> run_record \<Rightarrow> record_error option" where
  "CheckUnansweredExchange sha q r = check_unanswered sha (requestDigest sha q) (wq_Floor q) (wq_Rule q) r False"

text \<open>The daemon's side, \<open>internal/rpc/sandbox_service.go\<close>: the end a record states is its start plus
  what passed on the monotonic clock.\<close>

definition recordEnd :: "gotime \<Rightarrow> gotime \<Rightarrow> gotime" where
  "recordEnd started ended = started + max (time_sub ended started) 0"

definition no_record :: run_record where
  "no_record = \<lparr>rr_Version = 0, rr_RequestSHA256 = '''', rr_ResultSHA256 = '''', rr_Provider = '''', rr_Isolation = '''',
     rr_Environment = '''', rr_SoftwareIdentity = '''', rr_SoftwareRuleID = '''', rr_Policy = '''', rr_Started = zero_time,
     rr_Ended = zero_time, rr_Session = '''', rr_Sequence = 0, rr_PreviousSHA256 = '''', rr_Unanswered = '''',
     rr_Instance = '''', rr_SHA256 = ''''\<rparr>"

definition runRecord :: "(string \<Rightarrow> string) \<Rightarrow> string \<Rightarrow> response \<Rightarrow> gotime \<Rightarrow> gotime \<Rightarrow> run_record \<Rightarrow> software_rule \<Rightarrow> string \<Rightarrow> wire_record" where
  "runRecord sha requestDig resp started ended link rule policy =
     Stamp sha (no_record\<lparr>rr_RequestSHA256 := requestDig, rr_SoftwareRuleID := software_ID sha rule, rr_Policy := policy,
        rr_Started := started, rr_Ended := recordEnd started ended, rr_Session := rr_Session link,
        rr_Sequence := rr_Sequence link, rr_PreviousSHA256 := rr_PreviousSHA256 link\<rparr>) resp"

subsection \<open>Records on the wire\<close>

lemma UnixMilli_ms [simp]: "UnixMilli (t * 1000000) = t" "UnixMilli (1000000 * t) = t"
  by (simp_all add: UnixMilli_def)

lemma Digest_ignores_own [simp]: "Digest sha (r\<lparr>rr_SHA256 := d\<rparr>) = Digest sha r"
  by (simp add: Digest_def record_encoding_def record_fields_def recordFields_def published_def Version_def)

lemma Digest_wire:
  assumes "0 \<le> rr_Version r" "rr_Version r < 2 ^ 32"
  shows "Digest sha (FromWire (ToWire r)) = Digest sha r"
  using assms by (simp add: Digest_def record_encoding_def record_fields_def recordFields_def published_def Version_def
    FromWire_def ToWire_def)

lemma current_spec:
  "map_of published Version = Some s \<Longrightarrow> sp_answered s \<and> sp_unanswered s \<and> sp_evidence s \<and> covers s ''instance'' \<and>
     list_all (\<lambda>f. covers s (fst f)) recordFields"
  by (simp add: published_def Version_def) (drule sym, simp add: covers_def recordFields_def)

lemma current_published: "map_of published Version = Some (the (map_of published Version))"
  by (simp add: published_def Version_def)

text \<open>A record of the current version passes its own check exactly when it states one of a
  result and a code, a typed instance and its own digest.\<close>

lemma statesOnly_current:
  assumes "map_of published Version = Some s"
  shows "statesOnly sha s r = None \<longleftrightarrow>
    (rr_Unanswered r = '''') = (rr_ResultSHA256 r \<noteq> '''') \<and> (rr_Unanswered r = '''' \<or> rr_Unanswered r \<in> set unansweredCodes) \<and>
    ValidInstance (rr_Instance r) \<and> rr_SHA256 r = Digest sha r"
proof -
  have "first_err (\<lambda>(name, f). guard_err (\<not> covers s name \<and> snd f r) ErrMismatch) recordFields = None"
    using current_spec [OF assms] by (auto simp: list_all_iff)
  then show ?thesis using current_spec [OF assms] by (auto simp: statesOnly_def Let_def)
qed

definition wire_time :: "gotime \<Rightarrow> gotime" where
  "wire_time t = UnixMilli t * 1000000"

lemma wire_time_mono: "s \<le> t \<Longrightarrow> wire_time s \<le> wire_time t"
  by (simp add: wire_time_def UnixMilli_def zdiv_mono1)

lemma FromWire_Stamp:
  "FromWire (Stamp sha r resp) =
     (let r' = r\<lparr>rr_Version := Version, rr_ResultSHA256 := ResultDigest sha (rp_Result resp), rr_Provider := rp_Sandbox resp,
            rr_Isolation := rp_Isolation resp, rr_Environment := rp_Environment resp,
            rr_SoftwareIdentity := rp_SoftwareIdentity resp, rr_Instance := rp_Instance resp,
            rr_Started := wire_time (rr_Started r), rr_Ended := wire_time (rr_Ended r)\<rparr>
      in r'\<lparr>rr_SHA256 := Digest sha r'\<rparr>)"
proof -
  let ?r = "r\<lparr>rr_Version := Version, rr_ResultSHA256 := ResultDigest sha (rp_Result resp), rr_Provider := rp_Sandbox resp,
            rr_Isolation := rp_Isolation resp, rr_Environment := rp_Environment resp,
            rr_SoftwareIdentity := rp_SoftwareIdentity resp, rr_Instance := rp_Instance resp\<rparr>"
  have d: "Digest sha (FromWire (ToWire ?r)) = Digest sha ?r" by (rule Digest_wire) (simp_all add: Version_def)
  have w: "FromWire (ToWire ?r) = ?r\<lparr>rr_Started := wire_time (rr_Started r), rr_Ended := wire_time (rr_Ended r)\<rparr>"
    by (simp add: FromWire_def ToWire_def wire_time_def Version_def)
  show ?thesis unfolding Stamp_def Let_def
    using d unfolding w by (simp add: FromWire_def ToWire_def wire_time_def Version_def)
qed

lemma FromWire_StampUnanswered:
  "FromWire (StampUnanswered sha r code) =
     (let r' = r\<lparr>rr_Version := Version, rr_ResultSHA256 := '''', rr_Unanswered := code,
            rr_Started := wire_time (rr_Started r), rr_Ended := wire_time (rr_Ended r)\<rparr>
      in r'\<lparr>rr_SHA256 := Digest sha r'\<rparr>)"
proof -
  let ?r = "r\<lparr>rr_Version := Version, rr_ResultSHA256 := '''', rr_Unanswered := code\<rparr>"
  have d: "Digest sha (FromWire (ToWire ?r)) = Digest sha ?r" by (rule Digest_wire) (simp_all add: Version_def)
  have w: "FromWire (ToWire ?r) = ?r\<lparr>rr_Started := wire_time (rr_Started r), rr_Ended := wire_time (rr_Ended r)\<rparr>"
    by (simp add: FromWire_def ToWire_def wire_time_def Version_def)
  show ?thesis unfolding StampUnanswered_def Let_def
    using d unfolding w by (simp add: FromWire_def ToWire_def wire_time_def Version_def)
qed


subsection \<open>What an accepted record states\<close>

lemma check_answer_Inr:
  assumes "check_answer sha d kind floor rule resp live = Inr r"
  obtains m s lo where "rp_Record resp = Some m" "r = FromWire m" "map_of published (rr_Version r) = Some s" "live \<longrightarrow> rr_Version r = Version"
    "statesOnly sha s r = None" "rr_Unanswered r = ''''" "resultKind (rp_Result resp) = kind" "kind \<noteq> ''''" "rr_Started r \<le> rr_Ended r"
    "rr_RequestSHA256 r = d" "rr_ResultSHA256 r = ResultDigest sha (rp_Result resp)"
    "rr_Provider r = rp_Sandbox resp" "rr_Isolation r = rp_Isolation resp"
    "sp_evidence s \<longrightarrow> rr_Environment r = rp_Environment resp \<and> rr_SoftwareIdentity r = rp_SoftwareIdentity resp \<and>
       rr_SoftwareRuleID r = software_ID sha rule \<and> software_Allows rule (rr_SoftwareIdentity r)"
    "covers s ''instance'' \<longrightarrow> rr_Instance r = rp_Instance resp"
    "software_Validate rule = None" "floorOf floor = Inr lo" "isolation_check (rr_Isolation r) lo = None"
  using assms
  by (auto simp: check_answer_def Let_def readable_def split: if_splits sum.splits option.splits)

lemma statesOnly_digest: "statesOnly sha s r = None \<Longrightarrow> rr_SHA256 r = Digest sha r"
  by (simp add: statesOnly_def Let_def split: if_splits)

lemma check_answer_intro:
  assumes "software_Validate rule = None" "floorOf floor = Inr lo" "rp_Record resp = Some m" "rr_Version (FromWire m) = Version"
    "rr_Unanswered (FromWire m) = ''''" "map_of published Version = Some s" "statesOnly sha s (FromWire m) = None"
    "resultKind (rp_Result resp) = kind" "kind \<noteq> ''''" "rr_Started (FromWire m) \<le> rr_Ended (FromWire m)"
    "rr_RequestSHA256 (FromWire m) = d" "rr_ResultSHA256 (FromWire m) = ResultDigest sha (rp_Result resp)"
    "rr_Provider (FromWire m) = rp_Sandbox resp" "rr_Isolation (FromWire m) = rp_Isolation resp"
    "rr_Environment (FromWire m) = rp_Environment resp" "rr_Instance (FromWire m) = rp_Instance resp"
    "rr_SoftwareIdentity (FromWire m) = rp_SoftwareIdentity resp" "rr_SoftwareRuleID (FromWire m) = software_ID sha rule"
    "software_Allows rule (rp_SoftwareIdentity resp)" "isolation_check (rp_Isolation resp) lo = None"
  shows "check_answer sha d kind floor rule resp live = Inr (FromWire m)"
  using assms by (auto simp: check_answer_def Let_def readable_def)

text \<open>What the daemon states of a run passes the caller's check: the answer of the kind asked
  for, from software the rule allows, at a tier that meets the floor.\<close>

definition admissible :: "wire_request \<Rightarrow> response \<Rightarrow> bool" where
  "admissible q resp \<longleftrightarrow> software_Validate (wq_Rule q) = None \<and> software_Allows (wq_Rule q) (rp_SoftwareIdentity resp) \<and>
     ValidInstance (rp_Instance resp) \<and> requestKind (wq_Payload q) \<noteq> '''' \<and> resultKind (rp_Result resp) = requestKind (wq_Payload q) \<and>
     (case floorOf (wq_Floor q) of Inl e \<Rightarrow> False | Inr lo \<Rightarrow> isolation_check (rp_Isolation resp) lo = None)"

definition with_record :: "response \<Rightarrow> wire_record \<Rightarrow> response" where
  "with_record resp m = resp\<lparr>rp_Record := Some m\<rparr>"

lemma recordEnd_after: "started \<le> recordEnd started ended"
  by (simp add: recordEnd_def)

lemma runRecord_states:
  fixes sha d resp started ended link rule policy
  defines "r \<equiv> FromWire (runRecord sha d resp started ended link rule policy)"
  shows "rr_Version r = Version" "rr_RequestSHA256 r = d" "rr_ResultSHA256 r = ResultDigest sha (rp_Result resp)"
    "rr_Provider r = rp_Sandbox resp" "rr_Isolation r = rp_Isolation resp" "rr_Environment r = rp_Environment resp"
    "rr_SoftwareIdentity r = rp_SoftwareIdentity resp" "rr_SoftwareRuleID r = software_ID sha rule" "rr_Instance r = rp_Instance resp"
    "rr_Unanswered r = ''''" "rr_Started r = wire_time started" "rr_Ended r = wire_time (recordEnd started ended)"
    "rr_Session r = rr_Session link" "rr_Sequence r = rr_Sequence link" "rr_PreviousSHA256 r = rr_PreviousSHA256 link"
  by (simp_all add: r_def runRecord_def FromWire_Stamp Let_def no_record_def)

lemma Stamp_digest: "rr_SHA256 (FromWire (Stamp sha r resp)) = Digest sha (FromWire (Stamp sha r resp))"
  by (simp add: FromWire_Stamp Let_def)

lemma runRecord_digest:
  "rr_SHA256 (FromWire (runRecord sha d resp started ended link rule policy)) =
   Digest sha (FromWire (runRecord sha d resp started ended link rule policy))"
  by (simp only: runRecord_def Stamp_digest)

lemma check_stamped:
  assumes "admissible q resp" and "\<And>s. sha s \<noteq> ''''"
    and m: "m = runRecord sha (requestDigest sha q) resp started ended link (wq_Rule q) policy"
  shows "check_answer sha (requestDigest sha q) (requestKind (wq_Payload q)) (wq_Floor q) (wq_Rule q) (with_record resp m) live = Inr (FromWire m)"
proof -
  obtain lo where lo: "floorOf (wq_Floor q) = Inr lo" "isolation_check (rp_Isolation resp) lo = None"
    using assms(1) by (auto simp: admissible_def split: sum.splits)
  have "statesOnly sha (the (map_of published Version)) (FromWire m) = None"
    using assms(1,2) by (simp add: statesOnly_current [OF current_published] m runRecord_states runRecord_digest ResultDigest_def admissible_def)
  then show ?thesis
    using assms(1) by (intro check_answer_intro [OF _ lo(1) _ _ _ current_published])
      (simp_all add: admissible_def with_record_def lo m runRecord_states wire_time_mono recordEnd_after)
qed

text \<open>Two records of one digest, under no collision of the hash, state the same.\<close>

lemma published_cases:
  assumes "map_of published v = Some s"
  obtains "v = 1" | "v = 2" | "v = 3" | "v = 4"
  using assms by (auto simp: published_def split: if_splits)

lemma recordDomain_inj: "recordDomain v = recordDomain w \<longleftrightarrow> v = w"
  by (simp add: recordDomain_def)

lemma record_fields_digests:
  assumes "record_fields r = record_fields r'" "rr_Version r = rr_Version r'" "map_of published (rr_Version r) = Some s"
  shows "rr_RequestSHA256 r = rr_RequestSHA256 r' \<and> rr_ResultSHA256 r = rr_ResultSHA256 r' \<and> rr_Provider r = rr_Provider r' \<and>
    rr_Isolation r = rr_Isolation r' \<and> rr_Environment r = rr_Environment r' \<and> rr_Policy r = rr_Policy r' \<and>
    UnixMilli (rr_Started r) = UnixMilli (rr_Started r') \<and> UnixMilli (rr_Ended r) = UnixMilli (rr_Ended r') \<and>
    rr_Session r = rr_Session r' \<and> rr_Sequence r = rr_Sequence r' \<and> rr_PreviousSHA256 r = rr_PreviousSHA256 r'"
  using assms by (cases rule: published_cases [OF assms(3)]) (simp_all add: record_fields_def recordFields_def published_def)

lemma record_encoding_inj:
  assumes "record_encoding r = record_encoding r'" "fits (record_fields r)" "fits (record_fields r')"
    and "map_of published (rr_Version r) = Some s" "map_of published (rr_Version r') = Some s'"
  shows "rr_Version r = rr_Version r' \<and> record_fields r = record_fields r'"
proof -
  have "length (recordDomain v) < 2 ^ 64" if "map_of published v = Some t" for v t
    using that by (cases rule: published_cases) (simp_all add: recordDomain_def FormatInt_def dec_nat_small)
  with enc_fields_inj [OF assms(2,3)] assms show ?thesis unfolding record_encoding_def recordDomain_inj [symmetric] by blast
qed

lemma check_answer_binds:
  assumes c: "check_answer sha (sha a) kind floor rule resp live = Inr r" "check_answer sha (sha a') kind' floor' rule' resp' live' = Inr r'"
    and "rr_SHA256 r = rr_SHA256 r'" "fits (record_fields r)" "fits (record_fields r')"
    and inj: "inj_on sha {record_encoding r, record_encoding r', a, a', result_encoding (rp_Result resp), result_encoding (rp_Result resp')}"
  shows "a = a' \<and> result_encoding (rp_Result resp) = result_encoding (rp_Result resp') \<and>
    rp_Sandbox resp = rp_Sandbox resp' \<and> rp_Isolation resp = rp_Isolation resp'"
proof -
  obtain s where s: "map_of published (rr_Version r) = Some s" "rr_SHA256 r = Digest sha r" "rr_RequestSHA256 r = sha a"
    "rr_ResultSHA256 r = ResultDigest sha (rp_Result resp)" "rr_Provider r = rp_Sandbox resp" "rr_Isolation r = rp_Isolation resp"
    using c(1) by (rule check_answer_Inr) (use statesOnly_digest in blast)
  obtain s' where s': "map_of published (rr_Version r') = Some s'" "rr_SHA256 r' = Digest sha r'" "rr_RequestSHA256 r' = sha a'"
    "rr_ResultSHA256 r' = ResultDigest sha (rp_Result resp')" "rr_Provider r' = rp_Sandbox resp'" "rr_Isolation r' = rp_Isolation resp'"
    using c(2) by (rule check_answer_Inr) (use statesOnly_digest in blast)
  from assms(3) s(2) s'(2) have "sha (record_encoding r) = sha (record_encoding r')" by (simp add: Digest_def)
  with inj have "record_encoding r = record_encoding r'" by (rule inj_onD) simp_all
  with record_encoding_inj assms(4,5) s(1) s'(1) have "rr_Version r = rr_Version r'" "record_fields r = record_fields r'" by blast+
  from record_fields_digests [OF this(2,1) s(1)] s s'
  have d: "sha a = sha a'" "sha (result_encoding (rp_Result resp)) = sha (result_encoding (rp_Result resp'))"
    "rp_Sandbox resp = rp_Sandbox resp'" "rp_Isolation resp = rp_Isolation resp'" by (simp_all add: ResultDigest_def)
  from inj_onD [OF inj d(1)] inj_onD [OF inj d(2)] d(3,4) show ?thesis by simp
qed

subsection \<open>Properties\<close>

text \<open>C23: The record the daemon states of a run passes the caller's check, byte for byte the same
  record: live against the request and the answer, later against the stored exchange, and on its
  own. The answer is of the kind asked for, from software the rule allows, at a tier that meets
  the floor; the times survive the wire in milliseconds, and the end is never before the start
  whatever the wall clock did.\<close>

theorem stamped_record_checks:
  assumes "admissible q resp" and "\<And>s. sha s \<noteq> ''''"
    and "m = runRecord sha (requestDigest sha q) resp started ended no_record (wq_Rule q) policy"
  shows "Check sha q (with_record resp m) = Inr (FromWire m) \<and> CheckExchange sha q (with_record resp m) = Inr (FromWire m) \<and>
    CheckStored sha (FromWire m) = None"
proof -
  note c = check_stamped [OF assms]
  have "rr_Session (FromWire m) = ''''" "rr_Sequence (FromWire m) = 0" "rr_PreviousSHA256 (FromWire m) = ''''"
    by (simp_all add: assms(3) runRecord_states no_record_def)
  moreover have "CheckStored sha (FromWire m) = None"
    using c [of True] by (rule check_answer_Inr) (simp add: CheckStored_def readable_def)
  ultimately show ?thesis by (simp add: Check_def CheckExchange_def c)
qed

text \<open>C24: A record digest names one exchange. Under no collision of the hash among the encodings
  at hand, two exchanges whose records pass the check and have the same digest, under whatever
  published versions, are of the same request and the same result, from the same provider and
  tier: nothing signed over a digest can be claimed for another run.\<close>

theorem record_binds_exchange:
  assumes "CheckExchange sha q resp = Inr r" and "CheckExchange sha q' resp' = Inr r'" and "rr_SHA256 r = rr_SHA256 r'"
    and "fits (record_fields r)" "fits (record_fields r')" "fits (request_fields q)" "fits (request_fields q')"
    "fits (result_fields (rp_Result resp))" "fits (result_fields (rp_Result resp'))"
    and "inj_on sha {record_encoding r, record_encoding r', request_encoding q, request_encoding q',
      result_encoding (rp_Result resp), result_encoding (rp_Result resp')}"
  shows "same_request q q' \<and> rp_Result resp = rp_Result resp' \<and> rp_Sandbox resp = rp_Sandbox resp' \<and>
    rp_Isolation resp = rp_Isolation resp'"
proof -
  have "request_encoding q = request_encoding q' \<and> result_encoding (rp_Result resp) = result_encoding (rp_Result resp') \<and>
      rp_Sandbox resp = rp_Sandbox resp' \<and> rp_Isolation resp = rp_Isolation resp'"
    using assms(1,2) check_answer_binds [OF _ _ assms(3-5) assms(10)] unfolding CheckExchange_def requestDigest_def by blast
  then show ?thesis using request_encoding_inj [OF _ assms(6,7)] result_encoding_inj [OF _ assms(8,9)] by blast
qed

subsection \<open>A run and its record\<close>

definition demo_sha :: "string \<Rightarrow> string" where
  "demo_sha s = CHR ''h'' # s"

definition demo_response :: response where
  "demo_response = \<lparr>rp_Sandbox = ''docker'', rp_Isolation = ''container'', rp_Environment = '''', rp_SoftwareIdentity = '''',
     rp_Instance = '''', rp_Result = RJavaScript \<lparr>wo_ExitCode = 0, wo_TimedOut = False, wo_Stdout = ''1'', wo_Stderr = '''',
       wo_StdoutTruncated = False, wo_StderrTruncated = False\<rparr>, rp_Record = None\<rparr>"

definition demo_record :: wire_record where
  "demo_record = runRecord demo_sha (requestDigest demo_sha (demo_wire ''a'')) demo_response 5000000 7000000 no_record
     (wq_Rule (demo_wire ''a'')) ''''"

lemma demo_admissible: "admissible (demo_wire ''a'') demo_response"
  by (simp add: admissible_def demo_wire_def demo_response_def no_software_rule_def software_Validate_def software_Allows_def
    ValidInstance_def requestKind_def resultKind_def floorOf_def isolation_check_def CheckResultIsolation_def validateMinimumIsolation_def)

theorem stamped_record_checks_witness:
  "Check demo_sha (demo_wire ''a'') (with_record demo_response demo_record) = Inr (FromWire demo_record)"
  using stamped_record_checks [OF demo_admissible _ demo_record_def] by (simp add: demo_sha_def)

lemma demo_record_fits:
  "fits (record_fields (FromWire demo_record)) \<and> fits (result_fields (rp_Result demo_response))"
  by code_simp

theorem record_binds_exchange_witness:
  "same_request (demo_wire ''a'') (demo_wire ''a'') \<and> inj demo_sha"
proof -
  have i: "inj demo_sha" by (simp add: inj_def demo_sha_def)
  have a: "rp_Result (with_record demo_response demo_record) = rp_Result demo_response" by (simp add: with_record_def)
  have "CheckExchange demo_sha (demo_wire ''a'') (with_record demo_response demo_record) = Inr (FromWire demo_record)"
    using check_stamped [OF demo_admissible _ demo_record_def] by (simp add: demo_sha_def CheckExchange_def)
  from record_binds_exchange [OF this this] i demo_record_fits demo_wire_fits show ?thesis by (simp add: a inj_def inj_on_def)
qed

end
