(* ===== verification/Session_Chain.thy ===== *)
theory Session_Chain
  imports Run_Record
begin

text \<open>
  The chain of records of one session, from both ends: how the daemon numbers and links the
  calls of a session (\<open>SessionRun\<close>, \<open>unanswered\<close> and \<open>CloseSession\<close> of
  \<open>internal/rpc/sessions.go\<close>) and how a client follows it (\<open>Session.call\<close> and
  \<open>Session.close\<close> of \<open>client/session.go\<close>). A call holds the session's turn while it runs, so
  on the daemon each call's part in the chain is one step.
\<close>

subsection \<open>The daemon's end\<close>

text \<open>What the chain needs of a \<open>sessionEntry\<close>. \<open>se_log\<close> only remembers, for the theorems, the
  records chained so far.\<close>

record payload_evidence =
  pv_Identity :: string
  pv_SoftwareIdentity :: string

record chain_entry =
  se_fingerprint :: string
  se_provider :: string
  se_isolation :: isolation_class
  se_JavaScript :: payload_evidence
  se_Project :: payload_evidence
  se_rule :: software_rule
  se_policy :: string
  se_calls :: nat
  se_last :: string
  se_log :: "run_record list"

text \<open>A call must carry the rule the session was opened under.\<close>

definition call_rule :: "(string \<Rightarrow> string) \<Rightarrow> chain_entry \<Rightarrow> software_rule \<Rightarrow> goerr option" where
  "call_rule sha e rule = (case MergeSoftwareRules (se_rule e) rule of
     Inl err \<Rightarrow> Some err
   | Inr effective \<Rightarrow> if software_ID sha effective \<noteq> software_ID sha rule
       then not_dispatched RefusalRequest (Some (Wrap [Sentinel ErrInvalidRequest])) else None)"

text \<open>How the pipeline's run of a call ended: an answer with its policy, or an error, marked
  not dispatched or not, with its Connect code.\<close>

datatype run_outcome = RunAnswered response string | RunFailed bool string

text \<open>What goes back to the client: the answer, or the error with its mark and the record it carries.
  Both may say that the session has ended.\<close>

datatype call_answer = AnsRun "response option" "ended option" | AnsErr bool "ended option" "wire_record option"

definition chain_link :: "chain_entry \<Rightarrow> run_record" where
  "chain_link e = no_record\<lparr>rr_Session := se_fingerprint e, rr_Sequence := se_calls e + 1, rr_PreviousSHA256 := se_last e\<rparr>"

definition chain_on :: "wire_record \<Rightarrow> chain_entry \<Rightarrow> chain_entry" where
  "chain_on m e = e\<lparr>se_calls := se_calls e + 1, se_last := rr_SHA256 (FromWire m), se_log := se_log e @ [FromWire m]\<rparr>"

definition unanswered_record :: "(string \<Rightarrow> string) \<Rightarrow> chain_entry \<Rightarrow> wire_request \<Rightarrow> gotime \<Rightarrow> gotime \<Rightarrow> string \<Rightarrow> wire_record" where
  "unanswered_record sha e q received now code =
     (let payload = (case wq_Payload q of PJavaScript _ _ \<Rightarrow> se_JavaScript e | _ \<Rightarrow> se_Project e)
      in StampUnanswered sha (no_record\<lparr>rr_RequestSHA256 := requestDigest sha q, rr_Provider := se_provider e,
           rr_Isolation := isolation_string (se_isolation e), rr_Environment := pv_Identity payload,
           rr_SoftwareIdentity := pv_SoftwareIdentity payload, rr_SoftwareRuleID := software_ID sha (wq_Rule q),
           rr_Policy := se_policy e, rr_Started := received, rr_Ended := recordEnd received now,
           rr_Session := se_fingerprint e, rr_Sequence := se_calls e + 1, rr_PreviousSHA256 := se_last e\<rparr>) code)"

text \<open>The tail of \<open>SessionRun\<close>, holding the turn: a refusal is not counted, an error that may have
  run is chained as unanswered, an answer is chained with its record. \<open>end'\<close> is the session's
  end as the answer or the error reports it; \<open>attached\<close> says that the record could be put on the error.\<close>

definition session_call :: "(string \<Rightarrow> string) \<Rightarrow> wire_request \<Rightarrow> run_outcome \<Rightarrow> gotime \<Rightarrow> gotime \<Rightarrow> ended option \<Rightarrow> bool \<Rightarrow> chain_entry \<Rightarrow> call_answer \<times> chain_entry" where
  "session_call sha q outcome received now end' attached e = (case outcome of
     RunFailed True code \<Rightarrow> (AnsErr True end' None, e)
   | RunFailed False code \<Rightarrow>
       (let m = unanswered_record sha e q received now code
        in (AnsErr False end' (if attached then Some m else None), chain_on m e))
   | RunAnswered resp policy \<Rightarrow>
       (let m = runRecord sha (requestDigest sha q) resp received now (chain_link e) (wq_Rule q) policy
        in (AnsRun (Some (with_record resp m)) end', chain_on m e)))"

record close_summary =
  sm_Session :: string
  sm_Calls :: nat
  sm_Last :: string

definition CloseSession_summary :: "chain_entry \<Rightarrow> close_summary" where
  "CloseSession_summary e = \<lparr>sm_Session = se_fingerprint e, sm_Calls = se_calls e, sm_Last = se_last e\<rparr>"

subsection \<open>The client's end\<close>

text \<open>\<open>cs_log\<close> remembers, for the theorems, the records the client checked and took.\<close>

record client_session =
  cs_fingerprint :: string
  cs_provider :: string
  cs_isolation :: isolation_class
  cs_identity :: string
  cs_calls :: nat
  cs_last :: string
  cs_end :: "ended option"
  cs_stopped :: bool
  cs_log :: "run_record list"

datatype call_result =
    StoppedRefusal
  | Refused
  | LostAnswer
  | DataLoss record_error
  | NoResult
  | MayHaveRun run_record bool
  | Ran response run_record bool

text \<open>The last argument of \<open>MayHaveRun\<close> and \<open>Ran\<close> says whether the recorder, if there is one, kept
  the exchange (\<open>ErrNotRecorded\<close> otherwise).\<close>

definition setEnd :: "ended option \<Rightarrow> client_session \<Rightarrow> client_session" where
  "setEnd x s = (case x of None \<Rightarrow> s | Some e \<Rightarrow> s\<lparr>cs_end := Some e\<rparr>)"

definition setStopped :: "client_session \<Rightarrow> client_session" where
  "setStopped s = s\<lparr>cs_stopped := True\<rparr>"

definition take_record :: "run_record \<Rightarrow> client_session \<Rightarrow> client_session" where
  "take_record r s = s\<lparr>cs_calls := rr_Sequence r, cs_last := rr_SHA256 r, cs_log := cs_log s @ [r]\<rparr>"

definition check_opened :: "client_session \<Rightarrow> run_record \<Rightarrow> record_error + run_record" where
  "check_opened s r =
     (if rr_Provider r \<noteq> cs_provider s \<or> rr_Isolation r \<noteq> isolation_string (cs_isolation s) \<or> rr_SoftwareIdentity r \<noteq> cs_identity s
      then Inl ErrMismatch else Inr r)"

definition client_unanswered :: "(string \<Rightarrow> string) \<Rightarrow> wire_request \<Rightarrow> wire_record \<Rightarrow> client_session \<Rightarrow> record_error + run_record" where
  "client_unanswered sha q m s =
     (case CheckUnanswered sha q (Some m) (cs_fingerprint s) (cs_calls s) (cs_last s) of
        Inl e \<Rightarrow> Inl e | Inr r \<Rightarrow> check_opened s r)"

definition client_call :: "(string \<Rightarrow> string) \<Rightarrow> wire_request \<Rightarrow> call_answer \<Rightarrow> bool \<Rightarrow> client_session \<Rightarrow> call_result \<times> client_session" where
  "client_call sha q ans kept s =
     (if cs_stopped s then (StoppedRefusal, s)
      else (case ans of
        AnsErr marked end' rec \<Rightarrow>
          (let s = setEnd end' s
           in if marked then (Refused, s)
              else (case rec of
                None \<Rightarrow> (LostAnswer, setStopped s)
              | Some m \<Rightarrow> (case client_unanswered sha q m s of
                    Inl e \<Rightarrow> (DataLoss e, setStopped s)
                  | Inr r \<Rightarrow> (MayHaveRun r kept, take_record r s))))
      | AnsRun run end' \<Rightarrow>
          (case run of
             None \<Rightarrow> (NoResult, setStopped s)
           | Some resp \<Rightarrow>
               (let s = setEnd end' s
                in case CheckSessionCall sha q resp (cs_fingerprint s) (cs_calls s) (cs_last s) of
                     Inl e \<Rightarrow> (DataLoss e, setStopped s)
                   | Inr r \<Rightarrow> (Ran resp r kept, take_record r s)))))"

definition client_close :: "close_summary \<Rightarrow> client_session \<Rightarrow> record_error option" where
  "client_close sm s =
     (if sm_Session sm \<noteq> cs_fingerprint s \<or> sm_Calls sm \<noteq> cs_calls s \<or> sm_Last sm \<noteq> cs_last s then Some ErrChain else None)"

subsection \<open>Chains\<close>

text \<open>A record as read off the wire that states its own digest under the current version.\<close>

definition genuine_record :: "(string \<Rightarrow> string) \<Rightarrow> run_record \<Rightarrow> bool" where
  "genuine_record sha r \<longleftrightarrow> (\<exists>m. r = FromWire m) \<and> rr_Version r = Version \<and> rr_SHA256 r = Digest sha r"

text \<open>\<open>chained sha fp rs d n\<close>: the records \<open>rs\<close> of session \<open>fp\<close> are numbered \<open>1\<close> to \<open>n\<close>, each naming
  the digest of the one before, the last of digest \<open>d\<close>.\<close>

inductive chained :: "(string \<Rightarrow> string) \<Rightarrow> string \<Rightarrow> run_record list \<Rightarrow> string \<Rightarrow> nat \<Rightarrow> bool"
  for sha :: "string \<Rightarrow> string" and fp :: string where
  chained_Nil: "chained sha fp [] '''' 0"
| chained_snoc: "chained sha fp rs d n \<Longrightarrow> genuine_record sha r \<Longrightarrow> rr_Session r = fp \<Longrightarrow> rr_Sequence r = n + 1 \<Longrightarrow>
    rr_PreviousSHA256 r = d \<Longrightarrow> chained sha fp (rs @ [r]) (rr_SHA256 r) (n + 1)"

inductive_cases chained_SucE: "chained sha fp rs d (Suc n)"
inductive_cases chained_0E: "chained sha fp rs d 0"

lemma chained_length: "chained sha fp rs d n \<Longrightarrow> length rs = n"
  by (induction rule: chained.induct) simp_all

lemma chained_nth:
  "chained sha fp rs d n \<Longrightarrow> i < n \<Longrightarrow> rr_Session (rs ! i) = fp \<and> rr_Sequence (rs ! i) = i + 1 \<and>
     rr_PreviousSHA256 (rs ! i) = (if i = 0 then '''' else rr_SHA256 (rs ! (i - 1)))"
proof (induction arbitrary: i rule: chained.induct)
  case (chained_snoc rs d n r)
  have len: "length rs = n" using chained_snoc.hyps(1) by (rule chained_length)
  show ?case
  proof (cases "i < n")
    case True
    with chained_snoc.IH [OF True] len show ?thesis by (auto simp: nth_append)
  next
    case False
    with chained_snoc.prems have i: "i = n" by simp
    have "d = (if n = 0 then '''' else rr_SHA256 (rs ! (n - 1)))"
      using chained_snoc.hyps(1) by (cases rule: chained.cases) (auto simp: nth_append dest: chained_length)
    with chained_snoc.hyps i len show ?thesis by (auto simp: nth_append)
  qed
qed simp

lemma FromWire_time: "wire_time (rr_Started (FromWire m)) = rr_Started (FromWire m)" "wire_time (rr_Ended (FromWire m)) = rr_Ended (FromWire m)"
  by (cases m; simp add: FromWire_def wire_time_def)+

lemma genuine_eq:
  assumes "genuine_record sha r" "genuine_record sha r'" "record_fields r = record_fields r'"
  shows "r = r'"
proof -
  have v: "rr_Version r = Version" "rr_Version r' = Version" using assms by (simp_all add: genuine_record_def)
  have d: "rr_SHA256 r = rr_SHA256 r'" using assms v by (simp add: genuine_record_def Digest_def record_encoding_def)
  have t: "rr_Started r = wire_time (rr_Started r)" "rr_Ended r = wire_time (rr_Ended r)"
    "rr_Started r' = wire_time (rr_Started r')" "rr_Ended r' = wire_time (rr_Ended r')"
    using assms(1,2) FromWire_time by (auto simp: genuine_record_def)
  from assms(3) v have f: "UnixMilli (rr_Started r) = UnixMilli (rr_Started r')" "UnixMilli (rr_Ended r) = UnixMilli (rr_Ended r')"
    "rr_RequestSHA256 r = rr_RequestSHA256 r'" "rr_ResultSHA256 r = rr_ResultSHA256 r'" "rr_Provider r = rr_Provider r'"
    "rr_Isolation r = rr_Isolation r'" "rr_Environment r = rr_Environment r'" "rr_SoftwareIdentity r = rr_SoftwareIdentity r'"
    "rr_SoftwareRuleID r = rr_SoftwareRuleID r'" "rr_Policy r = rr_Policy r'" "rr_Session r = rr_Session r'"
    "rr_Sequence r = rr_Sequence r'" "rr_PreviousSHA256 r = rr_PreviousSHA256 r'" "rr_Unanswered r = rr_Unanswered r'"
    "rr_Instance r = rr_Instance r'"
    by (simp_all add: record_fields_def recordFields_def published_def Version_def)
  from t f(1,2) have "rr_Started r = rr_Started r'" "rr_Ended r = rr_Ended r'" by (metis wire_time_def)+
  with f d v show ?thesis by (intro run_record.equality) simp_all
qed

text \<open>The last digest fixes the whole chain.\<close>

lemma chained_unique:
  assumes "chained sha fp rs d n" "chained sha fp' rs' d n"
    and "inj_on sha (record_encoding ` (set rs \<union> set rs'))" "\<forall>r \<in> set rs \<union> set rs'. fits (record_fields r)"
  shows "rs = rs'"
  using assms
proof (induction arbitrary: rs' rule: chained.induct)
  case chained_Nil
  then show ?case by (auto dest: chained_length)
next
  case (chained_snoc rs d n r)
  from chained_snoc.prems(1) obtain us d' u where u: "rs' = us @ [u]" "chained sha fp' us d' n" "genuine_record sha u" "rr_SHA256 u = rr_SHA256 r"
    "rr_PreviousSHA256 u = d'"
    by (cases rule: chained.cases) simp_all
  have "sha (record_encoding r) = sha (record_encoding u)"
    using u(3,4) chained_snoc.hyps(2) by (simp add: genuine_record_def Digest_def)
  then have "record_encoding r = record_encoding u"
    by (rule inj_onD [OF chained_snoc.prems(2)]) (simp_all add: u(1))
  moreover have "map_of published (rr_Version r) = Some (the (map_of published Version))"
      "map_of published (rr_Version u) = Some (the (map_of published Version))"
    using u(3) chained_snoc.hyps(2) current_published by (simp_all add: genuine_record_def)
  moreover have "fits (record_fields r)" "fits (record_fields u)" using chained_snoc.prems(3) by (simp_all add: u(1))
  ultimately have "record_fields r = record_fields u" using record_encoding_inj by blast
  with genuine_eq chained_snoc.hyps(2) u(3) have ru: "r = u" by blast
  have "rs = us"
  proof (rule chained_snoc.IH)
    show "chained sha fp' us d n" using u(2,5) chained_snoc.hyps(5) ru by simp
    show "inj_on sha (record_encoding ` (set rs \<union> set us))"
      using chained_snoc.prems(2) by (rule inj_on_subset) (auto simp: u(1))
    show "\<forall>r \<in> set rs \<union> set us. fits (record_fields r)" using chained_snoc.prems(3) by (simp add: u(1))
  qed
  with ru u(1) show ?case by simp
qed

lemma StampUnanswered_digest: "rr_SHA256 (FromWire (StampUnanswered sha r code)) = Digest sha (FromWire (StampUnanswered sha r code))"
  by (simp add: FromWire_StampUnanswered Let_def)

lemma unanswered_states:
  fixes sha e q received now code
  defines "r \<equiv> FromWire (unanswered_record sha e q received now code)"
  defines "payload \<equiv> (case wq_Payload q of PJavaScript _ _ \<Rightarrow> se_JavaScript e | _ \<Rightarrow> se_Project e)"
  shows "rr_Version r = Version" "rr_RequestSHA256 r = requestDigest sha q" "rr_ResultSHA256 r = ''''"
    "rr_Provider r = se_provider e" "rr_Isolation r = isolation_string (se_isolation e)"
    "rr_SoftwareIdentity r = pv_SoftwareIdentity payload" "rr_SoftwareRuleID r = software_ID sha (wq_Rule q)" "rr_Instance r = ''''"
    "rr_Unanswered r = code" "rr_Session r = se_fingerprint e" "rr_Sequence r = se_calls e + 1" "rr_PreviousSHA256 r = se_last e"
  by (simp_all add: r_def payload_def unanswered_record_def FromWire_StampUnanswered Let_def no_record_def)

lemma unanswered_digest:
  "rr_SHA256 (FromWire (unanswered_record sha e q received now code)) = Digest sha (FromWire (unanswered_record sha e q received now code))"
  by (simp only: unanswered_record_def Let_def StampUnanswered_digest)

lemma unanswered_genuine: "genuine_record sha (FromWire (unanswered_record sha e q received now code))"
  using unanswered_states(1) unanswered_digest by (auto simp: genuine_record_def)

lemma runRecord_genuine: "genuine_record sha (FromWire (runRecord sha d resp started ended link rule policy))"
  using runRecord_states(1) runRecord_digest by (auto simp: genuine_record_def)

definition daemon_chained :: "(string \<Rightarrow> string) \<Rightarrow> chain_entry \<Rightarrow> bool" where
  "daemon_chained sha e \<longleftrightarrow> chained sha (se_fingerprint e) (se_log e) (se_last e) (se_calls e)"

definition client_chained :: "(string \<Rightarrow> string) \<Rightarrow> client_session \<Rightarrow> bool" where
  "client_chained sha s \<longleftrightarrow> chained sha (cs_fingerprint s) (cs_log s) (cs_last s) (cs_calls s)"

lemma chain_on_chained:
  assumes "daemon_chained sha e" "genuine_record sha (FromWire m)" "rr_Session (FromWire m) = se_fingerprint e"
    "rr_Sequence (FromWire m) = se_calls e + 1" "rr_PreviousSHA256 (FromWire m) = se_last e"
  shows "daemon_chained sha (chain_on m e)"
  using chained_snoc [OF _ assms(2-5)] assms(1) by (simp add: daemon_chained_def chain_on_def)

lemma session_call_chained:
  "daemon_chained sha e \<Longrightarrow> daemon_chained sha (snd (session_call sha q outcome received now end' attached e))"
  by (auto simp: session_call_def Let_def unanswered_states unanswered_genuine runRecord_states runRecord_genuine chain_link_def
    intro!: chain_on_chained split: run_outcome.splits bool.splits)

lemma session_call_fingerprint [simp]:
  "se_fingerprint (snd (session_call sha q outcome received now end' attached e)) = se_fingerprint e"
  by (simp add: session_call_def Let_def chain_on_def split: run_outcome.splits bool.splits)

lemma next_link_None:
  "next_link fp n d r = None \<longleftrightarrow> rr_Session r = fp \<and> rr_Sequence r = n + 1 \<and> rr_PreviousSHA256 r = d"
  by (simp add: next_link_def)

lemma CheckSessionCall_genuine:
  assumes "CheckSessionCall sha q resp fp n d = Inr r"
  shows "genuine_record sha r \<and> next_link fp n d r = None"
proof -
  from assms have c: "check_answer sha (requestDigest sha q) (requestKind (wq_Payload q)) (wq_Floor q) (wq_Rule q) resp True = Inr r"
      "next_link fp n d r = None"
    by (auto simp: CheckSessionCall_def split: sum.splits option.splits)
  from c(1) show ?thesis by (rule check_answer_Inr) (use c(2) statesOnly_digest in \<open>auto simp: genuine_record_def\<close>)
qed

lemma CheckUnanswered_genuine:
  assumes "CheckUnanswered sha q m fp n d = Inr r"
  shows "genuine_record sha r \<and> next_link fp n d r = None"
  using assms statesOnly_digest
  by (auto simp: CheckUnanswered_def Let_def check_unanswered_def readable_def genuine_record_def
    split: option.splits sum.splits if_splits)

lemma setEnd_same [simp]:
  "cs_fingerprint (setEnd x s) = cs_fingerprint s" "cs_calls (setEnd x s) = cs_calls s" "cs_last (setEnd x s) = cs_last s"
  "cs_log (setEnd x s) = cs_log s" "cs_stopped (setEnd x s) = cs_stopped s" "cs_provider (setEnd x s) = cs_provider s"
  "cs_isolation (setEnd x s) = cs_isolation s" "cs_identity (setEnd x s) = cs_identity s"
  by (simp_all add: setEnd_def split: option.splits)

lemma client_chained_cong [simp]:
  "client_chained sha (setEnd x s) = client_chained sha s" "client_chained sha (setStopped s) = client_chained sha s"
  by (simp_all add: client_chained_def setStopped_def)

lemma take_record_chained:
  assumes "client_chained sha s" "genuine_record sha r" "next_link (cs_fingerprint s) (cs_calls s) (cs_last s) r = None"
  shows "client_chained sha (take_record r s)"
  using chained_snoc [of sha "cs_fingerprint s" "cs_log s" "cs_last s" "cs_calls s" r] assms
  by (simp add: client_chained_def take_record_def next_link_None)

lemma client_unanswered_genuine:
  "client_unanswered sha q m s = Inr r \<Longrightarrow> genuine_record sha r \<and> next_link (cs_fingerprint s) (cs_calls s) (cs_last s) r = None"
  using CheckUnanswered_genuine by (auto simp: client_unanswered_def check_opened_def split: sum.splits if_splits)

lemma client_call_chained:
  assumes "client_chained sha s"
  shows "client_chained sha (snd (client_call sha q ans kept s))"
proof (cases ans)
  case (AnsRun run e)
  with assms show ?thesis
    using take_record_chained [of sha "setEnd e s"] CheckSessionCall_genuine
    by (fastforce simp: client_call_def Let_def split: option.splits sum.splits)
next
  case (AnsErr marked e rec)
  with assms show ?thesis
    using take_record_chained [of sha "setEnd e s"] client_unanswered_genuine [of sha q _ "setEnd e s"]
    by (auto simp: client_call_def Let_def split: option.splits sum.splits)
qed

lemma client_call_fingerprint [simp]: "cs_fingerprint (snd (client_call sha q ans kept s)) = cs_fingerprint s"
  by (simp add: client_call_def Let_def setStopped_def take_record_def split: call_answer.splits option.splits sum.splits)

subsection \<open>Any holder, any network\<close>

text \<open>The daemon runs a call whoever sent it; the client is given an answer to a call of its own,
  the daemon's, another one, a forged one or none: nothing ties the two.\<close>

inductive chain_step :: "(string \<Rightarrow> string) \<Rightarrow> chain_entry \<times> client_session \<Rightarrow> chain_entry \<times> client_session \<Rightarrow> bool"
  for sha :: "string \<Rightarrow> string" where
  daemon_runs: "chain_step sha (e, s) (snd (session_call sha q outcome received now end' attached e), s)"
| client_gets: "chain_step sha (e, s) (e, snd (client_call sha q ans kept s))"

definition chain_init :: "chain_entry \<times> client_session \<Rightarrow> bool" where
  "chain_init st \<longleftrightarrow> se_fingerprint (fst st) = cs_fingerprint (snd st) \<and> se_calls (fst st) = 0 \<and> se_last (fst st) = '''' \<and> se_log (fst st) = [] \<and>
     cs_calls (snd st) = 0 \<and> cs_last (snd st) = '''' \<and> cs_log (snd st) = [] \<and> \<not> cs_stopped (snd st)"

definition chain_inv :: "(string \<Rightarrow> string) \<Rightarrow> chain_entry \<times> client_session \<Rightarrow> bool" where
  "chain_inv sha st \<longleftrightarrow> daemon_chained sha (fst st) \<and> client_chained sha (snd st) \<and> se_fingerprint (fst st) = cs_fingerprint (snd st)"

interpretation ch: inductive_invariant chain_init "chain_step sha" "chain_inv sha" for sha
proof unfold_locales
  show "chain_inv sha st" if "chain_init st" for st
    using that by (simp add: chain_init_def chain_inv_def daemon_chained_def client_chained_def chained_Nil)
  show "chain_inv sha t" if "chain_step sha st t" "chain_inv sha st" for st t
    using that by cases (simp_all add: chain_inv_def session_call_chained client_call_chained)
qed

subsection \<open>One holder, every answer delivered\<close>

text \<open>What the pipeline's checks establish of a call before it runs, and what the open's answer
  told the client.\<close>

definition admitted :: "chain_entry \<Rightarrow> wire_request \<Rightarrow> bool" where
  "admitted e q \<longleftrightarrow> software_Validate (wq_Rule q) = None \<and> software_Allows (wq_Rule q) (pv_SoftwareIdentity (se_JavaScript e)) \<and>
     (case floorOf (wq_Floor q) of Inl x \<Rightarrow> False | Inr lo \<Rightarrow> CheckMinimumIsolation (se_isolation e) lo = None)"

definition opened :: "chain_entry \<Rightarrow> client_session \<Rightarrow> bool" where
  "opened e s \<longleftrightarrow> se_fingerprint e = cs_fingerprint s \<and> se_provider e = cs_provider s \<and>
     cs_isolation s = ParseIsolationClass (isolation_string (se_isolation e)) \<and>
     cs_identity s = pv_SoftwareIdentity (se_JavaScript e) \<and> pv_SoftwareIdentity (se_Project e) = pv_SoftwareIdentity (se_JavaScript e)"

record exchange =
  x_request :: wire_request
  x_outcome :: run_outcome
  x_received :: gotime
  x_now :: gotime
  x_end :: "ended option"
  x_kept :: bool

definition do_exchange :: "(string \<Rightarrow> string) \<Rightarrow> exchange \<Rightarrow> chain_entry \<times> client_session \<Rightarrow> chain_entry \<times> client_session" where
  "do_exchange sha x st =
     (let (ans, e) = session_call sha (x_request x) (x_outcome x) (x_received x) (x_now x) (x_end x) True (fst st)
      in (e, snd (client_call sha (x_request x) ans (x_kept x) (snd st))))"

definition honest :: "chain_entry \<Rightarrow> exchange \<Rightarrow> bool" where
  "honest e x = (case x_outcome x of
     RunAnswered resp policy \<Rightarrow> admissible (x_request x) resp
   | RunFailed marked code \<Rightarrow> marked \<or> admitted e (x_request x) \<and> code \<in> set unansweredCodes)"

definition may_have_run :: "exchange \<Rightarrow> bool" where
  "may_have_run x = (case x_outcome x of RunAnswered _ _ \<Rightarrow> True | RunFailed marked _ \<Rightarrow> \<not> marked)"

definition synced :: "chain_entry \<times> client_session \<Rightarrow> bool" where
  "synced st \<longleftrightarrow> opened (fst st) (snd st) \<and> \<not> cs_stopped (snd st) \<and> se_log (fst st) = cs_log (snd st) \<and>
     se_calls (fst st) = cs_calls (snd st) \<and> se_last (fst st) = cs_last (snd st)"

lemma isolation_string_again: "isolation_string (ParseIsolationClass (isolation_string c)) = isolation_string c"
  by (simp add: parse_isolation_string) (auto simp: isolation_defs isolation_string_def)

lemma isolation_check_admitted:
  "CheckMinimumIsolation c lo = None \<Longrightarrow> isolation_check (isolation_string c) lo = None"
  by (auto simp: CheckMinimumIsolation_None isolation_check_def CheckResultIsolation_def validateMinimumIsolation_def
    parse_isolation_string Meets_def isolation_defs)

lemma unanswered_checks:
  assumes "admitted e q" "opened e s" "code \<in> set unansweredCodes"
    and sync: "se_calls e = cs_calls s" "se_last e = cs_last s"
  shows "client_unanswered sha q (unanswered_record sha e q received now code) s = Inr (FromWire (unanswered_record sha e q received now code))"
proof -
  let ?r = "FromWire (unanswered_record sha e q received now code)"
  obtain lo where lo: "floorOf (wq_Floor q) = Inr lo" "CheckMinimumIsolation (se_isolation e) lo = None"
    using assms(1) by (auto simp: admitted_def split: sum.splits)
  have code: "code \<noteq> ''''" using assms(3) by (auto simp: unansweredCodes_def)
  have sw: "rr_SoftwareIdentity ?r = pv_SoftwareIdentity (se_JavaScript e)"
    using assms(2) by (simp add: unanswered_states opened_def split: wire_payload.splits)
  obtain sp where sp: "map_of published Version = Some sp" using current_published by blast
  have "statesOnly sha sp ?r = None"
    using code assms(3) by (simp add: statesOnly_current [OF sp] unanswered_states unanswered_digest ValidInstance_def)
  then have "check_unanswered sha (requestDigest sha q) (wq_Floor q) (wq_Rule q) ?r True = None"
    using lo(1) assms(1) code sw isolation_check_admitted [OF lo(2)]
    by (simp add: check_unanswered_def readable_def unanswered_states(1-3,5,7,9) admitted_def sp)
  moreover have "next_link (cs_fingerprint s) (cs_calls s) (cs_last s) ?r = None"
    using assms(2) sync by (simp add: next_link_None unanswered_states opened_def)
  ultimately have "CheckUnanswered sha q (Some (unanswered_record sha e q received now code)) (cs_fingerprint s) (cs_calls s) (cs_last s) = Inr ?r"
    by (simp add: CheckUnanswered_def Let_def)
  then show ?thesis
    using assms(2) sw by (simp add: client_unanswered_def check_opened_def unanswered_states(4,5) opened_def isolation_string_again)
qed

lemma answered_checks:
  assumes "admissible q resp" "opened e s" "\<And>x. sha x \<noteq> ''''"
    and sync: "se_calls e = cs_calls s" "se_last e = cs_last s"
    and m: "m = runRecord sha (requestDigest sha q) resp received now (chain_link e) (wq_Rule q) policy"
  shows "CheckSessionCall sha q (with_record resp m) (cs_fingerprint s) (cs_calls s) (cs_last s) = Inr (FromWire m)"
proof -
  have "next_link (cs_fingerprint s) (cs_calls s) (cs_last s) (FromWire m) = None"
    using assms(2) sync by (simp add: next_link_None m runRecord_states chain_link_def opened_def)
  with check_stamped [OF assms(1,3) m, of True] show ?thesis by (simp add: CheckSessionCall_def)
qed

lemma opened_cong:
  "opened e (setEnd x s) = opened e s" "opened e (take_record r s) = opened e s" "opened (chain_on m e) s = opened e s"
  by (simp_all add: opened_def setEnd_def take_record_def chain_on_def split: option.splits)

lemma synced_on:
  assumes "synced (e, s)" "rr_Sequence (FromWire m) = se_calls e + 1"
  shows "synced (chain_on m e, take_record (FromWire m) (setEnd x s))"
  using assms by (simp add: synced_def opened_cong) (simp add: chain_on_def take_record_def)

lemma exchange_synced:
  assumes s: "synced st" and h: "honest (fst st) x" and sha: "\<And>x. sha x \<noteq> ''''"
  shows "synced (do_exchange sha x st) \<and> cs_calls (snd (do_exchange sha x st)) = cs_calls (snd st) + (if may_have_run x then 1 else 0)"
proof -
  obtain e c where st: "st = (e, c)" by fastforce
  have o: "opened e c" "se_calls e = cs_calls c" "se_last e = cs_last c" "\<not> cs_stopped c" using s by (auto simp: synced_def st)
  show ?thesis
  proof (cases "x_outcome x")
    case (RunAnswered resp policy)
    let ?m = "runRecord sha (requestDigest sha (x_request x)) resp (x_received x) (x_now x) (chain_link e) (wq_Rule (x_request x)) policy"
    have q: "rr_Sequence (FromWire ?m) = se_calls e + 1" by (simp add: runRecord_states chain_link_def)
    have "CheckSessionCall sha (x_request x) (with_record resp ?m) (cs_fingerprint c) (cs_calls c) (cs_last c) = Inr (FromWire ?m)"
      using answered_checks [OF _ o(1) sha o(2,3) refl] h RunAnswered by (simp add: honest_def st)
    with synced_on [OF s [unfolded st] q, of "x_end x"] o q show ?thesis
      by (simp add: do_exchange_def session_call_def client_call_def RunAnswered Let_def st may_have_run_def)
        (simp add: take_record_def)
  next
    case (RunFailed marked code)
    let ?m = "unanswered_record sha e (x_request x) (x_received x) (x_now x) code"
    have q: "rr_Sequence (FromWire ?m) = se_calls e + 1" by (simp add: unanswered_states)
    show ?thesis
    proof (cases marked)
      case True
      with s o RunFailed show ?thesis
        by (simp add: do_exchange_def session_call_def client_call_def Let_def st may_have_run_def synced_def opened_cong)
    next
      case False
      with h RunFailed have a: "admitted e (x_request x)" "code \<in> set unansweredCodes" by (auto simp: honest_def st)
      have "client_unanswered sha (x_request x) ?m (setEnd (x_end x) c) = Inr (FromWire ?m)"
        using unanswered_checks [OF a(1) _ a(2)] o by (simp add: opened_cong)
      with synced_on [OF s [unfolded st] q, of "x_end x"] o q False RunFailed show ?thesis
        by (simp add: do_exchange_def session_call_def client_call_def Let_def st may_have_run_def)
          (simp add: take_record_def)
    qed
  qed
qed

lemma session_call_static:
  "se_isolation (snd (session_call sha q outcome received now end' attached e)) = se_isolation e"
  "se_JavaScript (snd (session_call sha q outcome received now end' attached e)) = se_JavaScript e"
  by (simp_all add: session_call_def Let_def chain_on_def split: run_outcome.splits bool.splits)

lemma honest_static: "honest (fst (do_exchange sha x st)) y = honest (fst st) y"
  by (simp add: honest_def do_exchange_def admitted_def session_call_static case_prod_beta split: run_outcome.splits sum.splits)

lemma exchanges_synced:
  assumes "synced st" "list_all (honest (fst st)) xs" "\<And>x. sha x \<noteq> ''''"
  shows "synced (fold (do_exchange sha) xs st) \<and>
    cs_calls (snd (fold (do_exchange sha) xs st)) = cs_calls (snd st) + length (filter may_have_run xs)"
  using assms(1,2)
proof (induction xs arbitrary: st)
  case (Cons x xs)
  have "synced (do_exchange sha x st)" "cs_calls (snd (do_exchange sha x st)) = cs_calls (snd st) + (if may_have_run x then 1 else 0)"
    using exchange_synced [OF Cons.prems(1) _ assms(3)] Cons.prems(2) by simp_all
  with Cons.IH [of "do_exchange sha x st"] Cons.prems(2) show ?case by (simp add: honest_static)
qed simp

subsection \<open>The rule of a call\<close>

lemma join_sorted_inj:
  assumes "\<forall>x \<in> set xs \<union> set ys. c \<notin> set x" "xs \<noteq> []" "ys \<noteq> []" "join_with c (sort xs) = join_with c (sort ys)"
  shows "set xs = set ys"
proof -
  have ne: "sort xs \<noteq> []" "sort ys \<noteq> []" using assms(2,3) length_sort [of "\<lambda>x. x" xs] length_sort [of "\<lambda>x. x" ys] by fastforce+
  have "split_on c (join_with c (sort xs)) = sort xs" by (rule split_join [OF ne(1)]) (use assms(1) in simp)
  moreover have "split_on c (join_with c (sort ys)) = sort ys" by (rule split_join [OF ne(2)]) (use assms(1) in simp)
  ultimately have "sort xs = sort ys" unfolding assms(4) by (rule trans [OF sym])
  then have "set (sort xs) = set (sort ys)" by (rule arg_cong)
  then show ?thesis by simp
qed

lemma nul_no_identity: "\<not> identity_char (char_of (0 :: nat))"
  by code_simp

lemma identity_no_nul: "software_Validate r = None \<Longrightarrow> x \<in> set (sr_Identities r) \<Longrightarrow> char_of (0 :: nat) \<notin> set x"
  using nul_no_identity by (force simp: software_Validate_iff software_rule_ok_def no_software_rule_def list_all_iff)

lemma merged_ids:
  assumes "MergeSoftwareRules a b = Inr eff" "sr_Mode a \<noteq> ''''" "sr_Mode b \<noteq> ''''"
  shows "sr_Identities eff = filter (\<lambda>i. i \<in> set (sr_Identities b)) (sr_Identities a)" "sr_Identities eff \<noteq> []" "sr_Mode eff \<noteq> ''''"
    "software_Validate a = None" "software_Validate b = None"
  using assms by (auto simp: MergeSoftwareRules_def Let_def SoftwareExact_def SoftwareApproved_def split: option.splits if_splits)

lemma software_ID_ids:
  assumes "software_ID sha a = software_ID sha b" "sr_Mode a \<noteq> ''''" "sr_Mode b \<noteq> ''''" "sr_Identities a \<noteq> []" "sr_Identities b \<noteq> []"
    and "\<forall>x \<in> set (sr_Identities a) \<union> set (sr_Identities b). char_of (0 :: nat) \<notin> set x" and "inj sha"
  shows "set (sr_Identities a) = set (sr_Identities b)"
proof (cases "length (sr_Identities a) = 1")
  case True
  with assms(1-3) have l: "length (sr_Identities b) = 1" and "sr_Identities a ! 0 = sr_Identities b ! 0"
    by (simp_all add: software_ID_def split: if_splits)
  with True show ?thesis by (auto simp: length_Suc_conv)
next
  case False
  with assms(1-3) have l: "length (sr_Identities b) \<noteq> 1" by (auto simp: software_ID_def split: if_splits)
  with False assms(1-3) have "sha (join_with (char_of (0 :: nat)) (sort (sr_Identities a))) = sha (join_with (char_of (0 :: nat)) (sort (sr_Identities b)))"
    by (simp add: software_ID_def)
  with assms(7) have "join_with (char_of (0 :: nat)) (sort (sr_Identities a)) = join_with (char_of (0 :: nat)) (sort (sr_Identities b))"
    by (rule injD)
  with join_sorted_inj [OF assms(6,4,5)] show ?thesis by simp
qed

lemma call_rule_narrows:
  assumes "call_rule sha e rule = None" and "inj sha" and "software_Allows rule x"
  shows "software_Allows (se_rule e) x"
proof (cases "sr_Mode (se_rule e) = ''''")
  case True
  then show ?thesis by (simp add: software_Allows_def)
next
  case False
  from assms(1) obtain eff where m: "MergeSoftwareRules (se_rule e) rule = Inr eff" "software_ID sha eff = software_ID sha rule"
    by (auto simp: call_rule_def not_dispatched_def split: sum.splits if_splits)
  have mode: "sr_Mode rule \<noteq> ''''"
  proof
    assume r: "sr_Mode rule = ''''"
    with m(1) False have "eff = se_rule e" by (auto simp: MergeSoftwareRules_def split: option.splits if_splits)
    with m(2) r False show False by (auto simp: software_ID_def split: if_splits)
  qed
  note ids = merged_ids [OF m(1) False mode]
  have "set (sr_Identities eff) = set (sr_Identities rule)"
  proof (rule software_ID_ids [OF m(2) ids(3) mode ids(2)])
    show "sr_Identities rule \<noteq> []" using ids(5) mode by (auto simp: software_Validate_iff software_rule_ok_def no_software_rule_def)
    show "\<forall>x \<in> set (sr_Identities eff) \<union> set (sr_Identities rule). char_of (0 :: nat) \<notin> set x"
      using identity_no_nul [OF ids(4)] identity_no_nul [OF ids(5)] ids(1) by auto
  qed (rule assms(2))
  with assms(3) mode ids(1) False show ?thesis by (auto simp: software_Allows_def)
qed

subsection \<open>Properties\<close>

text \<open>C21: A close that the client accepts proves that nobody else ran anything in the session.
  Whoever made calls on the daemon, whatever the network answered the client (lost, replayed,
  reordered or forged answers), if the daemon's count and last digest match the client's, then the
  daemon's chain is, record for record, the one the client checked: numbered from one without a
  gap, each record naming the digest of the one before. The hash has no collision among the
  records at hand.\<close>

theorem close_verifies_chain:
  assumes "reach chain_init (chain_step sha) (e, s)" and "client_close (CloseSession_summary e) s = None"
    and "inj_on sha (record_encoding ` (set (se_log e) \<union> set (cs_log s)))"
    and "\<forall>r \<in> set (se_log e) \<union> set (cs_log s). fits (record_fields r)"
  shows "se_log e = cs_log s \<and> length (cs_log s) = cs_calls s \<and>
    (\<forall>i < cs_calls s. rr_Sequence (cs_log s ! i) = i + 1 \<and>
      rr_PreviousSHA256 (cs_log s ! i) = (if i = 0 then '''' else rr_SHA256 (cs_log s ! (i - 1))))"
proof -
  from ch.reach_inv [OF assms(1)] have d: "chained sha (se_fingerprint e) (se_log e) (se_last e) (se_calls e)"
    and c: "chained sha (cs_fingerprint s) (cs_log s) (cs_last s) (cs_calls s)"
    by (auto simp: chain_inv_def daemon_chained_def client_chained_def)
  from assms(2) have eq: "se_last e = cs_last s" "se_calls e = cs_calls s"
    by (simp_all add: client_close_def CloseSession_summary_def split: if_splits)
  from d have "se_log e = cs_log s" unfolding eq by (rule chained_unique [OF _ c assms(3,4)])
  with chained_nth [OF c] chained_length [OF c] show ?thesis by simp
qed

text \<open>C22: A session whose answers all arrive verifies. Over any sequence of calls, answered,
  refused or ended in an error that may have run, the client takes every record the daemon
  chains, never stops, counts exactly the calls that may have run, and accepts the daemon's
  close.\<close>

theorem honest_session_verifies:
  assumes "chain_init (e, s)" and "opened e s" and "list_all (honest e) xs" and "\<And>x. sha x \<noteq> ''''"
    and "fold (do_exchange sha) xs (e, s) = (e', s')"
  shows "\<not> cs_stopped s' \<and> cs_log s' = se_log e' \<and> cs_calls s' = length (filter may_have_run xs) \<and>
    client_close (CloseSession_summary e') s' = None"
proof -
  have "synced (e, s)" using assms(1,2) by (simp add: synced_def chain_init_def)
  from exchanges_synced [of "(e, s)" xs sha, OF this _ assms(4)] assms(3,5) have "synced (e', s')" "cs_calls s' = cs_calls s + length (filter may_have_run xs)"
    by auto
  moreover have "cs_calls s = 0" using assms(1) by (simp add: chain_init_def)
  ultimately show ?thesis by (simp add: synced_def client_close_def CloseSession_summary_def opened_def)
qed

text \<open>A session call cannot widen the software rule the session was opened under: a call that
  passes the rule check carries a rule that allows nothing the open's rule does not, so a caller
  that leaves the rule out, or sends a laxer one, is refused.\<close>

theorem call_keeps_open_rule:
  assumes "call_rule sha e rule = None" and "inj sha" and "software_Allows rule x"
  shows "software_Allows (se_rule e) x"
  using assms by (rule call_rule_narrows)

subsection \<open>A session of three calls\<close>

definition demo_entry :: chain_entry where
  "demo_entry = \<lparr>se_fingerprint = ''f'', se_provider = ''docker'', se_isolation = IsolationContainer,
     se_JavaScript = \<lparr>pv_Identity = ''img'', pv_SoftwareIdentity = ''sw''\<rparr>, se_Project = \<lparr>pv_Identity = ''img'', pv_SoftwareIdentity = ''sw''\<rparr>,
     se_rule = \<lparr>sr_Mode = ''exact'', sr_Identities = [''sw'']\<rparr>, se_policy = '''', se_calls = 0, se_last = '''', se_log = []\<rparr>"

definition demo_client :: client_session where
  "demo_client = \<lparr>cs_fingerprint = ''f'', cs_provider = ''docker'', cs_isolation = IsolationContainer, cs_identity = ''sw'',
     cs_calls = 0, cs_last = '''', cs_end = None, cs_stopped = False, cs_log = []\<rparr>"

definition demo_exchange :: "run_outcome \<Rightarrow> exchange" where
  "demo_exchange r = \<lparr>x_request = demo_wire ''a'', x_outcome = r, x_received = 5000000, x_now = 7000000, x_end = None, x_kept = True\<rparr>"

definition demo_exchanges :: "exchange list" where
  "demo_exchanges = [demo_exchange (RunAnswered demo_response ''''), demo_exchange (RunFailed True ''resource_exhausted''),
     demo_exchange (RunFailed False ''internal'')]"

lemma demo_session_honest: "list_all (honest demo_entry) demo_exchanges"
  using demo_admissible by (simp add: demo_exchanges_def demo_exchange_def honest_def)
    (simp add: demo_entry_def demo_wire_def admitted_def no_software_rule_def software_Validate_def software_Allows_def floorOf_def
      unansweredCodes_def CheckMinimumIsolation_def validateMinimumIsolation_def)

lemma demo_session_opened: "chain_init (demo_entry, demo_client) \<and> opened demo_entry demo_client"
  by (simp add: chain_init_def opened_def demo_entry_def demo_client_def parse_isolation_string isolation_defs)

theorem honest_session_verifies_witness:
  "\<exists>e s. fold (do_exchange demo_sha) demo_exchanges (demo_entry, demo_client) = (e, s) \<and> cs_calls s = 2 \<and>
     client_close (CloseSession_summary e) s = None"
proof -
  obtain e s where f: "fold (do_exchange demo_sha) demo_exchanges (demo_entry, demo_client) = (e, s)" by fastforce
  have "length (filter may_have_run demo_exchanges) = 2" by (simp add: demo_exchanges_def demo_exchange_def may_have_run_def)
  with honest_session_verifies [OF _ _ demo_session_honest _ f] demo_session_opened f show ?thesis by (auto simp: demo_sha_def)
qed

theorem close_verifies_chain_witness:
  "\<exists>e s. reach chain_init (chain_step demo_sha) (e, s) \<and> se_log e = cs_log s \<and> length (se_log e) = 1"
proof -
  let ?x = "session_call demo_sha (demo_wire ''a'') (RunAnswered demo_response '''') 5000000 7000000 None True demo_entry"
  let ?e = "snd ?x" and ?s = "snd (client_call demo_sha (demo_wire ''a'') (fst ?x) True demo_client)"
  have "reach chain_init (chain_step demo_sha) (demo_entry, demo_client)" using demo_session_opened by (intro reach.reach_init) simp
  then have "reach chain_init (chain_step demo_sha) (?e, demo_client)" using daemon_runs by (rule reach.reach_step)
  then have r: "reach chain_init (chain_step demo_sha) (?e, ?s)" using client_gets by (rule reach.reach_step)
  have "synced (demo_entry, demo_client)" using demo_session_opened by (simp add: synced_def chain_init_def)
  from exchange_synced [OF this, of "demo_exchange (RunAnswered demo_response '''')" demo_sha] demo_session_honest
  have s: "synced (?e, ?s)" "cs_calls ?s = 1"
    by (simp_all add: demo_sha_def demo_exchanges_def do_exchange_def demo_exchange_def may_have_run_def case_prod_beta demo_client_def)
  then have c: "client_close (CloseSession_summary ?e) ?s = None" "se_log ?e = cs_log ?s"
    by (simp_all add: synced_def client_close_def CloseSession_summary_def opened_def)
  have i: "inj_on demo_sha A" for A by (simp add: inj_on_def demo_sha_def)
  have f: "list_all (\<lambda>r. fits (record_fields r)) (se_log ?e)" by code_simp
  have f: "\<forall>r \<in> set (se_log ?e) \<union> set (cs_log ?s). fits (record_fields r)" using f unfolding c(2) [symmetric] list_all_iff by blast
  have l: "se_log ?e = cs_log ?s" "length (cs_log ?s) = cs_calls ?s" using close_verifies_chain [OF r c(1) i f] by blast+
  have "length (se_log ?e) = 1" unfolding l s(2) ..
  with r l(1) show ?thesis by blast
qed

theorem call_keeps_open_rule_witness:
  "software_Allows (se_rule demo_entry) ''sw'' \<and> \<not> software_Allows (se_rule demo_entry) ''other'' \<and> call_rule demo_sha demo_entry no_software_rule \<noteq> None"
proof -
  have "call_rule demo_sha demo_entry (se_rule demo_entry) = None" "call_rule demo_sha demo_entry no_software_rule \<noteq> None" by code_simp+
  moreover have "inj demo_sha" by (simp add: inj_def demo_sha_def)
  moreover have "software_Allows (se_rule demo_entry) ''sw''" "\<not> software_Allows (se_rule demo_entry) ''other''" by code_simp+
  ultimately show ?thesis using call_keeps_open_rule [of demo_sha demo_entry "se_rule demo_entry" "''sw''"] by blast
qed

end
