(* ===== verification/Session_Table.thy ===== *)
theory Session_Table
  imports Requests "HOL-Library.AList"
begin

text \<open>
  The daemon's table of open sessions, \<open>sessionRegistry\<close> of \<open>internal/rpc/sessions.go\<close>: places
  for sessions and for opens under way, daemon-wide, per caller and per owner, and the sessions
  an open takes from its owner to make room. Each function of the registry runs under the
  table's lock and is one definition; an open's own goroutine calls several of them, one after
  the other, with other goroutines in between.
\<close>

subsection \<open>Data\<close>

record session_config =
  sc_MaxSessions :: int
  sc_MaxPerCaller :: int
  sc_MaxPerOwner :: int

text \<open>Who holds a session's turn: nobody, a call (or a close or a suspend), or an open that
  took the session. The channel of capacity one is full unless it is \<open>Free\<close>.\<close>

datatype turn_holder = Free | ByCall | ByOpen

text \<open>What the table needs of a \<open>sessionEntry\<close>; \<open>te_err\<close> is whether \<open>sess.Err()\<close> is set.\<close>

record tentry =
  te_id :: string
  te_principal :: string
  te_owner :: string
  te_used :: nat
  te_turn :: turn_holder
  te_ended :: bool
  te_replaced :: bool
  te_err :: bool

text \<open>\<open>tb_heap\<close> holds the entries ever made, named by their index as Go names them by their pointer.\<close>

record table =
  tb_heap :: "tentry list"
  tb_byID :: "(string, nat) gomap"
  tb_opening :: int
  tb_openingBy :: "(string, int) gomap"
  tb_clock :: nat

definition ownerKey :: "string \<Rightarrow> string \<Rightarrow> string" where
  "ownerKey p owner = p @ char_of (0 :: nat) # owner"

definition tick :: "table \<Rightarrow> nat \<times> table" where
  "tick t = (tb_clock t + 1, t\<lparr>tb_clock := tb_clock t + 1\<rparr>)"

definition upd :: "nat \<Rightarrow> (tentry \<Rightarrow> tentry) \<Rightarrow> table \<Rightarrow> table" where
  "upd i f t = t\<lparr>tb_heap := (tb_heap t)[i := f (tb_heap t ! i)]\<rparr>"

subsection \<open>Reserving a place\<close>

definition live :: "tentry \<Rightarrow> bool" where
  "live e \<longleftrightarrow> \<not> te_ended e \<and> \<not> te_replaced e"

definition openLocked :: "string \<Rightarrow> table \<Rightarrow> int" where
  "openLocked p t = int (length (filter (\<lambda>(i, x). (p = '''' \<or> te_principal (tb_heap t ! x) = p) \<and> live (tb_heap t ! x)) (tb_byID t)))"

definition held_by :: "string \<Rightarrow> string \<Rightarrow> table \<Rightarrow> nat list" where
  "held_by p owner t = filter (\<lambda>x. te_principal (tb_heap t ! x) = p \<and> te_owner (tb_heap t ! x) = owner \<and>
     live (tb_heap t ! x) \<and> \<not> te_err (tb_heap t ! x)) (map snd (tb_byID t))"

text \<open>The loop over the owner's sessions, least recently used first: an idle one is taken.\<close>

fun take_idle :: "tentry list \<Rightarrow> nat \<Rightarrow> nat list \<Rightarrow> nat list" where
  "take_idle h need [] = []"
| "take_idle h need (x # xs) =
     (if need = 0 then []
      else if te_turn (h ! x) = Free then x # take_idle h (need - 1) xs
      else take_idle h need xs)"

definition takeTurn_open :: "nat \<Rightarrow> table \<Rightarrow> table" where
  "takeTurn_open x = upd x (\<lambda>e. e\<lparr>te_turn := ByOpen\<rparr>)"

definition giveTurn :: "nat \<Rightarrow> table \<Rightarrow> table" where
  "giveTurn x = upd x (\<lambda>e. e\<lparr>te_turn := Free\<rparr>)"

definition setReplaced :: "bool \<Rightarrow> nat \<Rightarrow> table \<Rightarrow> table" where
  "setReplaced b x = upd x (\<lambda>e. e\<lparr>te_replaced := b\<rparr>)"

definition place_refused :: goerr where
  "place_refused = NotDispatchedError RefusalCapacity (Wrap [Sentinel ErrAtCapacity])"

text \<open>The part of \<open>reserve\<close> that makes room under the owner's cap: the sessions taken, or a refusal.\<close>

definition take_victims :: "session_config \<Rightarrow> string \<Rightarrow> string \<Rightarrow> bool \<Rightarrow> table \<Rightarrow> (goerr + nat list) \<times> table" where
  "take_victims c p owner evict t =
     (if owner = '''' \<or> sc_MaxPerOwner c \<le> 0 then (Inr [], t)
      else let hs = held_by p owner t;
               need = int (length hs) + lookup0 (tb_openingBy t) (ownerKey p owner) + 1 - sc_MaxPerOwner c
           in if need \<le> 0 then (Inr [], t)
              else if \<not> evict then (Inl place_refused, t)
              else let vs = take_idle (tb_heap t) (nat need) (sort_key (\<lambda>x. te_used (tb_heap t ! x)) hs);
                       t' = fold takeTurn_open vs t
                   in if int (length vs) < need then (Inl place_refused, fold giveTurn vs t')
                      else (Inr vs, fold (setReplaced True) vs t'))"

definition restore :: "nat list \<Rightarrow> table \<Rightarrow> table" where
  "restore vs t = fold (\<lambda>x t. giveTurn x (setReplaced False x t)) vs t"

definition countOpening :: "int \<Rightarrow> string \<Rightarrow> table \<Rightarrow> table" where
  "countOpening d k t = t\<lparr>tb_openingBy := AList.update k (lookup0 (tb_openingBy t) k + d) (tb_openingBy t)\<rparr>"

definition registry_reserve :: "session_config \<Rightarrow> string \<Rightarrow> string \<Rightarrow> bool \<Rightarrow> table \<Rightarrow> (goerr + nat list) \<times> table" where
  "registry_reserve c p owner evict t = (case take_victims c p owner evict t of
     (Inl e, t) \<Rightarrow> (Inl e, t)
   | (Inr vs, t) \<Rightarrow>
       if openLocked '''' t + tb_opening t \<ge> sc_MaxSessions c \<or>
          sc_MaxPerCaller c > 0 \<and> openLocked p t + lookup0 (tb_openingBy t) p \<ge> sc_MaxPerCaller c
       then (Inl place_refused, restore vs t)
       else let t = t\<lparr>tb_opening := tb_opening t + 1\<rparr>;
                t = countOpening 1 p t;
                t = (if owner \<noteq> '''' then countOpening 1 (ownerKey p owner) t else t)
            in (Inr vs, t))"

subsection \<open>Giving a place back, or filling it\<close>

definition doneOne :: "string \<Rightarrow> table \<Rightarrow> table" where
  "doneOne k t = (let t = countOpening (- 1) k t
     in if lookup0 (tb_openingBy t) k \<le> 0 then t\<lparr>tb_openingBy := AList.delete k (tb_openingBy t)\<rparr> else t)"

definition doneOpeningLocked :: "string \<Rightarrow> string \<Rightarrow> table \<Rightarrow> table" where
  "doneOpeningLocked p owner t = fold doneOne (p # (if owner \<noteq> '''' then [ownerKey p owner] else [])) t"

definition unreserve :: "string \<Rightarrow> string \<Rightarrow> table \<Rightarrow> table" where
  "unreserve p owner t = doneOpeningLocked p owner (t\<lparr>tb_opening := tb_opening t - 1\<rparr>)"

definition new_entry :: "string \<Rightarrow> string \<Rightarrow> string \<Rightarrow> nat \<Rightarrow> tentry" where
  "new_entry i p owner used = \<lparr>te_id = i, te_principal = p, te_owner = owner, te_used = used, te_turn = Free,
     te_ended = False, te_replaced = False, te_err = False\<rparr>"

definition registry_add :: "tentry \<Rightarrow> table \<Rightarrow> table" where
  "registry_add e t = doneOpeningLocked (te_principal e) (te_owner e)
     (t\<lparr>tb_heap := tb_heap t @ [e], tb_byID := AList.update (te_id e) (length (tb_heap t)) (tb_byID t), tb_opening := tb_opening t - 1\<rparr>)"

definition registry_remove :: "string \<Rightarrow> table \<Rightarrow> table" where
  "registry_remove i t = t\<lparr>tb_byID := AList.delete i (tb_byID t)\<rparr>"

definition registry_get :: "string \<Rightarrow> string \<Rightarrow> table \<Rightarrow> nat option" where
  "registry_get i p t = (case map_of (tb_byID t) i of
     None \<Rightarrow> None | Some x \<Rightarrow> if te_principal (tb_heap t ! x) \<noteq> p then None else Some x)"

definition shorter :: "duration \<Rightarrow> nat \<Rightarrow> duration" where
  "shorter configured requestedMs =
     (let req = int requestedMs * 1000000 in if req > 0 \<and> req < configured then req else configured)"

definition minSessionIdle :: duration where "minSessionIdle = second"

definition session_idle :: "duration \<Rightarrow> nat \<Rightarrow> duration" where
  "session_idle configured requestedMs =
     (let idle = shorter configured requestedMs in if idle > 0 \<and> idle < minSessionIdle then minSessionIdle else idle)"

subsection \<open>Opens under way\<close>

text \<open>An open after its reservation, \<open>OpenSession\<close>, \<open>admitOpen\<close> and \<open>replace\<close>: it holds its place
  (\<open>OpReserved\<close>); a victim's close failed and the others are still to be given back
  (\<open>OpFailing\<close>); it has given back what it took and returns its error, the deferred
  \<open>unreserve\<close> still to run (\<open>OpRefused\<close>); or it is over. \<open>op_victims\<close> are the sessions it has
  taken and neither closed nor given back.\<close>

datatype place_phase = OpReserved | OpFailing | OpRefused | OpDone

record opn =
  op_principal :: string
  op_owner :: string
  op_victims :: "nat list"
  op_phase :: place_phase

record tstate =
  ts_table :: table
  ts_opens :: "opn list"

datatype tev =
    EReserve string string bool
  | EReplaced nat
  | EKept nat
  | EGiveUp nat
  | EUnreserve nat
  | EAdd nat string
  | ETurn nat
  | EGive nat bool
  | EErr nat
  | EEnded nat
  | ERemove string

definition set_open :: "nat \<Rightarrow> opn \<Rightarrow> table \<Rightarrow> tstate \<Rightarrow> tstate" where
  "set_open j o' t s = s\<lparr>ts_table := t, ts_opens := (ts_opens s)[j := o']\<rparr>"

text \<open>One critical section. \<open>None\<close>: it cannot run now.\<close>

fun tab_do :: "session_config \<Rightarrow> tev \<Rightarrow> tstate \<Rightarrow> tstate option" where
  "tab_do c (EReserve p owner evict) s = Some (case registry_reserve c p owner evict (ts_table s) of
      (Inl e, t) \<Rightarrow> s\<lparr>ts_table := t\<rparr>
    | (Inr vs, t) \<Rightarrow> s\<lparr>ts_table := t,
        ts_opens := ts_opens s @ [\<lparr>op_principal = p, op_owner = owner, op_victims = vs, op_phase = OpReserved\<rparr>]\<rparr>)"
| "tab_do c (EReplaced j) s =
     (if j < length (ts_opens s) \<and> op_phase (ts_opens s ! j) = OpReserved \<and> op_victims (ts_opens s ! j) \<noteq> []
      then let o' = ts_opens s ! j; v = hd (op_victims o')
           in Some (set_open j (o'\<lparr>op_victims := tl (op_victims o')\<rparr>) (giveTurn v (upd v (\<lambda>e. e\<lparr>te_err := True\<rparr>) (ts_table s))) s)
      else None)"
| "tab_do c (EKept j) s =
     (if j < length (ts_opens s) \<and> op_phase (ts_opens s ! j) = OpReserved \<and> op_victims (ts_opens s ! j) \<noteq> []
      then let o' = ts_opens s ! j
           in Some (set_open j (o'\<lparr>op_victims := tl (op_victims o'), op_phase := OpFailing\<rparr>) (restore [hd (op_victims o')] (ts_table s)) s)
      else None)"
| "tab_do c (EGiveUp j) s =
     (if j < length (ts_opens s) \<and> op_phase (ts_opens s ! j) \<in> {OpReserved, OpFailing}
      then let o' = ts_opens s ! j
           in Some (set_open j (o'\<lparr>op_victims := [], op_phase := OpRefused\<rparr>) (restore (op_victims o') (ts_table s)) s)
      else None)"
| "tab_do c (EUnreserve j) s =
     (if j < length (ts_opens s) \<and> op_phase (ts_opens s ! j) = OpRefused
      then let o' = ts_opens s ! j
           in Some (set_open j (o'\<lparr>op_phase := OpDone\<rparr>) (unreserve (op_principal o') (op_owner o') (ts_table s)) s)
      else None)"
| "tab_do c (EAdd j i) s =
     (if j < length (ts_opens s) \<and> op_phase (ts_opens s ! j) = OpReserved \<and> op_victims (ts_opens s ! j) = []
      then let o' = ts_opens s ! j; (used, t) = tick (ts_table s)
           in Some (set_open j (o'\<lparr>op_phase := OpDone\<rparr>) (registry_add (new_entry i (op_principal o') (op_owner o') used) t) s)
      else None)"
| "tab_do c (ETurn x) s =
     (if x < length (tb_heap (ts_table s)) \<and> te_turn (tb_heap (ts_table s) ! x) = Free
      then Some (s\<lparr>ts_table := upd x (\<lambda>e. e\<lparr>te_turn := ByCall\<rparr>) (ts_table s)\<rparr>) else None)"
| "tab_do c (EGive x used) s =
     (if x < length (tb_heap (ts_table s)) \<and> te_turn (tb_heap (ts_table s) ! x) = ByCall
      then let (n, t) = (if used then tick (ts_table s) else (te_used (tb_heap (ts_table s) ! x), ts_table s))
           in Some (s\<lparr>ts_table := upd x (\<lambda>e. e\<lparr>te_turn := Free, te_used := n\<rparr>) t\<rparr>) else None)"
| "tab_do c (EErr x) s =
     (if x < length (tb_heap (ts_table s)) then Some (s\<lparr>ts_table := upd x (\<lambda>e. e\<lparr>te_err := True\<rparr>) (ts_table s)\<rparr>) else None)"
| "tab_do c (EEnded x) s =
     (if x < length (tb_heap (ts_table s)) \<and> te_err (tb_heap (ts_table s) ! x)
      then Some (s\<lparr>ts_table := upd x (\<lambda>e. e\<lparr>te_ended := True\<rparr>) (ts_table s)\<rparr>) else None)"
| "tab_do c (ERemove i) s = Some (s\<lparr>ts_table := registry_remove i (ts_table s)\<rparr>)"

fun tab_run :: "session_config \<Rightarrow> tev list \<Rightarrow> tstate \<Rightarrow> tstate option" where
  "tab_run c [] s = Some s"
| "tab_run c (e # es) s = (case tab_do c e s of None \<Rightarrow> None | Some s' \<Rightarrow> tab_run c es s')"

definition empty_table :: tstate where
  "empty_table = \<lparr>ts_table = \<lparr>tb_heap = [], tb_byID = [], tb_opening = 0, tb_openingBy = [], tb_clock = 0\<rparr>, ts_opens = []\<rparr>"

subsection \<open>Updates of entries\<close>

definition upd_all :: "nat list \<Rightarrow> (tentry \<Rightarrow> tentry) \<Rightarrow> table \<Rightarrow> table" where
  "upd_all vs f t = t\<lparr>tb_heap := map (\<lambda>i. if i \<in> set vs then f (tb_heap t ! i) else tb_heap t ! i) [0..<length (tb_heap t)]\<rparr>"

lemma upd_all_simps [simp]:
  "length (tb_heap (upd_all vs f t)) = length (tb_heap t)" "tb_byID (upd_all vs f t) = tb_byID t"
  "tb_opening (upd_all vs f t) = tb_opening t" "tb_openingBy (upd_all vs f t) = tb_openingBy t" "tb_clock (upd_all vs f t) = tb_clock t"
  by (simp_all add: upd_all_def)

lemma upd_all_nth [simp]:
  "i < length (tb_heap t) \<Longrightarrow> tb_heap (upd_all vs f t) ! i = (if i \<in> set vs then f (tb_heap t ! i) else tb_heap t ! i)"
  by (simp add: upd_all_def)

lemma table_eqI:
  fixes s t :: table
  assumes "length (tb_heap s) = length (tb_heap t)" "\<And>i. i < length (tb_heap s) \<Longrightarrow> tb_heap s ! i = tb_heap t ! i" "tb_byID s = tb_byID t"
    "tb_opening s = tb_opening t" "tb_openingBy s = tb_openingBy t" "tb_clock s = tb_clock t"
  shows "s = t"
  using assms nth_equalityI [of "tb_heap s" "tb_heap t"] by (intro table.equality) simp_all

lemma upd_as_all: "upd x f t = upd_all [x] f t"
  by (rule table_eqI) (simp_all add: upd_def upd_all_def nth_list_update)

lemma upd_all_Nil [simp]: "upd_all [] f t = t"
  by (rule table_eqI) simp_all

lemma upd_all_comp: "upd_all vs g (upd_all vs f t) = upd_all vs (\<lambda>e. g (f e)) t"
  by (rule table_eqI) simp_all

lemma fold_upd: "distinct vs \<Longrightarrow> fold (\<lambda>x. upd x f) vs t = upd_all vs f t"
proof (induction vs arbitrary: t)
  case (Cons v vs)
  then have "fold (\<lambda>x. upd x f) (v # vs) t = upd_all vs f (upd v f t)" by simp
  also have "upd v f t = upd_all [v] f t" by (rule upd_as_all)
  also have "upd_all vs f (upd_all [v] f t) = upd_all (v # vs) f t" using Cons.prems by (intro table_eqI) auto
  finally show ?case .
qed simp

lemma fold_turns:
  "distinct vs \<Longrightarrow> fold takeTurn_open vs t = upd_all vs (\<lambda>e. e\<lparr>te_turn := ByOpen\<rparr>) t"
  "distinct vs \<Longrightarrow> fold giveTurn vs t = upd_all vs (\<lambda>e. e\<lparr>te_turn := Free\<rparr>) t"
  "distinct vs \<Longrightarrow> fold (setReplaced b) vs t = upd_all vs (\<lambda>e. e\<lparr>te_replaced := b\<rparr>) t"
  using fold_upd by (simp_all add: takeTurn_open_def [abs_def] giveTurn_def [abs_def] setReplaced_def [abs_def])

lemma restore_all: "distinct vs \<Longrightarrow> restore vs t = upd_all vs (\<lambda>e. e\<lparr>te_replaced := False, te_turn := Free\<rparr>) t"
proof -
  have "(\<lambda>x t. giveTurn x (setReplaced False x t)) = (\<lambda>x. upd x (\<lambda>e. e\<lparr>te_replaced := False, te_turn := Free\<rparr>))"
    by (intro ext) (simp add: giveTurn_def setReplaced_def upd_as_all upd_all_comp)
  then show "distinct vs \<Longrightarrow> ?thesis" unfolding restore_def using fold_upd by simp
qed

subsection \<open>Counting sessions\<close>

definition table_ok :: "table \<Rightarrow> bool" where
  "table_ok t \<longleftrightarrow> distinct (map fst (tb_byID t)) \<and> distinct (map snd (tb_byID t)) \<and> (\<forall>x \<in> set (map snd (tb_byID t)). x < length (tb_heap t))"

text \<open>The sessions in the table that satisfy \<open>Q\<close>.\<close>

definition sessions :: "(tentry \<Rightarrow> bool) \<Rightarrow> table \<Rightarrow> nat set" where
  "sessions Q t = {x \<in> set (map snd (tb_byID t)). Q (tb_heap t ! x)}"

lemma finite_sessions [simp]: "finite (sessions Q t)"
  by (simp add: sessions_def)

lemma openLocked_card:
  assumes "table_ok t"
  shows "openLocked p t = int (card (sessions (\<lambda>e. (p = '''' \<or> te_principal e = p) \<and> live e) t))"
proof -
  let ?Q = "\<lambda>x. (p = '''' \<or> te_principal (tb_heap t ! x) = p) \<and> live (tb_heap t ! x)"
  have "length (filter (\<lambda>(i, x). ?Q x) (tb_byID t)) = length (filter ?Q (map snd (tb_byID t)))"
    by (simp add: filter_map comp_def) (simp add: case_prod_unfold)
  also have "\<dots> = card (set (filter ?Q (map snd (tb_byID t))))"
    using assms by (intro distinct_card [symmetric] distinct_filter) (simp add: table_ok_def)
  also have "set (filter ?Q (map snd (tb_byID t))) = sessions (\<lambda>e. (p = '''' \<or> te_principal e = p) \<and> live e) t"
    by (auto simp: sessions_def)
  finally show ?thesis by (simp add: openLocked_def)
qed

definition owned :: "string \<Rightarrow> string \<Rightarrow> tentry \<Rightarrow> bool" where
  "owned p owner e \<longleftrightarrow> te_principal e = p \<and> te_owner e = owner \<and> live e \<and> \<not> te_err e"

lemma set_held: "set (held_by p owner t) = sessions (owned p owner) t"
  by (auto simp: held_by_def sessions_def owned_def)

lemma distinct_held: "table_ok t \<Longrightarrow> distinct (held_by p owner t)"
  by (simp add: held_by_def table_ok_def)

lemma held_card: "table_ok t \<Longrightarrow> length (held_by p owner t) = card (sessions (owned p owner) t)"
  using distinct_card [OF distinct_held] by (metis set_held)

subsection \<open>Reserving\<close>

lemma take_idle_props:
  "set (take_idle h n xs) \<subseteq> {x \<in> set xs. te_turn (h ! x) = Free}"
  "length (take_idle h n xs) \<le> n"
  "distinct xs \<Longrightarrow> distinct (take_idle h n xs)"
proof -
  show a: "set (take_idle h n xs) \<subseteq> {x \<in> set xs. te_turn (h ! x) = Free}" for n by (induction h n xs rule: take_idle.induct) auto
  show "length (take_idle h n xs) \<le> n" by (induction h n xs rule: take_idle.induct) auto
  show "distinct xs \<Longrightarrow> distinct (take_idle h n xs)"
  proof (induction h n xs rule: take_idle.induct)
    case (2 h need x xs)
    have "set (take_idle h (need - 1) xs) \<subseteq> set xs" for h need xs by (induction h need xs rule: take_idle.induct) auto
    with 2 show ?case by auto
  qed simp
qed

text \<open>The taken ones are the least recently used of the idle ones.\<close>

lemma take_idle_first:
  assumes "sorted (map u xs)" "x \<in> set (take_idle h n xs)" "y \<in> set xs" "y \<notin> set (take_idle h n xs)" "te_turn (h ! y) = Free"
  shows "u x \<le> (u y :: nat)"
  using assms
proof (induction h n xs rule: take_idle.induct)
  case (2 h need z xs)
  have sub: "set (take_idle h m xs) \<subseteq> set xs" for m by (induction h m xs rule: take_idle.induct) auto
  show ?case
  proof (cases "need = 0")
    case False
    show ?thesis
    proof (cases "te_turn (h ! z) = Free")
      case True
      with 2 False sub show ?thesis by (auto split: if_splits)
    next
      case z: False
      with 2 False sub show ?thesis by (auto split: if_splits)
    qed
  qed (use 2 in simp)
qed simp

lemma returned_same:
  assumes "\<forall>x \<in> set vs. te_turn (tb_heap t ! x) = Free \<and> \<not> te_replaced (tb_heap t ! x)"
  shows "upd_all vs (\<lambda>e. e\<lparr>te_replaced := False, te_turn := Free\<rparr>) t = t"
proof (rule table_eqI)
  fix i
  assume i: "i < length (tb_heap (upd_all vs (\<lambda>e. e\<lparr>te_replaced := False, te_turn := Free\<rparr>) t))"
  have "e\<lparr>te_replaced := False, te_turn := Free\<rparr> = e" if "te_turn e = Free" "\<not> te_replaced e" for e :: tentry
    using that by (intro tentry.equality) simp_all
  with assms i show "tb_heap (upd_all vs (\<lambda>e. e\<lparr>te_replaced := False, te_turn := Free\<rparr>) t) ! i = tb_heap t ! i" by simp
qed simp_all

lemma taken_back:
  assumes "\<forall>x \<in> set vs. x < length (tb_heap t) \<and> te_turn (tb_heap t ! x) = Free"
  shows "upd_all vs (\<lambda>e. e\<lparr>te_turn := Free\<rparr>) (upd_all vs (\<lambda>e. e\<lparr>te_turn := ByOpen\<rparr>) t) = t"
  using assms by (intro table_eqI) (auto simp: tentry.equality)

lemma take_victims_effect:
  assumes ok: "table_ok t" and tv: "take_victims c p owner evict t = (r, t')"
  defines "need \<equiv> int (length (held_by p owner t)) + lookup0 (tb_openingBy t) (ownerKey p owner) + 1 - sc_MaxPerOwner c"
  shows "case r of Inl e \<Rightarrow> t' = t \<and> e = place_refused
    | Inr vs \<Rightarrow> t' = upd_all vs (\<lambda>e. e\<lparr>te_turn := ByOpen, te_replaced := True\<rparr>) t \<and> distinct vs \<and>
        set vs \<subseteq> {x \<in> set (held_by p owner t). te_turn (tb_heap t ! x) = Free} \<and>
        int (length vs) = (if owner = '''' \<or> sc_MaxPerOwner c \<le> 0 then 0 else max 0 need) \<and> (vs = [] \<or> evict) \<and>
        (\<forall>x \<in> set vs. \<forall>y \<in> set (held_by p owner t) - set vs. te_turn (tb_heap t ! y) = Free \<longrightarrow> te_used (tb_heap t ! x) \<le> te_used (tb_heap t ! y))"
proof (cases "owner = '''' \<or> sc_MaxPerOwner c \<le> 0 \<or> need \<le> 0 \<or> \<not> evict")
  case True
  then show ?thesis using tv by (auto simp: take_victims_def Let_def need_def split: if_splits)
next
  case False
  let ?u = "\<lambda>x. te_used (tb_heap t ! x)" and ?hs = "held_by p owner t"
  let ?vs = "take_idle (tb_heap t) (nat need) (sort_key ?u ?hs)"
  have d: "distinct ?vs" by (rule take_idle_props) (simp add: distinct_held ok)
  have sub: "set ?vs \<subseteq> {x \<in> set ?hs. te_turn (tb_heap t ! x) = Free}" using take_idle_props(1) [of "tb_heap t" "nat need" "sort_key ?u ?hs"] by simp
  have free: "\<forall>x \<in> set ?vs. x < length (tb_heap t) \<and> te_turn (tb_heap t ! x) = Free"
    using sub ok by (auto simp: table_ok_def held_by_def)
  have lru: "\<forall>x \<in> set ?vs. \<forall>y \<in> set ?hs - set ?vs. te_turn (tb_heap t ! y) = Free \<longrightarrow> ?u x \<le> ?u y"
    using take_idle_first [of ?u "sort_key ?u ?hs"] by (auto simp del: take_idle.simps)
  have tv': "take_victims c p owner evict t =
      (if int (length ?vs) < need then (Inl place_refused, fold giveTurn ?vs (fold takeTurn_open ?vs t))
       else (Inr ?vs, fold (setReplaced True) ?vs (fold takeTurn_open ?vs t)))"
    using False by (simp add: take_victims_def Let_def need_def)
  show ?thesis
  proof (cases "int (length ?vs) < need")
    case True
    then show ?thesis using tv tv' taken_back [OF free] by (auto simp: fold_turns d)
  next
    case f: False
    have "length ?vs \<le> nat need" by (rule take_idle_props)
    with f False have len: "int (length ?vs) = need" by linarith
    have "r = Inr ?vs" "t' = fold (setReplaced True) ?vs (fold takeTurn_open ?vs t)" using tv tv' f by auto
    moreover have "fold (setReplaced True) ?vs (fold takeTurn_open ?vs t) = upd_all ?vs (\<lambda>e. e\<lparr>te_turn := ByOpen, te_replaced := True\<rparr>) t"
      by (simp add: fold_turns d upd_all_comp)
    ultimately show ?thesis using d sub lru len False by simp
  qed
qed

lemma ownerKey_longer [simp]: "ownerKey p owner \<noteq> p" "p \<noteq> ownerKey p owner"
  by (simp_all add: ownerKey_def)

lemma countOpening_simps [simp]:
  "tb_heap (countOpening d k t) = tb_heap t" "tb_byID (countOpening d k t) = tb_byID t" "tb_opening (countOpening d k t) = tb_opening t"
  "lookup0 (tb_openingBy (countOpening d k t)) k' = (if k' = k then lookup0 (tb_openingBy t) k + d else lookup0 (tb_openingBy t) k')"
  "tb_clock (countOpening d k t) = tb_clock t"
  by (simp_all add: countOpening_def)

text \<open>What counts depend on: the entries and the table of identifiers.\<close>

lemma counts_cong:
  assumes "tb_heap s = tb_heap t" "tb_byID s = tb_byID t"
  shows "openLocked p s = openLocked p t" "held_by p owner s = held_by p owner t" "sessions Q s = sessions Q t" "table_ok s = table_ok t"
  using assms by (simp_all add: openLocked_def held_by_def sessions_def table_ok_def)

lemma upd_all_ok [simp]: "table_ok (upd_all vs f t) = table_ok t"
  by (simp add: table_ok_def)

lemma sessions_taken:
  assumes "table_ok t" "\<And>e. Q e \<Longrightarrow> live e"
  shows "sessions Q (upd_all vs (\<lambda>e. e\<lparr>te_turn := ByOpen, te_replaced := True\<rparr>) t) \<subseteq> sessions Q t - set vs"
proof
  fix x
  assume "x \<in> sessions Q (upd_all vs (\<lambda>e. e\<lparr>te_turn := ByOpen, te_replaced := True\<rparr>) t)"
  then have x: "x \<in> set (map snd (tb_byID t))" "Q (tb_heap (upd_all vs (\<lambda>e. e\<lparr>te_turn := ByOpen, te_replaced := True\<rparr>) t) ! x)"
    by (simp_all add: sessions_def)
  with assms(1) have l: "x < length (tb_heap t)" by (auto simp: table_ok_def)
  have "x \<notin> set vs"
  proof
    assume "x \<in> set vs"
    with x(2) l assms(2) have "live ((tb_heap t ! x)\<lparr>te_turn := ByOpen, te_replaced := True\<rparr>)" by (metis upd_all_nth)
    then show False by (simp add: live_def)
  qed
  with x l show "x \<in> sessions Q t - set vs" by (simp add: sessions_def)
qed

text \<open>What a reservation did.\<close>

definition booked :: "string \<Rightarrow> string \<Rightarrow> table \<Rightarrow> table" where
  "booked p owner t =
     (let t = countOpening 1 p (t\<lparr>tb_opening := tb_opening t + 1\<rparr>)
      in if owner \<noteq> '''' then countOpening 1 (ownerKey p owner) t else t)"

lemma booked_simps [simp]:
  "tb_heap (booked p owner t) = tb_heap t" "tb_byID (booked p owner t) = tb_byID t" "tb_opening (booked p owner t) = tb_opening t + 1"
  "lookup0 (tb_openingBy (booked p owner t)) k =
     lookup0 (tb_openingBy t) k + (if k = p then 1 else 0) + (if owner \<noteq> '''' \<and> k = ownerKey p owner then 1 else 0)"
  by (simp_all add: booked_def Let_def)

lemma reserve_effect:
  assumes ok: "table_ok t" and r: "registry_reserve c p owner evict t = (r, t')"
  defines "need \<equiv> int (length (held_by p owner t)) + lookup0 (tb_openingBy t) (ownerKey p owner) + 1 - sc_MaxPerOwner c"
  shows "case r of Inl e \<Rightarrow> t' = t \<and> e = place_refused
    | Inr vs \<Rightarrow> t' = booked p owner (upd_all vs (\<lambda>e. e\<lparr>te_turn := ByOpen, te_replaced := True\<rparr>) t) \<and> distinct vs \<and>
        set vs \<subseteq> {x \<in> set (held_by p owner t). te_turn (tb_heap t ! x) = Free} \<and>
        int (length vs) = (if owner = '''' \<or> sc_MaxPerOwner c \<le> 0 then 0 else max 0 need) \<and> (vs = [] \<or> evict) \<and>
        (\<forall>x \<in> set vs. \<forall>y \<in> set (held_by p owner t) - set vs. te_turn (tb_heap t ! y) = Free \<longrightarrow> te_used (tb_heap t ! x) \<le> te_used (tb_heap t ! y)) \<and>
        openLocked '''' t' + tb_opening t' \<le> sc_MaxSessions c \<and>
        (sc_MaxPerCaller c > 0 \<longrightarrow> openLocked p t' + lookup0 (tb_openingBy t') p \<le> sc_MaxPerCaller c)"
proof -
  obtain r1 t1 where tv: "take_victims c p owner evict t = (r1, t1)" by fastforce
  note eff = take_victims_effect [OF ok tv, folded need_def]
  show ?thesis
  proof (cases r1)
    case (Inl e)
    with r tv eff show ?thesis by (auto simp: registry_reserve_def)
  next
    case (Inr vs)
    let ?t1 = "upd_all vs (\<lambda>e. e\<lparr>te_turn := ByOpen, te_replaced := True\<rparr>) t"
    from eff Inr have t1: "t1 = ?t1" and d: "distinct vs" and sub: "set vs \<subseteq> {x \<in> set (held_by p owner t). te_turn (tb_heap t ! x) = Free}"
      and rest: "int (length vs) = (if owner = '''' \<or> sc_MaxPerOwner c \<le> 0 then 0 else max 0 need) \<and> (vs = [] \<or> evict) \<and>
        (\<forall>x \<in> set vs. \<forall>y \<in> set (held_by p owner t) - set vs. te_turn (tb_heap t ! y) = Free \<longrightarrow> te_used (tb_heap t ! x) \<le> te_used (tb_heap t ! y))"
      by simp_all
    let ?full = "openLocked '''' t1 + tb_opening t1 \<ge> sc_MaxSessions c \<or>
        sc_MaxPerCaller c > 0 \<and> openLocked p t1 + lookup0 (tb_openingBy t1) p \<ge> sc_MaxPerCaller c"
    have rr: "(r, t') = (if ?full then (Inl place_refused, restore vs t1) else (Inr vs, booked p owner t1))"
      using r tv Inr by (auto simp: registry_reserve_def booked_def Let_def)
    show ?thesis
    proof (cases ?full)
      case True
      have "restore vs t1 = t"
        using sub returned_same [of vs t] by (auto simp: t1 restore_all d upd_all_comp held_by_def live_def)
      with rr True show ?thesis by simp
    next
      case False
      have "r = Inr vs" "t' = booked p owner t1" using rr unfolding if_not_P [OF False] by simp_all
      moreover have "openLocked q (booked p owner t1) = openLocked q t1" for q by (rule counts_cong) simp_all
      ultimately show ?thesis using False d sub rest by (simp add: t1) auto
    qed
  qed
qed

lemma reserve_owner:
  assumes "table_ok t" and "registry_reserve c p owner evict t = (Inr vs, t')" and "owner \<noteq> []" "sc_MaxPerOwner c > 0"
  shows "int (length (held_by p owner t')) + lookup0 (tb_openingBy t') (ownerKey p owner) \<le> sc_MaxPerOwner c"
proof -
  let ?t1 = "upd_all vs (\<lambda>e. e\<lparr>te_turn := ByOpen, te_replaced := True\<rparr>) t"
  note eff = reserve_effect [OF assms(1,2)]
  have t': "t' = booked p owner ?t1" and d: "distinct vs" and sub: "set vs \<subseteq> set (held_by p owner t)" using eff by auto
  have "sessions (owned p owner) ?t1 \<subseteq> sessions (owned p owner) t - set vs" by (rule sessions_taken [OF assms(1)]) (simp add: owned_def)
  then have "card (sessions (owned p owner) ?t1) \<le> card (sessions (owned p owner) t - set vs)" by (rule card_mono [rotated]) simp
  also have "\<dots> = card (sessions (owned p owner) t) - length vs"
    using sub d by (simp add: card_Diff_subset distinct_card set_held)
  finally have "length (held_by p owner ?t1) \<le> length (held_by p owner t) - length vs" using assms(1) by (simp add: held_card)
  moreover have "length vs \<le> length (held_by p owner t)" using sub d by (metis card_mono distinct_card finite_set le_trans card_length)
  moreover have "held_by p owner t' = held_by p owner ?t1" unfolding t' by (rule counts_cong) simp_all
  moreover have "lookup0 (tb_openingBy t') (ownerKey p owner) = lookup0 (tb_openingBy t) (ownerKey p owner) + 1"
    using assms(3) by (simp add: t')
  ultimately show ?thesis using eff assms(3,4) by auto
qed

subsection \<open>Opens and their places\<close>

definition holding :: "opn \<Rightarrow> bool" where
  "holding o' \<longleftrightarrow> op_phase o' \<noteq> OpDone"

definition counts_for :: "string \<Rightarrow> opn \<Rightarrow> bool" where
  "counts_for k o' \<longleftrightarrow> holding o' \<and> (op_principal o' = k \<or> op_owner o' \<noteq> '''' \<and> ownerKey (op_principal o') (op_owner o') = k)"

text \<open>A caller's name is not empty and holds no control character (\<open>auth.go\<close>).\<close>

definition caller_ok :: "string \<Rightarrow> bool" where
  "caller_ok p \<longleftrightarrow> p \<noteq> '''' \<and> char_of (0 :: nat) \<notin> set p"

definition open_ok :: "table \<Rightarrow> opn \<Rightarrow> bool" where
  "open_ok t o' \<longleftrightarrow> caller_ok (op_principal o') \<and> distinct (op_victims o') \<and> (op_phase o' \<in> {OpRefused, OpDone} \<longrightarrow> op_victims o' = []) \<and>
     (\<forall>v \<in> set (op_victims o'). v < length (tb_heap t) \<and> te_principal (tb_heap t ! v) = op_principal o' \<and> te_owner (tb_heap t ! v) = op_owner o')"

definition opens_ok :: "tstate \<Rightarrow> bool" where
  "opens_ok s \<longleftrightarrow> table_ok (ts_table s) \<and> (\<forall>o' \<in> set (ts_opens s). open_ok (ts_table s) o') \<and>
     tb_opening (ts_table s) = sum_list (map (\<lambda>o'. of_bool (holding o')) (ts_opens s)) \<and>
     (\<forall>k. lookup0 (tb_openingBy (ts_table s)) k = sum_list (map (\<lambda>o'. of_bool (counts_for k o')) (ts_opens s)))"

text \<open>What an open may still add to the sessions: one while it can still become a session or give
  back the one it took, else what it has still to give back.\<close>

definition weight :: "opn \<Rightarrow> int" where
  "weight o' = (if op_phase o' = OpReserved then 1 else int (length (op_victims o')))"

definition load :: "(string \<Rightarrow> string \<Rightarrow> bool) \<Rightarrow> tstate \<Rightarrow> int" where
  "load S s = sum_list (map (\<lambda>o'. if S (op_principal o') (op_owner o') then weight o' else 0) (ts_opens s))"

definition chosen :: "(string \<Rightarrow> string \<Rightarrow> bool) \<Rightarrow> bool \<Rightarrow> tentry \<Rightarrow> bool" where
  "chosen S quiet e \<longleftrightarrow> S (te_principal e) (te_owner e) \<and> live e \<and> (quiet \<longrightarrow> \<not> te_err e)"

definition places :: "(string \<Rightarrow> string \<Rightarrow> bool) \<Rightarrow> bool \<Rightarrow> tstate \<Rightarrow> int" where
  "places S quiet s = int (card (sessions (chosen S quiet) (ts_table s))) + load S s"

definition single :: "tstate \<Rightarrow> bool" where
  "single s \<longleftrightarrow> (\<forall>o' \<in> set (ts_opens s). length (op_victims o') \<le> 1)"

lemma card_sessions_le:
  assumes "sessions Q t' \<subseteq> sessions Q t \<union> V" "finite V" "int (card V) \<le> n"
  shows "int (card (sessions Q t')) \<le> int (card (sessions Q t)) + n"
proof -
  have "card (sessions Q t') \<le> card (sessions Q t \<union> V)" using assms(1,2) by (intro card_mono) simp_all
  also have "\<dots> \<le> card (sessions Q t) + card V" by (rule card_Un_le)
  finally show ?thesis using assms(3) by simp
qed

text \<open>Changing entries adds at most those of the changed ones that are then chosen.\<close>

lemma sessions_upd_all:
  assumes "table_ok t"
  shows "sessions Q (upd_all vs f t) \<subseteq> sessions Q t \<union> {x \<in> set vs. x < length (tb_heap t) \<and> Q (f (tb_heap t ! x)) \<and> \<not> Q (tb_heap t ! x)}"
proof
  fix x
  assume x: "x \<in> sessions Q (upd_all vs f t)"
  then have "x < length (tb_heap t)" using assms by (auto simp: sessions_def table_ok_def)
  with x show "x \<in> sessions Q t \<union> {x \<in> set vs. x < length (tb_heap t) \<and> Q (f (tb_heap t ! x)) \<and> \<not> Q (tb_heap t ! x)}"
    by (auto simp: sessions_def split: if_splits)
qed

lemma sessions_shrink:
  assumes "table_ok t" "\<And>e. Q (f e) \<Longrightarrow> Q e"
  shows "int (card (sessions Q (upd_all vs f t))) \<le> int (card (sessions Q t))"
proof -
  have "sessions Q (upd_all vs f t) \<subseteq> sessions Q t \<union> {}" using sessions_upd_all [OF assms(1), of Q vs f] assms(2) by blast
  from card_sessions_le [OF this] show ?thesis by fastforce
qed

lemma sessions_restore:
  assumes "table_ok t" "open_ok t o'" "set vs \<subseteq> set (op_victims o')" "distinct vs"
  shows "int (card (sessions (chosen S quiet) (restore vs t))) \<le>
    int (card (sessions (chosen S quiet) t)) + (if S (op_principal o') (op_owner o') then int (length vs) else 0)"
proof -
  let ?V = "if S (op_principal o') (op_owner o') then set vs else {}"
  have "sessions (chosen S quiet) (restore vs t) \<subseteq> sessions (chosen S quiet) t \<union> ?V"
    using sessions_upd_all [OF assms(1), of "chosen S quiet" vs "\<lambda>e. e\<lparr>te_replaced := False, te_turn := Free\<rparr>"] assms(2,3)
    by (fastforce simp: restore_all [OF assms(4)] chosen_def open_ok_def)
  then show ?thesis using distinct_card [OF assms(4)] by (intro card_sessions_le) auto
qed

lemma load_upd:
  assumes "j < length (ts_opens s)" "op_principal o' = op_principal (ts_opens s ! j)" "op_owner o' = op_owner (ts_opens s ! j)"
  shows "load S (set_open j o' t s) = load S s +
    (if S (op_principal o') (op_owner o') then weight o' - weight (ts_opens s ! j) else 0)"
  using assms by (simp add: load_def set_open_def sum_list_upd)

lemma doneOne_count:
  assumes "lookup0 (tb_openingBy t) k \<ge> 1"
  shows "lookup0 (tb_openingBy (doneOne k t)) k' = lookup0 (tb_openingBy t) k' - of_bool (k' = k)"
    "tb_heap (doneOne k t) = tb_heap t" "tb_byID (doneOne k t) = tb_byID t" "tb_opening (doneOne k t) = tb_opening t"
  using assms by (auto simp: doneOne_def Let_def)

lemma doneOpening_count:
  assumes "lookup0 (tb_openingBy t) p \<ge> 1" "owner \<noteq> '''' \<Longrightarrow> lookup0 (tb_openingBy t) (ownerKey p owner) \<ge> 1"
  shows "lookup0 (tb_openingBy (doneOpeningLocked p owner t)) k = lookup0 (tb_openingBy t) k - of_bool (k = p \<or> owner \<noteq> '''' \<and> k = ownerKey p owner)"
    "tb_heap (doneOpeningLocked p owner t) = tb_heap t" "tb_byID (doneOpeningLocked p owner t) = tb_byID t"
    "tb_opening (doneOpeningLocked p owner t) = tb_opening t"
  using assms by (simp_all add: doneOpeningLocked_def doneOne_count)

definition same_names :: "table \<Rightarrow> table \<Rightarrow> bool" where
  "same_names t t' \<longleftrightarrow> length (tb_heap t) \<le> length (tb_heap t') \<and>
     (\<forall>i < length (tb_heap t). te_principal (tb_heap t' ! i) = te_principal (tb_heap t ! i) \<and> te_owner (tb_heap t' ! i) = te_owner (tb_heap t ! i))"

lemma same_names_refl [simp]: "tb_heap t' = tb_heap t \<Longrightarrow> same_names t t'"
  by (simp add: same_names_def)

lemma same_names_upd [simp]:
  "(\<And>e. te_principal (f e) = te_principal e \<and> te_owner (f e) = te_owner e) \<Longrightarrow> same_names t (upd_all vs f t)"
  by (simp add: same_names_def)

lemma open_ok_names: "same_names t t' \<Longrightarrow> open_ok t o' \<Longrightarrow> open_ok t' o'"
  by (fastforce simp: same_names_def open_ok_def)

lemma opens_ok_set:
  assumes "opens_ok s" "j < length (ts_opens s)" "table_ok t'" "same_names (ts_table s) t'" "open_ok (ts_table s) o'"
    and "tb_opening t' = tb_opening (ts_table s) - of_bool (holding (ts_opens s ! j)) + of_bool (holding o')"
    and "\<And>k. lookup0 (tb_openingBy t') k =
      lookup0 (tb_openingBy (ts_table s)) k - of_bool (counts_for k (ts_opens s ! j)) + of_bool (counts_for k o')"
  shows "opens_ok (set_open j o' t' s)"
proof -
  have "open_ok t' x" if "x \<in> set ((ts_opens s)[j := o'])" for x
    using that set_update_subset_insert [of "ts_opens s" j o'] assms(1,5) open_ok_names [OF assms(4)] by (auto simp: opens_ok_def)
  with assms show ?thesis by (simp add: opens_ok_def set_open_def sum_list_upd)
qed

lemma opens_ok_table:
  assumes "opens_ok s" "table_ok t'" "same_names (ts_table s) t'" "tb_opening t' = tb_opening (ts_table s)" "tb_openingBy t' = tb_openingBy (ts_table s)"
  shows "opens_ok (s\<lparr>ts_table := t'\<rparr>)"
  using assms open_ok_names [OF assms(3)] by (simp add: opens_ok_def)

lemma single_set: "single s \<Longrightarrow> length (op_victims o') \<le> 1 \<Longrightarrow> single (set_open j o' t s)"
  using set_update_subset_insert [of "ts_opens s" j o'] by (auto simp: single_def set_open_def)

lemma opens_ok_nth: "opens_ok s \<Longrightarrow> j < length (ts_opens s) \<Longrightarrow> open_ok (ts_table s) (ts_opens s ! j)"
  by (simp add: opens_ok_def)

lemma single_nth: "single s \<Longrightarrow> j < length (ts_opens s) \<Longrightarrow> length (op_victims (ts_opens s ! j)) \<le> 1"
  by (simp add: single_def)

lemma places_table:
  "int (card (sessions (chosen S quiet) t')) \<le> int (card (sessions (chosen S quiet) (ts_table s))) \<Longrightarrow> places S quiet (s\<lparr>ts_table := t'\<rparr>) \<le> places S quiet s"
  by (simp add: places_def load_def)

text \<open>A holder is counted under its keys.\<close>

lemma holder_counted:
  assumes "opens_ok s" "j < length (ts_opens s)" "holding (ts_opens s ! j)"
  shows "lookup0 (tb_openingBy (ts_table s)) (op_principal (ts_opens s ! j)) \<ge> 1"
    "op_owner (ts_opens s ! j) \<noteq> '''' \<Longrightarrow>
      lookup0 (tb_openingBy (ts_table s)) (ownerKey (op_principal (ts_opens s ! j)) (op_owner (ts_opens s ! j))) \<ge> 1"
proof -
  have ge: "(1 :: int) \<le> sum_list (map (\<lambda>o'. of_bool (counts_for k o')) (ts_opens s))" if "counts_for k (ts_opens s ! j)" for k
  proof -
    have "0 < length (filter (counts_for k) (ts_opens s))" using that assms(2) by (auto simp: filter_empty_conv)
    then show ?thesis unfolding count_filter by linarith
  qed
  show "lookup0 (tb_openingBy (ts_table s)) (op_principal (ts_opens s ! j)) \<ge> 1"
    using ge assms by (simp add: opens_ok_def counts_for_def)
  show "op_owner (ts_opens s ! j) \<noteq> '''' \<Longrightarrow>
      lookup0 (tb_openingBy (ts_table s)) (ownerKey (op_principal (ts_opens s ! j)) (op_owner (ts_opens s ! j))) \<ge> 1"
    using ge assms by (simp add: opens_ok_def counts_for_def)
qed

text \<open>The sections of an open after its reservation.\<close>

lemma do_replaced:
  assumes "tab_do c (EReplaced j) s = Some s'" "opens_ok s"
  shows "opens_ok s' \<and> places S quiet s' \<le> places S quiet s \<and> (single s \<longrightarrow> single s')"
proof -
  let ?o = "ts_opens s ! j" and ?t = "ts_table s"
  let ?v = "hd (op_victims ?o)" and ?o' = "?o\<lparr>op_victims := tl (op_victims ?o)\<rparr>" and ?f = "\<lambda>e. e\<lparr>te_err := True, te_turn := Free\<rparr>"
  have j: "j < length (ts_opens s)" "op_phase ?o = OpReserved" "op_victims ?o \<noteq> []" and s': "s' = set_open j ?o' (upd_all [?v] ?f ?t) s"
    using assms(1) by (auto simp: Let_def giveTurn_def upd_as_all upd_all_comp split: if_splits)
  have ok: "open_ok ?t ?o" "table_ok ?t" using assms(2) opens_ok_nth [OF assms(2) j(1)] by (simp_all add: opens_ok_def)
  have "open_ok ?t ?o'" using ok(1) j by (cases "op_victims ?o") (simp_all add: open_ok_def)
  then have "opens_ok s'" unfolding s' using assms(2) j ok(2)
    by (intro opens_ok_set) (auto simp: holding_def counts_for_def)
  moreover have "int (card (sessions (chosen S quiet) (upd_all [?v] ?f ?t))) \<le> int (card (sessions (chosen S quiet) ?t))"
    by (rule sessions_shrink [OF ok(2)]) (auto simp: chosen_def live_def)
  then have "places S quiet s' \<le> places S quiet s"
    using load_upd [OF j(1), of ?o' S "upd_all [?v] ?f ?t"] j(2) by (simp add: s' places_def weight_def) (simp add: set_open_def)
  moreover have "single s \<longrightarrow> single s'" unfolding s' using single_nth [OF _ j(1)] by (auto intro!: single_set)
  ultimately show ?thesis by blast
qed

lemma do_kept:
  assumes "tab_do c (EKept j) s = Some s'" "opens_ok s" "single s"
  shows "opens_ok s' \<and> places S quiet s' \<le> places S quiet s \<and> single s'"
proof -
  let ?o = "ts_opens s ! j" and ?t = "ts_table s"
  let ?v = "hd (op_victims ?o)" and ?o' = "?o\<lparr>op_victims := tl (op_victims ?o), op_phase := OpFailing\<rparr>"
  have j: "j < length (ts_opens s)" "op_phase ?o = OpReserved" "op_victims ?o \<noteq> []" and s': "s' = set_open j ?o' (restore [?v] ?t) s"
    using assms(1) by (auto simp: Let_def split: if_splits)
  have ok: "open_ok ?t ?o" "table_ok ?t" using assms(2) opens_ok_nth [OF assms(2) j(1)] by (simp_all add: opens_ok_def)
  have one: "tl (op_victims ?o) = []" using single_nth [OF assms(3) j(1)] j(3) by (cases "op_victims ?o") simp_all
  have r: "restore [?v] ?t = upd_all [?v] (\<lambda>e. e\<lparr>te_replaced := False, te_turn := Free\<rparr>) ?t" by (rule restore_all) simp
  have "open_ok ?t ?o'" using ok(1) one by (simp add: open_ok_def)
  then have "opens_ok s'" unfolding s' r using assms(2) j ok(2)
    by (intro opens_ok_set) (auto simp: holding_def counts_for_def)
  moreover have "int (card (sessions (chosen S quiet) (restore [?v] ?t))) \<le>
      int (card (sessions (chosen S quiet) ?t)) + (if S (op_principal ?o) (op_owner ?o) then int (length [?v]) else 0)"
    by (rule sessions_restore [OF ok(2,1)]) (use j(3) in simp_all)
  then have "places S quiet s' \<le> places S quiet s"
    using load_upd [OF j(1), of ?o' S "restore [?v] ?t"] j(2) one by (simp add: s' places_def weight_def) (simp add: set_open_def split: if_splits)
  moreover have "single s'" unfolding s' using assms(3) one by (auto intro!: single_set)
  ultimately show ?thesis by blast
qed

lemma do_giveup:
  assumes "tab_do c (EGiveUp j) s = Some s'" "opens_ok s" "single s"
  shows "opens_ok s' \<and> places S quiet s' \<le> places S quiet s \<and> single s'"
proof -
  let ?o = "ts_opens s ! j" and ?t = "ts_table s"
  let ?o' = "?o\<lparr>op_victims := [], op_phase := OpRefused\<rparr>" and ?vs = "op_victims (ts_opens s ! j)"
  have j: "j < length (ts_opens s)" "op_phase ?o \<in> {OpReserved, OpFailing}" and s': "s' = set_open j ?o' (restore ?vs ?t) s"
    using assms(1) by (auto simp: Let_def split: if_splits)
  have ok: "open_ok ?t ?o" "table_ok ?t" using assms(2) opens_ok_nth [OF assms(2) j(1)] by (simp_all add: opens_ok_def)
  have d: "distinct ?vs" "length ?vs \<le> 1" using ok(1) single_nth [OF assms(3) j(1)] by (simp_all add: open_ok_def)
  have r: "restore ?vs ?t = upd_all ?vs (\<lambda>e. e\<lparr>te_replaced := False, te_turn := Free\<rparr>) ?t" by (rule restore_all [OF d(1)])
  have "open_ok ?t ?o'" using ok(1) by (simp add: open_ok_def)
  then have "opens_ok s'" unfolding s' r using assms(2) j ok(2)
    by (intro opens_ok_set) (auto simp: holding_def counts_for_def)
  moreover have "int (card (sessions (chosen S quiet) (restore ?vs ?t))) \<le>
      int (card (sessions (chosen S quiet) ?t)) + (if S (op_principal ?o) (op_owner ?o) then int (length ?vs) else 0)"
    by (rule sessions_restore [OF ok(2,1)]) (use d in simp_all)
  then have "places S quiet s' \<le> places S quiet s"
    using load_upd [OF j(1), of ?o' S "restore ?vs ?t"] j(2) d(2) by (simp add: s' places_def weight_def) (auto simp: set_open_def split: if_splits)
  moreover have "single s'" unfolding s' using assms(3) by (auto intro!: single_set)
  ultimately show ?thesis by blast
qed

lemma unreserve_counts:
  assumes "opens_ok s" "j < length (ts_opens s)" "holding (ts_opens s ! j)"
    and "tb_openingBy t = tb_openingBy (ts_table s)"
  defines "t' \<equiv> doneOpeningLocked (op_principal (ts_opens s ! j)) (op_owner (ts_opens s ! j)) t"
  shows "lookup0 (tb_openingBy t') k = lookup0 (tb_openingBy (ts_table s)) k - of_bool (counts_for k (ts_opens s ! j))"
    "tb_heap t' = tb_heap t" "tb_byID t' = tb_byID t" "tb_opening t' = tb_opening t"
  using doneOpening_count [of t "op_principal (ts_opens s ! j)" "op_owner (ts_opens s ! j)"] holder_counted [OF assms(1-3)] assms(3,4)
  by (auto simp: t'_def counts_for_def)

lemma do_unreserve:
  assumes "tab_do c (EUnreserve j) s = Some s'" "opens_ok s"
  shows "opens_ok s' \<and> places S quiet s' \<le> places S quiet s \<and> (single s \<longrightarrow> single s')"
proof -
  let ?o = "ts_opens s ! j" and ?t = "ts_table s"
  let ?o' = "?o\<lparr>op_phase := OpDone\<rparr>" and ?w = "ts_table s\<lparr>tb_opening := tb_opening (ts_table s) - 1\<rparr>"
  let ?t' = "unreserve (op_principal ?o) (op_owner ?o) ?t"
  have j: "j < length (ts_opens s)" "op_phase ?o = OpRefused" and s': "s' = set_open j ?o' ?t' s"
    using assms(1) by (auto simp: Let_def split: if_splits)
  have ok: "open_ok ?t ?o" "table_ok ?t" using assms(2) opens_ok_nth [OF assms(2) j(1)] by (simp_all add: opens_ok_def)
  have h: "holding ?o" using j(2) by (simp add: holding_def)
  note u = unreserve_counts [OF assms(2) j(1) h, of ?w, simplified, folded unreserve_def]
  have v: "op_victims ?o = []" using ok(1) j(2) by (simp add: open_ok_def)
  have o': "open_ok ?t ?o'" using ok(1) v by (simp add: open_ok_def)
  have "opens_ok s'" unfolding s'
  proof (rule opens_ok_set [OF assms(2) j(1) _ _ o'])
    show "table_ok ?t'" using counts_cong(4) [OF u(2,3)] ok(2) by simp
  qed (use u h in \<open>simp_all add: holding_def counts_for_def\<close>)
  moreover have "sessions Q ?t' = sessions Q ?t" for Q by (rule counts_cong(3)) (simp_all add: u)
  then have "places S quiet s' \<le> places S quiet s"
    using load_upd [OF j(1), of ?o' S ?t'] j(2) v by (simp add: s' places_def weight_def) (simp add: set_open_def)
  moreover have "single s \<longrightarrow> single s'" unfolding s' using v by (auto intro!: single_set)
  ultimately show ?thesis by blast
qed

lemma table_ok_new:
  assumes "table_ok t"
  shows "table_ok (t\<lparr>tb_heap := tb_heap t @ [e], tb_byID := AList.update i (length (tb_heap t)) (tb_byID t), tb_opening := n\<rparr>)"
proof -
  have snds: "set (map snd (AList.update i v m)) \<subseteq> insert v (set (map snd m))" for v and m :: "(string \<times> nat) list"
    by (induction m) auto
  have dist: "distinct (map snd (AList.update i v m))" if "distinct (map snd m)" "v \<notin> set (map snd m)" for v and m :: "(string \<times> nat) list"
    using that
  proof (induction m)
    case (Cons x m)
    then show ?case using snds [of v m] by (cases x) auto
  qed simp
  have "length (tb_heap t) \<notin> set (map snd (tb_byID t))" using assms by (auto simp: table_ok_def)
  with dist snds [of "length (tb_heap t)" "tb_byID t"] assms show ?thesis by (fastforce simp: table_ok_def distinct_update)
qed

lemma sessions_new:
  assumes "table_ok t"
  shows "sessions Q (t\<lparr>tb_heap := tb_heap t @ [e], tb_byID := AList.update i (length (tb_heap t)) (tb_byID t), tb_opening := n\<rparr>) \<subseteq>
    sessions Q t \<union> (if Q e then {length (tb_heap t)} else {})"
proof -
  have snds: "set (map snd (AList.update i v m)) \<subseteq> insert v (set (map snd m))" for v and m :: "(string \<times> nat) list"
    by (induction m) auto
  show ?thesis
  proof
    fix x
    assume x: "x \<in> sessions Q (t\<lparr>tb_heap := tb_heap t @ [e], tb_byID := AList.update i (length (tb_heap t)) (tb_byID t), tb_opening := n\<rparr>)"
    then have c: "x = length (tb_heap t) \<or> x \<in> set (map snd (tb_byID t))" and q: "Q ((tb_heap t @ [e]) ! x)"
      using snds [of "length (tb_heap t)" "tb_byID t"] by (auto simp: sessions_def)
    from c show "x \<in> sessions Q t \<union> (if Q e then {length (tb_heap t)} else {})"
    proof
      assume "x \<in> set (map snd (tb_byID t))"
      moreover from this have "x < length (tb_heap t)" using assms by (auto simp: table_ok_def)
      ultimately show ?thesis using q by (simp add: sessions_def nth_append)
    qed (use q in simp)
  qed
qed

lemma do_add:
  assumes "tab_do c (EAdd j i) s = Some s'" "opens_ok s"
  shows "opens_ok s' \<and> places S quiet s' \<le> places S quiet s \<and> (single s \<longrightarrow> single s')"
proof -
  let ?o = "ts_opens s ! j" and ?t = "(ts_table s)\<lparr>tb_clock := tb_clock (ts_table s) + 1\<rparr>"
  let ?e = "new_entry i (op_principal ?o) (op_owner ?o) (tb_clock (ts_table s) + 1)" and ?o' = "?o\<lparr>op_phase := OpDone\<rparr>"
  let ?w = "?t\<lparr>tb_heap := tb_heap ?t @ [?e], tb_byID := AList.update i (length (tb_heap ?t)) (tb_byID ?t), tb_opening := tb_opening ?t - 1\<rparr>"
  let ?t' = "doneOpeningLocked (op_principal ?o) (op_owner ?o) ?w"
  have j: "j < length (ts_opens s)" "op_phase ?o = OpReserved" "op_victims ?o = []" and s': "s' = set_open j ?o' ?t' s"
    using assms(1) by (auto simp: Let_def tick_def registry_add_def new_entry_def split: if_splits)
  have ok: "open_ok (ts_table s) ?o" "table_ok (ts_table s)" using assms(2) opens_ok_nth [OF assms(2) j(1)] by (simp_all add: opens_ok_def)
  have t: "table_ok ?t" using ok(2) counts_cong(4) [of ?t "ts_table s"] by simp
  have h: "holding ?o" using j(2) by (simp add: holding_def)
  have w: "tb_openingBy ?w = tb_openingBy (ts_table s)" by simp
  note u = unreserve_counts [OF assms(2) j(1) h w]
  have o': "open_ok (ts_table s) ?o'" using ok(1) j(3) by (simp add: open_ok_def)
  have "opens_ok s'" unfolding s'
  proof (rule opens_ok_set [OF assms(2) j(1) _ _ o'])
    show "table_ok ?t'" using counts_cong(4) [OF u(2,3)] table_ok_new [OF t] by simp
    show "same_names (ts_table s) ?t'" using u(2) by (simp add: same_names_def nth_append)
  qed (use u h in \<open>simp_all add: holding_def counts_for_def\<close>)
  moreover have "sessions (chosen S quiet) ?t' \<subseteq> sessions (chosen S quiet) ?t \<union> (if chosen S quiet ?e then {length (tb_heap ?t)} else {})"
    unfolding counts_cong(3) [OF u(2,3)] by (rule sessions_new [OF t])
  then have "int (card (sessions (chosen S quiet) ?t')) \<le>
      int (card (sessions (chosen S quiet) ?t)) + (if S (op_principal ?o) (op_owner ?o) then 1 else 0)"
    by (rule card_sessions_le) (auto simp: chosen_def new_entry_def)
  moreover have "sessions (chosen S quiet) ?t = sessions (chosen S quiet) (ts_table s)" by (rule counts_cong) simp_all
  ultimately have "opens_ok s'" and n: "int (card (sessions (chosen S quiet) ?t')) \<le>
      int (card (sessions (chosen S quiet) (ts_table s))) + (if S (op_principal ?o) (op_owner ?o) then 1 else 0)" by simp_all
  moreover from n have "places S quiet s' \<le> places S quiet s"
    using load_upd [OF j(1), of ?o' S ?t'] j(2,3) by (simp add: s' places_def weight_def) (simp add: set_open_def split: if_splits)
  moreover have "single s \<longrightarrow> single s'" unfolding s' using j(3) by (auto intro!: single_set)
  ultimately show ?thesis by blast
qed

lemma do_entry:
  assumes ok: "opens_ok s" and f: "\<And>e. te_principal (f e) = te_principal e \<and> te_owner (f e) = te_owner e" "\<And>e. chosen S quiet (f e) \<Longrightarrow> chosen S quiet e"
    and t': "tb_heap t' = tb_heap (upd x f (ts_table s))" "tb_byID t' = tb_byID (ts_table s)" "tb_opening t' = tb_opening (ts_table s)"
      "tb_openingBy t' = tb_openingBy (ts_table s)"
  shows "opens_ok (s\<lparr>ts_table := t'\<rparr>) \<and> places S quiet (s\<lparr>ts_table := t'\<rparr>) \<le> places S quiet s"
proof -
  let ?t = "upd_all [x] f (ts_table s)"
  have tok: "table_ok (ts_table s)" using ok by (simp add: opens_ok_def)
  have h: "tb_heap t' = tb_heap ?t" "tb_byID t' = tb_byID ?t" using t' by (simp_all add: upd_as_all)
  have "same_names (ts_table s) t'" using f(1) same_names_upd [of f "ts_table s" "[x]"] h(1) by (simp add: same_names_def)
  with ok tok t' counts_cong(4) [OF h] have "opens_ok (s\<lparr>ts_table := t'\<rparr>)" by (intro opens_ok_table) simp_all
  moreover have "places S quiet (s\<lparr>ts_table := t'\<rparr>) \<le> places S quiet s"
    using sessions_shrink [OF tok, of "chosen S quiet" f] f(2) counts_cong(3) [OF h] by (intro places_table) simp
  ultimately show ?thesis ..
qed

lemma do_session:
  assumes "tab_do c ev s = Some s'" "opens_ok s" "\<exists>x u. ev \<in> {ETurn x, EGive x u, EErr x, EEnded x}"
  shows "opens_ok s' \<and> places S quiet s' \<le> places S quiet s \<and> (single s \<longrightarrow> single s')"
proof -
  have m: "chosen S quiet (e\<lparr>te_turn := h\<rparr>) \<Longrightarrow> chosen S quiet e" "chosen S quiet (e\<lparr>te_turn := h, te_used := n\<rparr>) \<Longrightarrow> chosen S quiet e"
    "chosen S quiet (e\<lparr>te_err := True\<rparr>) \<Longrightarrow> chosen S quiet e" "chosen S quiet (e\<lparr>te_ended := True\<rparr>) \<Longrightarrow> chosen S quiet e" for e h n
    by (auto simp: chosen_def live_def)
  have sg: "single (s\<lparr>ts_table := t'\<rparr>) = single s" for t' by (simp add: single_def)
  note entry = do_entry [OF assms(2), of _ S quiet]
  consider x where "ev = ETurn x" | x u where "ev = EGive x u" | x where "ev = EErr x" | x where "ev = EEnded x" using assms(3) by auto
  then show ?thesis
  proof cases
    case (1 x)
    then have s': "s' = s\<lparr>ts_table := upd x (\<lambda>e. e\<lparr>te_turn := ByCall\<rparr>) (ts_table s)\<rparr>" using assms(1) by (simp split: if_splits)
    show ?thesis unfolding s' sg using entry [of "\<lambda>e. e\<lparr>te_turn := ByCall\<rparr>" "upd x (\<lambda>e. e\<lparr>te_turn := ByCall\<rparr>) (ts_table s)" x] m(1) by (simp add: upd_def)
  next
    case (2 x u)
    let ?n = "if u then tb_clock (ts_table s) + 1 else te_used (tb_heap (ts_table s) ! x)"
    let ?g = "\<lambda>e. e\<lparr>te_turn := Free, te_used := ?n\<rparr>" and ?t = "if u then (ts_table s)\<lparr>tb_clock := tb_clock (ts_table s) + 1\<rparr> else ts_table s"
    have s': "s' = s\<lparr>ts_table := upd x ?g ?t\<rparr>" using assms(1) 2 by (cases u) (simp_all add: tick_def Let_def split: if_splits)
    show ?thesis unfolding s' sg using entry [of ?g "upd x ?g ?t" x] m(2) by (cases u) (simp_all add: upd_def)
  next
    case (3 x)
    then have s': "s' = s\<lparr>ts_table := upd x (\<lambda>e. e\<lparr>te_err := True\<rparr>) (ts_table s)\<rparr>" using assms(1) by (simp split: if_splits)
    show ?thesis unfolding s' sg using entry [of "\<lambda>e. e\<lparr>te_err := True\<rparr>" "upd x (\<lambda>e. e\<lparr>te_err := True\<rparr>) (ts_table s)" x] m(3) by (simp add: upd_def)
  next
    case (4 x)
    then have s': "s' = s\<lparr>ts_table := upd x (\<lambda>e. e\<lparr>te_ended := True\<rparr>) (ts_table s)\<rparr>" using assms(1) by (simp split: if_splits)
    show ?thesis unfolding s' sg using entry [of "\<lambda>e. e\<lparr>te_ended := True\<rparr>" "upd x (\<lambda>e. e\<lparr>te_ended := True\<rparr>) (ts_table s)" x] m(4) by (simp add: upd_def)
  qed
qed

lemma do_remove:
  assumes "tab_do c (ERemove i) s = Some s'" "opens_ok s"
  shows "opens_ok s' \<and> places S quiet s' \<le> places S quiet s \<and> (single s \<longrightarrow> single s')"
proof -
  let ?t = "ts_table s"
  have s': "s' = s\<lparr>ts_table := registry_remove i ?t\<rparr>" using assms(1) by simp
  have d: "AList.delete i m = filter (\<lambda>p. fst p \<noteq> i) m" for m :: "(string \<times> nat) list" unfolding AList.delete_eq by (rule filter_cong) auto
  have tok: "table_ok ?t" using assms(2) by (simp add: opens_ok_def)
  have "table_ok (registry_remove i ?t)"
    using tok by (auto simp: table_ok_def registry_remove_def d distinct_map_filter)
  then have "opens_ok s'" unfolding s' using assms(2) by (intro opens_ok_table) (simp_all add: registry_remove_def)
  moreover have "sessions (chosen S quiet) (registry_remove i ?t) \<subseteq> sessions (chosen S quiet) ?t \<union> {}"
    by (auto simp: sessions_def registry_remove_def d)
  from card_sessions_le [OF this, of 0] have "places S quiet s' \<le> places S quiet s" unfolding s' by (intro places_table) simp
  ultimately show ?thesis by (simp add: s' single_def)
qed

text \<open>The caps, with what opens may still add.\<close>

definition caps :: "session_config \<Rightarrow> tstate \<Rightarrow> bool" where
  "caps c s \<longleftrightarrow> opens_ok s \<and> single s \<and> places (\<lambda>_ _. True) False s \<le> sc_MaxSessions c \<and>
     (sc_MaxPerCaller c > 0 \<longrightarrow> (\<forall>p. caller_ok p \<longrightarrow> places (\<lambda>q _. q = p) False s \<le> sc_MaxPerCaller c)) \<and>
     (sc_MaxPerOwner c > 0 \<longrightarrow> (\<forall>p w. caller_ok p \<longrightarrow> w \<noteq> '''' \<longrightarrow> places (\<lambda>q v. q = p \<and> v = w) True s \<le> sc_MaxPerOwner c))"

lemma caps_smaller:
  assumes "caps c s" "opens_ok s'" "single s'" "\<And>S quiet. places S quiet s' \<le> places S quiet s"
  shows "caps c s'"
  using assms(1,2,3) order_trans [OF assms(4)] by (simp add: caps_def)

lemma weight_le: "open_ok t o' \<Longrightarrow> length (op_victims o') \<le> 1 \<Longrightarrow> weight o' \<le> of_bool (holding o')"
  by (cases "op_phase o'") (auto simp: weight_def holding_def open_ok_def)

lemma load_le:
  assumes "opens_ok s" "single s"
  shows "load S s \<le> sum_list (map (\<lambda>o'. of_bool (holding o' \<and> S (op_principal o') (op_owner o'))) (ts_opens s))"
  unfolding load_def
  using assms by (intro sum_list_mono_all ballI) (auto simp: opens_ok_def single_def dest!: weight_le)

lemma ownerKey_caller: "caller_ok p \<Longrightarrow> ownerKey q w \<noteq> p"
  by (auto simp: caller_ok_def ownerKey_def)

lemma ownerKey_inj: "caller_ok p \<Longrightarrow> caller_ok q \<Longrightarrow> ownerKey p v = ownerKey q w \<longleftrightarrow> p = q \<and> v = w"
proof
  assume ok: "caller_ok p" "caller_ok q" and e: "ownerKey p v = ownerKey q w"
  have "takeWhile (\<lambda>c. c \<noteq> char_of (0 :: nat)) (ownerKey p v) = p" "takeWhile (\<lambda>c. c \<noteq> char_of (0 :: nat)) (ownerKey q w) = q"
    using ok by (auto simp: caller_ok_def ownerKey_def takeWhile_append)
  with e show "p = q \<and> v = w" by (auto simp: ownerKey_def)
qed simp

lemma opening_caller:
  assumes "opens_ok s" "caller_ok p"
  shows "lookup0 (tb_openingBy (ts_table s)) p = sum_list (map (\<lambda>o'. of_bool (holding o' \<and> op_principal o' = p)) (ts_opens s))"
  using assms ownerKey_caller [OF assms(2)] by (simp add: opens_ok_def counts_for_def)

lemma opening_owner:
  assumes "opens_ok s" "caller_ok p" "w \<noteq> ''''"
  shows "lookup0 (tb_openingBy (ts_table s)) (ownerKey p w) =
    sum_list (map (\<lambda>o'. of_bool (holding o' \<and> op_principal o' = p \<and> op_owner o' = w)) (ts_opens s))"
proof -
  have "counts_for (ownerKey p w) o' = (holding o' \<and> op_principal o' = p \<and> op_owner o' = w)" if "o' \<in> set (ts_opens s)" for o'
  proof -
    have "caller_ok (op_principal o')" using assms(1) that by (auto simp: opens_ok_def open_ok_def)
    then have "op_principal o' \<noteq> ownerKey p w" "ownerKey (op_principal o') v = ownerKey p w \<longleftrightarrow> op_principal o' = p \<and> v = w" for v
      using ownerKey_caller ownerKey_inj assms(2) by metis+
    with assms(3) show ?thesis by (auto simp: counts_for_def)
  qed
  then have "map (\<lambda>o'. of_bool (counts_for (ownerKey p w) o') :: int) (ts_opens s) =
      map (\<lambda>o'. of_bool (holding o' \<and> op_principal o' = p \<and> op_owner o' = w)) (ts_opens s)" by (intro map_cong) simp_all
  then have "sum_list (map (\<lambda>o'. of_bool (counts_for (ownerKey p w) o') :: int) (ts_opens s)) =
      sum_list (map (\<lambda>o'. of_bool (holding o' \<and> op_principal o' = p \<and> op_owner o' = w)) (ts_opens s))" by (rule arg_cong)
  with assms(1) show ?thesis by (simp add: opens_ok_def)
qed

text \<open>No open of the owner is between giving back what it took and giving back its place.\<close>

definition calm :: "string \<Rightarrow> string \<Rightarrow> tstate \<Rightarrow> bool" where
  "calm p owner s \<longleftrightarrow> caller_ok p \<and>
     (owner \<noteq> '''' \<longrightarrow> list_all (\<lambda>o'. op_principal o' = p \<and> op_owner o' = owner \<longrightarrow> op_phase o' \<in> {OpReserved, OpDone}) (ts_opens s))"

lemma calm_need:
  assumes "caps c s" "calm p owner s" "owner \<noteq> ''''" "sc_MaxPerOwner c > 0"
  shows "int (length (held_by p owner (ts_table s))) + lookup0 (tb_openingBy (ts_table s)) (ownerKey p owner) \<le> sc_MaxPerOwner c"
proof -
  have ok: "opens_ok s" "caller_ok p" using assms(1,2) by (simp_all add: caps_def calm_def)
  have v: "op_victims o' = []" if "o' \<in> set (ts_opens s)" "op_phase o' = OpDone" for o'
    using ok(1) that by (auto simp: opens_ok_def open_ok_def)
  have "load (\<lambda>q v. q = p \<and> v = owner) s = sum_list (map (\<lambda>o'. of_bool (holding o' \<and> op_principal o' = p \<and> op_owner o' = owner)) (ts_opens s))"
    unfolding load_def using assms(2,3) v
    by (intro arg_cong [where f = sum_list] map_cong) (auto simp: weight_def holding_def calm_def list_all_iff)
  moreover have "chosen (\<lambda>q v. q = p \<and> v = owner) True = owned p owner" by (auto simp: chosen_def owned_def fun_eq_iff)
  moreover have "places (\<lambda>q v. q = p \<and> v = owner) True s \<le> sc_MaxPerOwner c" using assms(1,3,4) ok(2) by (simp add: caps_def)
  moreover have "length (held_by p owner (ts_table s)) = card (sessions (owned p owner) (ts_table s))"
    using ok(1) by (intro held_card) (simp add: opens_ok_def)
  ultimately show ?thesis using opening_owner [OF ok assms(3)] by (simp add: places_def)
qed

lemma caps_reserve:
  assumes inv: "caps c s" and calm: "calm p owner s" and step: "tab_do c (EReserve p owner evict) s = Some s'"
  shows "caps c s'"
proof -
  have ok: "opens_ok s" "table_ok (ts_table s)" "single s" "caller_ok p" using inv calm by (simp_all add: caps_def opens_ok_def calm_def)
  obtain r t' where r: "registry_reserve c p owner evict (ts_table s) = (r, t')" by fastforce
  note eff = reserve_effect [OF ok(2) r] 
  show ?thesis
  proof (cases r)
    case (Inl e)
    with eff r step have "s' = s" by simp
    with inv show ?thesis by simp
  next
    case (Inr vs)
    let ?o = "\<lparr>op_principal = p, op_owner = owner, op_victims = vs, op_phase = OpReserved\<rparr>"
    let ?t1 = "upd_all vs (\<lambda>e. e\<lparr>te_turn := ByOpen, te_replaced := True\<rparr>) (ts_table s)"
    have s': "s' = s\<lparr>ts_table := t', ts_opens := ts_opens s @ [?o]\<rparr>" using r step Inr by simp
    have t': "t' = booked p owner ?t1" and d: "distinct vs" and sub: "set vs \<subseteq> set (held_by p owner (ts_table s))"
      and max: "openLocked [] t' + tb_opening t' \<le> sc_MaxSessions c"
        "sc_MaxPerCaller c > 0 \<Longrightarrow> openLocked p t' + lookup0 (tb_openingBy t') p \<le> sc_MaxPerCaller c" using eff Inr by auto
    have len: "length vs \<le> 1"
      using eff Inr calm_need [OF inv calm] by (cases "owner = '''' \<or> sc_MaxPerOwner c \<le> 0") auto
    have heap: "tb_heap t' = tb_heap ?t1" "tb_byID t' = tb_byID ?t1" by (simp_all add: t')
    have tok: "table_ok t'" using counts_cong(4) [OF heap] ok(2) by simp
    have names: "same_names (ts_table s) t'" using heap(1) by (simp add: same_names_def)
    have "open_ok (ts_table s) ?o" using sub d ok(4) ok(2) by (auto simp: open_ok_def held_by_def table_ok_def)
    then have o: "open_ok t' ?o" by (rule open_ok_names [OF names])
    have "opens_ok s'"
      using ok(1) tok o open_ok_names [OF names] by (auto simp: s' opens_ok_def t' holding_def counts_for_def)
    moreover have "single s'" using ok(3) len by (simp add: s' single_def)
    moreover have shrink: "int (card (sessions (chosen S quiet) t')) \<le> int (card (sessions (chosen S quiet) (ts_table s)))" for S quiet
    proof -
      have "sessions (chosen S quiet) t' \<subseteq> sessions (chosen S quiet) (ts_table s) \<union> {}"
        unfolding counts_cong(3) [OF heap] using sessions_taken [OF ok(2), of "chosen S quiet" vs] by (auto simp: chosen_def)
      from card_sessions_le [OF this, of 0] show ?thesis by simp
    qed
    have load: "load S s' = load S s + (if S p owner then 1 else 0)" for S by (simp add: s' load_def weight_def)
    have tab: "ts_table s' = t'" by (simp add: s')
    have other: "places S quiet s' \<le> places S quiet s" if "\<not> S p owner" for S quiet
      using shrink [of S quiet] load [of S] that by (simp add: places_def tab)
    have all: "places (\<lambda>_ _. True) False s' \<le> sc_MaxSessions c"
    proof -
      have "chosen (\<lambda>_ _. True) False = (\<lambda>e. ('''' = '''' \<or> te_principal e = '''') \<and> live e)" by (auto simp: chosen_def)
      with openLocked_card [OF tok, of "[]"] have "int (card (sessions (chosen (\<lambda>_ _. True) False) t')) = openLocked '''' t'" by simp
      moreover have "load (\<lambda>_ _. True) s \<le> tb_opening (ts_table s)" using load_le [OF ok(1,3), of "\<lambda>_ _. True"] ok(1) by (simp add: opens_ok_def)
      moreover have "tb_opening t' = tb_opening (ts_table s) + 1" by (simp add: t')
      ultimately show ?thesis using max(1) load [of "\<lambda>_ _. True"] by (simp add: places_def tab)
    qed
    have caller: "places (\<lambda>q _. q = p) False s' \<le> sc_MaxPerCaller c" if "sc_MaxPerCaller c > 0"
    proof -
      have "chosen (\<lambda>q _. q = p) False = (\<lambda>e. (p = [] \<or> te_principal e = p) \<and> live e)" using ok(4) by (auto simp: chosen_def caller_ok_def)
      with openLocked_card [OF tok, of p] have "int (card (sessions (chosen (\<lambda>q _. q = p) False) t')) = openLocked p t'" by simp
      moreover have "load (\<lambda>q _. q = p) s \<le> lookup0 (tb_openingBy (ts_table s)) p"
        using load_le [OF ok(1,3), of "\<lambda>q _. q = p"] opening_caller [OF ok(1,4)] by simp
      moreover have "lookup0 (tb_openingBy t') p = lookup0 (tb_openingBy (ts_table s)) p + 1" by (simp add: t')
      ultimately show ?thesis using max(2) [OF that] load [of "\<lambda>q _. q = p"] by (simp add: places_def tab)
    qed
    have owner: "places (\<lambda>q v. q = p \<and> v = owner) True s' \<le> sc_MaxPerOwner c" if w: "owner \<noteq> []" "sc_MaxPerOwner c > 0"
    proof -
      have "chosen (\<lambda>q v. q = p \<and> v = owner) True = owned p owner" by (auto simp: chosen_def owned_def fun_eq_iff)
      with held_card [OF tok, of p owner] have "card (sessions (chosen (\<lambda>q v. q = p \<and> v = owner) True) t') = length (held_by p owner t')" by simp
      moreover have "load (\<lambda>q v. q = p \<and> v = owner) s \<le> lookup0 (tb_openingBy (ts_table s)) (ownerKey p owner)"
        using load_le [OF ok(1,3), of "\<lambda>q v. q = p \<and> v = owner"] opening_owner [OF ok(1,4) w(1)] by simp
      moreover have "lookup0 (tb_openingBy t') (ownerKey p owner) = lookup0 (tb_openingBy (ts_table s)) (ownerKey p owner) + 1" using w(1) by (simp add: t')
      moreover have "int (length (held_by p owner t')) + lookup0 (tb_openingBy t') (ownerKey p owner) \<le> sc_MaxPerOwner c"
        using r Inr w by (intro reserve_owner [OF ok(2)]) simp_all
      ultimately show ?thesis using load [of "\<lambda>q v. q = p \<and> v = owner"] by (simp add: places_def tab)
    qed
    have "places (\<lambda>q _. q = x) False s' \<le> sc_MaxPerCaller c" if "sc_MaxPerCaller c > 0" "caller_ok x" for x
      using caller [OF that(1)] order_trans [OF other [of "\<lambda>q _. q = x" False]] inv that by (cases "x = p") (auto simp: caps_def)
    moreover have "places (\<lambda>q v. q = x \<and> v = y) True s' \<le> sc_MaxPerOwner c" if "sc_MaxPerOwner c > 0" "caller_ok x" "y \<noteq> []" for x y
      using owner [OF _ that(1)] order_trans [OF other [of "\<lambda>q v. q = x \<and> v = y" True]] inv that by (cases "x = p \<and> y = owner") (auto simp: caps_def)
    ultimately show ?thesis using all by (simp add: caps_def)
  qed
qed

lemma caps_step:
  assumes inv: "caps c s" and step: "tab_do c ev s = Some s'"
    and calm: "\<And>p owner evict. ev = EReserve p owner evict \<Longrightarrow> calm p owner s"
  shows "caps c s'"
proof (cases "\<exists>p owner evict. ev = EReserve p owner evict")
  case True
  with caps_reserve [OF inv calm] step show ?thesis by blast
next
  case False
  have ok: "opens_ok s" "single s" using inv by (simp_all add: caps_def)
  have "opens_ok s' \<and> single s' \<and> places S quiet s' \<le> places S quiet s" for S quiet
  proof (cases ev)
    case (EReplaced j)
    with do_replaced [of c j s s' S quiet] step ok show ?thesis by blast
  next
    case (EKept j)
    with do_kept [of c j s s' S quiet] step ok show ?thesis by blast
  next
    case (EGiveUp j)
    with do_giveup [of c j s s' S quiet] step ok show ?thesis by blast
  next
    case (EUnreserve j)
    with do_unreserve [of c j s s' S quiet] step ok show ?thesis by blast
  next
    case (EAdd j i)
    with do_add [of c j i s s' S quiet] step ok show ?thesis by blast
  next
    case (ERemove i)
    with do_remove [of c i s s' S quiet] step ok show ?thesis by blast
  qed (use False do_session [OF step ok(1), of S quiet] ok in auto)
  with caps_smaller [OF inv] show ?thesis by blast
qed

text \<open>A run in which no reservation falls into that window.\<close>

fun calm_run :: "session_config \<Rightarrow> tev list \<Rightarrow> tstate \<Rightarrow> bool" where
  "calm_run c [] s = True"
| "calm_run c (ev # evs) s =
     ((case ev of EReserve p owner evict \<Rightarrow> calm p owner s | _ \<Rightarrow> True) \<and>
      (case tab_do c ev s of None \<Rightarrow> True | Some s' \<Rightarrow> calm_run c evs s'))"

lemma caps_run: "caps c s \<Longrightarrow> calm_run c evs s \<Longrightarrow> tab_run c evs s = Some s' \<Longrightarrow> caps c s'"
proof (induction evs arbitrary: s)
  case (Cons ev evs)
  from Cons.prems(3) obtain u where u: "tab_do c ev s = Some u" "tab_run c evs u = Some s'" by (auto split: option.splits)
  have "caps c u" using Cons.prems(2) by (intro caps_step [OF Cons.prems(1) u(1)]) simp
  with Cons.IH [OF _ _ u(2)] Cons.prems(2) u(1) show ?case by simp
qed simp

lemma caps_empty:
  assumes "0 \<le> sc_MaxSessions c"
  shows "caps c empty_table"
proof -
  have "places S quiet empty_table = 0" for S quiet by (simp add: places_def load_def sessions_def empty_table_def)
  with assms show ?thesis by (simp add: caps_def opens_ok_def single_def table_ok_def empty_table_def)
qed

text \<open>Sessions that are open, and opens that may still become one.\<close>

definition under_way :: "(string \<Rightarrow> string \<Rightarrow> bool) \<Rightarrow> tstate \<Rightarrow> int" where
  "under_way S s = int (length (filter (\<lambda>o'. S (op_principal o') (op_owner o') \<and> op_phase o' = OpReserved) (ts_opens s)))"

lemma under_way_load: "under_way S s \<le> load S s"
proof -
  have "under_way S s = sum_list (map (\<lambda>o'. of_bool (S (op_principal o') (op_owner o') \<and> op_phase o' = OpReserved)) (ts_opens s))"
    by (simp add: under_way_def count_filter)
  also have "\<dots> \<le> load S s" unfolding load_def by (intro sum_list_mono_all ballI) (simp add: weight_def)
  finally show ?thesis .
qed

subsection \<open>Properties\<close>


text \<open>C25: The session caps hold outside one window. Whatever order opens, their refusals and closes,
  calls and ends run in, if no open reserves while another open of the same owner has given back
  the session it took and not yet its place, then open sessions and opens under way together never
  exceed the daemon's cap, nor any caller's, nor any owner's.\<close>

theorem caps_hold_outside_window:
  assumes "tab_run c evs empty_table = Some s" and "calm_run c evs empty_table" and "0 \<le> sc_MaxSessions c"
  shows "openLocked '''' (ts_table s) + under_way (\<lambda>_ _. True) s \<le> sc_MaxSessions c \<and>
    (sc_MaxPerCaller c > 0 \<longrightarrow> (\<forall>p. caller_ok p \<longrightarrow>
      openLocked p (ts_table s) + under_way (\<lambda>q _. q = p) s \<le> sc_MaxPerCaller c)) \<and>
    (sc_MaxPerOwner c > 0 \<longrightarrow> (\<forall>p w. caller_ok p \<longrightarrow> w \<noteq> '''' \<longrightarrow>
      int (length (held_by p w (ts_table s))) + under_way (\<lambda>q v. q = p \<and> v = w) s \<le> sc_MaxPerOwner c))"
proof -
  have inv: "caps c s" using caps_run [OF caps_empty [OF assms(3)] assms(2,1)] .
  then have ok: "table_ok (ts_table s)" by (simp add: caps_def opens_ok_def)
  have "chosen (\<lambda>_ _. True) False = (\<lambda>e. ([] = [] \<or> te_principal e = []) \<and> live e)" by (auto simp: chosen_def)
  then have "openLocked '''' (ts_table s) = int (card (sessions (chosen (\<lambda>_ _. True) False) (ts_table s)))"
    using openLocked_card [OF ok, of "[]"] by simp
  with inv under_way_load [of "\<lambda>_ _. True" s] have a: "openLocked '''' (ts_table s) + under_way (\<lambda>_ _. True) s \<le> sc_MaxSessions c"
    by (simp add: caps_def places_def)
  have b: "openLocked p (ts_table s) + under_way (\<lambda>q _. q = p) s \<le> sc_MaxPerCaller c" if "sc_MaxPerCaller c > 0" "caller_ok p" for p
  proof -
    have "chosen (\<lambda>q _. q = p) False = (\<lambda>e. (p = [] \<or> te_principal e = p) \<and> live e)" using that(2) by (auto simp: chosen_def caller_ok_def)
    with openLocked_card [OF ok, of p] have "openLocked p (ts_table s) = int (card (sessions (chosen (\<lambda>q _. q = p) False) (ts_table s)))" by simp
    moreover have "places (\<lambda>q _. q = p) False s \<le> sc_MaxPerCaller c" using inv that by (simp add: caps_def)
    ultimately show ?thesis using under_way_load [of "\<lambda>q _. q = p" s] by (simp add: places_def)
  qed
  have "int (length (held_by p w (ts_table s))) + under_way (\<lambda>q v. q = p \<and> v = w) s \<le> sc_MaxPerOwner c"
    if "sc_MaxPerOwner c > 0" "caller_ok p" "w \<noteq> ''''" for p w
  proof -
    have "chosen (\<lambda>q v. q = p \<and> v = w) True = owned p w" by (auto simp: chosen_def owned_def fun_eq_iff)
    with held_card [OF ok, of p w] have "length (held_by p w (ts_table s)) = card (sessions (chosen (\<lambda>q v. q = p \<and> v = w) True) (ts_table s))" by simp
    moreover have "places (\<lambda>q v. q = p \<and> v = w) True s \<le> sc_MaxPerOwner c" using inv that by (simp add: caps_def)
    ultimately show ?thesis using under_way_load [of "\<lambda>q v. q = p \<and> v = w" s] by (simp add: places_def)
  qed
  with a b show ?thesis by blast
qed

subsection \<open>Inside the window\<close>

definition demo_config :: session_config where
  "demo_config = \<lparr>sc_MaxSessions = 3, sc_MaxPerCaller = 0, sc_MaxPerOwner = 2\<rparr>"

text \<open>Three sessions, the cap: two of owner A and one of another caller. An open of A takes A's
  older session and is refused; before it gives its place back, a second open of A counts one too
  many and takes both of A's sessions; the other caller fills the place that freed; the second
  open is refused too and gives both back.\<close>

definition window_run :: "tev list" where
  "window_run =
    [EReserve ''x'' ''A'' True, EAdd 0 ''a1'', EReserve ''x'' ''A'' True, EAdd 1 ''a2'', EReserve ''y'' '''' True, EAdd 2 ''b1'',
     EReserve ''x'' ''A'' True, EGiveUp 3, EReserve ''x'' ''A'' True, EUnreserve 3,
     EReserve ''y'' '''' True, EAdd 5 ''c1'', EGiveUp 4, EUnreserve 4]"

text \<open>Inside that window the caps do not hold: a run with a cap of three sessions that ends with
  four sessions open and no open under way, since giving back a taken session and giving back the
  place are two critical sections.\<close>

theorem window_exceeds_cap:
  "\<exists>s. tab_run demo_config window_run empty_table = Some s \<and> openLocked '''' (ts_table s) = 4 \<and> tb_opening (ts_table s) = 0 \<and>
     sc_MaxSessions demo_config = 3"
proof -
  have "map_option (\<lambda>s. (openLocked '''' (ts_table s), tb_opening (ts_table s))) (tab_run demo_config window_run empty_table) = Some (4, 0)"
    by code_simp
  then show ?thesis by (auto simp: demo_config_def)
qed

theorem caps_hold_outside_window_witness:
  "\<exists>s. tab_run demo_config (take 8 window_run) empty_table = Some s \<and>
     openLocked '''' (ts_table s) + under_way (\<lambda>_ _. True) s \<le> 3"
proof -
  have c: "calm_run demo_config (take 8 window_run) empty_table" by code_simp
  have "tab_run demo_config (take 8 window_run) empty_table \<noteq> None" by code_simp
  then obtain s where s: "tab_run demo_config (take 8 window_run) empty_table = Some s" by blast
  have m: "sc_MaxSessions demo_config = 3" by (simp add: demo_config_def)
  with caps_hold_outside_window [OF s c] s show ?thesis by auto
qed



end
