(* ===== verification/Wire_Answers.thy ===== *)
theory Wire_Answers
  imports Requests
begin

text \<open>
  What an answer says about a call, across the wire: the daemon's Connect errors with their
  not-dispatched and session-end details (\<open>internal/rpc/refuse.go\<close>, \<open>mapSandboxErr\<close> in
  \<open>internal/rpc/sandbox_service.go\<close>, \<open>internal/wireenum\<close>), the binding of an answer to its request
  (\<open>internal/rpc/answer.go\<close>), and the client that reads both back (\<open>client/answer.go\<close>,
  \<open>restoreSandboxError\<close> in \<open>client/client.go\<close>). Texts are not modelled, except the detail of a
  session's end. Putting a detail on an error (\<open>connect.NewErrorDetail\<close>) succeeds: it fails only
  for a message that cannot be marshalled, and these hold enumerations and repaired strings.
\<close>

subsection \<open>Wire enumerations\<close>

text \<open>An enumeration value is its number in \<open>sandbox.proto\<close>; 0 is unspecified.\<close>

definition sessionEnds :: "(session_end \<times> nat) list" where
  "sessionEnds = [(SessionClosed, 1), (SessionExpired, 2), (SessionDiskExceeded, 3), (SessionMainProcessEnded, 4),
     (SessionBoundaryFailed, 5), (SessionSandboxChanged, 6), (SessionShutdown, 7), (SessionReplaced, 8),
     (SessionNotFound, 9), (SessionUnclaimed, 10)]"

definition refusals :: "(refusal \<times> nat) list" where
  "refusals = [(RefusalRequest, 1), (RefusalPermission, 2), (RefusalProtocol, 3), (RefusalUnsupported, 4),
     (RefusalIsolation, 5), (RefusalCapacity, 6), (RefusalEnvironment, 7)]"

definition SessionEndToWire :: "session_end \<Rightarrow> nat" where
  "SessionEndToWire e = lookup0 sessionEnds e"

definition SessionEndFromWire :: "nat \<Rightarrow> session_end" where
  "SessionEndFromWire w =
     (if w = 0 then SessionOpen
      else case find (\<lambda>e. snd e = w) sessionEnds of Some e \<Rightarrow> fst e | None \<Rightarrow> SessionUnknown)"

definition RefusalToWire :: "refusal \<Rightarrow> nat" where
  "RefusalToWire r = lookup0 refusals r"

definition RefusalFromWire :: "nat \<Rightarrow> refusal" where
  "RefusalFromWire w = (case find (\<lambda>e. snd e = w) refusals of Some e \<Rightarrow> fst e | None \<Rightarrow> RefusalUnknown)"

subsection \<open>The daemon's errors\<close>

datatype connect_code =
    CodeCanceled | CodeInvalidArgument | CodeDeadlineExceeded | CodeNotFound | CodePermissionDenied
  | CodeResourceExhausted | CodeFailedPrecondition | CodeUnimplemented | CodeInternal | CodeUnavailable
  | CodeDataLoss | CodeUnauthenticated

datatype wire_detail = SessionEndedDetail nat string | NotDispatchedDetail nat | OtherDetail

record connect_error =
  ce_Code :: connect_code
  ce_Details :: "wire_detail list"
  ce_Err :: goerr

definition withNotDispatched :: "connect_error \<Rightarrow> refusal \<Rightarrow> connect_error" where
  "withNotDispatched ce reason = ce\<lparr>ce_Details := ce_Details ce @ [NotDispatchedDetail (RefusalToWire reason)]\<rparr>"

definition refuse :: "connect_code \<Rightarrow> refusal \<Rightarrow> goerr \<Rightarrow> connect_error" where
  "refuse code reason err = withNotDispatched \<lparr>ce_Code = code, ce_Details = [], ce_Err = err\<rparr> reason"

text \<open>\<open>errors.As\<close> on \<open>*SessionEndedError\<close>.\<close>

fun as_ended :: "goerr \<Rightarrow> ended option"
  and as_ended_list :: "goerr list \<Rightarrow> ended option" where
  "as_ended (Sentinel s) = None"
| "as_ended (Opaque n) = None"
| "as_ended (EndedErr e) = Some e"
| "as_ended (Wrap es) = as_ended_list es"
| "as_ended (NotDispatchedError r e) = as_ended e"
| "as_ended (PrivateError e) = as_ended e"
| "as_ended_list [] = None"
| "as_ended_list (e # es) = (case as_ended e of Some x \<Rightarrow> Some x | None \<Rightarrow> as_ended_list es)"

definition SessionEndReason :: "goerr option \<Rightarrow> session_end" where
  "SessionEndReason err = (case err of None \<Rightarrow> SessionOpen
     | Some e \<Rightarrow> (case as_ended e of Some se \<Rightarrow> ee_Reason se | None \<Rightarrow> SessionOpen))"

definition sandboxErrCode :: "goerr \<Rightarrow> connect_code" where
  "sandboxErrCode err =
     (if err_is err Canceled then CodeCanceled
      else if err_is err DeadlineExceeded then CodeDeadlineExceeded
      else if err_is err ErrDisabled \<or> err_is err ErrInsufficientIsolation \<or> err_is err ErrSoftwareMismatch \<or> err_is err ErrSessionEnded
        then CodeFailedPrecondition
      else if err_is err ErrGrantNotForSessions then CodePermissionDenied
      else if err_is err ErrUnsupported then CodeUnimplemented
      else if err_is err ErrAtCapacity then CodeResourceExhausted
      else if err_is err ErrInvalidRequest then CodeInvalidArgument
      else CodeInternal)"

definition isInfraErr :: "goerr option \<Rightarrow> bool" where
  "isInfraErr err =
     (let end' = SessionEndReason err
      in if end' \<noteq> SessionOpen then end' = SessionBoundaryFailed \<or> end' = SessionSandboxChanged
         else (case err of None \<Rightarrow> False
           | Some e \<Rightarrow> \<not> list_ex (err_is e) [ErrUnsupported, ErrDisabled, ErrAtCapacity, ErrInvalidRequest,
               ErrInsufficientIsolation, ErrSoftwareMismatch, Canceled, DeadlineExceeded]))"

text \<open>\<open>strings.ToValidUTF8\<close>: a run of bytes that are no UTF-8 becomes one U+FFFD.\<close>

fun repair_runes :: "bool \<Rightarrow> string list \<Rightarrow> string" where
  "repair_runes bad [] = []"
| "repair_runes bad (r # rs) =
     (if valid_rune r then r @ repair_runes False rs
      else (if bad then [] else map char_of [0xEF, 0xBF, 0xBD :: nat]) @ repair_runes True rs)"

definition wireString :: "string \<Rightarrow> string" where
  "wireString s = repair_runes False (runes s)"

text \<open>What a caller is told of an end; \<open>eid\<close> is the fresh ID its hidden detail is logged under.\<close>

definition publicEndDetail :: "string \<Rightarrow> ended \<Rightarrow> string" where
  "publicEndDetail eid se =
     (if ee_Public se \<or> ee_Detail se = '''' then ee_Detail se
      else ''the daemon's log holds its detail (error '' @ eid @ '')'')"

definition mapSandboxErr :: "string \<Rightarrow> goerr \<Rightarrow> connect_error" where
  "mapSandboxErr eid err =
     (let ce = \<lparr>ce_Code = sandboxErrCode err,
                ce_Details = (case as_ended err of None \<Rightarrow> []
                  | Some se \<Rightarrow> [SessionEndedDetail (SessionEndToWire (ee_Reason se)) (wireString (publicEndDetail eid se))]),
                ce_Err = err\<rparr>
      in case as_not_dispatched err of None \<Rightarrow> ce | Some reason \<Rightarrow> withNotDispatched ce reason)"

text \<open>The first not-dispatched detail, as \<open>notDispatchedOf\<close> and the client's \<open>notDispatchedDetail\<close> look for it.\<close>

fun detail_mark :: "wire_detail list \<Rightarrow> nat option" where
  "detail_mark [] = None"
| "detail_mark (NotDispatchedDetail w # ds) = Some w"
| "detail_mark (d # ds) = detail_mark ds"

definition notDispatchedOf :: "connect_error \<Rightarrow> nat option" where
  "notDispatchedOf ce = detail_mark (ce_Details ce)"

definition errSessionNotFound :: connect_error where
  "errSessionNotFound = (let ce = refuse CodeNotFound RefusalRequest (Opaque 0)
     in ce\<lparr>ce_Details := ce_Details ce @ [SessionEndedDetail 9 ''no such session for this caller'']\<rparr>)"

subsection \<open>The client's reading of an error\<close>

definition notDispatchedDetail :: "connect_error \<Rightarrow> refusal option" where
  "notDispatchedDetail ce = map_option RefusalFromWire (detail_mark (ce_Details ce))"

fun ended_in :: "wire_detail list \<Rightarrow> ended option" where
  "ended_in [] = None"
| "ended_in (SessionEndedDetail w detail # ds) =
     (let reason = SessionEndFromWire w
      in Some \<lparr>ee_Reason = (if reason = SessionOpen then SessionUnknown else reason), ee_Detail = detail, ee_Public = False\<rparr>)"
| "ended_in (d # ds) = ended_in ds"

definition sessionEndedDetail :: "connect_error \<Rightarrow> ended option" where
  "sessionEndedDetail ce = ended_in (ce_Details ce)"

text \<open>The sentinel a Connect error stands for, given its mark and its session end.\<close>

definition restored_sentinel :: "connect_code \<Rightarrow> refusal option \<Rightarrow> ended option \<Rightarrow> goerr option" where
  "restored_sentinel code mark end' =
     (let reason = (case mark of None \<Rightarrow> RefusalUnknown | Some r \<Rightarrow> r); sentinel = map_option EndedErr end'
      in case code of
        CodeCanceled \<Rightarrow> Some (Sentinel Canceled)
      | CodeDeadlineExceeded \<Rightarrow> Some (Sentinel DeadlineExceeded)
      | CodeFailedPrecondition \<Rightarrow>
          (if sentinel \<noteq> None then sentinel
           else if reason = RefusalIsolation then Some (Sentinel ErrInsufficientIsolation)
           else if reason = RefusalEnvironment then Some (Sentinel ErrSoftwareMismatch)
           else Some (Sentinel ErrDisabled))
      | CodeUnimplemented \<Rightarrow> Some (Sentinel (if reason = RefusalProtocol then ErrProtocolMismatch else ErrUnsupported))
      | CodeResourceExhausted \<Rightarrow>
          (if mark = Some RefusalCapacity then Some (Sentinel ErrAtCapacity)
           else if mark = Some RefusalRequest then Some (Sentinel ErrInvalidRequest) else sentinel)
      | CodeInvalidArgument \<Rightarrow> Some (Sentinel ErrInvalidRequest)
      | _ \<Rightarrow> sentinel)"

text \<open>\<open>errors.Is(err, sentinel)\<close> for an end decoded here is false: it is a new object.\<close>

definition restoreSandboxError :: "connect_error \<Rightarrow> goerr" where
  "restoreSandboxError ce =
     (let mark = notDispatchedDetail ce;
          err = (case restored_sentinel (ce_Code ce) mark (sessionEndedDetail ce) of
                   None \<Rightarrow> ce_Err ce
                 | Some (Sentinel s) \<Rightarrow> if err_is (ce_Err ce) s then ce_Err ce else Wrap [Sentinel s, ce_Err ce]
                 | Some e \<Rightarrow> Wrap [e, ce_Err ce])
      in case mark of None \<Rightarrow> err | Some reason \<Rightarrow> NotDispatchedError reason err)"

subsection \<open>Answers bound to requests\<close>

definition validRequestID :: "string \<Rightarrow> bool" where
  "validRequestID s \<longleftrightarrow> length s = 32 \<and> list_all (\<lambda>c. is_digit c \<or> CHR ''a'' \<le> c \<and> c \<le> CHR ''f'') s"

text \<open>\<open>BindAnswers\<close> over one request: the echo it puts on the answer, whether the handler was reached
  (\<open>HandlerReached\<close>), and what has been sent: the status, with the mark in the header if any.\<close>

record answer_writer =
  aw_echo :: "string list"
  aw_reached :: bool
  aw_sent :: "(nat \<times> string option) option"

definition BindAnswers :: "string list \<Rightarrow> answer_writer" where
  "BindAnswers ids = \<lparr>aw_echo = (case ids of [i] \<Rightarrow> if validRequestID i then [i] else [] | _ \<Rightarrow> []), aw_reached = False, aw_sent = None\<rparr>"

definition HandlerReached :: "answer_writer \<Rightarrow> answer_writer" where
  "HandlerReached a = a\<lparr>aw_reached := True\<rparr>"

definition WriteHeader :: "nat \<Rightarrow> answer_writer \<Rightarrow> answer_writer" where
  "WriteHeader status a =
     (if aw_sent a \<noteq> None \<or> status < 200 then a
      else a\<lparr>aw_sent := Some (status,
             if status \<ge> 300 \<and> \<not> aw_reached a
             then Some (refusal_string (if status = 404 then RefusalUnsupported else RefusalRequest)) else None)\<rparr>)"

definition answer_Write :: "answer_writer \<Rightarrow> answer_writer" where
  "answer_Write a = (if aw_sent a = None then WriteHeader 200 a else a)"

definition answer_Flush :: "answer_writer \<Rightarrow> answer_writer" where
  "answer_Flush a = (if aw_sent a = None then WriteHeader 200 a else a)"

datatype aevent = AReached | AHeader nat | AWrite | AFlush

fun answer_event :: "aevent \<Rightarrow> answer_writer \<Rightarrow> answer_writer" where
  "answer_event AReached = HandlerReached"
| "answer_event (AHeader status) = WriteHeader status"
| "answer_event AWrite = answer_Write"
| "answer_event AFlush = answer_Flush"

subsection \<open>The client's exchange\<close>

record client_exchange =
  ex_id :: string
  ex_answered :: bool
  ex_unsent :: bool
  ex_echo :: "string list"
  ex_mark :: string

text \<open>One HTTP exchange as \<open>bindingHTTPClient\<close> sees it: an answer with its echo and mark headers, or
  none, with what is known of the failure: whether its error says it failed before sending, and
  whether a connection was sought and headers were written in any attempt.\<close>

datatype http_outcome = HttpAnswer "string list" string | HttpFailed bool bool bool

definition new_exchange :: "string \<Rightarrow> client_exchange" where
  "new_exchange i = \<lparr>ex_id = i, ex_answered = False, ex_unsent = False, ex_echo = [], ex_mark = ''''\<rparr>"

definition exchange_Do :: "http_outcome \<Rightarrow> client_exchange \<Rightarrow> client_exchange" where
  "exchange_Do out ex = (case out of
     HttpAnswer echo mark \<Rightarrow> ex\<lparr>ex_answered := True, ex_echo := echo, ex_mark := mark\<rparr>
   | HttpFailed before dialed wrote \<Rightarrow> ex\<lparr>ex_unsent := before \<and> dialed \<and> \<not> wrote\<rparr>)"

definition refusalWireByName :: "string \<Rightarrow> nat option" where
  "refusalWireByName name = map_option snd (find (\<lambda>e. refusal_string (fst e) = name) refusals)"

definition unbound_error :: "connect_code \<Rightarrow> connect_error" where
  "unbound_error code = \<lparr>ce_Code = code, ce_Details = [], ce_Err = Sentinel ErrAnswerNotBound\<rparr>"

definition add_mark :: "string \<Rightarrow> connect_error \<Rightarrow> connect_error" where
  "add_mark mark ce =
     (if mark \<noteq> '''' \<and> notDispatchedDetail ce = None
      then (case refusalWireByName mark of None \<Rightarrow> ce
              | Some w \<Rightarrow> ce\<lparr>ce_Details := ce_Details ce @ [NotDispatchedDetail w]\<rparr>)
      else ce)"

definition settle_answer :: "client_exchange \<Rightarrow> connect_error + 'r \<Rightarrow> connect_error + 'r" where
  "settle_answer ex res =
     (let bound = ex_echo ex = [ex_id ex]
      in case res of
           Inr r \<Rightarrow> if \<not> ex_answered ex \<or> \<not> bound then Inl (unbound_error CodeDataLoss) else Inr r
         | Inl ce \<Rightarrow>
             (if \<not> ex_answered ex then
                (if \<not> ex_unsent ex then Inl ce else Inl (add_mark (refusal_string RefusalEnvironment) ce))
              else if \<not> bound then Inl (unbound_error (ce_Code ce))
              else Inl (add_mark (ex_mark ex) ce)))"

subsection \<open>Errors across the wire\<close>

lemma refusal_wire [simp]: "RefusalFromWire (RefusalToWire r) = r"
  by (cases r) (simp_all add: RefusalFromWire_def RefusalToWire_def refusals_def lookup0_def)

lemma end_wire: "SessionEndFromWire (SessionEndToWire e) = (if e = SessionUnknown then SessionOpen else e)"
  by (cases e) (simp_all add: SessionEndFromWire_def SessionEndToWire_def sessionEnds_def lookup0_def)

lemma as_ended_is: "as_ended e = Some x \<Longrightarrow> err_is e ErrSessionEnded"
  and as_ended_list_is: "as_ended_list es = Some x \<Longrightarrow> list_ex (\<lambda>e. err_is e ErrSessionEnded) es"
  by (induction e and es rule: as_ended_as_ended_list.induct) (auto split: option.splits)

text \<open>What is left of the daemon's error on the client: code and details, no chain.\<close>

definition on_wire :: "nat \<Rightarrow> connect_error \<Rightarrow> connect_error" where
  "on_wire n ce = ce\<lparr>ce_Err := Opaque n\<rparr>"

lemma mapped_details:
  "notDispatchedDetail (on_wire n (mapSandboxErr eid err)) = as_not_dispatched err"
  "sessionEndedDetail (on_wire n (mapSandboxErr eid err)) = map_option (\<lambda>se.
     \<lparr>ee_Reason = (if ee_Reason se \<in> {SessionOpen, SessionUnknown} then SessionUnknown else ee_Reason se),
      ee_Detail = wireString (publicEndDetail eid se), ee_Public = False\<rparr>) (as_ended err)"
  by (auto simp: mapSandboxErr_def on_wire_def withNotDispatched_def notDispatchedDetail_def sessionEndedDetail_def end_wire Let_def
      split: option.splits)

lemma mapped_code [simp]: "ce_Code (on_wire n (mapSandboxErr eid err)) = sandboxErrCode err"
    "ce_Err (on_wire n ce) = Opaque n"
  by (simp_all add: on_wire_def mapSandboxErr_def withNotDispatched_def Let_def split: option.splits)

lemma ended_code:
  "as_ended err = Some se \<Longrightarrow> \<not> err_is err Canceled \<Longrightarrow> \<not> err_is err DeadlineExceeded \<Longrightarrow> sandboxErrCode err = CodeFailedPrecondition"
  using as_ended_is by (simp add: sandboxErrCode_def)

lemma restored_unmarked:
  "notDispatchedDetail ce = None \<Longrightarrow> ce_Err ce = Opaque n \<Longrightarrow> as_not_dispatched (restoreSandboxError ce) = None"
  by (auto simp: restoreSandboxError_def restored_sentinel_def Let_def split: option.splits goerr.splits connect_code.splits if_splits)

lemma restored_marked:
  "notDispatchedDetail ce = Some r \<Longrightarrow> as_not_dispatched (restoreSandboxError ce) = Some r"
  by (simp add: restoreSandboxError_def Let_def)

lemma restored_mark:
  "ce_Err ce = Opaque n \<Longrightarrow> as_not_dispatched (restoreSandboxError ce) = notDispatchedDetail ce"
  using restored_unmarked restored_marked by (cases "notDispatchedDetail ce") auto

lemma restored_ended:
  assumes "ce_Code ce = CodeFailedPrecondition" "sessionEndedDetail ce = Some e"
  shows "as_ended (restoreSandboxError ce) = Some e"
  using assms by (simp add: restoreSandboxError_def restored_sentinel_def Let_def split: option.splits)

text \<open>An error that is also the end of a context arrives as that, whatever else it says.\<close>

lemma restored_context:
  assumes "ce_Code ce = CodeCanceled \<or> ce_Code ce = CodeDeadlineExceeded" "ce_Err ce = Opaque n"
  shows "as_ended (restoreSandboxError ce) = None"
proof -
  from assms(1) obtain c where "restored_sentinel (ce_Code ce) (notDispatchedDetail ce) (sessionEndedDetail ce) = Some (Sentinel c)"
    by (auto simp: restored_sentinel_def)
  then show ?thesis using assms(2) by (cases "notDispatchedDetail ce") (simp_all add: restoreSandboxError_def Let_def)
qed

definition refusal_of :: "sentinel \<Rightarrow> refusal" where
  "refusal_of s = (if s = ErrInvalidRequest then RefusalRequest else if s = ErrUnsupported \<or> s = ErrDisabled then RefusalUnsupported
     else if s = ErrInsufficientIsolation then RefusalIsolation else if s = ErrAtCapacity then RefusalCapacity else RefusalEnvironment)"

lemma refused_single:
  assumes "refused (Some e) = Some err" "\<And>t. err_is e t \<longleftrightarrow> t = s" "s \<in> pre_dispatch"
  shows "as_not_dispatched err = Some (refusal_of s)" "\<And>t. err_is err t \<longleftrightarrow> t = s"
proof -
  have "refused (Some e) = Some (NotDispatchedError (refusal_of s) e)"
    using assms(3) unfolding pre_dispatch_def
    by (elim insertE emptyE) (simp_all add: refused_def not_dispatched_def assms(2) refusal_of_def)
  with assms(1) have "err = NotDispatchedError (refusal_of s) e" by simp
  then show "as_not_dispatched err = Some (refusal_of s)" "\<And>t. err_is err t \<longleftrightarrow> t = s" by (simp_all add: assms(2))
qed

lemma restored_single:
  assumes "refused (Some e) = Some err" "\<And>t. err_is e t \<longleftrightarrow> t = s" "s \<in> pre_dispatch"
  shows "err_is (restoreSandboxError (on_wire n (mapSandboxErr eid err))) t \<longleftrightarrow> t = s"
proof -
  note f = refused_single [OF assms]
  have "\<not> err_is err ErrSessionEnded" using f(2) assms(3) by (auto simp: pre_dispatch_def)
  then have "as_ended err = None" using as_ended_is [of err] by (cases "as_ended err") auto
  then have e: "sessionEndedDetail (on_wire n (mapSandboxErr eid err)) = None" by (simp add: mapped_details(2))
  have c: "restoreSandboxError (on_wire n (mapSandboxErr eid err)) = NotDispatchedError x (Wrap [Sentinel s, Opaque n])"
    if "as_not_dispatched err = Some x" "restored_sentinel (sandboxErrCode err) (Some x) None = Some (Sentinel s)" for x
    by (simp add: restoreSandboxError_def mapped_details(1) e that)
  have "sandboxErrCode err = (if s \<in> {ErrDisabled, ErrInsufficientIsolation, ErrSoftwareMismatch} then CodeFailedPrecondition
      else if s = ErrUnsupported then CodeUnimplemented else if s = ErrAtCapacity then CodeResourceExhausted else CodeInvalidArgument)"
    using assms(3) by (auto simp: sandboxErrCode_def f(2) pre_dispatch_def)
  then have "restored_sentinel (sandboxErrCode err) (as_not_dispatched err) None = Some (Sentinel s)"
    using assms(3) unfolding pre_dispatch_def f(1) restored_sentinel_def Let_def
    by (elim insertE emptyE) (simp_all add: refusal_of_def)
  with c f(1) have "restoreSandboxError (on_wire n (mapSandboxErr eid err)) = NotDispatchedError (the (as_not_dispatched err)) (Wrap [Sentinel s, Opaque n])"
    by simp
  then show ?thesis by auto
qed

text \<open>C26: The client's error says what the daemon's said. The not-dispatched mark and its reason
  arrive exactly as the provider gave them, an unmarked error never arrives marked. The end of a
  session arrives with its reason, never as a session still open, unless the error is also a cancelled
  or expired context: that one arrives as the context's error, with no end of a session in it. And an
  error that a pre-dispatch check raised for one sentinel is, for the caller of the client, an
  error of exactly that sentinel.\<close>

theorem errors_cross_the_wire:
  assumes "r = restoreSandboxError (on_wire n (mapSandboxErr eid err))"
  shows "not_dispatched_reason (Some r) = not_dispatched_reason (Some err) \<and>
    (\<forall>se. as_ended err = Some se \<longrightarrow> SessionEndReason (Some r) =
       (if err_is err Canceled \<or> err_is err DeadlineExceeded then SessionOpen
        else if ee_Reason se = SessionOpen then SessionUnknown else ee_Reason se)) \<and>
    (\<forall>e s. refused (Some e) = Some err \<and> s \<in> pre_dispatch \<and> (\<forall>t. err_is e t \<longleftrightarrow> t = s) \<longrightarrow> (\<forall>t. err_is r t \<longleftrightarrow> t = s))"
proof (intro conjI allI impI)
  have "as_not_dispatched r = as_not_dispatched err" by (simp add: assms restored_mark [of _ n] mapped_details)
  then show "not_dispatched_reason (Some r) = not_dispatched_reason (Some err)" by (simp add: not_dispatched_reason_def)
next
  fix se assume e: "as_ended err = Some se"
  show "SessionEndReason (Some r) = (if err_is err Canceled \<or> err_is err DeadlineExceeded then SessionOpen
      else if ee_Reason se = SessionOpen then SessionUnknown else ee_Reason se)"
  proof (cases "err_is err Canceled \<or> err_is err DeadlineExceeded")
    case True
    then have "sandboxErrCode err = CodeCanceled \<or> sandboxErrCode err = CodeDeadlineExceeded" by (auto simp: sandboxErrCode_def)
    then show ?thesis
      using True restored_context [of "on_wire n (mapSandboxErr eid err)" n] by (auto simp: assms mapped_details SessionEndReason_def)
  next
    case False
    then show ?thesis
      using restored_ended [of "on_wire n (mapSandboxErr eid err)"] ended_code [OF e] e
      by (simp add: assms mapped_details SessionEndReason_def)
  qed
next
  fix e s t assume "refused (Some e) = Some err \<and> s \<in> pre_dispatch \<and> (\<forall>t. err_is e t \<longleftrightarrow> t = s)"
  then show "err_is r t \<longleftrightarrow> t = s" using restored_single [of e err s n eid t] assms by blast
qed

subsection \<open>Which answer a client believes\<close>

text \<open>A request the daemon served: the ID header it came with, what its answer went through, how
  the handler or a check before it answered, and whether any of its code may have run.\<close>

datatype handler_answer = Answered | Failed string goerr | RefusedBy connect_code refusal goerr

record served =
  sv_ids :: "string list"
  sv_events :: "aevent list"
  sv_answer :: handler_answer
  sv_ran :: bool

fun body_details :: "handler_answer \<Rightarrow> wire_detail list" where
  "body_details Answered = []"
| "body_details (Failed eid err) = ce_Details (mapSandboxErr eid err)"
| "body_details (RefusedBy code reason err) = ce_Details (refuse code reason err)"

definition sent_answer :: "served \<Rightarrow> answer_writer" where
  "sent_answer sv = fold answer_event (sv_events sv) (BindAnswers (sv_ids sv))"

text \<open>The daemon's side of the contract: code runs only after the handler was reached, with nothing
  of the answer sent; a call that a check refused, or whose provider marked its error, ran nothing.\<close>

definition served_ok :: "served \<Rightarrow> bool" where
  "served_ok sv \<longleftrightarrow> (sv_ran sv \<longrightarrow>
     (\<exists>es es'. sv_events sv = es @ AReached # es' \<and> aw_sent (fold answer_event es (BindAnswers (sv_ids sv))) = None) \<and>
     (case sv_answer sv of Answered \<Rightarrow> True | Failed eid err \<Rightarrow> as_not_dispatched err = None | RefusedBy code reason err \<Rightarrow> False))"

definition sent_mark :: "answer_writer \<Rightarrow> string" where
  "sent_mark a = (case aw_sent a of Some (status, Some m) \<Rightarrow> m | _ \<Rightarrow> '''')"

text \<open>Anything between the client and the daemon may answer a request with the answer of any request
  served, and may drop the headers or the error's details; or there is no answer. A transport that
  reports the connections it seeks reports the headers it writes.\<close>

inductive network :: "served list \<Rightarrow> string \<Rightarrow> http_outcome \<Rightarrow> connect_error \<Rightarrow> bool" for served i where
  net_answer: "\<lbrakk>sv \<in> set served; echo \<in> {aw_echo (sent_answer sv), []}; mark \<in> {sent_mark (sent_answer sv), ''''};
     ce_Details ce \<in> {body_details (sv_answer sv), []}; ce_Err ce = Opaque n\<rbrakk> \<Longrightarrow> network served i (HttpAnswer echo mark) ce"
| net_failed: "\<lbrakk>dialed \<and> (\<exists>sv \<in> set served. sv_ids sv = [i]) \<longrightarrow> wrote; ce_Details ce = []; ce_Err ce = Opaque n\<rbrakk>
     \<Longrightarrow> network served i (HttpFailed before dialed wrote) ce"

lemma answer_event_echo [simp]: "aw_echo (answer_event e a) = aw_echo a"
  by (cases e) (auto simp: HandlerReached_def WriteHeader_def answer_Write_def answer_Flush_def)

lemma fold_echo [simp]: "aw_echo (fold answer_event es a) = aw_echo a"
  by (induction es arbitrary: a) auto

lemma echo_of_request: "aw_echo (sent_answer sv) = [i] \<Longrightarrow> sv_ids sv = [i]"
  by (auto simp: sent_answer_def BindAnswers_def split: list.splits if_splits)

lemma answer_event_reached: "aw_reached a \<Longrightarrow> aw_reached (answer_event e a)"
  by (cases e) (auto simp: HandlerReached_def WriteHeader_def answer_Write_def answer_Flush_def)

lemma reached_unmarked:
  "aw_reached a \<Longrightarrow> sent_mark a = '''' \<Longrightarrow> sent_mark (fold answer_event es a) = ''''"
proof (induction es arbitrary: a)
  case (Cons e es)
  have "sent_mark (answer_event e a) = ''''"
    using Cons.prems by (cases e) (auto simp: HandlerReached_def WriteHeader_def answer_Write_def answer_Flush_def sent_mark_def split: option.splits)
  with Cons show ?case by (simp add: answer_event_reached)
qed simp

lemma ran_unmarked:
  assumes "served_ok sv" "sv_ran sv"
  shows "sent_mark (sent_answer sv) = ''''" "detail_mark (body_details (sv_answer sv)) = None"
proof -
  from assms obtain es es' where e: "sv_events sv = es @ AReached # es'"
      "aw_sent (fold answer_event es (BindAnswers (sv_ids sv))) = None" by (auto simp: served_ok_def)
  have "sent_mark (fold answer_event es' (HandlerReached (fold answer_event es (BindAnswers (sv_ids sv))))) = ''''"
    by (rule reached_unmarked) (simp_all add: HandlerReached_def sent_mark_def e(2))
  then show "sent_mark (sent_answer sv) = ''''" by (simp add: sent_answer_def e(1))
  show "detail_mark (body_details (sv_answer sv)) = None"
    using assms by (cases "sv_answer sv") (auto simp: served_ok_def mapSandboxErr_def Let_def split: option.splits)
qed

lemma add_mark_None: "detail_mark (ce_Details ce) = None \<Longrightarrow> add_mark '''' ce = ce"
  by (simp add: add_mark_def)

lemma settled_mark:
  assumes "settle_answer ex (Inl ce) = Inl ce'" "notDispatchedDetail ce' \<noteq> None" "notDispatchedDetail ce = None \<or> ex_answered ex"
  shows "\<not> ex_answered ex \<and> ex_unsent ex \<or>
    ex_echo ex = [ex_id ex] \<and> (ex_mark ex \<noteq> '''' \<or> notDispatchedDetail ce \<noteq> None)"
  using assms by (auto simp: settle_answer_def Let_def unbound_error_def add_mark_def notDispatchedDetail_def split: if_splits option.splits)

lemma settled_err:
  assumes "settle_answer ex (Inl ce) = Inl ce'" "ce_Err ce = Opaque n"
  shows "as_not_dispatched (restoreSandboxError ce') = notDispatchedDetail ce'"
proof -
  have "ce_Err ce' = Opaque n \<or> ce' = unbound_error (ce_Code ce)"
    using assms by (auto simp: settle_answer_def Let_def add_mark_def split: if_splits option.splits)
  then show ?thesis
  proof
    assume "ce' = unbound_error (ce_Code ce)"
    then show ?thesis
      by (auto simp: unbound_error_def restoreSandboxError_def notDispatchedDetail_def sessionEndedDetail_def restored_sentinel_def Let_def
          split: connect_code.splits)
  qed (rule restored_mark)
qed

text \<open>C27: What a client believes is true. Whatever lies between it and the daemon, answering with
  another request's answer, dropping headers or losing answers: when the error the client returns
  reads that nothing ran, no request with that call's ID ran. The mark comes from the daemon's own
  answer to that request, from a header the daemon wrote before any handler was reached, or from a
  transport that never wrote the request. An ID is sent on one request only.\<close>

theorem believed_mark_is_true:
  assumes "list_all served_ok served" and "\<And>sv sv'. \<lbrakk>sv \<in> set served; sv' \<in> set served; sv_ids sv = [i]; sv_ids sv' = [i]\<rbrakk> \<Longrightarrow> sv = sv'"
    and "network served i out ce" and "settle_answer (exchange_Do out (new_exchange i)) (Inl ce) = Inl ce'"
    and "snd (not_dispatched_reason (Some (restoreSandboxError ce')))"
  shows "\<forall>sv \<in> set served. sv_ids sv = [i] \<longrightarrow> \<not> sv_ran sv"
  using assms(3)
proof cases
  case (net_answer sv echo mark n)
  have "notDispatchedDetail ce' \<noteq> None"
    using settled_err [OF assms(4) net_answer(6)] assms(5) by (auto simp: not_dispatched_reason_def split: option.splits)
  with settled_mark [OF assms(4)] net_answer(1) have b: "echo = [i]" "mark \<noteq> '''' \<or> notDispatchedDetail ce \<noteq> None"
    by (auto simp: exchange_Do_def new_exchange_def)
  with net_answer(3) have own: "sv_ids sv = [i]" by (intro echo_of_request) auto
  have "\<not> sv_ran sv"
    using ran_unmarked [of sv] b(2) net_answer assms(1) by (auto simp: notDispatchedDetail_def list_all_iff)
  with own net_answer(2) assms(2) show ?thesis by blast
next
  case (net_failed dialed wrote n before)
  have "notDispatchedDetail ce' \<noteq> None"
    using settled_err [OF assms(4) net_failed(4)] assms(5) by (auto simp: not_dispatched_reason_def split: option.splits)
  with settled_mark [OF assms(4)] net_failed(1,3) have "dialed \<and> \<not> wrote"
    by (auto simp: exchange_Do_def new_exchange_def notDispatchedDetail_def)
  with net_failed(2) show ?thesis by blast
qed

subsection \<open>One refused call and one that ran\<close>

definition demo_refusal :: goerr where
  "demo_refusal = NotDispatchedError RefusalCapacity (Wrap [Sentinel ErrAtCapacity])"

theorem errors_cross_the_wire_witness:
  "not_dispatched_reason (Some (restoreSandboxError (on_wire 0 (mapSandboxErr ''e1'' demo_refusal)))) = (RefusalCapacity, True) \<and>
   err_is (restoreSandboxError (on_wire 0 (mapSandboxErr ''e1'' demo_refusal))) ErrAtCapacity"
proof -
  note w = errors_cross_the_wire [of "restoreSandboxError (on_wire 0 (mapSandboxErr ''e1'' demo_refusal))" 0 "''e1''" demo_refusal, OF refl]
  have m: "not_dispatched_reason (Some demo_refusal) = (RefusalCapacity, True)"
    by (simp add: demo_refusal_def not_dispatched_reason_def)
  have "refused (Some (Wrap [Sentinel ErrAtCapacity])) = Some demo_refusal \<and> ErrAtCapacity \<in> pre_dispatch \<and>
      (\<forall>t. err_is (Wrap [Sentinel ErrAtCapacity]) t \<longleftrightarrow> t = ErrAtCapacity)"
    by (auto simp: refused_def not_dispatched_def demo_refusal_def pre_dispatch_def)
  then have "\<forall>t. err_is (restoreSandboxError (on_wire 0 (mapSandboxErr ''e1'' demo_refusal))) t \<longleftrightarrow> t = ErrAtCapacity"
    by (rule w [THEN conjunct2, THEN conjunct2, rule_format, THEN allI])
  with w [THEN conjunct1] m show ?thesis by simp
qed

definition demo_ids :: "string list" where
  "demo_ids = [replicate 32 CHR ''a'']"

definition demo_served :: "served list" where
  "demo_served = [\<lparr>sv_ids = demo_ids, sv_events = [AHeader 404, AWrite], sv_answer = Answered, sv_ran = False\<rparr>,
     \<lparr>sv_ids = [replicate 32 CHR ''b''], sv_events = [AReached, AHeader 200, AWrite], sv_answer = Answered, sv_ran = True\<rparr>]"

definition demo_lost :: connect_error where
  "demo_lost = \<lparr>ce_Code = CodeUnimplemented, ce_Details = [], ce_Err = Opaque 0\<rparr>"

lemma demo_sent: "aw_echo (sent_answer (demo_served ! 0)) = demo_ids" "sent_mark (sent_answer (demo_served ! 0)) = ''unsupported''"
  by code_simp+

lemma demo_served_ok: "list_all served_ok demo_served"
proof -
  have "\<exists>es es'. [AReached, AHeader 200, AWrite] = es @ AReached # es' \<and> aw_sent (fold answer_event es (BindAnswers ids)) = None" for ids
    by (rule exI [of _ "[]"]) (simp add: BindAnswers_def)
  then show ?thesis by (simp add: demo_served_def served_ok_def)
qed

theorem believed_mark_is_true_witness:
  "\<exists>ce'. settle_answer (exchange_Do (HttpAnswer demo_ids ''unsupported'') (new_exchange (hd demo_ids))) (Inl demo_lost) = (Inl ce' :: connect_error + unit) \<and>
     not_dispatched_reason (Some (restoreSandboxError ce')) = (RefusalUnsupported, True) \<and>
     (\<forall>sv \<in> set demo_served. sv_ids sv = [hd demo_ids] \<longrightarrow> \<not> sv_ran sv)"
proof -
  let ?ce = "add_mark ''unsupported'' demo_lost"
  have s: "settle_answer (exchange_Do (HttpAnswer demo_ids ''unsupported'') (new_exchange (hd demo_ids))) (Inl demo_lost) = (Inl ?ce :: connect_error + unit)"
    by (simp add: settle_answer_def exchange_Do_def new_exchange_def demo_ids_def)
  have m: "not_dispatched_reason (Some (restoreSandboxError ?ce)) = (RefusalUnsupported, True)" by code_simp
  have n: "network demo_served (hd demo_ids) (HttpAnswer demo_ids ''unsupported'') demo_lost"
    by (rule net_answer [of "demo_served ! 0" _ _ _ _ 0]) (auto simp: demo_sent demo_lost_def, simp add: demo_served_def)
  have "\<And>sv sv'. \<lbrakk>sv \<in> set demo_served; sv' \<in> set demo_served; sv_ids sv = [hd demo_ids]; sv_ids sv' = [hd demo_ids]\<rbrakk> \<Longrightarrow> sv = sv'"
    by (auto simp: demo_served_def demo_ids_def)
  moreover have "snd (not_dispatched_reason (Some (restoreSandboxError ?ce)))" by (simp only: m snd_conv)
  ultimately have "\<forall>sv \<in> set demo_served. sv_ids sv = [hd demo_ids] \<longrightarrow> \<not> sv_ran sv"
    by (rule believed_mark_is_true [OF demo_served_ok _ n s])
  with s m show ?thesis by (intro exI [of _ ?ce] conjI)
qed

end
