(* ===== verification/Http_Edge.thy ===== *)
theory Http_Edge
  imports Wire_Answers Grant
begin

text \<open>
  The daemon's HTTP edge, in front of every procedure: the clients file
  (\<open>internal/clientconfig\<close>, \<open>internal/rpc/clients.go\<close>), authentication and scopes, the cap on the
  body and the decode slots (\<open>internal/rpc/auth.go\<close>, \<open>guardRPC\<close> in \<open>cmd/plimsolld/main.go\<close>).
  SHA-256 is a parameter, and so is what \<open>net.ParseIP\<close> reads (\<open>net_lib\<close>).
\<close>

subsection \<open>Callers\<close>

record caller =
  ca_ID :: string
  ca_TokenSHA256 :: string
  ca_Scopes :: "string list"
  ca_PaidSecondsPerDay :: int

record principal_id =
  pr_UserID :: string
  pr_Scopes :: "string list"
  pr_PaidSecondsPerDay :: int

text \<open>\<open>Validate\<close>: each entry is made canonical and checked against those before it.\<close>

definition hex_text :: "string \<Rightarrow> bool" where
  "hex_text s \<longleftrightarrow> even (length s) \<and> list_all (\<lambda>c. hex_val c \<noteq> None) s"

fun check_scopes :: "string list \<Rightarrow> string list \<Rightarrow> bool" where
  "check_scopes seen [] = True"
| "check_scopes seen (s # ss) =
     (if s = '''' \<or> \<not> valid_utf8 s \<or> has_space s \<or> has_control s \<or> s \<in> set seen then False else check_scopes (s # seen) ss)"

definition canonical :: "caller \<Rightarrow> caller" where
  "canonical c = c\<lparr>ca_ID := trim_space (ca_ID c), ca_TokenSHA256 := to_lower (trim_space (ca_TokenSHA256 c))\<rparr>"

fun clients_Validate :: "string list \<Rightarrow> string list \<Rightarrow> caller list \<Rightarrow> caller list option" where
  "clients_Validate ids hashes [] = Some []"
| "clients_Validate ids hashes (c # cs) =
     (let c = canonical c
      in if ca_ID c = '''' \<or> ca_ID c = ''*'' \<or> \<not> valid_utf8 (ca_ID c) \<or> has_control (ca_ID c) then None
         else if ca_ID c \<in> set ids then None
         else if ca_PaidSecondsPerDay c < 0 then None
         else if length (ca_TokenSHA256 c) \<noteq> 64 \<or> \<not> hex_text (ca_TokenSHA256 c) then None
         else if ca_TokenSHA256 c \<in> set hashes then None
         else if \<not> check_scopes [] (ca_Scopes c) then None
         else map_option ((#) c) (clients_Validate (ca_ID c # ids) (ca_TokenSHA256 c # hashes) cs))"

type_synonym file_verifier = "(string, principal_id) gomap"

definition LoadClients :: "caller list \<Rightarrow> file_verifier option" where
  "LoadClients raw = (case clients_Validate [] [] raw of None \<Rightarrow> None
     | Some cs \<Rightarrow>
         let v = fold (\<lambda>c. AList.update (ca_TokenSHA256 c)
                   \<lparr>pr_UserID = ca_ID c, pr_Scopes = ca_Scopes c, pr_PaidSecondsPerDay = ca_PaidSecondsPerDay c\<rparr>) cs []
         in if v = [] then None else Some v)"

text \<open>What a verifier answers for a token: an error, or a principal and whether the token is known.\<close>

type_synonym verifier = "string \<Rightarrow> goerr + principal_id option"

definition VerifyToken :: "(string \<Rightarrow> string) \<Rightarrow> file_verifier \<Rightarrow> verifier" where
  "VerifyToken sha v token = Inr (if token = '''' then None else map_of v (sha token))"

subsection \<open>Authentication\<close>

definition ScopeCodeRun :: string where "ScopeCodeRun = ''code:run''"

definition requiredScopes :: "(string, string) gomap" where
  "requiredScopes = map (\<lambda>p. (''/plimsoll.v1.SandboxService/'' @ p, ScopeCodeRun))
     [''Run'', ''Describe'', ''OpenSession'', ''SessionRun'', ''CloseSession'']"

definition HasScope :: "principal_id \<Rightarrow> string \<Rightarrow> bool" where
  "HasScope p scope = list_ex (\<lambda>s. s = scope \<or> s = ''*'') (pr_Scopes p)"

text \<open>\<open>strings.Fields\<close>, over the runes of the header.\<close>

fun rune_fields :: "string \<Rightarrow> string list \<Rightarrow> string list" where
  "rune_fields w [] = (if w = [] then [] else [w])"
| "rune_fields w (r # rs) =
     (if is_space r then (if w = [] then rune_fields [] rs else w # rune_fields [] rs) else rune_fields (w @ r) rs)"

definition bearerToken :: "string \<Rightarrow> string" where
  "bearerToken header = (case rune_fields [] (runes header) of
     [a, b] \<Rightarrow> if equal_fold a ''Bearer'' then b else '''' | _ \<Rightarrow> '''')"

definition stable_identity :: "string \<Rightarrow> bool" where
  "stable_identity u \<longleftrightarrow> \<not> (\<not> valid_utf8 u \<or> u = ''*'' \<or> u = '''' \<or> u \<noteq> trim_space u \<or> has_control u)"

definition authenticatePrincipal :: "string \<Rightarrow> verifier \<Rightarrow> connect_error + principal_id" where
  "authenticatePrincipal header verify =
     (let token = bearerToken header
      in if token = '''' then Inl (refuse CodeUnauthenticated RefusalPermission (Opaque 0))
         else case verify token of
           Inl err \<Rightarrow>
             Inl (if err_is err Canceled then refuse CodeCanceled RefusalRequest (Sentinel Canceled)
                  else if err_is err DeadlineExceeded then refuse CodeDeadlineExceeded RefusalRequest (Sentinel DeadlineExceeded)
                  else refuse CodeUnavailable RefusalEnvironment (Opaque 0))
         | Inr None \<Rightarrow> Inl (refuse CodeUnauthenticated RefusalPermission (Opaque 0))
         | Inr (Some p) \<Rightarrow>
             if \<not> stable_identity (pr_UserID p) then Inl (refuse CodeUnauthenticated RefusalPermission (Opaque 0)) else Inr p)"

text \<open>\<open>net.SplitHostPort\<close>, the host part.\<close>

definition last_index :: "char \<Rightarrow> string \<Rightarrow> nat option" where
  "last_index c s = (if c \<in> set s then Some (length s - 1 - length (takeWhile (\<lambda>x. x \<noteq> c) (rev s))) else None)"

definition first_index :: "char \<Rightarrow> string \<Rightarrow> nat option" where
  "first_index c s = (if c \<in> set s then Some (length (takeWhile (\<lambda>x. x \<noteq> c) s)) else None)"

definition split_host :: "string \<Rightarrow> string option" where
  "split_host hp = (case last_index CHR '':'' hp of
     None \<Rightarrow> None
   | Some i \<Rightarrow>
       if has_prefix hp ''['' then
         (case first_index CHR '']'' hp of
            None \<Rightarrow> None
          | Some e \<Rightarrow>
              if e + 1 \<noteq> i then None
              else if contains_char (drop 1 hp) CHR ''['' \<or> contains_char (drop (e + 1) hp) CHR '']'' then None
              else Some (drop 1 (take e hp)))
       else let host = take i hp
            in if contains_char host CHR '':'' \<or> contains_char hp CHR ''['' \<or> contains_char hp CHR '']'' then None else Some host)"

definition trim_prefix :: "string \<Rightarrow> string \<Rightarrow> string" where
  "trim_prefix s p = (if has_prefix s p then drop (length p) s else s)"

definition trim_suffix :: "string \<Rightarrow> string \<Rightarrow> string" where
  "trim_suffix s p = (if has_suffix s p then take (length s - length p) s else s)"

definition loopbackHost :: "net_lib \<Rightarrow> string \<Rightarrow> bool" where
  "loopbackHost net host =
     (let host = (case split_host host of Some h \<Rightarrow> h | None \<Rightarrow> host);
          host = trim_suffix (trim_prefix host ''['') '']''
      in if equal_fold host ''localhost'' then True
         else (case ip_IsLoopback net host of None \<Rightarrow> False | Some b \<Rightarrow> b))"

record http_request =
  hq_Host :: string
  hq_Path :: string
  hq_Authorization :: string
  hq_ContentLength :: int

definition scope_refusal :: connect_error where
  "scope_refusal = refuse CodePermissionDenied RefusalPermission (Opaque 0)"

definition check_scope_of :: "string \<Rightarrow> principal_id \<Rightarrow> connect_error option" where
  "check_scope_of procedure p = (case map_of requiredScopes procedure of
     None \<Rightarrow> Some scope_refusal | Some scope \<Rightarrow> if HasScope p scope then None else Some scope_refusal)"

text \<open>\<open>None\<close> as the verifier is open dev mode. The result is the principal on the context, if any.\<close>

definition AuthenticateHTTP :: "net_lib \<Rightarrow> verifier option \<Rightarrow> http_request \<Rightarrow> connect_error + principal_id option" where
  "AuthenticateHTTP net verify r = (case verify of
     None \<Rightarrow> if \<not> loopbackHost net (hq_Host r) then Inl (refuse CodePermissionDenied RefusalPermission (Opaque 0)) else Inr None
   | Some v \<Rightarrow> (case authenticatePrincipal (hq_Authorization r) v of
       Inl e \<Rightarrow> Inl e
     | Inr p \<Rightarrow> (case check_scope_of (hq_Path r) p of Some e \<Rightarrow> Inl e | None \<Rightarrow> Inr (Some p))))"

definition LimitBody :: "int \<Rightarrow> http_request \<Rightarrow> connect_error option" where
  "LimitBody n r = (if hq_ContentLength r > n then Some (refuse CodeResourceExhausted RefusalRequest (Opaque 0)) else None)"

definition AuthInterceptor :: "verifier option \<Rightarrow> http_request \<Rightarrow> principal_id option \<Rightarrow> connect_error + principal_id" where
  "AuthInterceptor verify r ctx = (case verify of
     None \<Rightarrow> Inr \<lparr>pr_UserID = '''', pr_Scopes = [''*''], pr_PaidSecondsPerDay = 0\<rparr>
   | Some v \<Rightarrow> (case (case ctx of Some p \<Rightarrow> Inr p | None \<Rightarrow> authenticatePrincipal (hq_Authorization r) v) of
       Inl e \<Rightarrow> Inl e
     | Inr p \<Rightarrow> (case check_scope_of (hq_Path r) p of Some e \<Rightarrow> Inl e | None \<Rightarrow> Inr p)))"

text \<open>The whole edge but the decode slots: \<open>guardRPC\<close>, then the handler's interceptors. The
  procedure is the request's path.\<close>

definition edge :: "net_lib \<Rightarrow> verifier option \<Rightarrow> int \<Rightarrow> http_request \<Rightarrow> connect_error + principal_id" where
  "edge net verify maxRequestBytes r = (case AuthenticateHTTP net verify r of
     Inl e \<Rightarrow> Inl e
   | Inr ctx \<Rightarrow> (case LimitBody maxRequestBytes r of
       Some e \<Rightarrow> Inl e
     | None \<Rightarrow> AuthInterceptor verify r ctx))"

definition auditCaller :: "principal_id option \<Rightarrow> string" where
  "auditCaller p = (case p of Some p \<Rightarrow> if pr_UserID p \<noteq> '''' then pr_UserID p else ''anon'' | None \<Rightarrow> ''anon'')"

definition mintingSubject :: "principal_id option \<Rightarrow> string \<times> bool" where
  "mintingSubject p = (case p of Some p \<Rightarrow> if pr_UserID p \<noteq> '''' then (pr_UserID p, True) else ('''', False) | None \<Rightarrow> ('''', False))"

subsection \<open>Decode slots\<close>

text \<open>\<open>LimitHTTPConcurrency\<close>: \<open>dl_sem\<close> counts the tokens in the channel of capacity \<open>dl_n\<close>, \<open>dl_held\<close> is
  the map under the mutex. A request counts itself under its caller, tries for a slot, and leaves
  again if there is none; its release, run once, frees the slot and then leaves.\<close>

record decode_limit =
  dl_n :: int
  dl_perCaller :: int
  dl_sem :: int
  dl_held :: "(string, int) gomap"

definition LimitHTTPConcurrency :: "int \<Rightarrow> decode_limit" where
  "LimitHTTPConcurrency n = (let n = (if n < 1 then 1 else n)
     in \<lparr>dl_n = n, dl_perCaller = max 1 (n div 2), dl_sem = 0, dl_held = []\<rparr>)"

datatype decode_phase = DArrived | DCounted | DFull | DHolding | DLeaving | DReleased | DRefused

record decode_req =
  dr_caller :: string
  dr_phase :: decode_phase

definition dec_count :: "decode_limit \<Rightarrow> decode_req \<Rightarrow> decode_limit \<times> decode_req" where
  "dec_count l q =
     (if lookup0 (dl_held l) (dr_caller q) \<ge> dl_perCaller l then (l, q\<lparr>dr_phase := DRefused\<rparr>)
      else (l\<lparr>dl_held := AList.update (dr_caller q) (lookup0 (dl_held l) (dr_caller q) + 1) (dl_held l)\<rparr>, q\<lparr>dr_phase := DCounted\<rparr>))"

definition dec_slot :: "decode_limit \<Rightarrow> decode_req \<Rightarrow> decode_limit \<times> decode_req" where
  "dec_slot l q =
     (if dl_sem l < dl_n l then (l\<lparr>dl_sem := dl_sem l + 1\<rparr>, q\<lparr>dr_phase := DHolding\<rparr>) else (l, q\<lparr>dr_phase := DFull\<rparr>))"

definition dec_free :: "decode_limit \<Rightarrow> decode_req \<Rightarrow> decode_limit \<times> decode_req" where
  "dec_free l q = (l\<lparr>dl_sem := dl_sem l - 1\<rparr>, q\<lparr>dr_phase := DLeaving\<rparr>)"

definition dec_leave :: "decode_limit \<Rightarrow> decode_req \<Rightarrow> decode_limit \<times> decode_req" where
  "dec_leave l q =
     (let held = AList.update (dr_caller q) (lookup0 (dl_held l) (dr_caller q) - 1) (dl_held l);
          held = (if lookup0 held (dr_caller q) = 0 then AList.delete (dr_caller q) held else held)
      in (l\<lparr>dl_held := held\<rparr>, q\<lparr>dr_phase := (if dr_phase q = DFull then DRefused else DReleased)\<rparr>))"

lemmas dec_defs = dec_count_def dec_slot_def dec_free_def dec_leave_def

inductive decode_step :: "decode_limit \<times> decode_req list \<Rightarrow> decode_limit \<times> decode_req list \<Rightarrow> bool" where
  d_arrive: "decode_step (l, qs) (l, qs @ [\<lparr>dr_caller = c, dr_phase = DArrived\<rparr>])"
| d_count: "i < length qs \<Longrightarrow> dr_phase (qs ! i) = DArrived \<Longrightarrow> dec_count l (qs ! i) = (l', q) \<Longrightarrow> decode_step (l, qs) (l', qs[i := q])"
| d_slot: "i < length qs \<Longrightarrow> dr_phase (qs ! i) = DCounted \<Longrightarrow> dec_slot l (qs ! i) = (l', q) \<Longrightarrow> decode_step (l, qs) (l', qs[i := q])"
| d_free: "i < length qs \<Longrightarrow> dr_phase (qs ! i) = DHolding \<Longrightarrow> dec_free l (qs ! i) = (l', q) \<Longrightarrow> decode_step (l, qs) (l', qs[i := q])"
| d_leave: "i < length qs \<Longrightarrow> dr_phase (qs ! i) \<in> {DFull, DLeaving} \<Longrightarrow> dec_leave l (qs ! i) = (l', q) \<Longrightarrow> decode_step (l, qs) (l', qs[i := q])"

definition decode_init :: "decode_limit \<times> decode_req list \<Rightarrow> bool" where
  "decode_init x \<longleftrightarrow> snd x = [] \<and> (\<exists>n. fst x = LimitHTTPConcurrency n)"

definition counted :: "decode_req \<Rightarrow> bool" where
  "counted q \<longleftrightarrow> dr_phase q \<in> {DCounted, DFull, DHolding, DLeaving}"

definition held_of :: "string \<Rightarrow> decode_req list \<Rightarrow> int" where
  "held_of c qs = int (length (filter (\<lambda>q. counted q \<and> dr_caller q = c) qs))"

definition holding_of :: "(string \<Rightarrow> bool) \<Rightarrow> decode_req list \<Rightarrow> int" where
  "holding_of P qs = int (length (filter (\<lambda>q. dr_phase q = DHolding \<and> P (dr_caller q)) qs))"

definition decode_inv :: "decode_limit \<times> decode_req list \<Rightarrow> bool" where
  "decode_inv x \<longleftrightarrow> (case x of (l, qs) \<Rightarrow>
     dl_sem l = holding_of (\<lambda>_. True) qs \<and> dl_sem l \<le> dl_n l \<and> 1 \<le> dl_n l \<and> dl_perCaller l = max 1 (dl_n l div 2) \<and>
     (\<forall>c. lookup0 (dl_held l) c = held_of c qs \<and> held_of c qs \<le> dl_perCaller l) \<and> 0 \<notin> snd ` set (dl_held l) \<and>
     gomap_ok (dl_held l))"

lemma held_upd:
  "i < length qs \<Longrightarrow> held_of c (qs[i := q]) = held_of c qs - of_bool (counted (qs ! i) \<and> dr_caller (qs ! i) = c) + of_bool (counted q \<and> dr_caller q = c)"
  unfolding held_of_def by (rule int_filter_upd)

lemma holding_upd:
  "i < length qs \<Longrightarrow> holding_of P (qs[i := q]) = holding_of P qs
     - of_bool (dr_phase (qs ! i) = DHolding \<and> P (dr_caller (qs ! i))) + of_bool (dr_phase q = DHolding \<and> P (dr_caller q))"
  unfolding holding_of_def by (rule int_filter_upd)

lemma holding_le_held: "holding_of (\<lambda>x. x = c) qs \<le> held_of c qs"
  by (induction qs) (auto simp: holding_of_def held_of_def counted_def)

lemma nonzero_update: "gomap_ok m \<Longrightarrow> (0 :: int) \<notin> snd ` set m \<Longrightarrow> w \<noteq> 0 \<Longrightarrow> 0 \<notin> snd ` set (AList.update k w m)"
  by (induction m) (auto simp: gomap_ok_def)

lemma zero_dropped:
  assumes "gomap_ok m" "(0 :: int) \<notin> snd ` set m"
  shows "0 \<notin> snd ` set (if w = 0 then AList.delete k (AList.update k w m) else AList.update k w m)"
proof (cases "w = 0")
  case True
  have "AList.delete k (AList.update k w m) = AList.delete k m" by (induction m) auto
  moreover have "snd ` set (AList.delete k m) \<subseteq> snd ` set m" by (auto simp: AList.delete_eq)
  ultimately show ?thesis using assms(2) True by auto
qed (use nonzero_update [OF assms] in simp)

lemma decode_inv_move:
  assumes "decode_inv (l, qs)" "dl_n l' = dl_n l" "dl_perCaller l' = dl_perCaller l"
    and "dl_sem l' = holding_of (\<lambda>_. True) qs'" "dl_sem l' \<le> dl_n l"
    and "\<And>c. lookup0 (dl_held l') c = held_of c qs'" "\<And>c. held_of c qs' \<le> held_of c qs \<or> held_of c qs' \<le> dl_perCaller l"
    and "0 \<notin> snd ` set (dl_held l')" "gomap_ok (dl_held l')"
  shows "decode_inv (l', qs')"
  using assms unfolding decode_inv_def by clarsimp (metis order_trans)

lemma decode_invD:
  assumes "decode_inv (l, qs)"
  shows "dl_sem l = holding_of (\<lambda>_. True) qs" "dl_sem l \<le> dl_n l" "lookup0 (dl_held l) c = held_of c qs" "0 \<le> held_of c qs"
    "0 \<notin> snd ` set (dl_held l)" "gomap_ok (dl_held l)"
  using assms by (simp_all add: decode_inv_def held_of_def)

lemma dec_count_inv:
  assumes "decode_inv (l, qs)" "i < length qs" "dr_phase (qs ! i) = DArrived" "dec_count l (qs ! i) = (l', q)"
  shows "decode_inv (l', qs[i := q])"
proof -
  note d = decode_invD [OF assms(1)]
  have w: "held_of c qs + 1 \<noteq> 0" for c using d(4) [of c] by linarith
  note upd = held_upd [OF assms(2)] holding_upd [OF assms(2)]
  show ?thesis
  proof (cases "lookup0 (dl_held l) (dr_caller (qs ! i)) \<ge> dl_perCaller l")
    case True
    with assms(3,4) d show ?thesis
      by (intro decode_inv_move [OF assms(1)]) (auto simp: dec_count_def upd counted_def)
  next
    case False
    with assms(3,4) have q: "q = (qs ! i)\<lparr>dr_phase := DCounted\<rparr>"
        "l' = l\<lparr>dl_held := AList.update (dr_caller (qs ! i)) (held_of (dr_caller (qs ! i)) qs + 1) (dl_held l)\<rparr>"
      by (simp_all add: dec_count_def d(3))
    show ?thesis
    proof (rule decode_inv_move [OF assms(1)])
      show "0 \<notin> snd ` set (dl_held l')" using nonzero_update [OF d(6,5) w] by (simp add: q)
    qed (use False d assms(3) in \<open>auto simp: q upd counted_def\<close>)
  qed
qed

lemma dec_slot_inv:
  assumes "decode_inv (l, qs)" "i < length qs" "dr_phase (qs ! i) = DCounted" "dec_slot l (qs ! i) = (l', q)"
  shows "decode_inv (l', qs[i := q])"
  using decode_invD [OF assms(1)] assms(3,4)
  by (intro decode_inv_move [OF assms(1)])
    (auto simp: dec_slot_def held_upd [OF assms(2)] holding_upd [OF assms(2)] counted_def split: if_splits)

lemma dec_free_inv:
  assumes "decode_inv (l, qs)" "i < length qs" "dr_phase (qs ! i) = DHolding" "dec_free l (qs ! i) = (l', q)"
  shows "decode_inv (l', qs[i := q])"
  using decode_invD [OF assms(1)] assms(3,4)
  by (intro decode_inv_move [OF assms(1)])
    (auto simp: dec_free_def held_upd [OF assms(2)] holding_upd [OF assms(2)] counted_def)

lemma dec_leave_inv:
  assumes "decode_inv (l, qs)" "i < length qs" "dr_phase (qs ! i) \<in> {DFull, DLeaving}" "dec_leave l (qs ! i) = (l', q)"
  shows "decode_inv (l', qs[i := q])"
proof -
  let ?c = "dr_caller (qs ! i)" and ?w = "lookup0 (dl_held l) (dr_caller (qs ! i)) - 1"
  let ?h = "if ?w = 0 then AList.delete ?c (AList.update ?c ?w (dl_held l)) else AList.update ?c ?w (dl_held l)"
  note d = decode_invD [OF assms(1)]
  have l': "l' = l\<lparr>dl_held := ?h\<rparr>" and q: "\<not> counted q" "dr_phase q \<noteq> DHolding" "dr_caller q = ?c"
    using assms(4) by (auto simp: dec_leave_def Let_def counted_def split: if_splits)
  have at: "counted (qs ! i)" "dr_phase (qs ! i) \<noteq> DHolding" using assms(3) by (auto simp: counted_def)
  have h: "lookup0 ?h c = lookup0 (dl_held l) c - of_bool (c = ?c)" for c by auto
  have n: "held_of c (qs[i := q]) = held_of c qs - of_bool (c = ?c)" "holding_of P (qs[i := q]) = holding_of P qs" for c P
    using q at by (auto simp: held_upd [OF assms(2)] holding_upd [OF assms(2)])
  show ?thesis
  proof (rule decode_inv_move [OF assms(1)])
    show "0 \<notin> snd ` set (dl_held l')" unfolding l' using zero_dropped [OF d(6,5), of ?w ?c] by simp
  next
    show "gomap_ok (dl_held l')" using d(6) by (auto simp: l')
  next
    fix c show "lookup0 (dl_held l') c = held_of c (qs[i := q])"
      unfolding n(1) l' using h [of c] d(3) [of c] by (simp del: lookup0_update lookup0_delete)
  qed (use d n in \<open>simp_all add: l'\<close>)
qed

lemma decode_inv_step: "decode_step x y \<Longrightarrow> decode_inv x \<Longrightarrow> decode_inv y"
proof (induction rule: decode_step.induct)
  case (d_arrive l qs c)
  with decode_invD [OF d_arrive] show ?case
    by (intro decode_inv_move [OF d_arrive]) (simp_all add: held_of_def holding_of_def counted_def)
qed (blast intro: dec_count_inv dec_slot_inv dec_free_inv dec_leave_inv)+

interpretation dl: inductive_invariant decode_init decode_step decode_inv
proof
  fix x y
  show "decode_init x \<Longrightarrow> decode_inv x"
    by (cases x) (auto simp: decode_init_def decode_inv_def LimitHTTPConcurrency_def held_of_def holding_of_def Let_def)
  show "decode_step x y \<Longrightarrow> decode_inv x \<Longrightarrow> decode_inv y" by (rule decode_inv_step)
qed

subsection \<open>Who reaches a procedure\<close>

definition principal_of :: "caller \<Rightarrow> principal_id" where
  "principal_of c = \<lparr>pr_UserID = ca_ID c, pr_Scopes = ca_Scopes c, pr_PaidSecondsPerDay = ca_PaidSecondsPerDay c\<rparr>"

lemma clients_valid:
  assumes "clients_Validate ids hashes raw = Some cs"
  shows "cs = map canonical raw \<and> distinct (map ca_ID cs) \<and> distinct (map ca_TokenSHA256 cs) \<and>
    set (map ca_ID cs) \<inter> set ids = {} \<and> set (map ca_TokenSHA256 cs) \<inter> set hashes = {}"
  using assms
proof (induction ids hashes raw arbitrary: cs rule: clients_Validate.induct)
  case (2 ids hashes c raw)
  from 2(2) obtain rest where r: "cs = canonical c # rest" "ca_ID (canonical c) \<notin> set ids" "ca_TokenSHA256 (canonical c) \<notin> set hashes"
    "clients_Validate (ca_ID (canonical c) # ids) (ca_TokenSHA256 (canonical c) # hashes) raw = Some rest"
    by (auto simp: Let_def split: if_splits)
  from 2(2) r(4) have "rest = map canonical raw \<and> distinct (map ca_ID rest) \<and> distinct (map ca_TokenSHA256 rest) \<and>
      set (map ca_ID rest) \<inter> set (ca_ID (canonical c) # ids) = {} \<and> set (map ca_TokenSHA256 rest) \<inter> set (ca_TokenSHA256 (canonical c) # hashes) = {}"
    by (intro 2(1)) (auto simp: Let_def split: if_splits)
  with r(1-3) show ?case by (clarsimp simp: Int_insert_right image_image split: if_splits)
qed simp

lemma fold_clients:
  "distinct (map ca_TokenSHA256 cs) \<Longrightarrow> map_of (fold (\<lambda>c. AList.update (ca_TokenSHA256 c) (principal_of c)) cs m) k =
     (case find (\<lambda>c. ca_TokenSHA256 c = k) cs of Some c \<Rightarrow> Some (principal_of c) | None \<Rightarrow> map_of m k)"
proof (induction cs arbitrary: m)
  case (Cons c cs)
  have "find (\<lambda>c. ca_TokenSHA256 c = k) cs = None" if "ca_TokenSHA256 c = k"
    using Cons.prems that by (auto simp: find_None_iff image_iff)
  with Cons show ?case by (auto simp: update_conv' split: option.splits)
qed simp

lemma LoadClients_finds:
  assumes "LoadClients raw = Some v" "map_of v k = Some p"
  shows "\<exists>!c. c \<in> set (map canonical raw) \<and> ca_TokenSHA256 c = k" "\<exists>c \<in> set (map canonical raw). ca_TokenSHA256 c = k \<and> p = principal_of c"
proof -
  from assms(1) obtain cs where cs: "clients_Validate [] [] raw = Some cs"
      "v = fold (\<lambda>c. AList.update (ca_TokenSHA256 c) (principal_of c)) cs []"
    by (auto simp: LoadClients_def principal_of_def Let_def split: option.splits if_splits)
  note ok = clients_valid [OF cs(1)]
  from assms(2) have "\<exists>c. find (\<lambda>c. ca_TokenSHA256 c = k) cs = Some c \<and> p = principal_of c"
    using fold_clients [of cs "[]" k] ok by (auto simp: cs(2) split: option.splits)
  then obtain c where c: "c \<in> set cs" "ca_TokenSHA256 c = k" "p = principal_of c" using find_Some_mem by fastforce
  then show "\<exists>c \<in> set (map canonical raw). ca_TokenSHA256 c = k \<and> p = principal_of c" using ok by auto
  have "inj_on ca_TokenSHA256 (set cs)" using ok unfolding distinct_map by blast
  then have "c' = c" if "c' \<in> set cs" "ca_TokenSHA256 c' = k" for c' using that c by (auto dest: inj_onD)
  with c have "\<exists>!c. c \<in> set cs \<and> ca_TokenSHA256 c = k" by blast
  then show "\<exists>!c. c \<in> set (map canonical raw) \<and> ca_TokenSHA256 c = k" using ok by simp
qed

lemma authenticate_Inr:
  "authenticatePrincipal header v = Inr p \<Longrightarrow> bearerToken header \<noteq> '''' \<and> v (bearerToken header) = Inr (Some p) \<and> stable_identity (pr_UserID p)"
  by (auto simp: authenticatePrincipal_def Let_def split: if_splits sum.splits option.splits)

lemma scope_ok:
  "check_scope_of procedure p = None \<Longrightarrow> procedure \<in> fst ` set requiredScopes \<and> HasScope p ScopeCodeRun"
  by (auto simp: check_scope_of_def requiredScopes_def split: option.splits if_splits dest!: map_of_SomeD)

lemma refuse_marked [simp]: "notDispatchedOf (refuse code reason err) = Some (RefusalToWire reason)"
  by (simp add: notDispatchedOf_def refuse_def withNotDispatched_def)

lemma authenticate_marked: "authenticatePrincipal header v = Inl e \<Longrightarrow> notDispatchedOf e \<noteq> None"
  by (auto simp: authenticatePrincipal_def Let_def split: if_splits sum.splits option.splits)

lemma scope_marked: "check_scope_of procedure p = Some e \<Longrightarrow> notDispatchedOf e \<noteq> None"
  by (auto simp: check_scope_of_def scope_refusal_def split: option.splits if_splits)

lemma edge_marked:
  assumes "edge net verify n r = Inl e"
  shows "notDispatchedOf e \<noteq> None"
proof (cases verify)
  case None
  with assms show ?thesis by (auto simp: edge_def AuthenticateHTTP_def AuthInterceptor_def LimitBody_def split: if_splits)
next
  case (Some v)
  with assms authenticate_marked [of "hq_Authorization r" v e] scope_marked [of "hq_Path r" _ e] show ?thesis
    by (auto simp: edge_def AuthenticateHTTP_def AuthInterceptor_def LimitBody_def split: if_splits sum.splits option.splits)
qed

lemma edge_Inr:
  assumes "edge net (Some v) n r = Inr p"
  shows "authenticatePrincipal (hq_Authorization r) v = Inr p" "check_scope_of (hq_Path r) p = None" "hq_ContentLength r \<le> n"
  using assms by (auto simp: edge_def AuthenticateHTTP_def AuthInterceptor_def LimitBody_def split: if_splits sum.splits option.splits)

text \<open>C28: The edge fails closed. With a clients file, a procedure is reached only by a request
  whose bearer token has the fingerprint of exactly one entry of the file; it runs as that entry's
  caller, under an ID no other entry has and with the entry's scopes, which include the procedure's;
  the procedure is one of the five that are listed, and the body's declared size is within the cap.
  Everything else is refused, with the mark that nothing ran.\<close>

theorem edge_fails_closed:
  assumes "LoadClients raw = Some clients" and "edge net (Some (VerifyToken sha clients)) n r = res"
  shows "case res of
      Inl e \<Rightarrow> notDispatchedOf e \<noteq> None
    | Inr p \<Rightarrow> \<exists>c \<in> set (map canonical raw). p = principal_of c \<and> ca_TokenSHA256 c = sha (bearerToken (hq_Authorization r)) \<and>
        (\<forall>c' \<in> set (map canonical raw). c' \<noteq> c \<longrightarrow> ca_ID c' \<noteq> ca_ID c \<and> ca_TokenSHA256 c' \<noteq> ca_TokenSHA256 c) \<and>
        bearerToken (hq_Authorization r) \<noteq> '''' \<and> stable_identity (ca_ID c) \<and> HasScope p ScopeCodeRun \<and>
        hq_Path r \<in> fst ` set requiredScopes \<and> hq_ContentLength r \<le> n"
proof (cases res)
  case (Inl e)
  with edge_marked assms(2) show ?thesis by auto
next
  case (Inr p)
  note e = edge_Inr [OF assms(2) [unfolded Inr]]
  note a = authenticate_Inr [OF e(1)]
  then have "map_of clients (sha (bearerToken (hq_Authorization r))) = Some p" by (auto simp: VerifyToken_def split: if_splits)
  note f = LoadClients_finds [OF assms(1) this]
  then obtain c where c: "c \<in> set (map canonical raw)" "ca_TokenSHA256 c = sha (bearerToken (hq_Authorization r))" "p = principal_of c" by blast
  from assms(1) obtain cs where "clients_Validate [] [] raw = Some cs" by (auto simp: LoadClients_def split: option.splits)
  from clients_valid [OF this] have "distinct (map ca_ID (map canonical raw))" "distinct (map ca_TokenSHA256 (map canonical raw))" by auto
  then have "\<forall>c' \<in> set (map canonical raw). c' \<noteq> c \<longrightarrow> ca_ID c' \<noteq> ca_ID c \<and> ca_TokenSHA256 c' \<noteq> ca_TokenSHA256 c"
    using c(1) unfolding distinct_map inj_on_def by blast
  with c a scope_ok [OF e(2)] e(3) show ?thesis
    unfolding Inr sum.case by (intro bexI [of _ c]) (simp_all add: principal_of_def)
qed

text \<open>The decode slots are bounded and fair. However requests arrive, decode and end, at most \<open>n\<close>
  are being decoded and at most half of them for one caller, so the other half is left for everyone
  else; and once no request is under way every slot and every count has been given back.\<close>

theorem decode_slots_fair:
  assumes "reach decode_init decode_step (l, qs)"
  shows "holding_of (\<lambda>_. True) qs \<le> dl_n l \<and> holding_of (\<lambda>x. x = c) qs \<le> max 1 (dl_n l div 2) \<and>
    (list_all (\<lambda>q. \<not> counted q) qs \<longrightarrow> dl_sem l = 0 \<and> dl_held l = [])"
proof -
  have inv: "decode_inv (l, qs)" using dl.reach_inv [OF assms] .
  note d = decode_invD [OF inv]
  have "held_of c qs \<le> max 1 (dl_n l div 2)" using inv by (auto simp: decode_inv_def)
  with holding_le_held [of c qs] have "holding_of (\<lambda>x. x = c) qs \<le> max 1 (dl_n l div 2)" by linarith
  moreover have "dl_sem l = 0 \<and> dl_held l = []" if idle: "list_all (\<lambda>q. \<not> counted q) qs"
  proof
    have "filter (\<lambda>q. dr_phase q = DHolding \<and> True) qs = []" "filter (\<lambda>q. counted q \<and> dr_caller q = k) qs = []" for k
      using idle by (auto simp: filter_empty_conv list_all_iff counted_def)
    then have z: "holding_of (\<lambda>_. True) qs = 0" "held_of k qs = 0" for k by (simp_all add: holding_of_def held_of_def)
    then show "dl_sem l = 0" using d(1) by simp
    show "dl_held l = []"
    proof (rule ccontr)
      assume "dl_held l \<noteq> []"
      then obtain k v m where "dl_held l = (k, v) # m" by (metis list.exhaust surj_pair)
      with d(3) [of k] z(2) [of k] d(5) show False by (simp add: lookup0_def)
    qed
  qed
  ultimately show ?thesis using d(1,2) by simp
qed

subsection \<open>A clients file of two callers, and three requests\<close>

definition demo_fingerprint :: "string \<Rightarrow> string" where
  "demo_fingerprint t = take 64 (t @ replicate 64 CHR ''0'')"

definition demo_clients :: "caller list" where
  "demo_clients = [\<lparr>ca_ID = ''alice '', ca_TokenSHA256 = demo_fingerprint ''A1'', ca_Scopes = [''code:run''], ca_PaidSecondsPerDay = 60\<rparr>,
     \<lparr>ca_ID = ''bob'', ca_TokenSHA256 = demo_fingerprint ''b2'', ca_Scopes = [], ca_PaidSecondsPerDay = 0\<rparr>]"

definition demo_no_net :: net_lib where
  "demo_no_net = \<lparr>url_Parse = (\<lambda>_. None), ip_IsLoopback = (\<lambda>_. None), addr_String = (\<lambda>_. None)\<rparr>"

definition demo_http :: "string \<Rightarrow> http_request" where
  "demo_http token = \<lparr>hq_Host = ''plimsoll:8080'', hq_Path = ''/plimsoll.v1.SandboxService/Run'', hq_Authorization = ''Bearer '' @ token, hq_ContentLength = 100\<rparr>"

definition demo_alice :: principal_id where
  "demo_alice = \<lparr>pr_UserID = ''alice'', pr_Scopes = [''code:run''], pr_PaidSecondsPerDay = 60\<rparr>"

theorem edge_fails_closed_witness:
  "\<exists>clients. LoadClients demo_clients = Some clients \<and>
     edge demo_no_net (Some (VerifyToken demo_fingerprint clients)) 1000 (demo_http ''a1'') = Inr demo_alice \<and>
     (\<exists>c \<in> set (map canonical demo_clients). demo_alice = principal_of c \<and> ca_TokenSHA256 c = demo_fingerprint ''a1'') \<and>
     (\<exists>e. edge demo_no_net (Some (VerifyToken demo_fingerprint clients)) 1000 (demo_http ''b2'') = Inl e \<and> notDispatchedOf e \<noteq> None)"
proof -
  let ?v = "the (LoadClients demo_clients)"
  have v: "LoadClients demo_clients = Some ?v" by code_simp
  have a: "edge demo_no_net (Some (VerifyToken demo_fingerprint ?v)) 1000 (demo_http ''a1'') = Inr demo_alice" by code_simp
  have b: "edge demo_no_net (Some (VerifyToken demo_fingerprint ?v)) 1000 (demo_http ''b2'') = Inl scope_refusal" by code_simp
  have t: "bearerToken (hq_Authorization (demo_http ''a1'')) = ''a1''" by code_simp
  from edge_fails_closed [OF v a] have "\<exists>c \<in> set (map canonical demo_clients). demo_alice = principal_of c \<and> ca_TokenSHA256 c = demo_fingerprint ''a1''"
    unfolding t sum.case by blast
  moreover from edge_fails_closed [OF v b] have "notDispatchedOf scope_refusal \<noteq> None" by simp
  ultimately show ?thesis using v a b by blast
qed

definition demo_decode :: "decode_limit \<times> decode_req list" where
  "demo_decode = (\<lparr>dl_n = 2, dl_perCaller = 1, dl_sem = 1, dl_held = [(''alice'', 1)]\<rparr>,
     [\<lparr>dr_caller = ''alice'', dr_phase = DHolding\<rparr>, \<lparr>dr_caller = ''alice'', dr_phase = DRefused\<rparr>])"

lemma demo_decode_reach: "reach decode_init decode_step demo_decode"
proof -
  let ?q = "\<lambda>p. \<lparr>dr_caller = ''alice'', dr_phase = p\<rparr>"
  let ?l = "\<lambda>n h. \<lparr>dl_n = 2, dl_perCaller = 1, dl_sem = n, dl_held = h\<rparr>"
  have 0: "reach decode_init decode_step (?l 0 [], [])"
    by (rule reach_init) (auto simp: decode_init_def LimitHTTPConcurrency_def intro: exI [of _ 2])
  have 1: "decode_step (?l 0 [], []) (?l 0 [], [?q DArrived])"
    using d_arrive [of "?l 0 []" "[]" "''alice''"] by simp
  have 2: "decode_step (?l 0 [], [?q DArrived]) (?l 0 [(''alice'', 1)], [?q DCounted])"
    using d_count [of 0 "[?q DArrived]" "?l 0 []" "?l 0 [(''alice'', 1)]" "?q DCounted"] by (simp add: dec_count_def)
  have 3: "decode_step (?l 0 [(''alice'', 1)], [?q DCounted]) (?l 1 [(''alice'', 1)], [?q DHolding])"
    using d_slot [of 0 "[?q DCounted]" "?l 0 [(''alice'', 1)]" "?l 1 [(''alice'', 1)]" "?q DHolding"] by (simp add: dec_slot_def)
  have 4: "decode_step (?l 1 [(''alice'', 1)], [?q DHolding]) (?l 1 [(''alice'', 1)], [?q DHolding, ?q DArrived])"
    using d_arrive [of "?l 1 [(''alice'', 1)]" "[?q DHolding]" "''alice''"] by simp
  have 5: "decode_step (?l 1 [(''alice'', 1)], [?q DHolding, ?q DArrived]) demo_decode"
  proof -
    have "decode_step (?l 1 [(''alice'', 1)], [?q DHolding, ?q DArrived]) (?l 1 [(''alice'', 1)], [?q DHolding, ?q DArrived][1 := ?q DRefused])"
      by (rule d_count) (simp_all add: dec_count_def lookup0_def)
    then show ?thesis by (simp add: demo_decode_def)
  qed
  note r = reach_step [of decode_init decode_step]
  show ?thesis by (rule r [OF r [OF r [OF r [OF r [OF 0 1] 2] 3] 4] 5])
qed

theorem decode_slots_fair_witness:
  "holding_of (\<lambda>x. x = ''alice'') (snd demo_decode) = 1 \<and> holding_of (\<lambda>x. x = ''alice'') (snd demo_decode) \<le> max 1 (dl_n (fst demo_decode) div 2)"
  using decode_slots_fair [of "fst demo_decode" "snd demo_decode" "''alice''"] demo_decode_reach
  by (simp add: demo_decode_def holding_of_def)

end
