(* ===== verification/Scan_Gate.thy ===== *)
theory Scan_Gate
  imports Http_Edge Limiter
begin

text \<open>
  The gate in front of the ship scan (\<open>scanGate\<close> in \<open>internal/rpc/withheld.go\<close>): how many calls may
  wait for a scan, and how many scans run, in all and for one caller. A call's place at the gate is
  a record with a phase; each critical section or channel operation is one step, and any call may
  move next.
\<close>

subsection \<open>The gate\<close>

text \<open>A caller's entry is an object that turns point to, so entries live in a store and the map
  holds places in it. \<open>sk_slots\<close> and \<open>sg_all\<close> count the tokens in the channels.\<close>

record caller_scans =
  sk_slots :: int
  sk_users :: int

record scan_gate =
  sg_cap :: int
  sg_perCaller :: int
  sg_all :: int
  sg_users :: int
  sg_callers :: "(string, nat) gomap"
  sg_store :: "caller_scans list"

record wait_bound =
  wb_all :: int
  wb_perCaller :: int

definition newScanGate :: "int \<Rightarrow> scan_gate" where
  "newScanGate slots = \<lparr>sg_cap = slots, sg_perCaller = max 1 (slots div 4), sg_all = 0, sg_users = 0, sg_callers = [], sg_store = []\<rparr>"

definition scanWaitBound :: "limiter option \<Rightarrow> wait_bound" where
  "scanWaitBound lm = (case lm of
     None \<Rightarrow> \<lparr>wb_all = 8, wb_perCaller = 4\<rparr>
   | Some l \<Rightarrow> \<lparr>wb_all = l_max l, wb_perCaller = (if l_perKey l \<le> 0 \<or> l_perKey l > l_max l then l_max l else l_perKey l)\<rparr>)"

datatype turn_phase = Waiting | HasCaller | Scanning | FreedAll | FreedBoth | Left

record scan_turn =
  st_caller :: string
  st_c :: nat
  st_phase :: turn_phase

definition gate_enter :: "string \<Rightarrow> wait_bound \<Rightarrow> scan_gate \<Rightarrow> (connect_error + scan_turn) \<times> scan_gate" where
  "gate_enter caller b g =
     (let c = map_of (sg_callers g) caller
      in if sg_users g \<ge> sg_cap g + wb_all b \<or>
            (case c of None \<Rightarrow> False | Some x \<Rightarrow> sk_users (sg_store g ! x) \<ge> sg_perCaller g + wb_perCaller b)
         then (Inl (refuse CodeResourceExhausted RefusalCapacity (Opaque 0)), g)
         else
           let (x, g) = (case c of Some x \<Rightarrow> (x, g)
                 | None \<Rightarrow> (length (sg_store g), g\<lparr>sg_store := sg_store g @ [\<lparr>sk_slots = 0, sk_users = 0\<rparr>],
                              sg_callers := AList.update caller (length (sg_store g)) (sg_callers g)\<rparr>));
               g = g\<lparr>sg_store := (sg_store g)[x := (sg_store g ! x)\<lparr>sk_users := sk_users (sg_store g ! x) + 1\<rparr>], sg_users := sg_users g + 1\<rparr>
           in (Inr \<lparr>st_caller = caller, st_c = x, st_phase = Waiting\<rparr>, g))"

definition turn_leave :: "scan_gate \<Rightarrow> scan_turn \<Rightarrow> scan_gate \<times> scan_turn" where
  "turn_leave g t =
     (let e = (sg_store g ! st_c t)\<lparr>sk_users := sk_users (sg_store g ! st_c t) - 1\<rparr>;
          g = g\<lparr>sg_users := sg_users g - 1, sg_store := (sg_store g)[st_c t := e]\<rparr>;
          g = (if sk_users e = 0 then g\<lparr>sg_callers := AList.delete (st_caller t) (sg_callers g)\<rparr> else g)
      in (g, t\<lparr>st_phase := Left\<rparr>))"

definition add_slots :: "int \<Rightarrow> scan_turn \<Rightarrow> scan_gate \<Rightarrow> scan_gate" where
  "add_slots d t g = g\<lparr>sg_store := (sg_store g)[st_c t := (sg_store g ! st_c t)\<lparr>sk_slots := sk_slots (sg_store g ! st_c t) + d\<rparr>]\<rparr>"

text \<open>The two channel sends of \<open>wait\<close> block while their channel is full, so they are enabled only when
  there is room; giving up in either frees what was taken. \<open>release\<close> is the same three sections.\<close>

definition wait_caller :: "scan_gate \<Rightarrow> scan_turn \<Rightarrow> (scan_gate \<times> scan_turn) option" where
  "wait_caller g t = (if sk_slots (sg_store g ! st_c t) < sg_perCaller g then Some (add_slots 1 t g, t\<lparr>st_phase := HasCaller\<rparr>) else None)"

definition wait_all :: "scan_gate \<Rightarrow> scan_turn \<Rightarrow> (scan_gate \<times> scan_turn) option" where
  "wait_all g t = (if sg_all g < sg_cap g then Some (g\<lparr>sg_all := sg_all g + 1\<rparr>, t\<lparr>st_phase := Scanning\<rparr>) else None)"

definition free_all :: "scan_gate \<Rightarrow> scan_turn \<Rightarrow> scan_gate \<times> scan_turn" where
  "free_all g t = (g\<lparr>sg_all := sg_all g - 1\<rparr>, t\<lparr>st_phase := FreedAll\<rparr>)"

definition free_caller :: "scan_gate \<Rightarrow> scan_turn \<Rightarrow> scan_gate \<times> scan_turn" where
  "free_caller g t = (add_slots (- 1) t g, t\<lparr>st_phase := FreedBoth\<rparr>)"

inductive gate_step :: "wait_bound \<Rightarrow> scan_gate \<times> scan_turn list \<Rightarrow> scan_gate \<times> scan_turn list \<Rightarrow> bool" for b where
  g_enter: "gate_enter caller b g = (Inr t, g') \<Longrightarrow> gate_step b (g, ts) (g', ts @ [t])"
| g_refuse: "gate_enter caller b g = (Inl e, g') \<Longrightarrow> gate_step b (g, ts) (g', ts)"
| g_caller: "i < length ts \<Longrightarrow> st_phase (ts ! i) = Waiting \<Longrightarrow> wait_caller g (ts ! i) = Some (g', t) \<Longrightarrow> gate_step b (g, ts) (g', ts[i := t])"
| g_all: "i < length ts \<Longrightarrow> st_phase (ts ! i) = HasCaller \<Longrightarrow> wait_all g (ts ! i) = Some (g', t) \<Longrightarrow> gate_step b (g, ts) (g', ts[i := t])"
| g_scanned: "i < length ts \<Longrightarrow> st_phase (ts ! i) = Scanning \<Longrightarrow> free_all g (ts ! i) = (g', t) \<Longrightarrow> gate_step b (g, ts) (g', ts[i := t])"
| g_freed: "i < length ts \<Longrightarrow> st_phase (ts ! i) \<in> {HasCaller, FreedAll} \<Longrightarrow> free_caller g (ts ! i) = (g', t) \<Longrightarrow> gate_step b (g, ts) (g', ts[i := t])"
| g_leave: "i < length ts \<Longrightarrow> st_phase (ts ! i) \<in> {Waiting, FreedBoth} \<Longrightarrow> turn_leave g (ts ! i) = (g', t) \<Longrightarrow> gate_step b (g, ts) (g', ts[i := t])"

definition gate_init :: "wait_bound \<Rightarrow> scan_gate \<times> scan_turn list \<Rightarrow> bool" where
  "gate_init b x \<longleftrightarrow> snd x = [] \<and> (\<exists>slots \<ge> 1. fst x = newScanGate slots) \<and> 0 \<le> wb_all b \<and> 0 \<le> wb_perCaller b"

subsection \<open>The invariant\<close>

abbreviation here :: "scan_turn \<Rightarrow> bool" where "here t \<equiv> st_phase t \<noteq> Left"
abbreviation scans :: "scan_turn \<Rightarrow> bool" where "scans t \<equiv> st_phase t = Scanning"
abbreviation slotted :: "scan_turn \<Rightarrow> bool" where "slotted t \<equiv> st_phase t \<in> {HasCaller, Scanning, FreedAll}"

definition many :: "(scan_turn \<Rightarrow> bool) \<Rightarrow> scan_turn list \<Rightarrow> int" where
  "many P ts = int (length (filter P ts))"

definition gate_counts :: "scan_gate \<Rightarrow> scan_turn list \<Rightarrow> bool" where
  "gate_counts g ts \<longleftrightarrow> sg_all g = many scans ts \<and> sg_users g = many here ts \<and>
     (\<forall>t \<in> set ts. st_c t < length (sg_store g)) \<and>
     (\<forall>x < length (sg_store g). sk_slots (sg_store g ! x) = many (\<lambda>t. slotted t \<and> st_c t = x) ts \<and>
        sk_users (sg_store g ! x) = many (\<lambda>t. here t \<and> st_c t = x) ts)"

definition gate_bounds :: "wait_bound \<Rightarrow> scan_gate \<Rightarrow> bool" where
  "gate_bounds b g \<longleftrightarrow> sg_all g \<le> sg_cap g \<and> sg_users g \<le> sg_cap g + wb_all b \<and>
     (\<forall>x < length (sg_store g). sk_slots (sg_store g ! x) \<le> sg_perCaller g \<and> sk_users (sg_store g ! x) \<le> sg_perCaller g + wb_perCaller b)"

definition gate_shape :: "wait_bound \<Rightarrow> scan_gate \<Rightarrow> bool" where
  "gate_shape b g \<longleftrightarrow> sg_perCaller g = max 1 (sg_cap g div 4) \<and> 0 \<le> wb_perCaller b"

definition gate_map :: "scan_gate \<Rightarrow> scan_turn list \<Rightarrow> bool" where
  "gate_map g ts \<longleftrightarrow> (\<forall>k k' x. map_of (sg_callers g) k = Some x \<longrightarrow> map_of (sg_callers g) k' = Some x \<longrightarrow> k' = k) \<and>
     (\<forall>t \<in> set ts. here t \<longrightarrow> map_of (sg_callers g) (st_caller t) = Some (st_c t)) \<and>
     (\<forall>k x. map_of (sg_callers g) k = Some x \<longrightarrow> x < length (sg_store g) \<and> (\<exists>t \<in> set ts. here t \<and> st_c t = x))"

definition gate_inv :: "wait_bound \<Rightarrow> scan_gate \<times> scan_turn list \<Rightarrow> bool" where
  "gate_inv b x \<longleftrightarrow> gate_counts (fst x) (snd x) \<and> gate_bounds b (fst x) \<and> gate_map (fst x) (snd x) \<and> gate_shape b (fst x)"

lemma many_upd: "i < length ts \<Longrightarrow> many P (ts[i := t]) = many P ts - of_bool (P (ts ! i)) + of_bool (P t)"
  unfolding many_def by (rule int_filter_upd)

lemma many_snoc [simp]: "many P (ts @ [t]) = many P ts + of_bool (P t)"
  by (simp add: many_def)

lemma many_pos: "t \<in> set ts \<Longrightarrow> P t \<Longrightarrow> many P ts \<ge> 1"
  by (induction ts) (auto simp: many_def)

lemma many_zero: "many P ts = 0 \<longleftrightarrow> (\<forall>t \<in> set ts. \<not> P t)"
  by (auto simp: many_def filter_empty_conv)

lemma many_mono: "(\<And>t. t \<in> set ts \<Longrightarrow> P t \<Longrightarrow> Q t) \<Longrightarrow> many P ts \<le> many Q ts"
  by (induction ts) (auto simp: many_def)

subsubsection \<open>Entering\<close>

text \<open>What entering does: an entry at \<open>x\<close>, new or the caller's own, with one more user.\<close>

lemma gate_enter_effect:
  assumes "gate_enter caller b g = (Inr t, g')"
  shows "\<exists>x e. t = \<lparr>st_caller = caller, st_c = x, st_phase = Waiting\<rparr> \<and> sg_users g < sg_cap g + wb_all b \<and>
    (map_of (sg_callers g) caller = Some x \<and> e = sg_store g ! x \<and> sk_users e < sg_perCaller g + wb_perCaller b \<and>
       g' = g\<lparr>sg_store := (sg_store g)[x := e\<lparr>sk_users := sk_users e + 1\<rparr>], sg_users := sg_users g + 1\<rparr> \<or>
     map_of (sg_callers g) caller = None \<and> x = length (sg_store g) \<and>
       g' = g\<lparr>sg_store := sg_store g @ [\<lparr>sk_slots = 0, sk_users = 1\<rparr>], sg_users := sg_users g + 1,
              sg_callers := AList.update caller x (sg_callers g)\<rparr>)"
  using assms by (auto simp: gate_enter_def Let_def split: if_splits option.splits)

lemma gate_refuse_same: "gate_enter caller b g = (Inl e, g') \<Longrightarrow> g' = g"
  by (auto simp: gate_enter_def Let_def split: if_splits option.splits prod.splits)

lemma enter_keeps:
  assumes "gate_inv b (g, ts)" "gate_enter caller b g = (Inr t, g')"
  shows "gate_inv b (g', ts @ [t])"
proof -
  from gate_enter_effect [OF assms(2)] obtain x e where t: "t = \<lparr>st_caller = caller, st_c = x, st_phase = Waiting\<rparr>"
    and u: "sg_users g < sg_cap g + wb_all b"
    and c: "map_of (sg_callers g) caller = Some x \<and> e = sg_store g ! x \<and> sk_users e < sg_perCaller g + wb_perCaller b \<and>
       g' = g\<lparr>sg_store := (sg_store g)[x := e\<lparr>sk_users := sk_users e + 1\<rparr>], sg_users := sg_users g + 1\<rparr> \<or>
     map_of (sg_callers g) caller = None \<and> x = length (sg_store g) \<and>
       g' = g\<lparr>sg_store := sg_store g @ [\<lparr>sk_slots = 0, sk_users = 1\<rparr>], sg_users := sg_users g + 1,
              sg_callers := AList.update caller x (sg_callers g)\<rparr>" by blast
  from c show ?thesis
  proof (elim disjE conjE)
    assume m: "map_of (sg_callers g) caller = Some x" and e: "e = sg_store g ! x" "sk_users e < sg_perCaller g + wb_perCaller b"
      and g': "g' = g\<lparr>sg_store := (sg_store g)[x := e\<lparr>sk_users := sk_users e + 1\<rparr>], sg_users := sg_users g + 1\<rparr>"
    from assms(1) m have x: "x < length (sg_store g)" by (auto simp: gate_inv_def gate_map_def)
    have "gate_counts g' (ts @ [t])" using assms(1) x by (auto simp: gate_inv_def gate_counts_def g' t e nth_list_update)
    moreover have "gate_bounds b g'" using assms(1) u e x by (auto simp: gate_inv_def gate_bounds_def g' nth_list_update)
    moreover have "gate_map g' (ts @ [t])" using assms(1) m by (fastforce simp: gate_inv_def gate_map_def g' t)
    moreover have "gate_shape b g'" using assms(1) by (simp add: gate_inv_def gate_shape_def g')
    ultimately show ?thesis by (simp add: gate_inv_def)
  next
    assume m: "map_of (sg_callers g) caller = None" and x: "x = length (sg_store g)"
      and g': "g' = g\<lparr>sg_store := sg_store g @ [\<lparr>sk_slots = 0, sk_users = 1\<rparr>], sg_users := sg_users g + 1,
              sg_callers := AList.update caller x (sg_callers g)\<rparr>"
    have lt: "\<forall>t \<in> set ts. st_c t < x" using assms(1) by (auto simp: gate_inv_def gate_counts_def x)
    then have z: "many (\<lambda>t. slotted t \<and> st_c t = x) ts = 0" "many (\<lambda>t. here t \<and> st_c t = x) ts = 0" by (auto simp: many_zero)
    have "gate_counts g' (ts @ [t])"
      using assms(1) z lt by (auto simp: gate_inv_def gate_counts_def g' t x nth_append less_Suc_eq)
    moreover have "gate_bounds b g'"
      using assms(1) u by (auto simp: gate_inv_def gate_bounds_def gate_shape_def g' nth_append less_Suc_eq)
    moreover have "gate_shape b g'" using assms(1) by (simp add: gate_inv_def gate_shape_def g')
    moreover have "gate_map g' (ts @ [t])"
    proof -
      have old: "y < x" "\<exists>t \<in> set ts. here t \<and> st_c t = y" if "map_of (sg_callers g) k = Some y" for k y
        using assms(1) that by (auto simp: gate_inv_def gate_map_def x)
      have ne: "st_caller t' \<noteq> caller" if "t' \<in> set ts" "here t'" for t'
        using assms(1) that m by (auto simp: gate_inv_def gate_map_def)
      have inj: "k' = k" if "map_of (sg_callers g') k = Some y" "map_of (sg_callers g') k' = Some y" for k k' y
        using that old [of k y] old [of k' y] assms(1) by (auto simp: g' update_conv' gate_inv_def gate_map_def split: if_splits)
      have val: "y < length (sg_store g') \<and> (\<exists>t' \<in> set (ts @ [t]). here t' \<and> st_c t' = y)"
        if "map_of (sg_callers g') k = Some y" for k y
      proof (cases "k = caller")
        case False
        with that old [of k y] show ?thesis by (auto simp: g' update_conv' x)
      qed (use that in \<open>auto simp: g' update_conv' t x\<close>)
      have cal: "\<forall>t' \<in> set ts. here t' \<longrightarrow> map_of (sg_callers g) (st_caller t') = Some (st_c t')"
        using assms(1) by (simp add: gate_inv_def gate_map_def)
      have "\<forall>t' \<in> set (ts @ [t]). here t' \<longrightarrow> map_of (sg_callers g') (st_caller t') = Some (st_c t')"
        using ne cal by (auto simp: g' t update_conv')
      with inj val show ?thesis unfolding gate_map_def by blast
    qed
    ultimately show ?thesis by (simp add: gate_inv_def)
  qed
qed

subsubsection \<open>Waiting, scanning and leaving\<close>

lemma add_slots_simps [simp]:
  "sg_cap (add_slots d t g) = sg_cap g" "sg_perCaller (add_slots d t g) = sg_perCaller g" "sg_all (add_slots d t g) = sg_all g"
  "sg_users (add_slots d t g) = sg_users g" "sg_callers (add_slots d t g) = sg_callers g" "length (sg_store (add_slots d t g)) = length (sg_store g)"
  "st_c t < length (sg_store g) \<Longrightarrow> x < length (sg_store g) \<Longrightarrow> sk_users (sg_store (add_slots d t g) ! x) = sk_users (sg_store g ! x)"
  "st_c t < length (sg_store g) \<Longrightarrow> x < length (sg_store g) \<Longrightarrow>
     sk_slots (sg_store (add_slots d t g) ! x) = sk_slots (sg_store g ! x) + (if x = st_c t then d else 0)"
  by (auto simp: add_slots_def nth_list_update)

text \<open>A move of one turn that stays at the gate keeps the map.\<close>

lemma map_stays:
  assumes "gate_map g ts" "i < length ts" "here (ts ! i)" "here t" "st_c t = st_c (ts ! i)" "st_caller t = st_caller (ts ! i)"
    and "sg_callers g' = sg_callers g" "length (sg_store g') = length (sg_store g)"
  shows "gate_map g' (ts[i := t])"
proof -
  have "\<exists>t' \<in> set (ts[i := t]). here t' \<and> st_c t' = x" if ex: "\<exists>t' \<in> set ts. here t' \<and> st_c t' = x" for x
  proof -
    from ex obtain j where j: "j < length ts" "here (ts ! j)" "st_c (ts ! j) = x" by (auto simp: in_set_conv_nth)
    then have "here (ts[i := t] ! j) \<and> st_c (ts[i := t] ! j) = x" using assms by (cases "j = i") auto
    with j(1) show ?thesis by (metis length_list_update nth_mem)
  qed
  moreover have "\<forall>t' \<in> set (ts[i := t]). here t' \<longrightarrow> map_of (sg_callers g) (st_caller t') = Some (st_c t')"
  proof
    fix t' assume "t' \<in> set (ts[i := t])"
    then have "t' = t \<or> t' \<in> set ts" using set_update_subset_insert by fastforce
    with assms show "here t' \<longrightarrow> map_of (sg_callers g) (st_caller t') = Some (st_c t')" by (auto simp: gate_map_def)
  qed
  ultimately show ?thesis using assms(1,7,8) by (auto simp: gate_map_def)
qed

lemma counts_move:
  assumes "gate_counts g ts" "i < length ts" "st_c t = st_c (ts ! i)" "length (sg_store g') = length (sg_store g)"
    and "sg_all g' = sg_all g - of_bool (scans (ts ! i)) + of_bool (scans t)"
    and "sg_users g' = sg_users g - of_bool (here (ts ! i)) + of_bool (here t)"
    and "\<And>x. x < length (sg_store g) \<Longrightarrow> sk_slots (sg_store g' ! x) = sk_slots (sg_store g ! x) +
       (if x = st_c t then of_bool (slotted t) - of_bool (slotted (ts ! i)) else 0)"
    and "\<And>x. x < length (sg_store g) \<Longrightarrow> sk_users (sg_store g' ! x) = sk_users (sg_store g ! x) +
       (if x = st_c t then of_bool (here t) - of_bool (here (ts ! i)) else 0)"
  shows "gate_counts g' (ts[i := t])"
proof -
  have "\<forall>t' \<in> set (ts[i := t]). st_c t' < length (sg_store g)"
  proof
    fix t' assume "t' \<in> set (ts[i := t])"
    then have "t' = t \<or> t' \<in> set ts" using set_update_subset_insert by fastforce
    with assms(1-3) show "st_c t' < length (sg_store g)" by (auto simp: gate_counts_def)
  qed
  moreover have "sk_slots (sg_store g' ! x) = many (\<lambda>t. slotted t \<and> st_c t = x) (ts[i := t]) \<and>
      sk_users (sg_store g' ! x) = many (\<lambda>t. here t \<and> st_c t = x) (ts[i := t])" if "x < length (sg_store g)" for x
    using assms(1,3) assms(7,8) [OF that] that unfolding gate_counts_def many_upd [OF assms(2)] by (cases "x = st_c t") simp_all
  moreover have "sg_all g' = many scans (ts[i := t])" "sg_users g' = many here (ts[i := t])"
    using assms(1,5,6) unfolding gate_counts_def many_upd [OF assms(2)] by simp_all
  ultimately show ?thesis using assms(4) by (simp add: gate_counts_def)
qed

lemma turn_at:
  assumes "gate_inv b (g, ts)" "i < length ts"
  shows "st_c (ts ! i) < length (sg_store g)"
  using assms by (auto simp: gate_inv_def gate_counts_def)

lemma moves_keep:
  assumes inv: "gate_inv b (g, ts)" and i: "i < length ts" and move: "here (ts ! i)" "here t" "st_c t = st_c (ts ! i)" "st_caller t = st_caller (ts ! i)"
    and same: "sg_callers g' = sg_callers g" "length (sg_store g') = length (sg_store g)" "sg_users g' = sg_users g"
      "sg_cap g' = sg_cap g" "sg_perCaller g' = sg_perCaller g"
    and all: "sg_all g' = sg_all g - of_bool (scans (ts ! i)) + of_bool (scans t)" "sg_all g' \<le> sg_cap g"
    and store: "\<And>x. x < length (sg_store g) \<Longrightarrow> sk_users (sg_store g' ! x) = sk_users (sg_store g ! x)"
      "\<And>x. x < length (sg_store g) \<Longrightarrow> sk_slots (sg_store g' ! x) = sk_slots (sg_store g ! x) +
         (if x = st_c t then of_bool (slotted t) - of_bool (slotted (ts ! i)) else 0)"
      "\<And>x. x < length (sg_store g) \<Longrightarrow> sk_slots (sg_store g' ! x) \<le> sg_perCaller g"
  shows "gate_inv b (g', ts[i := t])"
proof -
  from inv have c: "gate_counts g ts" "gate_bounds b g" "gate_map g ts" "gate_shape b g" by (simp_all add: gate_inv_def)
  have "gate_counts g' (ts[i := t])" using move same all store by (intro counts_move [OF c(1) i]) auto
  moreover have "gate_bounds b g'" using c(2) all(2) store(3) unfolding gate_bounds_def same using store(1) by simp
  moreover have "gate_map g' (ts[i := t])" by (rule map_stays [OF c(3) i move same(1,2)])
  moreover have "gate_shape b g'" using c(4) same by (simp add: gate_shape_def)
  ultimately show ?thesis by (simp add: gate_inv_def)
qed

lemma caller_keeps:
  assumes "gate_inv b (g, ts)" "i < length ts" "st_phase (ts ! i) = Waiting" "wait_caller g (ts ! i) = Some (g', t)"
  shows "gate_inv b (g', ts[i := t])"
proof -
  have room: "sk_slots (sg_store g ! st_c (ts ! i)) < sg_perCaller g" and g': "g' = add_slots 1 (ts ! i) g" "t = (ts ! i)\<lparr>st_phase := HasCaller\<rparr>"
    using assms(4) by (auto simp: wait_caller_def split: if_splits)
  have bd: "x < length (sg_store g) \<Longrightarrow> sk_slots (sg_store g ! x) \<le> sg_perCaller g" "sg_all g \<le> sg_cap g" for x
    using assms(1) by (auto simp: gate_inv_def gate_bounds_def)
  show ?thesis
    by (rule moves_keep [OF assms(1,2)]) (use assms(3) turn_at [OF assms(1,2)] room bd in \<open>auto simp: g'\<close>)
qed

lemma all_keeps:
  assumes "gate_inv b (g, ts)" "i < length ts" "st_phase (ts ! i) = HasCaller" "wait_all g (ts ! i) = Some (g', t)"
  shows "gate_inv b (g', ts[i := t])"
proof -
  have g': "g' = g\<lparr>sg_all := sg_all g + 1\<rparr>" "t = (ts ! i)\<lparr>st_phase := Scanning\<rparr>" "sg_all g < sg_cap g"
    using assms(4) by (auto simp: wait_all_def split: if_splits)
  have bd: "x < length (sg_store g) \<Longrightarrow> sk_slots (sg_store g ! x) \<le> sg_perCaller g" for x
    using assms(1) by (auto simp: gate_inv_def gate_bounds_def)
  show ?thesis by (rule moves_keep [OF assms(1,2)]) (use assms(3) bd g'(3) in \<open>auto simp: g'(1,2)\<close>)
qed

lemma scanned_keeps:
  assumes "gate_inv b (g, ts)" "i < length ts" "st_phase (ts ! i) = Scanning" "free_all g (ts ! i) = (g', t)"
  shows "gate_inv b (g', ts[i := t])"
proof -
  have g': "g' = g\<lparr>sg_all := sg_all g - 1\<rparr>" "t = (ts ! i)\<lparr>st_phase := FreedAll\<rparr>" using assms(4) by (auto simp: free_all_def)
  have bd: "x < length (sg_store g) \<Longrightarrow> sk_slots (sg_store g ! x) \<le> sg_perCaller g" "sg_all g \<le> sg_cap g" for x
    using assms(1) by (auto simp: gate_inv_def gate_bounds_def)
  show ?thesis by (rule moves_keep [OF assms(1,2)]) (use assms(3) bd in \<open>auto simp: g'\<close>)
qed

lemma freed_keeps:
  assumes "gate_inv b (g, ts)" "i < length ts" "st_phase (ts ! i) \<in> {HasCaller, FreedAll}" "free_caller g (ts ! i) = (g', t)"
  shows "gate_inv b (g', ts[i := t])"
proof -
  have g': "g' = add_slots (- 1) (ts ! i) g" "t = (ts ! i)\<lparr>st_phase := FreedBoth\<rparr>" using assms(4) by (auto simp: free_caller_def)
  have bd: "x < length (sg_store g) \<Longrightarrow> sk_slots (sg_store g ! x) \<le> sg_perCaller g" "sg_all g \<le> sg_cap g" for x
    using assms(1) by (auto simp: gate_inv_def gate_bounds_def)
  have less: "sk_slots (sg_store g ! x) + (if x = st_c (ts ! i) then - 1 else 0) \<le> sg_perCaller g" if "x < length (sg_store g)" for x
    using bd(1) [OF that] by auto
  show ?thesis
    by (rule moves_keep [OF assms(1,2)]) (use assms(3) turn_at [OF assms(1,2)] less bd(2) in \<open>auto simp: g'\<close>)
qed

text \<open>Leaving: the caller's entry goes with its last turn, and only then.\<close>

lemma leave_map:
  assumes "gate_counts g ts" "gate_map g ts" "i < length ts" "here (ts ! i)" "turn_leave g (ts ! i) = (g', t)"
  shows "gate_map g' (ts[i := t])"
proof -
  let ?k = "st_caller (ts ! i)" and ?x = "st_c (ts ! i)"
  have t: "t = (ts ! i)\<lparr>st_phase := Left\<rparr>" and x: "?x < length (sg_store g)" "map_of (sg_callers g) ?k = Some ?x"
    using assms by (auto simp: turn_leave_def Let_def gate_counts_def gate_map_def)
  have rest: "t' \<in> set ts" if "t' \<in> set (ts[i := t])" "here t'" for t'
    using that set_update_subset_insert [of ts i t] by (auto simp: t)
  have others: "\<exists>t' \<in> set (ts[i := t]). here t' \<and> st_c t' = y" if "\<exists>t' \<in> set ts. here t' \<and> st_c t' = y" "y \<noteq> ?x" for y
  proof -
    from that(1) obtain j where j: "j < length ts" "here (ts ! j)" "st_c (ts ! j) = y" by (auto simp: in_set_conv_nth)
    then have "ts[i := t] ! j = ts ! j" using that(2) by (cases "j = i") auto
    with j show ?thesis by (metis length_list_update nth_mem)
  qed
  have n: "sk_users (sg_store g ! ?x) - 1 = many (\<lambda>t. here t \<and> st_c t = ?x) (ts[i := t])"
    using assms(1,4) x(1) unfolding gate_counts_def many_upd [OF assms(3)] by (simp add: t)
  have len: "length (sg_store g') = length (sg_store g)" using assms(5) by (auto simp: turn_leave_def Let_def)
  have old: "k' = k" if "map_of (sg_callers g) k = Some y" "map_of (sg_callers g) k' = Some y" for k k' y
    using assms(2) that unfolding gate_map_def by blast
  have at: "map_of (sg_callers g) (st_caller t') = Some (st_c t')" if "t' \<in> set ts" "here t'" for t'
    using assms(2) that unfolding gate_map_def by blast
  have val: "y < length (sg_store g) \<and> (\<exists>t' \<in> set ts. here t' \<and> st_c t' = y)" if "map_of (sg_callers g) k = Some y" for k y
    using assms(2) that unfolding gate_map_def by blast
  show ?thesis
  proof (cases "sk_users (sg_store g ! ?x) - 1 = 0")
    case True
    then have c: "map_of (sg_callers g') = (map_of (sg_callers g))(?k := None)"
      using assms(5) by (auto simp: turn_leave_def Let_def delete_conv')
    have gone: "st_c t' \<noteq> ?x" if "t' \<in> set (ts[i := t])" "here t'" for t' using True n that by (auto simp: many_zero)
    have a: "\<forall>k k' y. map_of (sg_callers g') k = Some y \<longrightarrow> map_of (sg_callers g') k' = Some y \<longrightarrow> k' = k"
      using old by (auto simp: c split: if_splits)
    have b: "\<forall>t' \<in> set (ts[i := t]). here t' \<longrightarrow> map_of (sg_callers g') (st_caller t') = Some (st_c t')"
    proof (intro ballI impI)
      fix t' assume "t' \<in> set (ts[i := t])" "here t'"
      with gone rest at x(2) show "map_of (sg_callers g') (st_caller t') = Some (st_c t')" by (fastforce simp: c)
    qed
    have "\<forall>k y. map_of (sg_callers g') k = Some y \<longrightarrow> y < length (sg_store g') \<and> (\<exists>t' \<in> set (ts[i := t]). here t' \<and> st_c t' = y)"
    proof (intro allI impI)
      fix k y assume "map_of (sg_callers g') k = Some y"
      then have ky: "k \<noteq> ?k" "map_of (sg_callers g) k = Some y" by (auto simp: c split: if_splits)
      then have "y \<noteq> ?x" using old [OF x(2)] by blast
      with val [OF ky(2)] others len show "y < length (sg_store g') \<and> (\<exists>t' \<in> set (ts[i := t]). here t' \<and> st_c t' = y)" by simp
    qed
    with a b show ?thesis unfolding gate_map_def by blast
  next
    case False
    then have c: "sg_callers g' = sg_callers g" using assms(5) by (auto simp: turn_leave_def Let_def)
    from False n have "\<exists>t' \<in> set (ts[i := t]). here t' \<and> st_c t' = ?x" by (auto simp: many_zero)
    with others val have "\<exists>t' \<in> set (ts[i := t]). here t' \<and> st_c t' = y" if "map_of (sg_callers g) k = Some y" for k y
      using that by (cases "y = ?x") blast+
    with val old at rest show ?thesis unfolding gate_map_def c len by blast
  qed
qed

lemma leave_keeps:
  assumes "gate_inv b (g, ts)" "i < length ts" "st_phase (ts ! i) \<in> {Waiting, FreedBoth}" "turn_leave g (ts ! i) = (g', t)"
  shows "gate_inv b (g', ts[i := t])"
proof -
  let ?x = "st_c (ts ! i)"
  from assms(1) have c: "gate_counts g ts" "gate_bounds b g" "gate_map g ts" "gate_shape b g" by (simp_all add: gate_inv_def)
  note x = turn_at [OF assms(1,2)]
  have t: "t = (ts ! i)\<lparr>st_phase := Left\<rparr>" and g': "sg_all g' = sg_all g" "sg_users g' = sg_users g - 1" "sg_cap g' = sg_cap g" "sg_perCaller g' = sg_perCaller g"
    and st: "sg_store g' = (sg_store g)[?x := (sg_store g ! ?x)\<lparr>sk_users := sk_users (sg_store g ! ?x) - 1\<rparr>]"
    using assms(4) by (auto simp: turn_leave_def Let_def)
  have "gate_counts g' (ts[i := t])"
    by (rule counts_move [OF c(1) assms(2)]) (use assms(3) x in \<open>auto simp: t g' st nth_list_update\<close>)
  moreover have "gate_bounds b g'"
    using c(2) x unfolding gate_bounds_def g' st by (auto simp: nth_list_update)
  moreover have "gate_shape b g'" using c(4) by (simp add: gate_shape_def g')
  moreover have "gate_map g' (ts[i := t])" using assms(3) by (intro leave_map [OF c(1,3) assms(2) _ assms(4)]) auto
  ultimately show ?thesis by (simp add: gate_inv_def)
qed

lemma gate_step_keeps: "gate_step b x y \<Longrightarrow> gate_inv b x \<Longrightarrow> gate_inv b y"
proof (induction rule: gate_step.induct)
  case (g_refuse caller g e g' ts)
  then show ?case using gate_refuse_same by blast
qed (blast intro: enter_keeps caller_keeps all_keeps scanned_keeps freed_keeps leave_keeps)+

interpretation sg: inductive_invariant "gate_init b" "gate_step b" "gate_inv b" for b
proof
  fix x y
  show "gate_init b x \<Longrightarrow> gate_inv b x"
    by (cases x) (auto simp: gate_init_def gate_inv_def newScanGate_def gate_counts_def gate_bounds_def gate_map_def gate_shape_def many_def)
  show "gate_step b x y \<Longrightarrow> gate_inv b x \<Longrightarrow> gate_inv b y" by (rule gate_step_keeps)
qed

text \<open>C36: The scan gate is bounded and fair. Under every interleaving of arrivals, waits, scans,
  cancellations and releases: no more scans run than the gate has slots, and for one caller no more
  than its quarter; the calls at the gate, whose decoded requests they keep in memory, are at most
  the slots plus the bound on waiting calls, and one caller's at most its share plus its bound. Once
  every call has left, no slot is taken and the map of callers is empty.\<close>

theorem scan_gate_bounded:
  assumes "reach (gate_init b) (gate_step b) (g, ts)"
  shows "many scans ts \<le> sg_cap g \<and> many (\<lambda>t. scans t \<and> st_caller t = k) ts \<le> max 1 (sg_cap g div 4) \<and>
    many here ts \<le> sg_cap g + wb_all b \<and> many (\<lambda>t. here t \<and> st_caller t = k) ts \<le> max 1 (sg_cap g div 4) + wb_perCaller b \<and>
    (list_all (\<lambda>t. \<not> here t) ts \<longrightarrow> sg_all g = 0 \<and> sg_users g = 0 \<and> sg_callers g = [])"
proof -
  have "gate_inv b (g, ts)" using sg.reach_inv [OF assms] .
  then have c: "gate_counts g ts" and bd: "gate_bounds b g" and m: "gate_map g ts" and sh: "gate_shape b g" by (simp_all add: gate_inv_def)
  have own: "many (\<lambda>t. scans t \<and> st_caller t = k) ts \<le> max 1 (sg_cap g div 4) \<and>
      many (\<lambda>t. here t \<and> st_caller t = k) ts \<le> max 1 (sg_cap g div 4) + wb_perCaller b"
  proof (cases "map_of (sg_callers g) k")
    case None
    then have "\<forall>t \<in> set ts. \<not> (here t \<and> st_caller t = k)" using m unfolding gate_map_def by fastforce
    then have "many (\<lambda>t. here t \<and> st_caller t = k) ts = 0" "many (\<lambda>t. scans t \<and> st_caller t = k) ts = 0" unfolding many_zero by auto
    then show ?thesis using sh by (simp add: gate_shape_def)
  next
    case (Some x)
    then have x: "x < length (sg_store g)" "\<And>t. t \<in> set ts \<Longrightarrow> here t \<Longrightarrow> st_caller t = k \<Longrightarrow> st_c t = x"
      using m unfolding gate_map_def by (blast, metis option.inject)
    have "many (\<lambda>t. scans t \<and> st_caller t = k) ts \<le> many (\<lambda>t. slotted t \<and> st_c t = x) ts"
      "many (\<lambda>t. here t \<and> st_caller t = k) ts \<le> many (\<lambda>t. here t \<and> st_c t = x) ts" using x(2) by (auto intro!: many_mono)
    moreover have "many (\<lambda>t. slotted t \<and> st_c t = x) ts \<le> sg_perCaller g" "many (\<lambda>t. here t \<and> st_c t = x) ts \<le> sg_perCaller g + wb_perCaller b"
      using c bd x(1) unfolding gate_counts_def gate_bounds_def by metis+
    ultimately show ?thesis using sh unfolding gate_shape_def by linarith
  qed
  have "sg_all g = 0 \<and> sg_users g = 0 \<and> sg_callers g = []" if idle: "list_all (\<lambda>t. \<not> here t) ts"
  proof -
    have "many scans ts = 0" "many here ts = 0" using idle unfolding many_zero list_all_iff by auto
    moreover have "map_of (sg_callers g) k' = None" for k'
      using m idle unfolding gate_map_def list_all_iff by (metis option.exhaust)
    then have "sg_callers g = []" by (metis (full_types) list.exhaust map_of_eq_None_iff list.set_intros(1) image_eqI)
    ultimately show ?thesis using c by (simp add: gate_counts_def)
  qed
  with own c bd show ?thesis by (simp add: gate_counts_def gate_bounds_def)
qed

subsection \<open>One scan and one call that waits\<close>

definition demo_bound :: wait_bound where "demo_bound = \<lparr>wb_all = 8, wb_perCaller = 4\<rparr>"

definition demo_gate :: "scan_gate \<times> scan_turn list" where
  "demo_gate = (\<lparr>sg_cap = 2, sg_perCaller = 1, sg_all = 1, sg_users = 2, sg_callers = [(''a'', 0)], sg_store = [\<lparr>sk_slots = 1, sk_users = 2\<rparr>]\<rparr>,
     [\<lparr>st_caller = ''a'', st_c = 0, st_phase = Scanning\<rparr>, \<lparr>st_caller = ''a'', st_c = 0, st_phase = Waiting\<rparr>])"

lemma demo_gate_reach: "reach (gate_init demo_bound) (gate_step demo_bound) demo_gate"
proof -
  let ?t = "\<lambda>p. \<lparr>st_caller = ''a'', st_c = 0, st_phase = p\<rparr>"
  let ?g = "\<lambda>n s u. \<lparr>sg_cap = 2, sg_perCaller = 1, sg_all = n, sg_users = u, sg_callers = [(''a'', 0)], sg_store = [\<lparr>sk_slots = s, sk_users = u\<rparr>]\<rparr>"
  note r = reach_step [of "gate_init demo_bound" "gate_step demo_bound"]
  have 0: "reach (gate_init demo_bound) (gate_step demo_bound) (newScanGate 2, [])"
    by (rule reach_init) (auto simp: gate_init_def demo_bound_def intro: exI [of _ 2])
  have 1: "gate_step demo_bound (newScanGate 2, []) (?g 0 0 1, [] @ [?t Waiting])"
    by (rule g_enter [of "''a''"]) (simp add: gate_enter_def newScanGate_def demo_bound_def)
  have 2: "gate_step demo_bound (?g 0 0 1, [?t Waiting]) (?g 0 1 1, [?t Waiting][0 := ?t HasCaller])"
    by (rule g_caller) (simp_all add: wait_caller_def add_slots_def)
  have 3: "gate_step demo_bound (?g 0 1 1, [?t HasCaller]) (?g 1 1 1, [?t HasCaller][0 := ?t Scanning])"
    by (rule g_all) (simp_all add: wait_all_def)
  have 4: "gate_step demo_bound (?g 1 1 1, [?t Scanning]) (?g 1 1 2, [?t Scanning] @ [?t Waiting])"
    by (rule g_enter [of "''a''"]) (simp add: gate_enter_def demo_bound_def)
  from r [OF r [OF r [OF r [OF 0 1 [unfolded append.simps]] 2 [unfolded list_update.simps nat.case]] 3 [unfolded list_update.simps nat.case]] 4]
  show ?thesis by (simp add: demo_gate_def)
qed

theorem scan_gate_bounded_witness:
  "many (\<lambda>t. scans t \<and> st_caller t = ''a'') (snd demo_gate) = 1 \<and> many here (snd demo_gate) = 2 \<and>
   many (\<lambda>t. scans t \<and> st_caller t = ''a'') (snd demo_gate) \<le> max 1 (sg_cap (fst demo_gate) div 4) \<and>
   many here (snd demo_gate) \<le> sg_cap (fst demo_gate) + wb_all demo_bound"
  using scan_gate_bounded [of demo_bound "fst demo_gate" "snd demo_gate" "''a''"] demo_gate_reach
  by (simp add: demo_gate_def many_def)

end
