(* ===== verification/Module_Runs.thy ===== *)
theory Module_Runs
  imports Requests Go_Float "HOL-Library.Word"
begin

text \<open>
  Module runs (\<open>sandbox/module.go\<close>): the check of a table of parameters before it is dispatched, and
  the parser of the record its worker writes inside the sandbox. A \<open>float64\<close> of a request or a
  record is its 64 bits; \<open>float_of\<close> reads them.
\<close>

subsection \<open>Requests\<close>

datatype fval = NaN | Inf bool | Finite rat

definition float_of :: "64 word \<Rightarrow> fval" where
  "float_of w =
     (let n = unat w; neg = (n div 2 ^ 63 = 1); e = int (n div 2 ^ 52 mod 2 ^ 11); m = int (n mod 2 ^ 52);
          v = (if e = 0 then of_int m * pow2 (- 1074) else of_int (2 ^ 52 + m) * pow2 (e - 1075))
      in if e = 2047 then (if m = 0 then Inf neg else NaN) else Finite (if neg then - v else v))"

fun positive_finite :: "fval \<Rightarrow> bool" where
  "positive_finite (Finite x) = (x > 0)"
| "positive_finite _ = False"

fun value_of :: "fval \<Rightarrow> rat" where
  "value_of (Finite x) = x"
| "value_of _ = 0"

record module_request =
  mr_Model :: string
  mr_Rows :: "64 word list list"
  mr_EndTime :: "64 word"
  mr_Step :: "64 word"
  mr_Timeout :: duration
  mr_MinimumIsolation :: isolation_class
  mr_Software :: software_rule

definition MaxModuleRows :: nat where "MaxModuleRows = 100000"
definition MaxModuleRowWidth :: nat where "MaxModuleRowWidth = 64"
definition MaxModuleSteps :: int where "MaxModuleSteps = 1000000"
definition MaxModuleResultBytes :: int where "MaxModuleResultBytes = 8 * 2 ^ 20"
definition moduleResultHeader :: nat where "moduleResultHeader = 20"
definition moduleResultVersion :: nat where "moduleResultVersion = 1"
definition maxModuleOutputWidth :: nat where "maxModuleOutputWidth = 2 ^ 20"

definition moduleIDPattern :: "string \<Rightarrow> bool" where
  "moduleIDPattern s = (case s of [] \<Rightarrow> False
     | c # cs \<Rightarrow> is_alnum c \<and> length cs \<le> 63 \<and> list_all (\<lambda>c. is_alnum c \<or> c \<in> set ''._-'') cs)"

text \<open>\<open>EndTime/Step\<close>, rounded; both are positive and finite where it is used.\<close>

definition step_quotient :: "module_request \<Rightarrow> float64" where
  "step_quotient r = f_div (value_of (float_of (mr_EndTime r))) (value_of (float_of (mr_Step r)))"

definition MaxSteps :: "module_request \<Rightarrow> int" where
  "MaxSteps r = \<lfloor>step_quotient r\<rfloor> + 2"

definition RowWidth :: "module_request \<Rightarrow> nat" where
  "RowWidth r = (case mr_Rows r of [] \<Rightarrow> 0 | row # _ \<Rightarrow> length row)"

definition finite_value :: "64 word \<Rightarrow> bool" where
  "finite_value w = (case float_of w of Finite _ \<Rightarrow> True | _ \<Rightarrow> False)"

definition validateModuleRequest :: "module_request \<Rightarrow> goerr option" where
  "validateModuleRequest r =
     or_err (validateMinimumIsolation (mr_MinimumIsolation r))
     (or_err (guard_err (\<not> moduleIDPattern (mr_Model r)) invalid_request)
     (or_err (guard_err (mr_Rows r = []) invalid_request)
     (or_err (guard_err (length (mr_Rows r) > MaxModuleRows) invalid_request)
     (or_err (guard_err (RowWidth r = 0 \<or> RowWidth r > MaxModuleRowWidth) invalid_request)
     (or_err (first_err (\<lambda>row. or_err (guard_err (length row \<noteq> RowWidth r) invalid_request)
                (first_err (\<lambda>v. guard_err (\<not> finite_value v) invalid_request) row)) (mr_Rows r))
     (or_err (guard_err (\<not> positive_finite (float_of (mr_EndTime r))) invalid_request)
     (or_err (guard_err (\<not> positive_finite (float_of (mr_Step r))) invalid_request)
     (or_err (guard_err (step_quotient r > of_int MaxModuleSteps) invalid_request)
     (guard_err (int moduleResultHeader + int (length (mr_Rows r)) * (4 + 8 * MaxSteps r) > MaxModuleResultBytes) invalid_request)))))))))"

definition ValidateModuleRequest :: "module_request \<Rightarrow> goerr option" where
  "ValidateModuleRequest r = refused (validateModuleRequest r)"

subsection \<open>The worker's record\<close>

record module_run =
  mn_Status :: "32 word"
  mn_Outputs :: "64 word list"

text \<open>\<open>binary.LittleEndian\<close>, on the bytes from an offset on.\<close>

fun le_nat :: "8 word list \<Rightarrow> nat" where
  "le_nat [] = 0"
| "le_nat (b # bs) = unat b + 256 * le_nat bs"

definition u32_at :: "8 word list \<Rightarrow> nat \<Rightarrow> nat" where
  "u32_at b off = le_nat (take 4 (drop off b))"

definition u64_at :: "8 word list \<Rightarrow> nat \<Rightarrow> nat" where
  "u64_at b off = le_nat (take 8 (drop off b))"

datatype decode_error =
    ShorterThanHeader | BadMagic | BadVersion | OtherShape | BadWidth | EndsInStatus nat | EndsInOutputs nat | Trailing

fun decode_rows :: "8 word list \<Rightarrow> nat \<Rightarrow> nat \<Rightarrow> nat \<Rightarrow> nat \<Rightarrow> decode_error + (module_run list \<times> nat)" where
  "decode_rows b width i 0 off = Inr ([], off)"
| "decode_rows b width i (Suc left) off =
     (if int (length b) - int off < 4 then Inl (EndsInStatus i)
      else
        let status = (word_of_nat (u32_at b off) :: 32 word); off = off + 4
        in if sint status > 0 then
             let count = sint status * int width
             in if count * 8 > int (length b) - int off then Inl (EndsInOutputs i)
                else let outputs = map (\<lambda>k. word_of_nat (u64_at b (off + 8 * k))) [0..<nat count]
                     in (case decode_rows b width (i + 1) left (off + nat count * 8) of
                           Inl e \<Rightarrow> Inl e
                         | Inr (runs, off) \<Rightarrow> Inr (\<lparr>mn_Status = status, mn_Outputs = outputs\<rparr> # runs, off))
           else (case decode_rows b width (i + 1) left off of
                   Inl e \<Rightarrow> Inl e
                 | Inr (runs, off) \<Rightarrow> Inr (\<lparr>mn_Status = status, mn_Outputs = []\<rparr> # runs, off)))"

definition magic :: "8 word list" where
  "magic = map (\<lambda>c. word_of_nat (of_char c)) ''PLSM''"

definition DecodeModuleResults :: "8 word list \<Rightarrow> nat \<Rightarrow> nat \<Rightarrow> decode_error + (module_run list \<times> nat)" where
  "DecodeModuleResults b rows params =
     (if length b < moduleResultHeader then Inl ShorterThanHeader
      else if take 4 b \<noteq> magic then Inl BadMagic
      else if u32_at b 4 \<noteq> moduleResultVersion then Inl BadVersion
      else if u32_at b 8 \<noteq> rows \<or> u32_at b 16 \<noteq> params then Inl OtherShape
      else if u32_at b 12 = 0 \<or> u32_at b 12 > maxModuleOutputWidth then Inl BadWidth
      else case decode_rows b (u32_at b 12) 0 rows moduleResultHeader of
             Inl e \<Rightarrow> Inl e
           | Inr (runs, off) \<Rightarrow> if off \<noteq> length b then Inl Trailing else Inr (runs, u32_at b 12))"

subsection \<open>The record as the worker writes it\<close>

text \<open>The reference for the parser: the bytes of a record.\<close>

fun le_bytes :: "nat \<Rightarrow> nat \<Rightarrow> 8 word list" where
  "le_bytes 0 n = []"
| "le_bytes (Suc k) n = word_of_nat (n mod 256) # le_bytes k (n div 256)"

definition run_bytes :: "module_run \<Rightarrow> 8 word list" where
  "run_bytes r = le_bytes 4 (unat (mn_Status r)) @ concat (map (\<lambda>w. le_bytes 8 (unat w)) (mn_Outputs r))"

definition result_bytes :: "nat \<Rightarrow> nat \<Rightarrow> module_run list \<Rightarrow> 8 word list" where
  "result_bytes width params runs =
     magic @ le_bytes 4 moduleResultVersion @ le_bytes 4 (length runs) @ le_bytes 4 width @ le_bytes 4 params @ concat (map run_bytes runs)"

text \<open>A row that completed \<open>n\<close> steps carries \<open>n\<close> times the width of outputs, a failed one none.\<close>

definition run_ok :: "nat \<Rightarrow> module_run \<Rightarrow> bool" where
  "run_ok width r \<longleftrightarrow> length (mn_Outputs r) = nat (sint (mn_Status r)) * width"

lemma length_le_bytes [simp]: "length (le_bytes k n) = k"
  by (induction k arbitrary: n) auto

lemma le_nat_bytes: "n < 256 ^ k \<Longrightarrow> le_nat (le_bytes k n) = n"
proof (induction k arbitrary: n)
  case (Suc k)
  then have "n div 256 < 256 ^ k" by (simp add: less_mult_imp_div_less mult.commute)
  moreover have "unat (word_of_nat (n mod 256) :: 8 word) = n mod 256" by (simp add: unat_of_nat)
  ultimately show ?case using Suc.IH by simp
qed simp

lemma le_bytes_nat: "le_bytes (length bs) (le_nat bs) = bs"
proof (induction bs)
  case (Cons b bs)
  have b: "unat b < 256" using unsigned_less [of b] by simp
  then have "(unat b + 256 * le_nat bs) mod 256 = unat b" "(unat b + 256 * le_nat bs) div 256 = le_nat bs" by simp_all
  with Cons show ?case by simp
qed simp

lemma le_nat_less: "le_nat bs < 256 ^ length bs"
proof (induction bs)
  case (Cons b bs)
  have "unat b < 256" using unsigned_less [of b] by simp
  with Cons show ?case by simp
qed simp

lemma unat_u32 [simp]: "unat (word_of_nat (u32_at b off) :: 32 word) = u32_at b off"
proof -
  have "u32_at b off < 256 ^ length (take 4 (drop off b))" unfolding u32_at_def by (rule le_nat_less)
  also have "\<dots> \<le> 256 ^ 4" by (rule power_increasing) auto
  finally show ?thesis by (simp add: unat_of_nat)
qed

lemma unat_u64 [simp]: "unat (word_of_nat (u64_at b off) :: 64 word) = u64_at b off"
proof -
  have "u64_at b off < 256 ^ length (take 8 (drop off b))" unfolding u64_at_def by (rule le_nat_less)
  also have "\<dots> \<le> 256 ^ 8" by (rule power_increasing) auto
  finally show ?thesis by (simp add: unat_of_nat)
qed

lemma unat_32: "unat (w :: 32 word) < 2 ^ 32"
  using unsigned_less [of w] by simp

lemma bytes_u32: "off + 4 \<le> length b \<Longrightarrow> le_bytes 4 (u32_at b off) = take 4 (drop off b)"
  using le_bytes_nat [of "take 4 (drop off b)"] by (simp add: u32_at_def)

lemma bytes_u64: "off + 8 \<le> length b \<Longrightarrow> le_bytes 8 (u64_at b off) = take 8 (drop off b)"
  using le_bytes_nat [of "take 8 (drop off b)"] by (simp add: u64_at_def)

lemma u32_at_bytes: "take 4 (drop off b) = le_bytes 4 n \<Longrightarrow> n < 2 ^ 32 \<Longrightarrow> u32_at b off = n"
  by (simp add: u32_at_def le_nat_bytes)

abbreviation out_bytes :: "64 word list \<Rightarrow> 8 word list" where
  "out_bytes ws \<equiv> concat (map (\<lambda>w. le_bytes 8 (unat w)) ws)"

lemma length_out [simp]: "length (out_bytes ws) = 8 * length ws"
  by (induction ws) auto

lemma out_bytes_inj: "out_bytes xs = out_bytes ys \<Longrightarrow> xs = ys"
proof -
  assume e: "out_bytes xs = out_bytes ys"
  then have "length xs = length ys" by (metis length_out mult_cancel1 zero_neq_numeral)
  then show ?thesis using e
  proof (induction rule: list_induct2)
    case (Cons x xs y ys)
    then have "le_bytes 8 (unat x) = le_bytes 8 (unat y)" "out_bytes xs = out_bytes ys" by simp_all
    moreover have "unat w < 256 ^ 8" for w :: "64 word" using unsigned_less [of w] by simp
    ultimately show ?case using Cons.IH by (metis le_nat_bytes word_unat_eq_iff)
  qed simp
qed

lemma read_outputs:
  "off + 8 * n \<le> length b \<Longrightarrow> out_bytes (map (\<lambda>k. word_of_nat (u64_at b (off + 8 * k))) [0..<n]) = take (8 * n) (drop off b)"
proof (induction n)
  case (Suc n)
  have "take (8 * Suc n) (drop off b) = take (8 * n) (drop off b) @ take 8 (drop (off + 8 * n) b)"
    using take_add [of "8 * n" 8 "drop off b"] by (simp add: add.commute)
  with Suc show ?case by (simp add: bytes_u64)
qed simp

lemma read_outputs_eq:
  assumes "take (8 * length ws) (drop off b) = out_bytes ws" "off + 8 * length ws \<le> length b"
  shows "map (\<lambda>k. word_of_nat (u64_at b (off + 8 * k))) [0..<length ws] = ws"
  using read_outputs [OF assms(2)] assms(1) by (intro out_bytes_inj) simp

text \<open>The loop reads exactly the rows' bytes: in both directions, from any offset.\<close>

lemma decode_rows_reads:
  "decode_rows b width i left off = Inr (runs, off') \<Longrightarrow> off \<le> length b \<Longrightarrow>
     length runs = left \<and> list_all (run_ok width) runs \<and> off' \<le> length b \<and> off \<le> off' \<and>
     concat (map run_bytes runs) = take (off' - off) (drop off b)"
proof (induction b width i left off arbitrary: runs off' rule: decode_rows.induct)
  case (2 b width i left off)
  let ?st = "word_of_nat (u32_at b off) :: 32 word"
  have room: "off + 4 \<le> length b" using 2(3,4) by (auto split: if_splits)
  show ?case
  proof (cases "sint ?st > 0")
    case True
    let ?n = "nat (sint ?st * int width)"
    let ?ws = "map (\<lambda>k. word_of_nat (u64_at b (off + 4 + 8 * k))) [0..<?n] :: 64 word list"
    have "\<not> int (length b) - int off < 4" using room by simp
    with 2(3) True obtain rest where fits: "\<not> sint ?st * int width * 8 > int (length b) - int (off + 4)"
      and rest: "decode_rows b width (i + 1) left (off + 4 + ?n * 8) = Inr (rest, off')"
      and runs: "runs = \<lparr>mn_Status = ?st, mn_Outputs = ?ws\<rparr> # rest"
      by (auto simp: Let_def split: if_splits sum.splits prod.splits)
    have nn: "int ?n = sint ?st * int width" using True by simp
    have f: "off + 4 + ?n * 8 \<le> length b" using fits nn room by linarith
    from 2(1) [OF _ refl refl True refl _ refl rest f] room fits
    have ih: "length rest = left \<and> list_all (run_ok width) rest \<and> off' \<le> length b \<and> off + 4 + ?n * 8 \<le> off' \<and>
        concat (map run_bytes rest) = take (off' - (off + 4 + ?n * 8)) (drop (off + 4 + ?n * 8) b)" by simp
    have "?n = nat (sint ?st) * width" using True by (simp add: nat_mult_distrib)
    then have "run_ok width \<lparr>mn_Status = ?st, mn_Outputs = ?ws\<rparr>" by (simp add: run_ok_def)
    moreover have "concat (map run_bytes runs) = take (off' - off) (drop off b)"
    proof -
      have "out_bytes ?ws = take (8 * ?n) (drop (off + 4) b)" using f by (intro read_outputs) simp
      then have "concat (map run_bytes runs) = take 4 (drop off b) @ take (8 * ?n) (drop (off + 4) b) @ take (off' - (off + 4 + ?n * 8)) (drop (off + 4 + ?n * 8) b)"
        using ih room by (simp add: runs run_bytes_def bytes_u32 del: concat_map_singleton)
      also have "\<dots> = take (4 + (8 * ?n + (off' - (off + 4 + ?n * 8)))) (drop off b)"
        by (simp add: take_add add.commute add.left_commute mult.commute)
      also have "4 + (8 * ?n + (off' - (off + 4 + ?n * 8))) = off' - off" using ih by linarith
      finally show ?thesis .
    qed
    ultimately show ?thesis using ih by (simp add: runs)
  next
    case False
    have "\<not> int (length b) - int off < 4" using room by simp
    with 2(3) False obtain rest where rest: "decode_rows b width (i + 1) left (off + 4) = Inr (rest, off')"
      and runs: "runs = \<lparr>mn_Status = ?st, mn_Outputs = []\<rparr> # rest"
      by (auto simp: Let_def split: if_splits sum.splits prod.splits)
    from 2(2) [OF _ refl refl False rest] room
    have ih: "length rest = left \<and> list_all (run_ok width) rest \<and> off' \<le> length b \<and> off + 4 \<le> off' \<and>
        concat (map run_bytes rest) = take (off' - (off + 4)) (drop (off + 4) b)" by simp
    have "concat (map run_bytes runs) = take 4 (drop off b) @ take (off' - (off + 4)) (drop (off + 4) b)"
      using ih room by (simp add: runs run_bytes_def bytes_u32)
    also have "\<dots> = take (4 + (off' - (off + 4))) (drop off b)" by (simp add: take_add add.commute)
    also have "4 + (off' - (off + 4)) = off' - off" using ih by linarith
    finally have "concat (map run_bytes runs) = take (off' - off) (drop off b)" .
    moreover have "run_ok width \<lparr>mn_Status = ?st, mn_Outputs = []\<rparr>" using False by (simp add: run_ok_def)
    ultimately show ?thesis using ih by (simp add: runs)
  qed
qed auto

lemma decode_rows_written:
  "list_all (run_ok width) runs \<Longrightarrow> take (length (concat (map run_bytes runs))) (drop off b) = concat (map run_bytes runs) \<Longrightarrow>
     off + length (concat (map run_bytes runs)) \<le> length b \<Longrightarrow>
     decode_rows b width i (length runs) off = Inr (runs, off + length (concat (map run_bytes runs)))"
proof (induction runs arbitrary: i off)
  case (Cons r runs)
  let ?ws = "mn_Outputs r" and ?rest = "concat (map run_bytes runs)"
  have len: "length (run_bytes r) = 4 + 8 * length ?ws" by (simp add: run_bytes_def)
  have room: "off + 4 + 8 * length ?ws + length ?rest \<le> length b" using Cons.prems(3) len by simp
  have "take (4 + (8 * length ?ws + length ?rest)) (drop off b) = le_bytes 4 (unat (mn_Status r)) @ out_bytes ?ws @ ?rest"
    using Cons.prems(2) by (simp add: run_bytes_def [of r] add.assoc)
  then have parts: "take 4 (drop off b) = le_bytes 4 (unat (mn_Status r))"
      "take (8 * length ?ws) (drop (off + 4) b) = out_bytes ?ws" "take (length ?rest) (drop (off + 4 + 8 * length ?ws) b) = ?rest"
    using room unfolding take_add by (simp_all add: add.commute add.left_commute)
  have st: "word_of_nat (u32_at b off) = mn_Status r"
    using u32_at_bytes [OF parts(1) unat_32] by simp
  have ok: "length ?ws = nat (sint (mn_Status r)) * width" "list_all (run_ok width) runs" using Cons.prems(1) by (simp_all add: run_ok_def [of _ r])
  have ih: "decode_rows b width j (length runs) (off + 4 + 8 * length ?ws) = Inr (runs, off + 4 + 8 * length ?ws + length ?rest)" for j
    using room by (intro Cons.IH ok(2) parts(3)) simp
  show ?case
  proof (cases "sint (mn_Status r) > 0")
    case True
    have c: "sint (mn_Status r) * int width = int (length ?ws)" using True ok(1) by simp
    have o: "map (\<lambda>k. word_of_nat (u64_at b (off + 4 + 8 * k))) [0..<length ?ws] = ?ws"
      using room by (intro read_outputs_eq parts(2)) simp
    have "decode_rows b width i (length (r # runs)) off = Inr (\<lparr>mn_Status = mn_Status r, mn_Outputs = ?ws\<rparr> # runs, off + 4 + 8 * length ?ws + length ?rest)"
      using True room ih [of "i + 1"] by (simp add: st c o Let_def mult.commute [of "length ?ws"])
    then show ?thesis by (simp add: len)
  next
    case False
    then have "?ws = []" using ok(1) by simp
    with False room ih [of "i + 1"] have "decode_rows b width i (length (r # runs)) off = Inr (\<lparr>mn_Status = mn_Status r, mn_Outputs = ?ws\<rparr> # runs, off + 4 + length ?rest)"
      by (simp add: st Let_def)
    then show ?thesis using \<open>?ws = []\<close> by (simp add: len)
  qed
qed simp

lemma header_parts:
  assumes "length b \<ge> 20" "take 4 b = magic"
  shows "b = magic @ le_bytes 4 (u32_at b 4) @ le_bytes 4 (u32_at b 8) @ le_bytes 4 (u32_at b 12) @ le_bytes 4 (u32_at b 16) @ drop 20 b"
proof -
  have "b = take 4 b @ take 4 (drop 4 b) @ take 4 (drop 8 b) @ take 4 (drop 12 b) @ take 4 (drop 16 b) @ drop 20 b"
    using append_take_drop_id [of 4 b] append_take_drop_id [of 4 "drop 4 b"] append_take_drop_id [of 4 "drop 8 b"]
      append_take_drop_id [of 4 "drop 12 b"] append_take_drop_id [of 4 "drop 16 b"] by simp
  then show ?thesis using assms by (simp add: bytes_u32)
qed

lemma length_magic [simp]: "length magic = 4"
  by (simp add: magic_def)

lemma header_read:
  assumes "b = magic @ le_bytes 4 v @ le_bytes 4 n @ le_bytes 4 w @ le_bytes 4 p @ rest" "v < 2 ^ 32" "n < 2 ^ 32" "w < 2 ^ 32" "p < 2 ^ 32"
  shows "take 4 b = magic" "u32_at b 4 = v" "u32_at b 8 = n" "u32_at b 12 = w" "u32_at b 16 = p" "drop 20 b = rest" "length b = 20 + length rest"
proof -
  show "take 4 b = magic" "drop 20 b = rest" "length b = 20 + length rest" by (simp_all add: assms(1))
  show "u32_at b 4 = v" "u32_at b 8 = n" "u32_at b 12 = w" "u32_at b 16 = p"
    using assms(2-5) by (auto intro!: u32_at_bytes simp: assms(1))
qed

text \<open>C29: The parser of the worker's record accepts exactly the records. It returns rows and a width
  for a byte string if and only if that string is the record of those rows at that width, for the
  number of rows and parameters the request had, with a width in range and every row carrying its
  status times the width of outputs; so nothing a sandbox writes is read past its end, a row is
  never misread for another, and every record the worker can write for the request comes back whole.\<close>

theorem decode_is_exact:
  "DecodeModuleResults b rows params = Inr (runs, width) \<longleftrightarrow>
     b = result_bytes width params runs \<and> length runs = rows \<and> rows < 2 ^ 32 \<and> params < 2 ^ 32 \<and>
     0 < width \<and> width \<le> maxModuleOutputWidth \<and> list_all (run_ok width) runs"
proof
  assume d: "DecodeModuleResults b rows params = Inr (runs, width)"
  then have h: "length b \<ge> 20" "take 4 b = magic" "u32_at b 4 = 1" "u32_at b 8 = rows" "u32_at b 16 = params" "u32_at b 12 = width"
      "0 < width" "width \<le> maxModuleOutputWidth" "decode_rows b width 0 rows 20 = Inr (runs, length b)"
    by (auto simp: DecodeModuleResults_def moduleResultHeader_def moduleResultVersion_def split: if_splits sum.splits prod.splits)
  from decode_rows_reads [OF h(9) h(1)] have r: "length runs = rows" "list_all (run_ok width) runs" "concat (map run_bytes runs) = drop 20 b"
    by simp_all
  have "u32_at b off < 2 ^ 32" for off using unat_32 [of "word_of_nat (u32_at b off)"] by simp
  with h(4,5) have "rows < 2 ^ 32" "params < 2 ^ 32" by (metis, metis)
  moreover have "b = result_bytes width params runs"
    using header_parts [OF h(1,2)] by (simp add: h result_bytes_def r moduleResultVersion_def)
  ultimately show "b = result_bytes width params runs \<and> length runs = rows \<and> rows < 2 ^ 32 \<and> params < 2 ^ 32 \<and>
     0 < width \<and> width \<le> maxModuleOutputWidth \<and> list_all (run_ok width) runs" using h r by simp
next
  assume a: "b = result_bytes width params runs \<and> length runs = rows \<and> rows < 2 ^ 32 \<and> params < 2 ^ 32 \<and>
     0 < width \<and> width \<le> maxModuleOutputWidth \<and> list_all (run_ok width) runs"
  let ?rest = "concat (map run_bytes runs)"
  have w: "width < 2 ^ 32" using a by (simp add: maxModuleOutputWidth_def)
  have b: "b = magic @ le_bytes 4 1 @ le_bytes 4 rows @ le_bytes 4 width @ le_bytes 4 params @ ?rest"
    using a by (auto simp: result_bytes_def moduleResultVersion_def)
  note h = header_read [OF b _ _ w]
  have "decode_rows b width 0 (length runs) 20 = Inr (runs, 20 + length ?rest)"
    using a h by (intro decode_rows_written) simp_all
  then show "DecodeModuleResults b rows params = Inr (runs, width)"
    using a h by (simp add: DecodeModuleResults_def moduleResultHeader_def moduleResultVersion_def)
qed

lemma validated:
  assumes "ValidateModuleRequest r = None"
  shows "moduleIDPattern (mr_Model r)" "mr_Rows r \<noteq> []" "length (mr_Rows r) \<le> MaxModuleRows"
    "\<forall>row \<in> set (mr_Rows r). length row = RowWidth r \<and> list_all finite_value row" "0 < RowWidth r" "RowWidth r \<le> MaxModuleRowWidth"
    "positive_finite (float_of (mr_EndTime r))" "positive_finite (float_of (mr_Step r))" "step_quotient r \<le> of_int MaxModuleSteps"
    "int moduleResultHeader + int (length (mr_Rows r)) * (4 + 8 * MaxSteps r) \<le> MaxModuleResultBytes"
  using assms by (auto simp: ValidateModuleRequest_def validateModuleRequest_def list_all_iff)

lemma positive_value: "positive_finite x \<Longrightarrow> 0 < value_of x"
  by (cases x) auto

lemma result_length: "length (result_bytes width params runs) = 20 + sum_list (map (\<lambda>r. 4 + 8 * length (mn_Outputs r)) runs)"
proof -
  have "length (run_bytes r) = 4 + 8 * length (mn_Outputs r)" for r by (simp add: run_bytes_def)
  then show ?thesis by (simp add: result_bytes_def length_concat comp_def)
qed

text \<open>A table that passes the check cannot overrun the result budget at one output per step:
  whatever each row's instance does within its step bound, the record stays within the budget. The
  step bound itself is between 2 and a million and two, every row has the same width of finite
  values, and the model's name has no path separator and does not start with a dot, so the image's
  file for it stays in its directory.\<close>

theorem valid_tables_fit:
  assumes "ValidateModuleRequest r = None" and "length runs = length (mr_Rows r)"
    and "\<forall>run \<in> set runs. run_ok 1 run \<and> sint (mn_Status run) \<le> MaxSteps r"
  shows "int (length (result_bytes 1 params runs)) \<le> MaxModuleResultBytes \<and> 2 \<le> MaxSteps r \<and> MaxSteps r \<le> MaxModuleSteps + 2 \<and>
    (\<forall>row \<in> set (mr_Rows r). length row = RowWidth r \<and> list_all finite_value row) \<and>
    CHR ''/'' \<notin> set (mr_Model r) \<and> mr_Model r \<noteq> '''' \<and> hd (mr_Model r) \<noteq> CHR ''.''"
proof -
  note v = validated [OF assms(1)]
  have q: "0 \<le> step_quotient r"
    using positive_value [OF v(7)] positive_value [OF v(8)] f64_mono [of 0] by (simp add: step_quotient_def f_div_def f64_def [of 0])
  then have steps: "2 \<le> MaxSteps r" by (simp add: MaxSteps_def)
  moreover have "\<lfloor>step_quotient r\<rfloor> \<le> MaxModuleSteps" using v(9) by (simp add: floor_le_iff)
  then have "MaxSteps r \<le> MaxModuleSteps + 2" by (simp add: MaxSteps_def)
  moreover have "int (length (result_bytes 1 params runs)) \<le> MaxModuleResultBytes"
  proof -
    have each: "int (4 + 8 * length (mn_Outputs run)) \<le> 4 + 8 * MaxSteps r" if "run \<in> set runs" for run
      using assms(3) that steps by (auto simp: run_ok_def)
    have "int (sum_list (map (\<lambda>r. 4 + 8 * length (mn_Outputs r)) xs)) \<le> int (length xs) * (4 + 8 * MaxSteps r)" if "set xs \<subseteq> set runs" for xs
      using that
    proof (induction xs)
      case (Cons x xs)
      then show ?case using each [of x] by (simp add: algebra_simps)
    qed simp
    from this [of runs] v(10) assms(2) show ?thesis by (simp add: result_length moduleResultHeader_def)
  qed
  moreover have "CHR ''/'' \<notin> set (mr_Model r) \<and> mr_Model r \<noteq> '''' \<and> hd (mr_Model r) \<noteq> CHR ''.''"
  proof -
    have n: "\<not> is_alnum (CHR ''/'')" "\<not> is_alnum (CHR ''.'')" by code_simp+
    show ?thesis using v(1) n by (auto simp: moduleIDPattern_def list_all_iff split: list.splits)
  qed
  ultimately show ?thesis using v(4) by blast
qed

subsection \<open>Two rows\<close>

definition demo_runs :: "module_run list" where
  "demo_runs = [\<lparr>mn_Status = 2, mn_Outputs = [0x3FF0000000000000, 0x4000000000000000]\<rparr>, \<lparr>mn_Status = - 1, mn_Outputs = []\<rparr>]"

definition demo_module :: module_request where
  "demo_module = \<lparr>mr_Model = ''Lorenz'', mr_Rows = [[0x3FF0000000000000], [0x4000000000000000]], mr_EndTime = 0x4000000000000000,
     mr_Step = 0x3FF0000000000000, mr_Timeout = 0, mr_MinimumIsolation = IsolationUnknown, mr_Software = no_software_rule\<rparr>"

lemma demo_float: "float_of 0x4000000000000000 = Finite 2" "float_of 0x3FF0000000000000 = Finite 1"
  by (simp_all add: float_of_def pow2_def)

lemma demo_quotient: "step_quotient demo_module = 2"
  using f64_int [of 2] by (simp add: step_quotient_def demo_module_def demo_float f_div_def)

theorem valid_tables_fit_witness:
  "ValidateModuleRequest demo_module = None \<and> int (length (result_bytes 1 1 demo_runs)) \<le> MaxModuleResultBytes"
proof -
  have "is_alnum (CHR ''L'')" "list_all is_alnum ''orenz''" by code_simp+
  then have p: "moduleIDPattern ''Lorenz''" by (simp add: moduleIDPattern_def)
  have s: "MaxSteps demo_module = 4" by (simp add: MaxSteps_def demo_quotient)
  have v: "ValidateModuleRequest demo_module = None"
    using p s demo_quotient
    by (simp add: ValidateModuleRequest_def validateModuleRequest_def demo_module_def RowWidth_def finite_value_def demo_float isolation_defs
        validateMinimumIsolation_def MaxModuleRows_def MaxModuleRowWidth_def MaxModuleSteps_def MaxModuleResultBytes_def moduleResultHeader_def)
  have "\<forall>run \<in> set demo_runs. run_ok 1 run \<and> sint (mn_Status run) \<le> MaxSteps demo_module"
    unfolding s by (simp add: demo_runs_def run_ok_def)
  moreover have "length demo_runs = length (mr_Rows demo_module)" by (simp add: demo_runs_def demo_module_def)
  ultimately show ?thesis using valid_tables_fit [OF v] v by blast
qed

end
