(* ===== verification/Go_Json.thy ===== *)
theory Go_Json
  imports Go_Strings
begin

text \<open>
  \<open>encoding/json\<close> and \<open>encoding/base64\<close> as the program uses them: strings as
  \<open>json.Marshal\<close> writes them and unpadded URL-safe base64, each with a reader against which it is
  proved exact.
\<close>

subsection \<open>Strings\<close>

text \<open>\<open>json.Marshal\<close> of a string, rune by rune, with the HTML escapes it always makes.\<close>

abbreviation dquote :: char where "dquote \<equiv> CHR 0x22"
abbreviation backslash :: char where "backslash \<equiv> CHR 0x5C"

definition hex_lower :: "nat \<Rightarrow> char" where
  "hex_lower n = ''0123456789abcdef'' ! n"

definition json_ascii :: "char \<Rightarrow> string" where
  "json_ascii c =
     (if c = dquote \<or> c = backslash then [backslash, c]
      else if byte c = 8 then [backslash, CHR ''b'']
      else if byte c = 12 then [backslash, CHR ''f'']
      else if byte c = 10 then [backslash, CHR ''n'']
      else if byte c = 13 then [backslash, CHR ''r'']
      else if byte c = 9 then [backslash, CHR ''t'']
      else if byte c < 32 \<or> c \<in> set ''<>&''
        then backslash # ''u00'' @ [hex_lower (byte c div 16), hex_lower (byte c mod 16)]
      else [c])"

definition json_rune :: "string \<Rightarrow> string" where
  "json_rune r = (case r of
     [c] \<Rightarrow> if byte c < 128 then json_ascii c else backslash # ''ufffd''
   | [a, b, c] \<Rightarrow>
       if byte a = 226 \<and> byte b = 128 \<and> (byte c = 168 \<or> byte c = 169)
       then backslash # ''u202'' @ [hex_lower (byte c mod 16)] else r
   | _ \<Rightarrow> r)"

definition json_quote :: "string \<Rightarrow> string" where
  "json_quote s = dquote # concat (map json_rune (runes s)) @ [dquote]"

text \<open>How JavaScript and JSON read the rest of a string literal: its value and what follows it.
  A code point of an escape is below 65536.\<close>

definition utf8_enc :: "nat \<Rightarrow> string" where
  "utf8_enc n =
     (if n < 128 then [char_of n]
      else if n < 2048 then [char_of (192 + n div 64), char_of (128 + n mod 64)]
      else [char_of (224 + n div 4096), char_of (128 + n div 64 mod 64), char_of (128 + n mod 64)])"

definition hex_pos :: "char \<Rightarrow> nat option" where
  "hex_pos c = (if is_digit c then Some (byte c - 48) else if 97 \<le> byte c \<and> byte c \<le> 102 then Some (byte c - 87) else None)"

definition short_escape :: "char \<Rightarrow> char option" where
  "short_escape e = map_of [(dquote, dquote), (backslash, backslash), (CHR ''b'', CHR 0x08), (CHR ''f'', CHR 0x0C),
     (CHR ''n'', CHR 0x0A), (CHR ''r'', CHR 0x0D), (CHR ''t'', CHR 0x09)] e"

definition before :: "string \<Rightarrow> (string \<times> string) option \<Rightarrow> (string \<times> string) option" where
  "before r res = map_option (\<lambda>(v, t). (r @ v, t)) res"

lemma before_Nil [simp]: "before [] res = res"
  by (cases res) (auto simp: before_def)

lemma before_before [simp]: "before r (before r' res) = before (r @ r') res"
  by (cases res) (auto simp: before_def)

fun read_lit :: "string \<Rightarrow> (string \<times> string) option" where
  "read_lit [] = None"
| "read_lit (c # cs) =
     (if c = dquote then Some ([], cs)
      else if byte c < 32 then None
      else if c \<noteq> backslash then before [c] (read_lit cs)
      else case cs of
             [] \<Rightarrow> None
           | e # cs \<Rightarrow>
               if e = CHR ''u'' then
                 (case cs of
                    h3 # h2 # h1 # h0 # cs \<Rightarrow>
                      (case (hex_pos h3, hex_pos h2, hex_pos h1, hex_pos h0) of
                         (Some d3, Some d2, Some d1, Some d0) \<Rightarrow>
                           before (utf8_enc (d3 * 4096 + d2 * 256 + d1 * 16 + d0)) (read_lit cs)
                       | _ \<Rightarrow> None)
                  | _ \<Rightarrow> None)
               else (case short_escape e of None \<Rightarrow> None | Some x \<Rightarrow> before [x] (read_lit cs)))"

lemma hex_pos_digit: "n < 16 \<Longrightarrow> hex_pos (hex_lower n) = Some n"
proof -
  have "list_all (\<lambda>n. hex_pos (hex_lower n) = Some n) [0..<16]" by code_simp
  then show "n < 16 \<Longrightarrow> hex_pos (hex_lower n) = Some n" by (simp add: list_all_iff)
qed

lemma read_plain:
  "\<forall>c \<in> set r. 32 \<le> byte c \<and> c \<noteq> dquote \<and> c \<noteq> backslash \<Longrightarrow>
     read_lit (r @ rest) = before r (read_lit rest)"
proof (induction r)
  case (Cons c r)
  then have "read_lit (c # r @ rest) = before [c] (read_lit (r @ rest))" by (subst read_lit.simps) auto
  with Cons show ?case by simp
qed simp

lemma byte_eq: "byte c = byte d \<Longrightarrow> c = d"
  by (metis char_of_char)

lemma read_ascii: "byte c < 128 \<Longrightarrow> read_lit (json_ascii c @ rest) = before [c] (read_lit rest)"
proof -
  assume a: "byte c < 128"
  have e: "c = char_of (byte c)" by simp
  consider "c = dquote \<or> c = backslash" | "byte c \<in> {8, 9, 10, 12, 13}"
    | "c \<noteq> dquote" "c \<noteq> backslash" "byte c \<notin> {8, 9, 10, 12, 13}" "byte c < 32 \<or> c \<in> set ''<>&''"
    | "c \<noteq> dquote" "c \<noteq> backslash" "32 \<le> byte c" "c \<notin> set ''<>&''"
    by fastforce
  then show ?thesis
  proof cases
    case 1
    then show ?thesis by (auto simp: json_ascii_def short_escape_def)
  next
    case 2
    then have "c = CHR 0x08 \<or> c = CHR 0x09 \<or> c = CHR 0x0A \<or> c = CHR 0x0C \<or> c = CHR 0x0D"
      by (auto intro: byte_eq)
    then show ?thesis by (elim disjE) (simp_all add: json_ascii_def short_escape_def)
  next
    case 3
    then have j: "json_ascii c = backslash # ''u00'' @ [hex_lower (byte c div 16), hex_lower (byte c mod 16)]"
      by (auto simp: json_ascii_def)
    have z: "hex_pos (CHR ''0'') = Some 0" by code_simp
    have "byte c div 16 < 16" using a by simp
    then show ?thesis
      using a by (simp add: j z hex_pos_digit utf8_enc_def)
  next
    case 4
    then have "json_ascii c = [c]" by (auto simp: json_ascii_def)
    then show ?thesis using 4 read_plain [of "[c]" rest] by simp
  qed
qed

lemma rune_high: "rune_len s > 1 \<Longrightarrow> c \<in> set (take (rune_len s) s) \<Longrightarrow> 128 \<le> byte c"
  by (induction s rule: rune_len.induct) (auto simp: is_cont_def split: if_splits)

lemma runes_high: "r \<in> set (runes s) \<Longrightarrow> length r > 1 \<Longrightarrow> \<forall>c \<in> set r. 128 \<le> byte c"
proof (induction s rule: runes.induct)
  case (2 b bs)
  then show ?case using rune_high [of "b # bs"] by (auto simp: min_def split: if_splits)
qed simp

lemma read_rune:
  assumes "r \<in> set (runes s)" and "valid_rune r"
  shows "read_lit (json_rune r @ rest) = before r (read_lit rest)"
proof (cases "length r > 1")
  case False
  with assms(2) obtain c where "r = [c]" "byte c < 128" by (auto simp: valid_rune_def)
  then show ?thesis by (simp add: json_rune_def read_ascii)
next
  case True
  then have h: "\<forall>c \<in> set r. 128 \<le> byte c" by (rule runes_high [OF assms(1)])
  show ?thesis
  proof (cases "\<exists>a b c. r = [a, b, c] \<and> byte a = 226 \<and> byte b = 128 \<and> (byte c = 168 \<or> byte c = 169)")
    case True
    then obtain a b c where r: "r = [a, b, c]" "byte a = 226" "byte b = 128" "byte c = 168 \<or> byte c = 169" by blast
    have v: "hex_pos (CHR ''2'') = Some 2" "hex_pos (CHR ''0'') = Some 0" by code_simp+
    have "a = char_of (226 :: nat)" "b = char_of (128 :: nat)" "c = char_of (168 :: nat) \<or> c = char_of (169 :: nat)"
      using r(2,3,4) by (auto intro: byte_eq)
    then show ?thesis using r by (auto simp: json_rune_def v hex_pos_digit utf8_enc_def)
  next
    case False
    then have "json_rune r = r" using \<open>length r > 1\<close> by (auto simp: json_rune_def split: list.splits)
    moreover have "\<forall>c \<in> set r. 32 \<le> byte c \<and> c \<noteq> dquote \<and> c \<noteq> backslash" using h by fastforce
    ultimately show ?thesis using read_plain by simp
  qed
qed

lemma read_runes:
  "\<forall>r \<in> set rs. r \<in> set (runes s) \<and> valid_rune r \<Longrightarrow>
     read_lit (concat (map json_rune rs) @ rest) = before (concat rs) (read_lit rest)"
  by (induction rs) (simp_all add: read_rune [of _ s])

lemma read_quote:
  assumes "valid_utf8 s"
  shows "\<exists>lit. json_quote s @ rest = dquote # lit \<and> read_lit lit = Some (s, rest)"
proof -
  have "read_lit (concat (map json_rune (runes s)) @ dquote # rest) = Some (s, rest)"
    using read_runes [of "runes s" s "dquote # rest"] assms
    by (simp add: valid_utf8_def list_all_iff concat_runes before_def)
  then show ?thesis by (simp add: json_quote_def)
qed

subsection \<open>Base64\<close>

text \<open>\<open>base64.RawURLEncoding\<close>: three bytes are four digits, the last one or two bytes two or three,
  with no padding.\<close>

definition b64_alphabet :: string where
  "b64_alphabet = ''ABCDEFGHIJKLMNOPQRSTUVWXYZabcdefghijklmnopqrstuvwxyz0123456789-_''"

definition b64_digit :: "nat \<Rightarrow> char" where
  "b64_digit n = b64_alphabet ! n"

fun b64url :: "string \<Rightarrow> string" where
  "b64url [] = []"
| "b64url [a] = [b64_digit (byte a div 4), b64_digit (byte a mod 4 * 16)]"
| "b64url [a, b] = [b64_digit (byte a div 4), b64_digit (byte a mod 4 * 16 + byte b div 16), b64_digit (byte b mod 16 * 4)]"
| "b64url (a # b # c # s) =
     [b64_digit (byte a div 4), b64_digit (byte a mod 4 * 16 + byte b div 16),
      b64_digit (byte b mod 16 * 4 + byte c div 64), b64_digit (byte c mod 64)] @ b64url s"

text \<open>Its reader.\<close>

definition b64_value :: "char \<Rightarrow> nat option" where
  "b64_value c =
     (if is_upper c then Some (byte c - 65) else if is_lower c then Some (byte c - 71) else if is_digit c then Some (byte c + 4)
      else if c = CHR ''-'' then Some 62 else if c = CHR ''_'' then Some 63 else None)"

fun unb64 :: "string \<Rightarrow> string option" where
  "unb64 [] = Some []"
| "unb64 [_] = None"
| "unb64 [p, q] = (case (b64_value p, b64_value q) of
     (Some p, Some q) \<Rightarrow> Some [char_of (p * 4 + q div 16)] | _ \<Rightarrow> None)"
| "unb64 [p, q, r] = (case (b64_value p, b64_value q, b64_value r) of
     (Some p, Some q, Some r) \<Rightarrow> Some [char_of (p * 4 + q div 16), char_of (q mod 16 * 16 + r div 4)] | _ \<Rightarrow> None)"
| "unb64 (p # q # r # t # s) = (case (b64_value p, b64_value q, b64_value r, b64_value t, unb64 s) of
     (Some p, Some q, Some r, Some t, Some s) \<Rightarrow>
       Some ([char_of (p * 4 + q div 16), char_of (q mod 16 * 16 + r div 4), char_of (r mod 4 * 64 + t)] @ s)
   | _ \<Rightarrow> None)"

lemma b64_digits:
  "n < 64 \<Longrightarrow> b64_value (b64_digit n) = Some n \<and> 33 \<le> byte (b64_digit n) \<and> byte (b64_digit n) \<le> 126 \<and> b64_digit n \<noteq> CHR ''.''"
proof -
  have "list_all (\<lambda>n. b64_value (b64_digit n) = Some n \<and> 33 \<le> byte (b64_digit n) \<and> byte (b64_digit n) \<le> 126 \<and> b64_digit n \<noteq> CHR ''.'') [0..<64]"
    by code_simp
  then show "n < 64 \<Longrightarrow> ?thesis" by (simp add: list_all_iff)
qed

lemma byte_parts [simp]:
  fixes c :: char
  shows "byte c div 4 < 64" "byte c div 16 < 16" "byte c div 64 < 4"
    "byte c div 16 div 16 = 0" "byte c div 64 div 4 = 0" "byte c div 16 mod 16 = byte c div 16" "byte c div 64 mod 4 = byte c div 64"
  by (simp_all add: less_mult_imp_div_less div_mult2_eq [symmetric])

lemma b64_parts:
  fixes a b c :: char
  shows "byte a div 4 < 64" "byte a mod 4 * 16 < 64" "byte a mod 4 * 16 + byte b div 16 < 64"
    "byte b mod 16 * 4 < 64" "byte b mod 16 * 4 + byte c div 64 < 64" "byte c mod 64 < 64"
proof -
  have "byte a mod 4 < 4" "byte b mod 16 < 16" "byte b div 16 < 16" "byte c div 64 < 4" by simp_all
  then show "byte a div 4 < 64" "byte a mod 4 * 16 < 64" "byte a mod 4 * 16 + byte b div 16 < 64"
    "byte b mod 16 * 4 < 64" "byte b mod 16 * 4 + byte c div 64 < 64" "byte c mod 64 < 64"
    by (simp, linarith, linarith, linarith, linarith, simp)
qed

lemma unb64_b64url: "unb64 (b64url s) = Some s"
  by (induction s rule: b64url.induct) (simp_all add: b64_digits b64_parts)

lemma b64url_chars: "c \<in> set (b64url s) \<Longrightarrow> 33 \<le> byte c \<and> byte c \<le> 126 \<and> c \<noteq> CHR ''.''"
  by (induction s rule: b64url.induct) (auto simp: b64_digits b64_parts)

end
