(* ===== verification/Cell_Runs.thy ===== *)
theory Cell_Runs
  imports Requests Go_Json
begin

text \<open>
  A cell run by itself: \<open>sandbox/cell_fresh.go\<close> runs it in a sandbox made for it, and
  \<open>internal/rpc/onecall.go\<close> first tries a waiting member of the session pool. Providers and
  sessions are records of what their methods answer; each answer carries, beside what the source
  returns, whether code of the request was started, which no definition reads and the theorems
  are about. The six evidence fields that every result type has are one record.
\<close>

subsection \<open>What providers state and answer\<close>

record pay_env =
  pv_Identity :: string
  pv_SoftwareIdentity :: string
  pv_MaxTimeout :: duration
  pv_Languages :: "string list"

definition no_env :: pay_env where
  "no_env = \<lparr>pv_Identity = '''', pv_SoftwareIdentity = '''', pv_MaxTimeout = 0, pv_Languages = []\<rparr>"

record environments =
  en_JavaScript :: pay_env
  en_Project :: pay_env
  en_Module :: pay_env
  en_Policy :: string

definition SupportsLanguage :: "pay_env \<Rightarrow> string \<Rightarrow> bool" where
  "SupportsLanguage e l \<longleftrightarrow> l \<in> set (pv_Languages e)"

record evidence =
  ev_provider :: string
  ev_isolation :: isolation_class
  ev_software :: string
  ev_environment :: string
  ev_instance :: string
  ev_policy :: string

definition no_evidence :: "string \<Rightarrow> evidence" where
  "no_evidence name = \<lparr>ev_provider = name, ev_isolation = IsolationUnknown, ev_software = '''', ev_environment = '''',
     ev_instance = '''', ev_policy = ''''\<rparr>"

record js_result =
  jr_Stdout :: string
  jr_Stderr :: string
  jr_StdoutTruncated :: bool
  jr_StderrTruncated :: bool
  jr_ExitCode :: int
  jr_TimedOut :: bool
  jr_Duration :: duration
  jr_ev :: evidence

record sb_step =
  sb_Command :: string
  sb_Stdout :: string
  sb_Stderr :: string
  sb_StdoutTruncated :: bool
  sb_StderrTruncated :: bool
  sb_ExitCode :: int
  sb_TimedOut :: bool
  sb_Duration :: duration

datatype project_outcome =
    ProjectOutcomeUnspecified | ProjectOutcomeCompleted | ProjectOutcomeSetupFailed | ProjectOutcomeTimedOut
  | ProjectOutcomeProtocolError | ProjectOutcomeRunnerFailed

record project_result =
  pj_Steps :: "sb_step list"
  pj_Outcome :: project_outcome
  pj_Detail :: string
  pj_ev :: evidence

record cell_res =
  ce_Stdout :: string
  ce_Stderr :: string
  ce_StdoutTruncated :: bool
  ce_StderrTruncated :: bool
  ce_ExitCode :: int
  ce_TimedOut :: bool
  ce_InterpreterStarted :: bool
  ce_InterpreterEnded :: bool
  ce_Duration :: duration
  ce_Warm :: bool
  ce_ev :: evidence

definition no_cell :: "string \<Rightarrow> cell_res" where
  "no_cell name = \<lparr>ce_Stdout = '''', ce_Stderr = '''', ce_StdoutTruncated = False, ce_StderrTruncated = False, ce_ExitCode = 0,
     ce_TimedOut = False, ce_InterpreterStarted = False, ce_InterpreterEnded = False, ce_Duration = 0, ce_Warm = False,
     ce_ev = no_evidence name\<rparr>"

text \<open>A provider: \<open>None\<close> where it does not implement the optional interface.\<close>

record provider =
  sv_Name :: string
  sv_SupportsProjects :: "bool option"
  sv_Environments :: "environments option"
  sv_RunJavaScript :: "request \<Rightarrow> (js_result \<times> goerr option) \<times> bool"
  sv_RunProject :: "project_request \<Rightarrow> (project_result \<times> goerr option) \<times> bool"

definition runsProjects :: "provider \<Rightarrow> bool \<times> pay_env" where
  "runsProjects p =
     (if sv_SupportsProjects p \<noteq> Some True then (False, no_env)
      else case sv_Environments p of Some e \<Rightarrow> (True, en_Project e) | None \<Rightarrow> (True, no_env))"

subsection \<open>A cell as a project or a snippet\<close>

definition CellRunnerDir :: string where "CellRunnerDir = ''.plimsoll''"

record cell_runner =
  rn_code :: string
  rn_runner :: string
  rn_step :: string
  rn_source :: string

text \<open>The runners' sources are files embedded in the binary: \<open>py\<close> and \<open>js\<close>.\<close>

definition cellRunners :: "string \<Rightarrow> string \<Rightarrow> string \<Rightarrow> cell_runner" where
  "cellRunners py js lang =
     (if lang = ''python'' then \<lparr>rn_code = ''.plimsoll/cell.py'', rn_runner = ''.plimsoll/run.py'',
        rn_step = ''python3 -I .plimsoll/run.py'', rn_source = py\<rparr>
      else if lang = ''javascript'' then \<lparr>rn_code = ''.plimsoll/cell.js'', rn_runner = ''.plimsoll/run.cjs'',
        rn_step = ''node --expose-internals .plimsoll/run.cjs'', rn_source = js\<rparr>
      else \<lparr>rn_code = '''', rn_runner = '''', rn_step = '''', rn_source = ''''\<rparr>)"

definition snippet_head :: string where
  "snippet_head = join_with CHR 0x0A [
     ''(() => {'',
     ''  const show = (v) => {'',
     ''    if (typeof require === '' @ [dquote] @ ''function'' @ [dquote] @ '') { try { return require('' @ [dquote] @ ''node:util''
       @ [dquote] @ '').inspect(v, { depth: 4 }); } catch (_) {} }'',
     ''    try { const s = JSON.stringify(v); if (s !== undefined) return s; } catch (_) {}'',
     ''    return String(v);'',
     ''  };'',
     ''  const v = (0, eval)('']"

definition snippet_tail :: string where
  "snippet_tail = join_with CHR 0x0A ['');'',
     ''  Promise.resolve(v).then((v) => { if (v !== undefined) console.log(show(v)); });'', ''})();'', '''']"

definition SnippetCell :: "string \<Rightarrow> string" where
  "SnippetCell code = snippet_head @ json_quote code @ snippet_tail"

subsection \<open>A sandbox made for the cell\<close>

definition under_runner_dir :: "project_file \<Rightarrow> bool" where
  "under_runner_dir f \<longleftrightarrow> f_Path f = CellRunnerDir \<or> has_prefix (f_Path f) (CellRunnerDir @ ''/'')"

definition CheckRunCell :: "provider \<Rightarrow> cell_request \<Rightarrow> goerr option" where
  "CheckRunCell p req =
     or_err (ValidateCellRequest req)
     (or_err (guard_err (list_ex under_runner_dir (cr_Files req)) (NotDispatchedError RefusalRequest invalid_request))
     (case runsProjects p of (projects, env) \<Rightarrow>
        if projects \<and> (pv_Languages env = [] \<or> SupportsLanguage env (cr_Language req)) then None
        else if projects then Some (NotDispatchedError RefusalUnsupported (Wrap [Sentinel ErrUnsupported]))
        else if cr_Language req \<noteq> ''javascript'' then Some (NotDispatchedError RefusalUnsupported (Wrap [Sentinel ErrUnsupported]))
        else if cr_Files req \<noteq> [] then Some (NotDispatchedError RefusalUnsupported (Wrap [Sentinel ErrUnsupported]))
        else None))"

definition cellTimedOut :: int where "cellTimedOut = 124"

definition fresh_snippet :: "cell_request \<Rightarrow> request" where
  "fresh_snippet req = \<lparr>rq_Code = SnippetCell (cr_Code req), rq_Timeout = cr_Timeout req,
     rq_MinimumIsolation = cr_MinimumIsolation req, rq_Software = cr_Software req\<rparr>"

definition fresh_project :: "string \<Rightarrow> string \<Rightarrow> cell_request \<Rightarrow> project_request" where
  "fresh_project py js req =
     (let r = cellRunners py js (cr_Language req)
      in \<lparr>pr_Files = cr_Files req @ [\<lparr>f_Path = rn_code r, f_Content = cr_Code req\<rparr>, \<lparr>f_Path = rn_runner r, f_Content = rn_source r\<rparr>],
          pr_Steps = [rn_step r], pr_Timeout = cr_Timeout req, pr_Artifacts = [],
          pr_MinimumIsolation = cr_MinimumIsolation req, pr_Software = cr_Software req\<rparr>)"

definition of_snippet :: "js_result \<Rightarrow> cell_res" where
  "of_snippet res = \<lparr>ce_Stdout = jr_Stdout res, ce_Stderr = jr_Stderr res, ce_StdoutTruncated = jr_StdoutTruncated res,
     ce_StderrTruncated = jr_StderrTruncated res, ce_ExitCode = (if jr_TimedOut res then cellTimedOut else jr_ExitCode res),
     ce_TimedOut = jr_TimedOut res, ce_InterpreterStarted = True, ce_InterpreterEnded = True, ce_Duration = jr_Duration res,
     ce_Warm = False, ce_ev = jr_ev res\<rparr>"

text \<open>The answer from a project's result; \<open>took\<close> is the clock's.\<close>

definition of_project :: "duration \<Rightarrow> project_result \<Rightarrow> cell_res \<times> goerr option" where
  "of_project took res =
     (let out = (no_cell '''')\<lparr>ce_InterpreterStarted := True, ce_InterpreterEnded := True, ce_Duration := took, ce_ev := pj_ev res\<rparr>
      in case pj_Steps res of
           [] \<Rightarrow>
             (case pj_Outcome res of
                ProjectOutcomeTimedOut \<Rightarrow> (out\<lparr>ce_ExitCode := cellTimedOut, ce_TimedOut := True\<rparr>, None)
              | ProjectOutcomeSetupFailed \<Rightarrow> (out, Some (NotDispatchedError RefusalRequest invalid_request))
              | _ \<Rightarrow> (out, Some (Opaque 0)))
         | st # _ \<Rightarrow>
             let timedOut = sb_TimedOut st \<or> pj_Outcome res = ProjectOutcomeTimedOut
             in (out\<lparr>ce_Stdout := sb_Stdout st, ce_Stderr := sb_Stderr st, ce_StdoutTruncated := sb_StdoutTruncated st,
                     ce_StderrTruncated := sb_StderrTruncated st, ce_ExitCode := (if timedOut then cellTimedOut else sb_ExitCode st),
                     ce_TimedOut := timedOut\<rparr>, None))"

definition RunCellFresh :: "string \<Rightarrow> string \<Rightarrow> duration \<Rightarrow> provider \<Rightarrow> cell_request \<Rightarrow> (cell_res \<times> goerr option) \<times> bool" where
  "RunCellFresh py js took p req =
     (case CheckRunCell p req of
        Some e \<Rightarrow> ((no_cell (sv_Name p), Some e), False)
      | None \<Rightarrow>
          if \<not> fst (runsProjects p)
          then (case sv_RunJavaScript p (fresh_snippet req) of ((res, err), started) \<Rightarrow> ((of_snippet res, err), started))
          else (case sv_RunProject p (fresh_project py js req) of
                  ((res, Some e), started) \<Rightarrow>
                    (((no_cell '''')\<lparr>ce_InterpreterStarted := True, ce_InterpreterEnded := True, ce_Duration := took, ce_ev := pj_ev res\<rparr>, Some e), started)
                | ((res, None), started) \<Rightarrow> (of_project took res, started)))"

subsection \<open>A waiting member of the pool\<close>

record session_options =
  so_MinimumIsolation :: isolation_class
  so_Lifetime :: duration
  so_DiskBytes :: int
  so_Languages :: "string list"
  so_WarmOnly :: bool

record pool_session =
  ps_Environments :: environments
  ps_Isolation :: isolation_class
  ps_RunCell :: "cell_request \<Rightarrow> (cell_res \<times> goerr option) \<times> bool"
  ps_Close :: "goerr option"

record session_provider =
  sq_SupportsSessions :: bool
  sq_SessionEnvironments :: environments
  sq_OpenSession :: "session_options \<Rightarrow> goerr + pool_session"

record session_settings =
  ss_MaxSessions :: int
  ss_Lifetime :: duration
  ss_DiskBytes :: int
  ss_Pool :: int

definition sessionProvider :: "session_provider option \<Rightarrow> session_settings \<Rightarrow> session_provider option" where
  "sessionProvider sp c = (case sp of None \<Rightarrow> None
     | Some p \<Rightarrow> if \<not> sq_SupportsSessions p \<or> ss_MaxSessions c \<le> 0 \<or> ss_Lifetime c \<le> 0 then None else Some p)"

definition maxRunTimeout :: duration where "maxRunTimeout = 5 * minute"
definition oneCallMargin :: duration where "oneCallMargin = minute"

definition fitsCell :: "environments \<Rightarrow> cell_request \<Rightarrow> bool" where
  "fitsCell env req \<longleftrightarrow>
     (SupportsLanguage (en_JavaScript env) (cr_Language req) \<or> SupportsLanguage (en_Project env) (cr_Language req)) \<and>
     software_Check (cr_Software req) (pv_SoftwareIdentity (en_JavaScript env)) = None \<and>
     software_Check (cr_Software req) (pv_SoftwareIdentity (en_Project env)) = None"

definition cell_budget :: "environments \<Rightarrow> cell_request \<Rightarrow> duration" where
  "cell_budget stated req =
     (let budget = cr_Timeout req;
          budget = (if budget \<le> 0 then pv_MaxTimeout (en_Project stated) else budget)
      in if budget \<le> 0 \<or> budget > maxRunTimeout then maxRunTimeout else budget)"

definition refuse_gave_up :: "sentinel \<Rightarrow> goerr" where
  "refuse_gave_up e = NotDispatchedError RefusalCapacity (Sentinel e)"

text \<open>What a call does with sandboxes, in order. The last three of a member are the deferred
  goroutine's, which runs beside a fresh run: \<open>Close\<close> with the error it gave, the return of
  \<open><-sess.Done()\<close>, and the end of the hold. A member whose close failed is gone when its
  lifetime ends, and only then is the hold given back.\<close>

datatype cell_event =
    Opened session_options pool_session | Holding | SentCell | CloseMember "goerr option" | MemberGone | Unheld | RanFresh

definition one_call_options :: "session_settings \<Rightarrow> environments \<Rightarrow> string list \<Rightarrow> cell_request \<Rightarrow> session_options" where
  "one_call_options c stated languages req = \<lparr>so_MinimumIsolation = cr_MinimumIsolation req,
     so_Lifetime = min (ss_Lifetime c) (cell_budget stated req + oneCallMargin), so_DiskBytes = ss_DiskBytes c,
     so_Languages = languages, so_WarmOnly = True\<rparr>"

record warm_answer =
  wa_res :: cell_res
  wa_served :: bool
  wa_err :: "goerr option"
  wa_events :: "cell_event list"
  wa_ran :: bool

definition warm_miss :: warm_answer where
  "warm_miss = \<lparr>wa_res = no_cell '''', wa_served = False, wa_err = None, wa_events = [], wa_ran = False\<rparr>"

text \<open>The cell in an open member. \<open>ctx1\<close> and \<open>ctx2\<close> are \<open>ctx.Err()\<close> after the open and after the cell.\<close>

definition member_cell :: "sentinel option \<Rightarrow> sentinel option \<Rightarrow> pool_session \<Rightarrow> cell_request \<Rightarrow> warm_answer" where
  "member_cell ctx1 ctx2 s req =
     (case ctx1 of
        Some e \<Rightarrow> warm_miss\<lparr>wa_err := Some (refuse_gave_up e)\<rparr>
      | None \<Rightarrow>
          if \<not> fitsCell (ps_Environments s) req then warm_miss
          else if CheckMinimumIsolation (ps_Isolation s) (cr_MinimumIsolation req) \<noteq> None then warm_miss
          else case ps_RunCell s req of
            ((res, Some err), started) \<Rightarrow>
              (case not_dispatched_reason (Some err) of (reason, marked) \<Rightarrow>
                 if marked \<and> ctx2 = None \<and> (reason \<noteq> RefusalRequest \<or> err_is err ErrSessionEnded)
                 then warm_miss\<lparr>wa_events := [SentCell], wa_ran := started\<rparr>
                 else \<lparr>wa_res = res\<lparr>ce_Warm := True\<rparr>, wa_served = True, wa_err = Some err, wa_events = [SentCell], wa_ran = started\<rparr>)
          | ((res, None), started) \<Rightarrow>
              let ev = ce_ev res; proj = en_Project (ps_Environments s);
                  ev = (if ev_software ev = '''' then ev\<lparr>ev_software := pv_SoftwareIdentity proj\<rparr> else ev);
                  ev = (if ev_environment ev = '''' then ev\<lparr>ev_environment := pv_Identity proj\<rparr> else ev)
              in \<lparr>wa_res = res\<lparr>ce_Warm := True, ce_InterpreterStarted := True, ce_InterpreterEnded := True, ce_ev := ev\<rparr>,
                  wa_served = True, wa_err = None, wa_events = [SentCell], wa_ran = started\<rparr>)"

definition warmCell :: "session_provider option \<Rightarrow> session_settings \<Rightarrow> sentinel option \<Rightarrow> sentinel option \<Rightarrow> cell_request \<Rightarrow> warm_answer" where
  "warmCell sp c ctx1 ctx2 req =
     (case sessionProvider sp c of
        None \<Rightarrow> warm_miss
      | Some p \<Rightarrow>
          if ss_Pool c \<le> 0 then warm_miss
          else if \<not> fitsCell (sq_SessionEnvironments p) req then warm_miss
          else (case SessionLanguages [cr_Language req] (pv_Languages (en_Project (sq_SessionEnvironments p))) of
            Inl _ \<Rightarrow> warm_miss
          | Inr languages \<Rightarrow>
              let opts = one_call_options c (sq_SessionEnvironments p) languages req
              in case sq_OpenSession p opts of
                   Inl _ \<Rightarrow> (case ctx1 of Some e \<Rightarrow> warm_miss\<lparr>wa_err := Some (refuse_gave_up e)\<rparr> | None \<Rightarrow> warm_miss)
                 | Inr s \<Rightarrow>
                     let w = member_cell ctx1 ctx2 s req
                     in w\<lparr>wa_events := [Opened opts s, Holding] @ wa_events w @ [CloseMember (ps_Close s), MemberGone, Unheld]\<rparr>))"

text \<open>\<open>cellRun\<close> with the answer, the events, and whether code started in the member and in a fresh sandbox.\<close>

definition cellRun :: "string \<Rightarrow> string \<Rightarrow> duration \<Rightarrow> provider \<Rightarrow> session_provider option \<Rightarrow> session_settings \<Rightarrow> bool \<Rightarrow>
    sentinel option \<Rightarrow> sentinel option \<Rightarrow> cell_request \<Rightarrow> (cell_res \<times> goerr option) \<times> cell_event list \<times> bool \<times> bool" where
  "cellRun py js took p sp c preferWarm ctx1 ctx2 req =
     (let w = (if preferWarm then warmCell sp c ctx1 ctx2 req else warm_miss)
      in if wa_served w \<or> wa_err w \<noteq> None then ((wa_res w, wa_err w), wa_events w, wa_ran w, False)
         else case RunCellFresh py js took p req of (answer, started) \<Rightarrow> (answer, wa_events w @ [RanFresh], wa_ran w, started))"

subsection \<open>A cell is started at most once\<close>

text \<open>What providers and sessions promise (\<open>sandbox/dispatch.go\<close>): an error marked not dispatched,
  and a project whose setup failed with no step, started no code.\<close>

definition is_marked :: "goerr option \<Rightarrow> bool" where
  "is_marked e = snd (not_dispatched_reason e)"

definition honest_provider :: "provider \<Rightarrow> bool" where
  "honest_provider p \<longleftrightarrow>
     (\<forall>r res e. sv_RunJavaScript p r = ((res, e), True) \<longrightarrow> \<not> is_marked e) \<and>
     (\<forall>r res e. sv_RunProject p r = ((res, e), True) \<longrightarrow>
        \<not> is_marked e \<and> \<not> (e = None \<and> pj_Steps res = [] \<and> pj_Outcome res = ProjectOutcomeSetupFailed))"

definition honest_session :: "pool_session \<Rightarrow> bool" where
  "honest_session s \<longleftrightarrow> (\<forall>r res e. ps_RunCell s r = ((res, e), True) \<longrightarrow> \<not> is_marked e)"

definition honest_sessions :: "session_provider option \<Rightarrow> bool" where
  "honest_sessions sp \<longleftrightarrow> (\<forall>q o' s. sp = Some q \<longrightarrow> sq_OpenSession q o' = Inr s \<longrightarrow> honest_session s)"

lemma marked_simps [simp]:
  "\<not> is_marked None" "is_marked (Some (NotDispatchedError r e))" "\<not> is_marked (Some (Opaque n))"
  by (simp_all add: is_marked_def not_dispatched_reason_def)

lemma of_project_marked:
  assumes "of_project took res = (out, e)" and "is_marked e"
  shows "pj_Steps res = [] \<and> pj_Outcome res = ProjectOutcomeSetupFailed"
  using assms by (auto simp: of_project_def Let_def split: list.splits project_outcome.splits)

lemma fresh_honest:
  assumes "honest_provider p" and "RunCellFresh py js took p req = ((out, e), True)"
  shows "\<not> is_marked e"
proof
  assume m: "is_marked e"
  have none: "CheckRunCell p req = None" using assms(2) by (auto simp: RunCellFresh_def split: option.splits)
  show False
  proof (cases "fst (runsProjects p)")
    case False
    then obtain res where "sv_RunJavaScript p (fresh_snippet req) = ((res, e), True)"
      using assms(2) none by (auto simp: RunCellFresh_def split: prod.splits)
    then show False using assms(1) m by (auto simp: honest_provider_def)
  next
    case True
    obtain res e' b where r: "sv_RunProject p (fresh_project py js req) = ((res, e'), b)" by (metis prod.exhaust)
    show False
    proof (cases e')
      case (Some x)
      with r True none assms(2) have "e = Some x" "b" by (auto simp: RunCellFresh_def)
      with r Some assms(1) m show False by (auto simp: honest_provider_def)
    next
      case None
      with r True none assms(2) have "of_project took res = (out, e)" "b" by (auto simp: RunCellFresh_def)
      then have "pj_Steps res = [] \<and> pj_Outcome res = ProjectOutcomeSetupFailed" using of_project_marked [OF _ m] by blast
      with r None \<open>b\<close> assms(1) show False by (simp add: honest_provider_def) blast
    qed
  qed
qed

lemma member_cell_honest:
  assumes "honest_session s" and "wa_ran (member_cell ctx1 ctx2 s req)"
  shows "wa_served (member_cell ctx1 ctx2 s req) \<and> \<not> is_marked (wa_err (member_cell ctx1 ctx2 s req)) \<and>
    fitsCell (ps_Environments s) req \<and> CheckMinimumIsolation (ps_Isolation s) (cr_MinimumIsolation req) = None"
proof -
  have n: "ctx1 = None" and f: "fitsCell (ps_Environments s) req"
    and i: "CheckMinimumIsolation (ps_Isolation s) (cr_MinimumIsolation req) = None"
    using assms(2) by (auto simp: member_cell_def warm_miss_def split: option.splits if_splits)
  obtain res e b where r: "ps_RunCell s req = ((res, e), b)" by (metis prod.exhaust)
  have "b" using assms(2) n f i r
    by (cases e) (auto simp: member_cell_def warm_miss_def Let_def split: prod.splits if_splits)
  with r assms(1) have "\<not> is_marked e" by (auto simp: honest_session_def)
  with n f i r show ?thesis
    by (cases e) (auto simp: member_cell_def warm_miss_def Let_def is_marked_def split: prod.splits if_splits)
qed

text \<open>What is done to a member, besides the cell sent to it.\<close>

definition member_event :: "cell_event \<Rightarrow> bool" where
  "member_event e \<longleftrightarrow> e \<noteq> SentCell \<and> e \<noteq> RanFresh"

lemma member_event_simps [simp]:
  "member_event (Opened o' s)" "member_event Holding" "member_event (CloseMember x)" "member_event MemberGone" "member_event Unheld"
  "\<not> member_event SentCell" "\<not> member_event RanFresh"
  by (simp_all add: member_event_def)

lemma member_cell_events:
  "filter member_event (wa_events (member_cell ctx1 ctx2 s req)) = []"
  "filter (\<lambda>e. e = RanFresh) (wa_events (member_cell ctx1 ctx2 s req)) = []"
  "\<forall>o' s'. Opened o' s' \<notin> set (wa_events (member_cell ctx1 ctx2 s req))"
  by (auto simp: member_cell_def warm_miss_def Let_def split: option.splits prod.splits if_splits)

text \<open>The ways \<open>warmCell\<close> goes: a miss that touched nothing, a cancellation, or one member opened.\<close>

lemma warmCell_cases:
  obtains (miss) "warmCell sp c ctx1 ctx2 req = warm_miss"
  | (gone) e where "ctx1 = Some e" "warmCell sp c ctx1 ctx2 req = warm_miss\<lparr>wa_err := Some (refuse_gave_up e)\<rparr>"
  | (opened) p opts s where "sessionProvider sp c = Some p" "sq_OpenSession p opts = Inr s" "ss_Pool c > 0"
      "opts = one_call_options c (sq_SessionEnvironments p) (so_Languages opts) req"
      "warmCell sp c ctx1 ctx2 req = (member_cell ctx1 ctx2 s req)\<lparr>wa_events :=
         [Opened opts s, Holding] @ wa_events (member_cell ctx1 ctx2 s req) @ [CloseMember (ps_Close s), MemberGone, Unheld]\<rparr>"
proof (cases "sessionProvider sp c")
  case None
  then show thesis by (intro miss) (simp add: warmCell_def)
next
  case (Some p)
  show thesis
  proof (cases "ss_Pool c \<le> 0 \<or> \<not> fitsCell (sq_SessionEnvironments p) req")
    case True
    with Some show thesis by (intro miss) (auto simp: warmCell_def)
  next
    case fits: False
    show thesis
    proof (cases "SessionLanguages [cr_Language req] (pv_Languages (en_Project (sq_SessionEnvironments p)))")
      case (Inl e)
      with Some fits show thesis by (intro miss) (auto simp: warmCell_def)
    next
      case (Inr ls)
      let ?o = "one_call_options c (sq_SessionEnvironments p) ls req"
      show thesis
      proof (cases "sq_OpenSession p ?o")
        case (Inl e)
        show thesis
        proof (cases ctx1)
          case None
          with Some fits Inr Inl show thesis by (intro miss) (auto simp: warmCell_def)
        next
          case (Some e)
          with \<open>sessionProvider sp c = Some p\<close> fits Inr Inl show thesis by (intro gone [of e]) (auto simp: warmCell_def)
        qed
      next
        case o: (Inr s)
        with Some fits Inr show thesis
          by (intro opened [of p ?o s]) (auto simp: warmCell_def one_call_options_def Let_def)
      qed
    qed
  qed
qed

fun is_opened :: "cell_event \<Rightarrow> bool" where
  "is_opened (Opened _ _) = True"
| "is_opened _ = False"

lemma member_events_opened: "filter is_opened (wa_events (member_cell ctx1 ctx2 s req)) = []"
  by (auto simp: member_cell_def warm_miss_def Let_def split: option.splits prod.splits if_splits)

lemma sessionProvider_Some: "sessionProvider sp c = Some p \<Longrightarrow> sp = Some p \<and> ss_Lifetime c > 0"
  by (auto simp: sessionProvider_def split: option.splits if_splits)

lemma cell_budget_bounds: "0 < cell_budget e req \<and> cell_budget e req \<le> maxRunTimeout"
  by (auto simp: cell_budget_def maxRunTimeout_def time_defs Let_def)

text \<open>No member is touched, or one is opened, held for, closed, waited for until it is gone, and only
  then the hold is given back.\<close>

definition member_in_order :: "cell_event list \<Rightarrow> bool" where
  "member_in_order evs \<longleftrightarrow> filter member_event evs = [] \<or>
     (\<exists>o' s. filter member_event evs = [Opened o' s, Holding, CloseMember (ps_Close s), MemberGone, Unheld])"

lemma warmCell_facts:
  assumes "honest_sessions sp"
    and "w = warmCell sp c ctx1 ctx2 req"
  shows "(wa_ran w \<longrightarrow> wa_served w \<and> \<not> is_marked (wa_err w) \<and>
      (\<exists>o' s. Opened o' s \<in> set (wa_events w) \<and> fitsCell (ps_Environments s) req \<and>
         CheckMinimumIsolation (ps_Isolation s) (cr_MinimumIsolation req) = None)) \<and>
    member_in_order (wa_events w) \<and> RanFresh \<notin> set (wa_events w) \<and>
    (\<forall>o' s. Opened o' s \<in> set (wa_events w) \<longrightarrow>
      0 < so_Lifetime o' \<and> so_Lifetime o' \<le> ss_Lifetime c \<and> so_Lifetime o' \<le> maxRunTimeout + oneCallMargin)"
  using warmCell_cases [of sp c ctx1 ctx2 req]
proof cases
    case (opened p opts s)
    have p: "sp = Some p" "ss_Lifetime c > 0" using sessionProvider_Some [OF opened(1)] by simp_all
    have h: "honest_session s" using assms(1) p(1) opened(2) by (simp add: honest_sessions_def)
    have w: "wa_ran w = wa_ran (member_cell ctx1 ctx2 s req)" "wa_served w = wa_served (member_cell ctx1 ctx2 s req)"
      "wa_err w = wa_err (member_cell ctx1 ctx2 s req)"
      "wa_events w = [Opened opts s, Holding] @ wa_events (member_cell ctx1 ctx2 s req) @ [CloseMember (ps_Close s), MemberGone, Unheld]"
      by (simp_all add: assms(2) opened(5))
    have life: "so_Lifetime opts = min (ss_Lifetime c) (cell_budget (sq_SessionEnvironments p) req + oneCallMargin)"
      by (subst opened(4)) (simp add: one_call_options_def)
    have "member_in_order (wa_events w)"
      by (simp add: w(4) member_in_order_def member_cell_events)
    moreover have "RanFresh \<notin> set (wa_events w)"
      using member_cell_events(2) [of ctx1 ctx2 s req] by (auto simp: w(4) filter_empty_conv)
    moreover have "wa_ran w \<longrightarrow> wa_served w \<and> \<not> is_marked (wa_err w) \<and>
      (\<exists>o' s. Opened o' s \<in> set (wa_events w) \<and> fitsCell (ps_Environments s) req \<and>
         CheckMinimumIsolation (ps_Isolation s) (cr_MinimumIsolation req) = None)"
      using member_cell_honest [OF h, of ctx1 ctx2 req] unfolding w by auto
    moreover have "o' = opts" if "Opened o' s' \<in> set (wa_events w)" for o' s'
      using that member_cell_events(3) [of ctx1 ctx2 s req] by (auto simp: w(4))
    moreover have "0 < so_Lifetime opts \<and> so_Lifetime opts \<le> ss_Lifetime c \<and> so_Lifetime opts \<le> maxRunTimeout + oneCallMargin"
      using p(2) cell_budget_bounds [of "sq_SessionEnvironments p" req]
      by (auto simp: life oneCallMargin_def time_defs min_def)
    ultimately show ?thesis by metis
qed (simp_all add: assms(2) warm_miss_def member_in_order_def)

text \<open>C32: A cell run by itself is started at most once. Whether or not the call asks for a waiting
  pool member: its code is never started both in a member and in a fresh sandbox; an answer marked
  not dispatched means it was started in neither; where it was started in a member, that member
  runs the language, meets the software rule and the isolation floor. At most one member is
  opened, for a lifetime within the daemon's. On every path it is closed, then waited for until it
  is gone, also where the close failed, and only then is the run's hold given back.\<close>

theorem cell_starts_at_most_once:
  assumes "honest_provider p" and "honest_sessions sp"
    and "cellRun py js took p sp c preferWarm ctx1 ctx2 req = ((out, e), evs, inMember, inFresh)"
  shows "\<not> (inMember \<and> inFresh) \<and> (is_marked e \<longrightarrow> \<not> inMember \<and> \<not> inFresh) \<and>
    (inMember \<longrightarrow> (\<exists>o' s. Opened o' s \<in> set evs \<and> fitsCell (ps_Environments s) req \<and>
       CheckMinimumIsolation (ps_Isolation s) (cr_MinimumIsolation req) = None) \<and> RanFresh \<notin> set evs) \<and>
    member_in_order evs \<and>
    (\<forall>o' s. Opened o' s \<in> set evs \<longrightarrow>
       0 < so_Lifetime o' \<and> so_Lifetime o' \<le> ss_Lifetime c \<and> so_Lifetime o' \<le> maxRunTimeout + oneCallMargin)"
proof -
  define w where "w = (if preferWarm then warmCell sp c ctx1 ctx2 req else warm_miss)"
  have m: "warm_miss = warmCell None c ctx1 ctx2 req" by (simp add: warmCell_def sessionProvider_def)
  obtain sp' where w': "w = warmCell sp' c ctx1 ctx2 req" "sp' = None \<or> sp' = sp" using m by (cases preferWarm) (auto simp: w_def)
  have h: "honest_sessions sp'" using w'(2) assms(2) by (auto simp: honest_sessions_def)
  note f = warmCell_facts [OF h w'(1)]
  show ?thesis
  proof (cases "wa_served w \<or> wa_err w \<noteq> None")
    case True
    with assms(3) have "e = wa_err w" "evs = wa_events w" "inMember = wa_ran w" "\<not> inFresh"
      unfolding cellRun_def w_def [symmetric] by (auto simp: Let_def)
    with f show ?thesis by blast
  next
    case False
    then have "\<not> wa_ran w" using f by blast
    with False assms(3) have r: "RunCellFresh py js took p req = ((out, e), inFresh)" and "evs = wa_events w @ [RanFresh]" "\<not> inMember"
      unfolding cellRun_def w_def [symmetric] by (auto simp: Let_def split: prod.splits)
    moreover have "is_marked e \<longrightarrow> \<not> inFresh" using fresh_honest [OF assms(1)] r by (cases inFresh) auto
    ultimately show ?thesis using f by (simp add: member_in_order_def)
  qed
qed

subsection \<open>The fresh project of an accepted cell\<close>

lemma check_files_ok:
  assumes "sofar \<le> MaxProjectBytes"
  shows "check_files seen sofar fs = None \<longleftrightarrow>
     distinct (map f_Path fs) \<and> set seen \<inter> f_Path ` set fs = {} \<and>
     sofar + sum_list (map (length \<circ> f_Content) fs) \<le> MaxProjectBytes \<and>
     (\<forall>f \<in> set fs. validateProjectPath (f_Path f) = None \<and> valid_utf8 (f_Content f))" (is "_ \<longleftrightarrow> ?ok")
proof
  show "check_files seen sofar fs = None \<Longrightarrow> ?ok" by (rule check_files_None [OF _ assms])
  show "?ok \<Longrightarrow> check_files seen sofar fs = None"
    by (induction seen sofar fs rule: check_files.induct) auto
qed

lemma validateFiles_ok:
  "validateFiles fs = None \<longleftrightarrow> length fs \<le> MaxProjectFiles \<and> distinct (map f_Path fs) \<and>
     sum_list (map (length \<circ> f_Content) fs) \<le> MaxProjectBytes \<and>
     (\<forall>f \<in> set fs. validateProjectPath (f_Path f) = None \<and> valid_utf8 (f_Content f))"
  using check_files_ok [of 0 "[]" fs] by (auto simp: validateFiles_def)

lemma CheckRunCell_None:
  assumes "CheckRunCell p req = None"
  shows "cr_Language req = ''javascript'' \<or> cr_Language req = ''python''"
    and "validateMinimumIsolation (cr_MinimumIsolation req) = None" and "valid_utf8 (cr_Code req)"
    and "validateFiles (cr_Files req) = None" and "\<forall>f \<in> set (cr_Files req). \<not> under_runner_dir f"
proof -
  have c: "ValidateCellRequest req = None" "\<not> list_ex under_runner_dir (cr_Files req)"
    using assms by (auto simp: CheckRunCell_def or_err_def guard_err_def split: option.splits if_splits)
  then have v: "validateCellRequest req = None" by (simp add: ValidateCellRequest_def)
  show "\<forall>f \<in> set (cr_Files req). \<not> under_runner_dir f" using c(2) by (simp add: list_ex_iff)
  from v show "cr_Language req = ''javascript'' \<or> cr_Language req = ''python''"
    and "validateMinimumIsolation (cr_MinimumIsolation req) = None" and "valid_utf8 (cr_Code req)"
    and "validateFiles (cr_Files req) = None"
    by (auto simp: validateCellRequest_def or_err_def guard_err_def check_code_def Language_Known_def Languages_def split: option.splits if_splits)
qed

lemma runner_paths:
  "list_all (\<lambda>q. validateProjectPath q = None \<and> under_runner_dir \<lparr>f_Path = q, f_Content = ''''\<rparr>)
     [''.plimsoll/cell.py'', ''.plimsoll/run.py'', ''.plimsoll/cell.js'', ''.plimsoll/run.cjs'']"
  "list_all (\<lambda>st. check_step st = None) [''python3 -I .plimsoll/run.py'', ''node --expose-internals .plimsoll/run.cjs'']"
  by code_simp+

lemma under_runner_dir_path: "under_runner_dir f = under_runner_dir \<lparr>f_Path = f_Path f, f_Content = ''''\<rparr>"
  by (simp add: under_runner_dir_def)

text \<open>C33: When a fresh sandbox takes a cell that the daemon accepted. The project made for an
  accepted cell (its files, its code, its runner) passes the check every provider makes exactly
  when the cell has at most 198 files and these, the code and the runner's source together fit the
  4 MiB of a project; no file of the cell clashes with the runner's. So an accepted cell with 199
  or 200 files, or with files that leave no room for code and runner, runs in a waiting pool member
  and is refused by a fresh sandbox.\<close>

theorem fresh_project_fits:
  assumes "CheckRunCell p req = None" and "valid_utf8 py" and "valid_utf8 js"
  shows "ValidateProjectRequest (fresh_project py js req) = None \<longleftrightarrow>
    length (cr_Files req) \<le> 198 \<and>
    sum_list (map (length \<circ> f_Content) (cr_Files req)) + length (cr_Code req) +
      length (rn_source (cellRunners py js (cr_Language req))) \<le> MaxProjectBytes"
proof -
  note c = CheckRunCell_None [OF assms(1)]
  define r where "r = cellRunners py js (cr_Language req)"
  have r: "validateProjectPath (rn_code r) = None" "validateProjectPath (rn_runner r) = None" "rn_code r \<noteq> rn_runner r"
      "check_step (rn_step r) = None" "valid_utf8 (rn_source r)"
      "under_runner_dir \<lparr>f_Path = rn_code r, f_Content = ''''\<rparr>" "under_runner_dir \<lparr>f_Path = rn_runner r, f_Content = ''''\<rparr>"
    using c(1) runner_paths assms(2,3) by (auto simp: r_def cellRunners_def)
  have apart: "rn_code r \<notin> f_Path ` set (cr_Files req)" "rn_runner r \<notin> f_Path ` set (cr_Files req)"
    using c(5) r(6,7) under_runner_dir_path by (metis imageE)+
  have "validateProjectRequest (fresh_project py js req) = None \<longleftrightarrow> validateFiles (pr_Files (fresh_project py js req)) = None"
    using c(2) r(4) by (simp add: validateProjectRequest_def fresh_project_def Let_def r_def [symmetric] or_err_def request_limits split: option.splits)
  also have "\<dots> \<longleftrightarrow> length (cr_Files req) \<le> 198 \<and>
      sum_list (map (length \<circ> f_Content) (cr_Files req)) + length (cr_Code req) + length (rn_source r) \<le> MaxProjectBytes"
    using c(3,4) r(1,2,3,5) apart by (auto simp: validateFiles_ok fresh_project_def Let_def r_def [symmetric] MaxProjectFiles_def)
  finally show ?thesis by (simp add: ValidateProjectRequest_def r_def)
qed

subsection \<open>A cell's code as a string literal\<close>

text \<open>The code of a cell cannot leave the string literal it is put in. Whatever the code, the
  snippet for a provider without projects is a fixed text around one literal, and reading that
  literal gives the code back, byte for byte, and goes on with the fixed text.\<close>

theorem snippet_quotes_code:
  assumes "valid_utf8 code"
  shows "\<exists>lit. SnippetCell code = snippet_head @ dquote # lit @ snippet_tail \<and> read_lit (lit @ snippet_tail) = Some (code, snippet_tail)"
proof -
  let ?lit = "concat (map json_rune (runes code)) @ [dquote]"
  have "read_lit (concat (map json_rune (runes code)) @ dquote # snippet_tail) = Some (code, snippet_tail)"
    using read_runes [of "runes code" code "dquote # snippet_tail"] assms
    by (simp add: valid_utf8_def list_all_iff concat_runes before_def)
  then show ?thesis by (intro exI [of _ ?lit]) (simp add: SnippetCell_def json_quote_def)
qed

subsection \<open>Three cells\<close>

definition demo_langs :: pay_env where
  "demo_langs = \<lparr>pv_Identity = ''img'', pv_SoftwareIdentity = ''sw'', pv_MaxTimeout = minute, pv_Languages = [''javascript'', ''python'']\<rparr>"

definition demo_envs :: environments where
  "demo_envs = \<lparr>en_JavaScript = demo_langs, en_Project = demo_langs, en_Module = no_env, en_Policy = ''''\<rparr>"

definition demo_provider :: provider where
  "demo_provider = \<lparr>sv_Name = ''demo'', sv_SupportsProjects = Some True, sv_Environments = Some demo_envs,
     sv_RunJavaScript = (\<lambda>_. ((\<lparr>jr_Stdout = '''', jr_Stderr = '''', jr_StdoutTruncated = False, jr_StderrTruncated = False, jr_ExitCode = 0,
        jr_TimedOut = False, jr_Duration = 0, jr_ev = no_evidence ''demo''\<rparr>, None), True)),
     sv_RunProject = (\<lambda>_. ((\<lparr>pj_Steps = [\<lparr>sb_Command = '''', sb_Stdout = ''42'', sb_Stderr = '''', sb_StdoutTruncated = False,
        sb_StderrTruncated = False, sb_ExitCode = 0, sb_TimedOut = False, sb_Duration = 0\<rparr>], pj_Outcome = ProjectOutcomeCompleted,
        pj_Detail = '''', pj_ev = no_evidence ''demo''\<rparr>, None), True))\<rparr>"

text \<open>A member whose interpreter does not start.\<close>

definition demo_member :: pool_session where
  "demo_member = \<lparr>ps_Environments = demo_envs, ps_Isolation = IsolationContainer,
     ps_RunCell = (\<lambda>_. ((no_cell '''', Some (NotDispatchedError RefusalEnvironment (Opaque 0))), False)), ps_Close = None\<rparr>"

definition demo_sessions :: session_provider where
  "demo_sessions = \<lparr>sq_SupportsSessions = True, sq_SessionEnvironments = demo_envs, sq_OpenSession = (\<lambda>_. Inr demo_member)\<rparr>"

definition demo_settings :: session_settings where
  "demo_settings = \<lparr>ss_MaxSessions = 4, ss_Lifetime = 60 * minute, ss_DiskBytes = 0, ss_Pool = 1\<rparr>"

definition demo_one_cell :: cell_request where
  "demo_one_cell = \<lparr>cr_Language = ''python'', cr_Code = ''6*7'', cr_Files = [], cr_Timeout = 0, cr_MinimumIsolation = IsolationUnknown,
     cr_Software = no_software_rule\<rparr>"

lemma demo_run:
  "case cellRun '''' '''' 0 demo_provider (Some demo_sessions) demo_settings True None None demo_one_cell of
     ((out, e), evs, inMember, inFresh) \<Rightarrow> e = None \<and> ce_Stdout out = ''42'' \<and> \<not> inMember \<and> inFresh \<and> length (filter is_opened evs) = 1"
  by code_simp

theorem cell_starts_at_most_once_witness:
  "\<exists>out evs. cellRun '''' '''' 0 demo_provider (Some demo_sessions) demo_settings True None None demo_one_cell = ((out, None), evs, False, True) \<and>
     member_in_order evs \<and> length (filter is_opened evs) = 1"
proof -
  have h: "honest_provider demo_provider" "honest_sessions (Some demo_sessions)"
    by (auto simp: honest_provider_def demo_provider_def honest_sessions_def demo_sessions_def honest_session_def demo_member_def)
  obtain out e evs a b where r: "cellRun '''' '''' 0 demo_provider (Some demo_sessions) demo_settings True None None demo_one_cell = ((out, e), evs, a, b)"
    by (metis prod.exhaust)
  with demo_run have "e = None" "\<not> a" "b" "length (filter is_opened evs) = 1" by auto
  with cell_starts_at_most_once [OF h r] r have "cellRun '''' '''' 0 demo_provider (Some demo_sessions) demo_settings True None None demo_one_cell = ((out, None), evs, False, True)"
    "member_in_order evs" "length (filter is_opened evs) = 1" by auto
  then show ?thesis by blast
qed

definition wide_cell :: cell_request where
  "wide_cell = demo_one_cell\<lparr>cr_Files := map (\<lambda>n. \<lparr>f_Path = replicate (Suc n) CHR ''a'', f_Content = ''''\<rparr>) [0..<199]\<rparr>"

lemma split_single: "c \<notin> set s \<Longrightarrow> split_on c s = [s]"
  by (induction s) auto

lemma plain_path:
  assumes "s = replicate (Suc n) CHR ''a''" and "n < 1000"
  shows "validateProjectPath s = None" and "\<not> under_runner_dir \<lparr>f_Path = s, f_Content = x\<rparr>"
proof -
  have a: "set s = {CHR ''a''}" "s \<noteq> []" and l: "length s \<le> 1024" using assms by auto
  have ne: "s \<noteq> ''.''" "s \<noteq> ''..''" "\<not> has_prefix s ''/''" "\<not> has_prefix s ''../''"
    using a by (auto simp: assms has_prefix_def)
  have "split_on CHR ''/'' s = [s]" using a by (intro split_single) auto
  then have "path_clean s = s" using ne a(2) by (simp add: path_clean_def Let_def)
  moreover have "valid_utf8 s" using a by (intro valid_utf8_ascii) simp
  moreover have "\<not> has_control s" using a by (auto simp: has_control_def runes_ascii list_ex_iff is_control_def)
  ultimately show "validateProjectPath s = None"
    using a ne l by (auto simp: validateProjectPath_def contains_char_def request_limits)
  show "\<not> under_runner_dir \<lparr>f_Path = s, f_Content = x\<rparr>"
    by (simp add: under_runner_dir_def CellRunnerDir_def has_prefix_def assms)
qed

lemma wide_accepted: "CheckRunCell demo_provider wide_cell = None"
proof -
  have p: "\<forall>f \<in> set (cr_Files wide_cell). validateProjectPath (f_Path f) = None \<and> valid_utf8 (f_Content f) \<and> \<not> under_runner_dir f"
    using plain_path by (auto simp: wide_cell_def valid_utf8_def)
  have d: "distinct (map f_Path (cr_Files wide_cell))"
    by (auto simp: wide_cell_def distinct_map inj_on_def comp_def dest: arg_cong [of _ _ length])
  have z: "sum_list (map (length \<circ> f_Content) (cr_Files wide_cell)) = 0" by (simp add: wide_cell_def comp_def)
  have "validateFiles (cr_Files wide_cell) = None"
    unfolding validateFiles_ok
  proof (intro conjI)
    show "length (cr_Files wide_cell) \<le> MaxProjectFiles" by (simp add: wide_cell_def request_limits)
    show "sum_list (map (length \<circ> f_Content) (cr_Files wide_cell)) \<le> MaxProjectBytes" by (subst z) (rule le0)
  qed (use p d in blast)+
  moreover have "validateCellRequest demo_one_cell = None" by code_simp
  ultimately have "validateCellRequest wide_cell = None"
    by (simp add: validateCellRequest_def wide_cell_def or_err_def guard_err_def split: option.splits if_splits)
  then have "ValidateCellRequest wide_cell = None" by (simp add: ValidateCellRequest_def)
  moreover have "\<not> list_ex under_runner_dir (cr_Files wide_cell)" using p by (simp add: list_ex_iff)
  moreover have "runsProjects demo_provider = (True, demo_langs)" by (simp add: runsProjects_def demo_provider_def demo_envs_def)
  moreover have "SupportsLanguage demo_langs (cr_Language wide_cell)" by (simp add: SupportsLanguage_def demo_langs_def wide_cell_def demo_one_cell_def)
  ultimately show ?thesis by (simp add: CheckRunCell_def)
qed

theorem fresh_project_fits_witness:
  "CheckRunCell demo_provider wide_cell = None \<and> ValidateProjectRequest (fresh_project '''' '''' wide_cell) \<noteq> None"
proof -
  have "length (cr_Files wide_cell) = 199" by (simp add: wide_cell_def)
  moreover have "valid_utf8 ''''" by (simp add: valid_utf8_def)
  ultimately show ?thesis using fresh_project_fits [OF wide_accepted, of "''''" "''''"] wide_accepted by simp
qed

theorem snippet_quotes_code_witness:
  "\<exists>lit. SnippetCell [dquote, CHR '')''] = snippet_head @ dquote # lit @ snippet_tail \<and>
     read_lit (lit @ snippet_tail) = Some ([dquote, CHR '')''], snippet_tail)"
  by (rule snippet_quotes_code) code_simp

end
