(* ===== verification/Jwt_Minter.thy ===== *)
theory Jwt_Minter
  imports Go_Json Record_Encoding Grant_Valid
begin

text \<open>
  The per-run credential of \<open>internal/grants/jwt.go\<close>: a fresh HS256 token for the calling
  principal, its life bounded by the run. The time and the random number of a mint are inputs, and
  HMAC-SHA256 is a parameter.
\<close>

subsection \<open>Claims\<close>

text \<open>The JSON object \<open>json.Marshal\<close> makes of a map: its members in the order of their keys.\<close>

datatype json_value = JStr string | JInt int

definition json_put :: "json_value \<Rightarrow> string" where
  "json_put v = (case v of JStr s \<Rightarrow> json_quote s | JInt i \<Rightarrow> FormatInt i)"

definition json_object :: "(string \<times> json_value) list \<Rightarrow> string" where
  "json_object kvs =
     CHR ''{'' # join_with CHR '','' (map (\<lambda>(k, v). json_quote k @ CHR '':'' # json_put v) (sort_key fst kvs)) @ [CHR ''}'']"

subsection \<open>Minting\<close>

record jwt_minter =
  jm_secret :: string
  jm_ttl :: duration
  jm_issuer :: string
  jm_audience :: string
  jm_keyID :: string

definition newJWTMinter :: "string \<Rightarrow> duration \<Rightarrow> string \<Rightarrow> string \<Rightarrow> string \<Rightarrow> jwt_minter" where
  "newJWTMinter secret ttl issuer audience keyID =
     \<lparr>jm_secret = secret, jm_ttl = (if ttl \<le> 0 then 60 * second else ttl), jm_issuer = issuer, jm_audience = audience, jm_keyID = keyID\<rparr>"

text \<open>\<open>Time.Unix\<close>: whole seconds, rounded down.\<close>

definition unix :: "gotime \<Rightarrow> int" where
  "unix t = t div second"

definition header_of :: "string \<Rightarrow> (string \<times> json_value) list" where
  "header_of keyID = [(''alg'', JStr ''HS256''), (''typ'', JStr ''JWT'')] @ (if keyID \<noteq> '''' then [(''kid'', JStr keyID)] else [])"

definition signHS256 :: "(string \<Rightarrow> string \<Rightarrow> string) \<Rightarrow> string \<Rightarrow> string \<Rightarrow> (string \<times> json_value) list \<Rightarrow> string" where
  "signHS256 hmac secret keyID claims =
     (let signing = b64url (json_object (header_of keyID)) @ CHR ''.'' # b64url (json_object claims)
      in signing @ CHR ''.'' # b64url (hmac secret signing))"

definition token_life :: "duration \<Rightarrow> duration \<Rightarrow> duration" where
  "token_life ttl budget = (if budget > 0 \<and> wrap64 (budget + 5 * second) < ttl then wrap64 (budget + 5 * second) else ttl)"

definition claims_of :: "jwt_minter \<Rightarrow> gotime \<Rightarrow> gotime \<Rightarrow> string \<Rightarrow> string list \<Rightarrow> string \<Rightarrow> (string \<times> json_value) list" where
  "claims_of m now exp jti scopes sub =
     [(''sub'', JStr sub), (''iat'', JInt (unix now)), (''nbf'', JInt (unix now)), (''exp'', JInt (unix exp)), (''jti'', JStr jti)] @
     (if jm_issuer m \<noteq> '''' then [(''iss'', JStr (jm_issuer m))] else []) @
     (if jm_audience m \<noteq> '''' then [(''aud'', JStr (jm_audience m))] else []) @
     (if scopes \<noteq> [] then [(''scope'', JStr (join_with CHR '' '' scopes))] else [])"

text \<open>\<open>jti\<close> is what \<open>newJTI\<close> returned: \<open>None\<close> when the random source failed.\<close>

definition Mint :: "(string \<Rightarrow> string \<Rightarrow> string) \<Rightarrow> gotime \<Rightarrow> string option \<Rightarrow> jwt_minter \<Rightarrow> mint_scope \<Rightarrow> goerr + minted_token" where
  "Mint hmac now jti m scope =
     (let sub = trim_space (ms_Subject scope)
      in if sub = '''' then Inl (Opaque 0)
         else let exp = now + token_life (jm_ttl m) (ms_TTL scope)
              in case jti of
                   None \<Rightarrow> Inl (Opaque 0)
                 | Some jti \<Rightarrow> Inr \<lparr>mt_Value = signHS256 hmac (jm_secret m) (jm_keyID m) (claims_of m now exp jti (ms_Scopes scope) sub),
                                 mt_ExpiresAt = Some exp\<rparr>)"

definition jwt_as_minter :: "(string \<Rightarrow> string \<Rightarrow> string) \<Rightarrow> gotime \<Rightarrow> string option \<Rightarrow> jwt_minter \<Rightarrow> minter" where
  "jwt_as_minter hmac now jti m = \<lparr>m_Mint = Mint hmac now jti m, m_RequiresSubject = Some True\<rparr>"

subsection \<open>Reading a token\<close>

text \<open>What a verifier reads: three parts, and the members of an object.\<close>

definition read_int :: "string \<Rightarrow> (int \<times> string) option" where
  "read_int s =
     (let (neg, s) = (case s of c # t \<Rightarrow> if c = CHR ''-'' then (True, t) else (False, s) | [] \<Rightarrow> (False, s));
          ds = takeWhile is_digit s
      in if ds = [] then None
         else Some (if neg then - int (dec_val ds) else int (dec_val ds), dropWhile is_digit s))"

definition read_value :: "string \<Rightarrow> (json_value \<times> string) option" where
  "read_value s = (case s of
     [] \<Rightarrow> None
   | c # t \<Rightarrow> if c = dquote then map_option (\<lambda>(v, t). (JStr v, t)) (read_lit t) else map_option (\<lambda>(i, t). (JInt i, t)) (read_int s))"

definition read_member :: "string \<Rightarrow> ((string \<times> json_value) \<times> string) option" where
  "read_member s = (case s of
     [] \<Rightarrow> None
   | c # t \<Rightarrow>
       if c \<noteq> dquote then None
       else (case read_lit t of
               Some (k, d # t) \<Rightarrow> if d = CHR '':'' then map_option (\<lambda>(v, t). ((k, v), t)) (read_value t) else None
             | _ \<Rightarrow> None))"

fun read_members :: "nat \<Rightarrow> string \<Rightarrow> (string \<times> json_value) list option" where
  "read_members 0 s = None"
| "read_members (Suc n) s = (case read_member s of
     None \<Rightarrow> None
   | Some (kv, t) \<Rightarrow>
       if t = ''}'' then Some [kv]
       else case t of c # t \<Rightarrow> if c = CHR '','' then map_option ((#) kv) (read_members n t) else None | [] \<Rightarrow> None)"

definition read_object :: "string \<Rightarrow> (string \<times> json_value) list option" where
  "read_object s = (case s of [] \<Rightarrow> None | c # t \<Rightarrow> if c = CHR ''{'' then read_members (length t) t else None)"

definition read_token :: "string \<Rightarrow> ((string \<times> json_value) list \<times> (string \<times> json_value) list \<times> string \<times> string) option" where
  "read_token t = (case split_on CHR ''.'' t of
     [h, c, s] \<Rightarrow>
       (case (unb64 h, unb64 c, unb64 s) of
          (Some h', Some c', Some s') \<Rightarrow>
            (case (read_object h', read_object c') of
               (Some h', Some c') \<Rightarrow> Some (h', c', h @ CHR ''.'' # c, s')
             | _ \<Rightarrow> None)
        | _ \<Rightarrow> None)
   | _ \<Rightarrow> None)"

subsection \<open>Reading back what was written\<close>

definition value_ok :: "json_value \<Rightarrow> bool" where
  "value_ok v = (case v of JStr s \<Rightarrow> valid_utf8 s | JInt _ \<Rightarrow> True)"

lemma dec_nat_digits: "c \<in> set (dec_nat n) \<Longrightarrow> is_digit c"
proof (induction n rule: dec_nat.induct)
  case (1 n)
  have d: "is_digit (char_of (48 + k :: nat))" if "k < 10" for k
    using that by (simp add: is_digit_def of_char_of)
  show ?case
  proof (cases "n < 10")
    case True
    then show ?thesis using 1 d by (auto simp: dec_nat_small)
  next
    case False
    then show ?thesis using 1 d [of "n mod 10"] by (auto simp: dec_nat_big)
  qed
qed

lemma dec_nat_ne: "dec_nat n \<noteq> []"
  using dec_nat_digit [of n] by auto

lemma read_digits:
  "rest \<noteq> [] \<Longrightarrow> \<not> is_digit (hd rest) \<Longrightarrow>
     takeWhile is_digit (dec_nat n @ rest) = dec_nat n \<and> dropWhile is_digit (dec_nat n @ rest) = rest"
  using dec_nat_digits [of _ n] by (cases rest) (simp_all add: takeWhile_append dropWhile_append)

lemma read_FormatInt:
  assumes "rest \<noteq> []" "\<not> is_digit (hd rest)"
  shows "read_int (FormatInt i @ rest) = Some (i, rest)"
proof (cases "i < 0")
  case True
  then show ?thesis using read_digits [OF assms, of "nat (- i)"] dec_nat_ne [of "nat (- i)"]
    by (simp add: read_int_def FormatInt_def dec_val_nat)
next
  case False
  obtain c t where c: "dec_nat (nat i) = c # t" using dec_nat_ne by (cases "dec_nat (nat i)") auto
  then have "c \<noteq> CHR ''-''" using dec_nat_sign [of t "nat i"] by metis
  with False c show ?thesis using read_digits [OF assms, of "nat i"] dec_val_nat [of "nat i"]
    by (simp add: read_int_def FormatInt_def)
qed

lemma read_put:
  assumes "value_ok v" "rest \<noteq> []" "\<not> is_digit (hd rest)"
  shows "read_value (json_put v @ rest) = Some (v, rest)"
proof (cases v)
  case (JStr s)
  then obtain lit where "json_quote s @ rest = dquote # lit" "read_lit lit = Some (s, rest)"
    using assms(1) read_quote [of s rest] by (auto simp: value_ok_def)
  with JStr show ?thesis by (simp add: json_put_def read_value_def)
next
  case (JInt i)
  obtain c t where c: "FormatInt i @ rest = c # t" "c \<noteq> dquote"
  proof (cases "i < 0")
    case False
    obtain d u where d: "dec_nat (nat i) = d # u" using dec_nat_ne by (cases "dec_nat (nat i)") auto
    then have "is_digit d" using dec_nat_digits [of d "nat i"] by simp
    then have "d \<noteq> dquote" by (auto simp: is_digit_def)
    with False d that show thesis by (simp add: FormatInt_def)
  qed (simp add: FormatInt_def)
  then show ?thesis using JInt read_FormatInt [OF assms(2,3), of i] by (simp add: json_put_def read_value_def)
qed

lemma read_pair:
  assumes "valid_utf8 k" "value_ok v" "rest \<noteq> []" "\<not> is_digit (hd rest)"
  shows "read_member (json_quote k @ CHR '':'' # json_put v @ rest) = Some ((k, v), rest)"
proof -
  obtain lit where "json_quote k @ CHR '':'' # json_put v @ rest = dquote # lit"
    "read_lit lit = Some (k, CHR '':'' # json_put v @ rest)"
    using read_quote [OF assms(1)] by blast
  then show ?thesis using read_put [OF assms(2-4)] by (simp add: read_member_def)
qed

lemma read_joined:
  assumes "kvs \<noteq> []" "\<forall>(k, v) \<in> set kvs. valid_utf8 k \<and> value_ok v" "length kvs \<le> n"
  shows "read_members n (join_with CHR '','' (map (\<lambda>(k, v). json_quote k @ CHR '':'' # json_put v) kvs) @ ''}'') = Some kvs"
  using assms
proof (induction kvs arbitrary: n)
  case (Cons kv kvs)
  obtain k v where kv: "kv = (k, v)" by fastforce
  obtain m where n: "n = Suc m" using Cons.prems(3) by (cases n) auto
  show ?case
  proof (cases kvs)
    case Nil
    then show ?thesis using kv n Cons.prems read_pair [of k v "''}''"] by (simp add: is_digit_def)
  next
    case (Cons kv' kvs')
    have "read_members m (join_with CHR '','' (map (\<lambda>(k, v). json_quote k @ CHR '':'' # json_put v) kvs) @ ''}'') = Some kvs"
      using Cons.IH [of m] Cons.prems Cons n by auto
    then show ?thesis
      using kv n Cons Cons.prems read_pair [of k v "CHR '','' # join_with CHR '','' (map (\<lambda>(k, v). json_quote k @ CHR '':'' # json_put v) kvs) @ ''}''"]
      by (simp add: is_digit_def)
  qed
qed simp

lemma read_json_object:
  assumes "kvs \<noteq> []" "\<forall>(k, v) \<in> set kvs. valid_utf8 k \<and> value_ok v"
  shows "read_object (json_object kvs) = Some (sort_key fst kvs)"
proof -
  define ks where "ks = sort_key fst kvs"
  let ?f = "\<lambda>(k, v). json_quote k @ CHR '':'' # json_put v"
  have l: "length xs \<le> length (join_with CHR '','' (map ?f xs))" for xs
    by (induction xs rule: induct_list012) (auto simp: json_quote_def split: prod.splits)
  have "length ks = length kvs" by (simp add: ks_def)
  then have "ks \<noteq> []" using assms(1) by auto
  moreover have "\<forall>(k, v) \<in> set ks. valid_utf8 k \<and> value_ok v" using assms(2) by (simp add: ks_def)
  ultimately have "read_members (Suc (length (join_with CHR '','' (map ?f ks)))) (join_with CHR '','' (map ?f ks) @ ''}'') = Some ks"
    using l [of ks] by (intro read_joined) simp_all
  then show ?thesis by (simp add: read_object_def json_object_def ks_def del: read_members.simps)
qed

lemma split_three:
  "c \<notin> set x \<Longrightarrow> c \<notin> set y \<Longrightarrow> c \<notin> set z \<Longrightarrow> split_on c (x @ c # y @ c # z) = [x, y, z]"
  using split_join [of "[x, y, z]" c] by simp

lemma b64url_no_dot: "CHR ''.'' \<notin> set (b64url s)"
  using b64url_chars [of "CHR ''.''" s] by auto

lemma read_signed:
  assumes "\<forall>(k, v) \<in> set claims. valid_utf8 k \<and> value_ok v" "claims \<noteq> []" "valid_utf8 keyID"
  shows "\<exists>signing. read_token (signHS256 hmac secret keyID claims) =
      Some (sort_key fst (header_of keyID), sort_key fst claims, signing, hmac secret signing)"
proof -
  have h: "\<forall>(k, v) \<in> set (header_of keyID). valid_utf8 k \<and> value_ok v" "header_of keyID \<noteq> []"
    using assms(3) by (auto simp: header_of_def value_ok_def intro!: valid_utf8_ascii)
  show ?thesis
    using read_json_object [OF h(2,1)] read_json_object [OF assms(2,1)]
    by (simp add: signHS256_def Let_def read_token_def split_three b64url_no_dot unb64_b64url)
qed

lemma signHS256_visible: "c \<in> set (signHS256 hmac secret keyID claims) \<Longrightarrow> 33 \<le> byte c \<and> byte c \<le> 126"
  using b64url_chars by (auto simp: signHS256_def Let_def)

lemma claims_ok:
  assumes "valid_utf8 (jm_issuer m)" "valid_utf8 (jm_audience m)" "valid_utf8 sub" "valid_utf8 jti" "valid_utf8 (join_with CHR '' '' scopes)"
  shows "\<forall>(k, v) \<in> set (claims_of m now exp jti scopes sub). valid_utf8 k \<and> value_ok v"
  using assms by (auto simp: claims_of_def value_ok_def intro!: valid_utf8_ascii)

lemma map_of_sorted: "distinct (map fst kvs) \<Longrightarrow> map_of (sort_key fst kvs) = map_of kvs"
proof -
  assume d: "distinct (map fst kvs)"
  have "distinct (map fst (sort_key fst kvs))"
    using d by (metis distinct_count_atmost_1 mset_map mset_sort mset_eq_setD distinct_sort mset_eq_imp_distinct_iff)
  then show ?thesis using d by (simp add: map_of_inject_set)
qed

lemma token_life_bounds:
  assumes "0 < ttl" "0 \<le> budget" "budget < 2 ^ 62"
  shows "0 < token_life ttl budget \<and> token_life ttl budget \<le> ttl \<and> (0 < budget \<longrightarrow> token_life ttl budget \<le> budget + 5 * second)"
proof -
  have "wrap64 (budget + 5 * second) = budget + 5 * second" using assms by (intro wrap64_id) (simp_all add: second_def)
  then show ?thesis using assms by (simp add: token_life_def second_def)
qed

lemma claims_distinct: "distinct (map fst (claims_of m now exp jti scopes sub))"
  by (simp add: claims_of_def)

text \<open>C39: A minted token names its caller and dies with the run. For every caller the credential
  check accepts, a profile with a JWT minter gives a token; whoever reads it finds its three parts,
  the signature over the first two under the profile's secret, and exactly the claims of this
  caller: the subject, the profile's audience and scopes, and an expiry at most the configured life
  and at most five seconds past the run's budget. No text of the caller or of the profile can add
  or change a claim.\<close>

theorem jwt_names_its_caller:
  assumes "Validate nl g = None" and "g_Minter g = Some (jwt_as_minter hmac now (Some jti) m)"
    and "0 < jm_ttl m" and "0 \<le> budget" and "budget < 2 ^ 62"
    and "valid_utf8 subject" and "subject \<noteq> ''''" and "subject \<noteq> ''*''" and "trim_space subject = subject" and "\<not> has_control subject"
    and "valid_utf8 jti" and "valid_utf8 (jm_issuer m)" and "valid_utf8 (jm_audience m)" and "valid_utf8 (jm_keyID m)"
  shows "\<exists>tok life claims signing. credential now subject (Some g) budget = Inr tok \<and>
    0 < life \<and> life \<le> jm_ttl m \<and> (0 < budget \<longrightarrow> life \<le> budget + 5 * second) \<and>
    read_token tok = Some (sort_key fst (header_of (jm_keyID m)), claims, signing, hmac (jm_secret m) signing) \<and>
    map_of claims = map_of (claims_of m now (now + life) jti (g_Scopes g) subject) \<and>
    map_of claims ''sub'' = Some (JStr subject) \<and> map_of claims ''exp'' = Some (JInt (unix (now + life)))"
proof -
  let ?life = "token_life (jm_ttl m) budget"
  let ?cl = "claims_of m now (now + ?life) jti (g_Scopes g) subject"
  let ?tok = "signHS256 hmac (jm_secret m) (jm_keyID m) ?cl"
  have life: "0 < ?life" "?life \<le> jm_ttl m" "0 < budget \<longrightarrow> ?life \<le> budget + 5 * second"
    using token_life_bounds [OF assms(3-5)] by blast+
  have "\<forall>s \<in> set (g_Scopes g). valid_utf8 s"
    using assms(1) by (auto simp: Validate_def check_scope_def split: if_splits)
  then have "\<forall>(k, v) \<in> set ?cl. valid_utf8 k \<and> value_ok v"
    using assms by (intro claims_ok valid_utf8_join) simp_all
  then obtain signing where r: "read_token ?tok = Some (sort_key fst (header_of (jm_keyID m)), sort_key fst ?cl, signing, hmac (jm_secret m) signing)"
    using read_signed [of ?cl "jm_keyID m" hmac "jm_secret m"] assms(14) by (auto simp: claims_of_def)
  have "list_all bearer_char ?tok" using signHS256_visible by (simp add: list_all_iff bearer_char_def)
  moreover have "?tok \<noteq> ''''" by (simp add: signHS256_def Let_def)
  ultimately have c: "credential now subject (Some g) budget = Inr ?tok"
    using assms life(1)
    by (simp add: credential_def RequiresSubject_def jwt_as_minter_def Mint_def Let_def list_ex_iff list_all_iff)
  have m: "map_of (sort_key fst ?cl) = map_of ?cl" by (rule map_of_sorted [OF claims_distinct])
  have "map_of ?cl ''sub'' = Some (JStr subject)" "map_of ?cl ''exp'' = Some (JInt (unix (now + ?life)))"
    by (simp_all add: claims_of_def)
  then show ?thesis using c r m life by metis
qed

subsection \<open>One token\<close>

definition demo_jwt :: jwt_minter where
  "demo_jwt = newJWTMinter ''0123456789abcdef0123456789abcdef'' 0 '''' ''orders'' ''k1''"

definition demo_jwt_grant :: grant where
  "demo_jwt_grant = demo_grant\<lparr>g_Minter := Some (jwt_as_minter (\<lambda>_ _. ''sum'') 5 (Some ''00ff'') demo_jwt)\<rparr>"

text \<open>A caller whose name is an attempt to add a claim.\<close>

definition demo_subject :: string where
  "demo_subject = ''eve'' @ [dquote] @ '','' @ [dquote] @ ''aud'' @ [dquote] @ '':'' @ [dquote] @ ''billing''"

theorem jwt_names_its_caller_witness:
  "\<exists>tok claims signing. credential 5 demo_subject (Some demo_jwt_grant) minute = Inr tok \<and>
     read_token tok = Some (sort_key fst (header_of ''k1''), claims, signing, ''sum'') \<and>
     map_of claims ''sub'' = Some (JStr demo_subject) \<and> map_of claims ''aud'' = Some (JStr ''orders'')"
proof -
  have v: "Validate demo_net demo_jwt_grant = None" by code_simp
  have m: "g_Minter demo_jwt_grant = Some (jwt_as_minter (\<lambda>_ _. ''sum'') 5 (Some ''00ff'') demo_jwt)"
    by (simp add: demo_jwt_grant_def)
  have t: "0 < jm_ttl demo_jwt" "(0 :: int) \<le> minute" "minute < 2 ^ 62"
    by (simp_all add: demo_jwt_def newJWTMinter_def second_def minute_def)
  have s: "valid_utf8 demo_subject" "demo_subject \<noteq> ''''" "demo_subject \<noteq> ''*''" "trim_space demo_subject = demo_subject" "\<not> has_control demo_subject"
    by code_simp+
  have u: "valid_utf8 ''00ff''" "valid_utf8 (jm_issuer demo_jwt)" "valid_utf8 (jm_audience demo_jwt)" "valid_utf8 (jm_keyID demo_jwt)"
    by code_simp+
  obtain tok life claims signing where r: "credential 5 demo_subject (Some demo_jwt_grant) minute = Inr tok"
      "read_token tok = Some (sort_key fst (header_of (jm_keyID demo_jwt)), claims, signing, ''sum'')"
      "map_of claims = map_of (claims_of demo_jwt 5 (5 + life) ''00ff'' (g_Scopes demo_jwt_grant) demo_subject)"
      "map_of claims ''sub'' = Some (JStr demo_subject)"
    using jwt_names_its_caller [OF v m t s u] by blast
  moreover have "jm_keyID demo_jwt = ''k1''" by (simp add: demo_jwt_def newJWTMinter_def)
  moreover have "map_of claims ''aud'' = Some (JStr ''orders'')"
    unfolding r(3) by (simp add: claims_of_def demo_jwt_def newJWTMinter_def demo_jwt_grant_def demo_grant_def)
  ultimately show ?thesis by auto
qed

end
