(* ===== verification/Grants_File.thy ===== *)
theory Grants_File
  imports Jwt_Minter
begin

text \<open>
  The operator's grant profiles, \<open>internal/grants/grants.go\<close>: what the file may say, how a line
  becomes a route, how a profile's credential and preamble are found, and the registry they make.
  The decoded JSON, the environment and the file system are inputs; a map of the file is a list in
  the order Go's loop happens to visit it.
\<close>

subsection \<open>Advice\<close>

datatype advice_mode = AdviceOff | AdviceOperator | AdviceCaller
datatype advice_retention = RetentionNone | RetentionAggregate | RetentionDetailed

definition advice_string :: "advice_mode \<Rightarrow> string" where
  "advice_string m = (case m of AdviceOperator \<Rightarrow> ''operator'' | AdviceCaller \<Rightarrow> ''caller'' | AdviceOff \<Rightarrow> ''off'')"

definition retention_string :: "advice_retention \<Rightarrow> string" where
  "retention_string r = (case r of RetentionAggregate \<Rightarrow> ''aggregate'' | RetentionDetailed \<Rightarrow> ''detailed'' | RetentionNone \<Rightarrow> ''none'')"

datatype load_error =
    NameEmpty | NameSpace | NameLong | NameChars
  | RouteShape | RouteRelative
  | CatalogInvalid route_error
  | BatchNotGET | BatchInvalid route_error | BatchServesNone | BatchNoStar | BatchSelf | BatchTwice
  | CallersNone | CallerEmpty | CallerTwice
  | AdviceUnknown | RetentionUnknown
  | PreambleBoth | PreambleEscapes | PreambleUnresolved | PreambleUnreadable
  | TokenEnvMissing | TokenEnvEmpty | SecretEnvMissing | SecretEmpty | SecretShort | AudienceMissing | TokenTypeUnknown
  | HealthShape | HealthRelative
  | GrantInvalid grant_error
  | FileUnreadable | FileMalformed

definition parseAdvice :: "string \<Rightarrow> load_error + advice_mode" where
  "parseAdvice raw =
     (let s = trim_space raw
      in if s = '''' \<or> s = ''off'' then Inr AdviceOff
         else if s = ''operator'' then Inr AdviceOperator
         else if s = ''caller'' then Inr AdviceCaller
         else Inl AdviceUnknown)"

definition parseAdviceRetention :: "string \<Rightarrow> load_error + advice_retention" where
  "parseAdviceRetention raw =
     (let s = trim_space raw
      in if s = '''' \<or> s = ''none'' then Inr RetentionNone
         else if s = ''aggregate'' then Inr RetentionAggregate
         else if s = ''detailed'' then Inr RetentionDetailed
         else Inl RetentionUnknown)"

subsection \<open>Lines\<close>

text \<open>\<open>strings.Fields\<close>, over the runes of the line.\<close>

fun fields_loop :: "string \<Rightarrow> string list \<Rightarrow> string list" where
  "fields_loop cur [] = (if cur = [] then [] else [cur])"
| "fields_loop cur (r # rs) =
     (if is_space r then (if cur = [] then fields_loop [] rs else cur # fields_loop [] rs) else fields_loop (cur @ r) rs)"

definition Fields :: "string \<Rightarrow> string list" where
  "Fields s = fields_loop [] (runes s)"

text \<open>\<open>strings.ToUpper\<close>. Two runes outside ASCII have an ASCII upper case, the long s and the
  dotless i; any other stays outside ASCII whatever its case, and no method of a route has one.\<close>

definition upper_rune :: "string \<Rightarrow> string" where
  "upper_rune r =
     (if r = [char_of (197 :: nat), char_of (191 :: nat)] then ''S''
      else if r = [char_of (196 :: nat), char_of (177 :: nat)] then ''I''
      else map upper_char r)"

definition ToUpper :: "string \<Rightarrow> string" where
  "ToUpper s = concat (map upper_rune (runes s))"

definition parseRoute :: "string \<Rightarrow> load_error + host_route" where
  "parseRoute line = (case Fields line of
     [m, path] \<Rightarrow> if \<not> has_prefix path ''/'' then Inl RouteRelative else Inr \<lparr>hr_Method = ToUpper m, hr_Path = path\<rparr>
   | _ \<Rightarrow> Inl RouteShape)"

fun parseAllow :: "string list \<Rightarrow> load_error + host_route list" where
  "parseAllow [] = Inr []"
| "parseAllow (line # ls) = (case parseRoute line of
     Inl e \<Rightarrow> Inl e
   | Inr r \<Rightarrow> (case parseAllow ls of Inl e \<Rightarrow> Inl e | Inr rs \<Rightarrow> Inr (r # rs)))"

text \<open>A loop over a map that writes a map: a later line overwrites an earlier one of the same route.\<close>

fun keyed_loop :: "(host_route, 'v) gomap \<Rightarrow> (string, 'v) gomap \<Rightarrow> load_error + (host_route, 'v) gomap" where
  "keyed_loop out [] = Inr out"
| "keyed_loop out ((line, v) # m) = (case parseRoute line of
     Inl e \<Rightarrow> Inl e
   | Inr route \<Rightarrow> keyed_loop (AList.update route v out) m)"

definition parseRouteKeyed :: "(string, 'v) gomap \<Rightarrow> load_error + (host_route, 'v) gomap" where
  "parseRouteKeyed m = keyed_loop [] m"

definition parseHealthCheck :: "string \<Rightarrow> load_error + host_route option" where
  "parseHealthCheck line =
     (if trim_space line = '''' then Inr None
      else case Fields line of
             [m, path] \<Rightarrow> if \<not> has_prefix path ''/'' then Inl HealthRelative else Inr (Some \<lparr>hr_Method = ToUpper m, hr_Path = path\<rparr>)
           | _ \<Rightarrow> Inl HealthShape)"

definition parseBatchRoute :: "string \<Rightarrow> load_error + host_route" where
  "parseBatchRoute line = (case parseRoute line of
     Inl e \<Rightarrow> Inl e
   | Inr route \<Rightarrow>
       if hr_Method route \<noteq> ''GET'' then Inl BatchNotGET
       else case ValidateHostRoute route of Some e \<Rightarrow> Inl (BatchInvalid e) | None \<Rightarrow> Inr route)"

fun batch_served :: "host_route \<Rightarrow> (host_route, host_route) gomap \<Rightarrow> string list \<Rightarrow> load_error + (host_route, host_route) gomap" where
  "batch_served batch out [] = Inr out"
| "batch_served batch out (line # ls) = (case parseBatchRoute line of
     Inl e \<Rightarrow> Inl e
   | Inr served \<Rightarrow>
       if ''*'' \<notin> set (split_on CHR ''/'' (hr_Path served)) then Inl BatchNoStar
       else if served = batch then Inl BatchSelf
       else if map_of out served \<noteq> None then Inl BatchTwice
       else batch_served batch (AList.update served batch out) ls)"

fun batch_loop :: "(host_route, host_route) gomap \<Rightarrow> (string, string list) gomap \<Rightarrow> string list \<Rightarrow> load_error + (host_route, host_route) gomap" where
  "batch_loop out raw [] = Inr out"
| "batch_loop out raw (key # keys) = (case parseBatchRoute key of
     Inl e \<Rightarrow> Inl e
   | Inr batch \<Rightarrow>
       (case map_of raw key of
          None \<Rightarrow> Inl BatchServesNone
        | Some [] \<Rightarrow> Inl BatchServesNone
        | Some ls \<Rightarrow> (case batch_served batch out ls of Inl e \<Rightarrow> Inl e | Inr out \<Rightarrow> batch_loop out raw keys)))"

definition ParseBatchOf :: "(string, string list) gomap \<Rightarrow> load_error + (host_route, host_route) gomap" where
  "ParseBatchOf raw = batch_loop [] raw (sort (map fst raw))"

subsection \<open>Names and callers\<close>

definition MaxProfileNameBytes :: nat where "MaxProfileNameBytes = 128"

definition name_rune :: "string \<Rightarrow> bool" where
  "name_rune r = (case r of [c] \<Rightarrow> is_alnum c \<or> c \<in> set ''-_.'' | _ \<Rightarrow> False)"

definition validateProfileName :: "string \<Rightarrow> load_error option" where
  "validateProfileName name =
     (if name = '''' then Some NameEmpty
      else if name \<noteq> trim_space name then Some NameSpace
      else if length name > MaxProfileNameBytes then Some NameLong
      else first_err (\<lambda>r. guard_err (\<not> name_rune r) NameChars) (runes name))"

fun callers_loop :: "string list \<Rightarrow> string list \<Rightarrow> load_error + string list" where
  "callers_loop callers [] = Inr callers"
| "callers_loop callers (raw # vs) =
     (let caller = trim_space raw
      in if caller = '''' then Inl CallerEmpty
         else if caller \<in> set callers then Inl CallerTwice
         else callers_loop (callers @ [caller]) vs)"

definition parseAllowedCallers :: "string list \<Rightarrow> load_error + string list" where
  "parseAllowedCallers values = (if values = [] then Inl CallersNone else callers_loop [] values)"

subsection \<open>Profiles\<close>

record token_config =
  tc_Type :: string
  tc_Env :: string
  tc_SecretEnv :: string
  tc_TTLSec :: int
  tc_Issuer :: string
  tc_Audience :: string
  tc_KeyID :: string

record profile_config =
  pc_BaseURL :: string
  pc_Allow :: "string list"
  pc_Scopes :: "string list"
  pc_AllowedCallers :: "string list"
  pc_Catalog :: "string list"
  pc_BatchOf :: "(string, string list) gomap"
  pc_Global :: string
  pc_Advice :: string
  pc_AdviceRetention :: string
  pc_Token :: "token_config option"
  pc_Preamble :: string
  pc_HealthCheck :: string
  pc_MaxCalls :: int
  pc_RouteMaxCalls :: "(string, int) gomap"
  pc_AllowInSessions :: bool
  pc_PreambleFile :: string
  pc_PassHeaders :: "string list"
  pc_SetHeaders :: "(string, string) gomap"
  pc_SDKEnv :: "(string, string) gomap"
  pc_RouteMaxRequestBytes :: "(string, int) gomap"
  pc_RouteContentTypes :: "(string, string list) gomap"
  pc_MaxRequestBytes :: int

record grant_profile =
  gp_Grant :: grant
  gp_allowedCallers :: "string list"
  gp_advice :: advice_mode
  gp_adviceRetention :: advice_retention
  gp_catalog :: "host_route list"
  gp_batchOf :: "(host_route, host_route) gomap"

type_synonym grant_registry = "(string, grant_profile) gomap"

text \<open>What the process around a load gives: the environment (\<open>''''\<close> when unset), the symbolic
  links resolved and the files read, and of a later mint its time, its random number and the hash.\<close>

record load_world =
  lw_Getenv :: "string \<Rightarrow> string"
  lw_EvalSymlinks :: "string \<Rightarrow> string option"
  lw_ReadFile :: "string \<Rightarrow> string option"
  lw_hmac :: "string \<Rightarrow> string \<Rightarrow> string"
  lw_now :: gotime
  lw_jti :: "string option"

text \<open>\<open>sandbox.StaticToken\<close>: the same token every time, without an expiry, for any subject.\<close>

definition StaticToken :: "string \<Rightarrow> minter" where
  "StaticToken v = \<lparr>m_Mint = (\<lambda>_. Inr \<lparr>mt_Value = v, mt_ExpiresAt = None\<rparr>), m_RequiresSubject = None\<rparr>"

definition buildMinter :: "load_world \<Rightarrow> token_config option \<Rightarrow> load_error + minter option" where
  "buildMinter w tc = (case tc of
     None \<Rightarrow> Inr None
   | Some tc \<Rightarrow>
       if tc_Type tc = '''' \<or> tc_Type tc = ''static'' then
         (if tc_Env tc = '''' then Inl TokenEnvMissing
          else if lw_Getenv w (tc_Env tc) = '''' then Inl TokenEnvEmpty
          else Inr (Some (StaticToken (lw_Getenv w (tc_Env tc)))))
       else if tc_Type tc = ''jwt'' then
         (if tc_SecretEnv tc = '''' then Inl SecretEnvMissing
          else let secret = lw_Getenv w (tc_SecretEnv tc)
               in if secret = '''' then Inl SecretEmpty
                  else if length secret < 32 then Inl SecretShort
                  else if trim_space (tc_Audience tc) = '''' then Inl AudienceMissing
                  else Inr (Some (jwt_as_minter (lw_hmac w) (lw_now w) (lw_jti w)
                         (newJWTMinter secret (wrap64 (tc_TTLSec tc * second)) (tc_Issuer tc) (tc_Audience tc) (tc_KeyID tc)))))
       else Inl TokenTypeUnknown)"

subsection \<open>The preamble file\<close>

text \<open>\<open>filepath.Dir\<close>, \<open>filepath.Join\<close> of two non-empty paths and \<open>filepath.Rel\<close> on Unix.\<close>

definition dir_of :: "string \<Rightarrow> string" where
  "dir_of path = path_clean (rev (dropWhile (\<lambda>c. c \<noteq> CHR ''/'') (rev path)))"

definition join_path :: "string \<Rightarrow> string \<Rightarrow> string" where
  "join_path d f = path_clean (d @ CHR ''/'' # f)"

fun strip_common :: "string list \<Rightarrow> string list \<Rightarrow> string list \<times> string list" where
  "strip_common (b # bs) (t # ts) = (if b = t then strip_common bs ts else (b # bs, t # ts))"
| "strip_common bs ts = (bs, ts)"

definition path_elems :: "string \<Rightarrow> string list" where
  "path_elems p = (if p = '''' then [] else if p = ''/'' then [''''] else split_on CHR ''/'' p)"

definition Rel :: "string \<Rightarrow> string \<Rightarrow> string option" where
  "Rel base targ =
     (let base = path_clean base; targ = path_clean targ
      in if targ = base then Some ''.''
         else let base = (if base = ''.'' then '''' else base)
              in if has_prefix base ''/'' \<noteq> has_prefix targ ''/'' then None
                 else case strip_common (path_elems base) (path_elems targ) of (bs, ts) \<Rightarrow>
                   if ts \<noteq> [] \<and> bs \<noteq> [] \<and> hd bs = ''..'' then None
                   else Some (join_with CHR ''/'' (replicate (length bs) ''..'' @ ts)))"

definition escapes :: "string option \<Rightarrow> bool" where
  "escapes rel = (case rel of None \<Rightarrow> True | Some r \<Rightarrow> r = ''..'' \<or> has_prefix r ''../'')"

definition load_preamble :: "load_world \<Rightarrow> string \<Rightarrow> profile_config \<Rightarrow> load_error + string" where
  "load_preamble w path pc =
     (if pc_PreambleFile pc = '''' then Inr (pc_Preamble pc)
      else if pc_Preamble pc \<noteq> '''' then Inl PreambleBoth
      else let dir = dir_of path; pf = join_path dir (pc_PreambleFile pc)
           in if escapes (Rel dir pf) then Inl PreambleEscapes
              else case lw_EvalSymlinks w dir of
                     None \<Rightarrow> Inl PreambleUnresolved
                   | Some realDir \<Rightarrow>
                       (case lw_EvalSymlinks w pf of
                          None \<Rightarrow> Inl PreambleUnreadable
                        | Some realPF \<Rightarrow>
                            if escapes (Rel realDir realPF) then Inl PreambleEscapes
                            else case lw_ReadFile w realPF of None \<Rightarrow> Inl PreambleUnreadable | Some b \<Rightarrow> Inr b))"

subsection \<open>Loading\<close>

definition load_profile :: "net_lib \<Rightarrow> load_world \<Rightarrow> string \<Rightarrow> string \<Rightarrow> profile_config \<Rightarrow> load_error + grant_profile" where
  "load_profile nl w path name pc =
     then_ok (case validateProfileName name of Some e \<Rightarrow> Inl e | None \<Rightarrow> Inr ()) (\<lambda>_.
     then_ok (parseAllow (pc_Allow pc)) (\<lambda>allow.
     then_ok (parseAllow (pc_Catalog pc)) (\<lambda>catalog.
     then_ok (case first_err ValidateHostRoute catalog of Some e \<Rightarrow> Inl (CatalogInvalid e) | None \<Rightarrow> Inr ()) (\<lambda>_.
     then_ok (ParseBatchOf (pc_BatchOf pc)) (\<lambda>batchOf.
     then_ok (parseAllowedCallers (pc_AllowedCallers pc)) (\<lambda>callers.
     then_ok (parseAdvice (pc_Advice pc)) (\<lambda>advice.
     then_ok (parseAdviceRetention (pc_AdviceRetention pc)) (\<lambda>retention.
     then_ok (load_preamble w path pc) (\<lambda>preamble.
     then_ok (buildMinter w (pc_Token pc)) (\<lambda>minter.
     then_ok (parseHealthCheck (pc_HealthCheck pc)) (\<lambda>health.
     then_ok (parseRouteKeyed (pc_RouteMaxCalls pc)) (\<lambda>routeMax.
     then_ok (parseRouteKeyed (pc_RouteMaxRequestBytes pc)) (\<lambda>routeBytes.
     then_ok (parseRouteKeyed (pc_RouteContentTypes pc)) (\<lambda>routeTypes.
       let grant = \<lparr>g_BaseURL = pc_BaseURL pc, g_Allow = allow, g_Minter = minter, g_Scopes = pc_Scopes pc,
          g_Global = pc_Global pc, g_Preamble = preamble, g_HealthCheck = health, g_MaxCalls = pc_MaxCalls pc,
          g_RouteMaxCalls = routeMax, g_AllowInSessions = pc_AllowInSessions pc, g_PassHeaders = pc_PassHeaders pc,
          g_SetHeaders = pc_SetHeaders pc, g_SDKEnv = pc_SDKEnv pc, g_RouteMaxRequestBytes = routeBytes,
          g_RouteContentTypes = routeTypes, g_MaxRequestBytes = pc_MaxRequestBytes pc\<rparr>
       in case Validate nl grant of
         Some e \<Rightarrow> Inl (GrantInvalid e)
       | None \<Rightarrow> Inr \<lparr>gp_Grant = grant, gp_allowedCallers = callers, gp_advice = advice, gp_adviceRetention = retention,
                     gp_catalog = catalog, gp_batchOf = batchOf\<rparr>))))))))))))))"

fun load_profiles :: "net_lib \<Rightarrow> load_world \<Rightarrow> string \<Rightarrow> grant_registry \<Rightarrow> (string, profile_config) gomap \<Rightarrow> load_error + grant_registry" where
  "load_profiles nl w path r [] = Inr r"
| "load_profiles nl w path r ((name, pc) # ps) = (case load_profile nl w path name pc of
     Inl e \<Rightarrow> Inl e
   | Inr p \<Rightarrow> load_profiles nl w path (AList.update name p r) ps)"

text \<open>\<open>decode\<close> is the JSON decoder with unknown fields and trailing data refused.\<close>

definition Load :: "net_lib \<Rightarrow> load_world \<Rightarrow> (string \<Rightarrow> (string, profile_config) gomap option) \<Rightarrow> string \<Rightarrow> load_error + grant_registry" where
  "Load nl w decode path = (case lw_ReadFile w path of
     None \<Rightarrow> Inl FileUnreadable
   | Some raw \<Rightarrow> (case decode raw of None \<Rightarrow> Inl FileMalformed | Some profiles \<Rightarrow> load_profiles nl w path [] profiles))"

definition LoadFromEnv :: "net_lib \<Rightarrow> load_world \<Rightarrow> (string \<Rightarrow> (string, profile_config) gomap option) \<Rightarrow> load_error + grant_registry" where
  "LoadFromEnv nl w decode =
     (let path = trim_space (lw_Getenv w ''PLIMSOLL_GRANTS_FILE'')
      in if path = '''' then Inr [] else Load nl w decode path)"

subsection \<open>The registry\<close>

definition Allows :: "grant_profile \<Rightarrow> string \<Rightarrow> bool" where
  "Allows p caller \<longleftrightarrow> caller \<noteq> '''' \<and> (''*'' \<in> set (gp_allowedCallers p) \<or> caller \<in> set (gp_allowedCallers p))"

definition Get :: "grant_registry option \<Rightarrow> string \<Rightarrow> grant_profile option" where
  "Get r name = (case r of None \<Rightarrow> None | Some r \<Rightarrow> map_of r name)"

definition OpenToEveryCaller :: "grant_registry option \<Rightarrow> string list" where
  "OpenToEveryCaller r = (case r of None \<Rightarrow> [] | Some r \<Rightarrow> sort (map fst (filter (\<lambda>(name, p). ''*'' \<in> set (gp_allowedCallers p)) r)))"

subsection \<open>What a loaded registry holds\<close>

definition minter_wf :: "load_world \<Rightarrow> minter option \<Rightarrow> bool" where
  "minter_wf w mn \<longleftrightarrow> (case mn of None \<Rightarrow> True | Some mn \<Rightarrow>
     (\<exists>v. v \<noteq> '''' \<and> mn = StaticToken v) \<or>
     (\<exists>m. mn = jwt_as_minter (lw_hmac w) (lw_now w) (lw_jti w) m \<and> 32 \<le> length (jm_secret m) \<and> 0 < jm_ttl m \<and> trim_space (jm_audience m) \<noteq> ''''))"

definition batch_wf :: "(host_route, host_route) gomap \<Rightarrow> bool" where
  "batch_wf b \<longleftrightarrow> gomap_ok b \<and> (\<forall>(served, batch) \<in> set b. hr_Method served = ''GET'' \<and> hr_Method batch = ''GET'' \<and>
     ValidateHostRoute served = None \<and> ValidateHostRoute batch = None \<and> ''*'' \<in> set (split_on CHR ''/'' (hr_Path served)) \<and> served \<noteq> batch)"

definition profile_wf :: "net_lib \<Rightarrow> load_world \<Rightarrow> string \<Rightarrow> grant_profile \<Rightarrow> bool" where
  "profile_wf nl w name p \<longleftrightarrow>
     name \<noteq> '''' \<and> length name \<le> MaxProfileNameBytes \<and> (\<forall>c \<in> set name. is_alnum c \<or> c \<in> set ''-_.'') \<and>
     Validate nl (gp_Grant p) = None \<and> gomap_ok (g_RouteMaxCalls (gp_Grant p)) \<and>
     gp_allowedCallers p \<noteq> [] \<and> distinct (gp_allowedCallers p) \<and> (\<forall>c \<in> set (gp_allowedCallers p). c \<noteq> '''' \<and> trim_space c = c) \<and>
     (\<forall>r \<in> set (gp_catalog p). ValidateHostRoute r = None) \<and> batch_wf (gp_batchOf p) \<and> minter_wf w (g_Minter (gp_Grant p))"

definition registry_wf :: "net_lib \<Rightarrow> load_world \<Rightarrow> grant_registry \<Rightarrow> bool" where
  "registry_wf nl w r \<longleftrightarrow> gomap_ok r \<and> (\<forall>(name, p) \<in> set r. profile_wf nl w name p)"

lemma set_update: "gomap_ok m \<Longrightarrow> x \<in> set (AList.update k v m) \<Longrightarrow> x = (k, v) \<or> x \<in> set m"
  by (induction m) (auto simp: gomap_ok_def split: if_splits)

lemma callers_loop_wf:
  "callers_loop cs vs = Inr out \<Longrightarrow> distinct cs \<Longrightarrow> list_all (\<lambda>c. c \<noteq> '''' \<and> trim_space c = c) cs \<Longrightarrow>
     distinct out \<and> list_all (\<lambda>c. c \<noteq> '''' \<and> trim_space c = c) out \<and> length out = length cs + length vs"
proof (induction cs vs rule: callers_loop.induct)
  case (2 cs raw vs)
  have c: "trim_space raw \<noteq> ''''" "trim_space raw \<notin> set cs" "callers_loop (cs @ [trim_space raw]) vs = Inr out"
    using 2(2) by (simp_all add: Let_def split: if_splits)
  show ?case using 2(1) [OF refl c(1,2,3)] 2(3,4) c(1,2) by simp
qed simp

lemma parseBatchRoute_ok: "parseBatchRoute line = Inr r \<Longrightarrow> hr_Method r = ''GET'' \<and> ValidateHostRoute r = None"
  by (auto simp: parseBatchRoute_def split: sum.splits if_splits option.splits)

lemma batch_served_wf:
  "batch_served batch out ls = Inr out' \<Longrightarrow> batch_wf out \<Longrightarrow> hr_Method batch = ''GET'' \<Longrightarrow> ValidateHostRoute batch = None \<Longrightarrow> batch_wf out'"
proof (induction batch out ls rule: batch_served.induct)
  case (2 batch out line ls)
  obtain served where s: "parseBatchRoute line = Inr served" "''*'' \<in> set (split_on CHR ''/'' (hr_Path served))" "served \<noteq> batch"
      "map_of out served = None" "batch_served batch (AList.update served batch out) ls = Inr out'"
    using 2(2) by (auto split: sum.splits if_splits)
  have "batch_wf (AList.update served batch out)"
    using 2(3-5) s(2,3) parseBatchRoute_ok [OF s(1)] set_update [of out _ served batch]
    by (fastforce simp: batch_wf_def gomap_ok_update)
  with 2 s show ?case by simp
qed simp

lemma batch_loop_wf: "batch_loop out raw ks = Inr out' \<Longrightarrow> batch_wf out \<Longrightarrow> batch_wf out'"
proof (induction out raw ks rule: batch_loop.induct)
  case (2 out raw key keys)
  obtain batch ls out1 where s: "parseBatchRoute key = Inr batch" "batch_served batch out ls = Inr out1" "batch_loop out1 raw keys = Inr out'"
      "map_of raw key = Some ls" "ls \<noteq> []"
    using 2(2) by (auto simp del: batch_served.simps split: sum.splits option.splits list.splits)
  moreover have "batch_wf out1" using batch_served_wf [OF s(2) 2(3)] parseBatchRoute_ok [OF s(1)] by simp
  ultimately show ?case using 2(1) [of batch ls "hd ls" "tl ls" out1] by simp
qed simp

lemma ParseBatchOf_wf: "ParseBatchOf raw = Inr b \<Longrightarrow> batch_wf b"
  unfolding ParseBatchOf_def by (erule batch_loop_wf) (simp add: batch_wf_def gomap_ok_def)

lemma keyed_loop_ok: "keyed_loop out m = Inr out' \<Longrightarrow> gomap_ok out \<Longrightarrow> gomap_ok out'"
  by (induction out m rule: keyed_loop.induct) (auto simp: gomap_ok_update split: sum.splits)

lemma buildMinter_wf: "buildMinter w tc = Inr mn \<Longrightarrow> minter_wf w mn"
  by (auto simp: buildMinter_def minter_wf_def newJWTMinter_def second_def Let_def split: option.splits if_splits)

lemma name_rune_char: "name_rune r \<Longrightarrow> c \<in> set r \<Longrightarrow> is_alnum c \<or> c \<in> set ''-_.''"
  by (cases r; cases "tl r") (auto simp: name_rune_def)

lemma name_chars:
  assumes "validateProfileName name = None"
  shows "name \<noteq> '''' \<and> length name \<le> MaxProfileNameBytes \<and> (\<forall>c \<in> set name. is_alnum c \<or> c \<in> set ''-_.'')"
proof -
  have v: "name \<noteq> ''''" "length name \<le> MaxProfileNameBytes" "\<forall>r \<in> set (runes name). name_rune r"
    using assms by (simp_all add: validateProfileName_def split: if_splits)
  have "is_alnum c \<or> c \<in> set ''-_.''" if "c \<in> set name" for c
  proof -
    from that have "c \<in> set (concat (runes name))" by (simp only: concat_runes)
    then obtain r where "r \<in> set (runes name)" "c \<in> set r" by auto
    with v(3) show ?thesis using name_rune_char by blast
  qed
  with v(1,2) show ?thesis by blast
qed

lemma load_profile_wf:
  assumes "load_profile nl w path name pc = Inr p"
  shows "profile_wf nl w name p"
proof -
  obtain allow catalog batchOf callers advice retention preamble minter health routeMax routeBytes routeTypes where
    l: "validateProfileName name = None" "first_err ValidateHostRoute catalog = None" "ParseBatchOf (pc_BatchOf pc) = Inr batchOf"
      "parseAllowedCallers (pc_AllowedCallers pc) = Inr callers" "buildMinter w (pc_Token pc) = Inr minter"
      "parseRouteKeyed (pc_RouteMaxCalls pc) = Inr routeMax"
    and p: "g_Minter (gp_Grant p) = minter" "g_RouteMaxCalls (gp_Grant p) = routeMax" "Validate nl (gp_Grant p) = None"
      "gp_allowedCallers p = callers" "gp_catalog p = catalog" "gp_batchOf p = batchOf"
    using assms by (auto simp: load_profile_def then_ok_Inr Let_def split: option.splits)
  have "distinct callers \<and> (\<forall>c \<in> set callers. c \<noteq> '''' \<and> trim_space c = c) \<and> callers \<noteq> []"
    using l(4) callers_loop_wf [of "[]" "pc_AllowedCallers pc" callers] by (auto simp: parseAllowedCallers_def list_all_iff split: if_splits)
  moreover have "gomap_ok routeMax" using l(6) keyed_loop_ok [of "[]"] by (simp add: parseRouteKeyed_def gomap_ok_def)
  moreover have "\<forall>r \<in> set catalog. ValidateHostRoute r = None" using l(2) by simp
  ultimately show ?thesis
    using name_chars [OF l(1)] ParseBatchOf_wf [OF l(3)] buildMinter_wf [OF l(5)] by (simp add: profile_wf_def p)
qed

lemma load_profiles_wf:
  "load_profiles nl w path r ps = Inr r' \<Longrightarrow> registry_wf nl w r \<Longrightarrow> registry_wf nl w r'"
proof (induction nl w path r ps rule: load_profiles.induct)
  case (2 nl w path r name pc ps)
  obtain p where p: "load_profile nl w path name pc = Inr p" "load_profiles nl w path (AList.update name p r) ps = Inr r'"
    using 2(2) by (auto split: sum.splits)
  have "registry_wf nl w (AList.update name p r)"
    using 2(3) load_profile_wf [OF p(1)] set_update [of r _ name p] by (fastforce simp: registry_wf_def gomap_ok_update)
  with 2(1) [OF p] show ?case by blast
qed simp

lemma load_profiles_of:
  assumes "load_profiles nl w path r ps = Inr r'" and "gomap_ok ps" and "fst ` set ps \<inter> dom (map_of r) = {}"
  shows "map_of r' name = (case map_of ps name of
      Some pc \<Rightarrow> (case load_profile nl w path name pc of Inr p \<Rightarrow> Some p | Inl _ \<Rightarrow> None) | None \<Rightarrow> map_of r name) \<and>
    (\<forall>pc. map_of ps name = Some pc \<longrightarrow> (\<exists>p. load_profile nl w path name pc = Inr p))"
  using assms
proof (induction nl w path r ps rule: load_profiles.induct)
  case (2 nl w path r n pc ps)
  obtain p where p: "load_profile nl w path n pc = Inr p" "load_profiles nl w path (AList.update n p r) ps = Inr r'"
    using 2(2) by (auto split: sum.splits)
  have g: "gomap_ok ps" "n \<notin> fst ` set ps" using 2(3) by (simp_all add: gomap_ok_def)
  have "fst ` set ps \<inter> dom (map_of (AList.update n p r)) = {}" using 2(4) g(2) by (auto simp: update_conv' split: if_splits)
  from 2(1) [OF p g(1) this] show ?case
    using p(1) g(2) map_of_eq_None_iff [of ps n] by (auto simp: update_conv' split: option.splits)
qed simp

text \<open>C34: A registry that loads is well formed. Every name is a short token a caller can send,
  every profile's grant passes \<open>Validate\<close>, names at least one caller, none of them empty, padded or
  twice, has a catalog and batch relations a grant could hold, and a credential that is a
  non-empty static token or a JWT with a secret of at least 32 bytes, a positive life and an
  audience; and the registry has exactly the profiles of the file, each as its entry says.\<close>

theorem loaded_registry_is_well_formed:
  assumes "Load nl w decode path = Inr r"
  shows "registry_wf nl w r \<and> (\<exists>raw ps. lw_ReadFile w path = Some raw \<and> decode raw = Some ps \<and>
    (gomap_ok ps \<longrightarrow> (\<forall>name. map_of r name = (case map_of ps name of None \<Rightarrow> None
        | Some pc \<Rightarrow> (case load_profile nl w path name pc of Inr p \<Rightarrow> Some p | Inl _ \<Rightarrow> None)) \<and>
      (\<forall>pc. map_of ps name = Some pc \<longrightarrow> (\<exists>p. load_profile nl w path name pc = Inr p)))))"
proof -
  obtain raw ps where l: "lw_ReadFile w path = Some raw" "decode raw = Some ps" "load_profiles nl w path [] ps = Inr r"
    using assms by (auto simp: Load_def split: option.splits)
  have "registry_wf nl w r" by (rule load_profiles_wf [OF l(3)]) (simp add: registry_wf_def gomap_ok_def)
  moreover have "map_of r name = (case map_of ps name of None \<Rightarrow> None
        | Some pc \<Rightarrow> (case load_profile nl w path name pc of Inr p \<Rightarrow> Some p | Inl _ \<Rightarrow> None)) \<and>
      (\<forall>pc. map_of ps name = Some pc \<longrightarrow> (\<exists>p. load_profile nl w path name pc = Inr p))" if "gomap_ok ps" for name
    using load_profiles_of [OF l(3) that, of name] by (auto split: option.splits)
  ultimately show ?thesis using l(1,2) by blast
qed

subsection \<open>Lines that spell the same route\<close>

definition routes_in :: "(string, 'v) gomap \<Rightarrow> (host_route \<times> 'v) list" where
  "routes_in m = map (\<lambda>(line, v). (case parseRoute line of Inr r \<Rightarrow> r | Inl _ \<Rightarrow> \<lparr>hr_Method = '''', hr_Path = ''''\<rparr>, v)) m"

lemma keyed_loop_map:
  "keyed_loop out m = Inr out' \<Longrightarrow> map_of out' = map_of out ++ map_of (rev (routes_in m))"
proof (induction out m rule: keyed_loop.induct)
  case (2 out line v m)
  obtain r where r: "parseRoute line = Inr r" "keyed_loop (AList.update r v out) m = Inr out'"
    using 2(2) by (auto split: sum.splits)
  from 2(1) [OF r] r(1) show ?case
    by (auto simp: routes_in_def fun_eq_iff map_add_def update_conv' split: option.splits)
qed (simp add: routes_in_def)

lemma keyed_loop_total: "(\<exists>out'. keyed_loop out m = Inr out') \<longleftrightarrow> (\<forall>(line, v) \<in> set m. \<exists>r. parseRoute line = Inr r)"
  by (induction out m rule: keyed_loop.induct) (auto split: sum.splits)

lemma map_of_consistent:
  assumes "\<And>r v v'. (r, v) \<in> set xs \<Longrightarrow> (r, v') \<in> set xs \<Longrightarrow> v = v'" and "(r, v) \<in> set xs"
  shows "map_of xs r = Some v"
proof -
  obtain v' where "map_of xs r = Some v'" using assms(2) by (metis map_of_eq_None_iff imageI not_None_eq fst_conv)
  moreover from map_of_SomeD [OF this] assms have "v' = v" by blast
  ultimately show ?thesis by simp
qed

text \<open>What a file says of a route is determined by the file exactly when no two of its lines
  spell the same route with different values. A line's method is upper-cased and its spaces are
  dropped before it keys the map, and the loop visits the file's entries in Go's random order; so
  where two lines spell one route, which of their limits the daemon enforces can differ from one
  start to the next. The check that every batch relation is unambiguous has no counterpart here.\<close>

theorem route_limits_follow_the_file:
  assumes "parseRouteKeyed m = Inr out"
  shows "(\<forall>m' out'. mset m' = mset m \<longrightarrow> parseRouteKeyed m' = Inr out' \<longrightarrow> map_of out' = map_of out) \<longleftrightarrow>
    (\<forall>(l, v) \<in> set m. \<forall>(l', v') \<in> set m. parseRoute l = parseRoute l' \<longrightarrow> v = v')"
  (is "?det \<longleftrightarrow> ?cons")
proof
  have all: "\<forall>(line, v) \<in> set m. \<exists>r. parseRoute line = Inr r" using assms keyed_loop_total [of "[]" m] by (auto simp: parseRouteKeyed_def)
  have keyed: "map_of out' = map_of (rev (routes_in m'))" if "parseRouteKeyed m' = Inr out'" for m' :: "(string, 'a) gomap" and out'
    using keyed_loop_map [of "[]" m' out'] that by (simp add: parseRouteKeyed_def)
  have mem: "\<exists>l. (l, v) \<in> set m \<and> parseRoute l = Inr r" if "(r, v) \<in> set (routes_in m)" for r v
    using that all by (fastforce simp: routes_in_def split: sum.splits)
  {
    assume det: ?det
    have "v = v'" if e: "(l, v) \<in> set m" "(l', v') \<in> set m" "parseRoute l = parseRoute l'" for l v l' v'
    proof -
      have last: "map_of out r = Some x" if x: "(k, x) \<in> set m" "parseRoute k = Inr r" for k x r
      proof -
        let ?m = "remove1 (k, x) m @ [(k, x)]"
        have ms: "mset ?m = mset m" using x(1) by simp
        then have "set ?m = set m" by (metis set_mset_mset)
        then obtain out' where o: "parseRouteKeyed ?m = Inr out'"
          using all keyed_loop_total [of "[]" ?m] by (auto simp: parseRouteKeyed_def)
        have "map_of out' r = Some x" using keyed [OF o] x(2) by (simp add: routes_in_def)
        then show ?thesis using det ms o by metis
      qed
      obtain r where "parseRoute l = Inr r" using all e(1) by auto
      then show ?thesis using last [of l v r] last [of l' v' r] e by simp
    qed
    then show ?cons by blast
  next
    assume cons: ?cons
    show ?det
    proof (intro allI impI)
      fix m' out' assume ms: "mset m' = mset m" and o: "parseRouteKeyed m' = Inr out'"
      then have s: "set (routes_in m') = set (routes_in m)" by (metis routes_in_def set_map set_mset_mset)
      have c: "v = v'" if "(r, v) \<in> set (routes_in m)" "(r, v') \<in> set (routes_in m)" for r v v'
      proof -
        from that obtain l l' where "(l, v) \<in> set m" "(l', v') \<in> set m" "parseRoute l = Inr r" "parseRoute l' = Inr r"
          using mem by metis
        with cons show "v = v'" by fastforce
      qed
      have "map_of (rev (routes_in m')) r = map_of (rev (routes_in m)) r" for r
      proof (cases "map_of (rev (routes_in m)) r")
        case None
        then have "map_of (rev (routes_in m')) r = None" using s by (simp add: map_of_eq_None_iff)
        with None show ?thesis by simp
      next
        case (Some v)
        have "(r, v) \<in> set (rev (routes_in m'))" using map_of_SomeD [OF Some] s by simp
        moreover have "set (rev (routes_in m')) = set (rev (routes_in m))" using s by simp
        ultimately have "map_of (rev (routes_in m')) r = Some v" using c by (intro map_of_consistent) (metis set_rev)+
        with Some show ?thesis by simp
      qed
      then show "map_of out' = map_of out" using keyed [OF o] keyed [OF assms] by auto
    qed
  }
qed
subsection \<open>Where a preamble may come from\<close>

text \<open>A path below another: its elements and then proper ones. The directory \<open>.\<close> has no element.\<close>

definition below :: "string \<Rightarrow> string \<Rightarrow> bool" where
  "below d p \<longleftrightarrow> p = d \<or> (\<exists>es. list_all proper_elem es \<and> path_elems p = (if d = ''.'' then [] else path_elems d) @ es)"

lemma strip_common_eq: "strip_common bs ts = (xs, ys) \<Longrightarrow> \<exists>zs. bs = zs @ xs \<and> ts = zs @ ys"
proof (induction bs ts rule: strip_common.induct)
  case (1 b bs t ts)
  then show ?case by (cases "b = t") (auto intro: exI [of _ "t # _"])
qed auto

text \<open>The elements of a cleaned relative path: parents, then proper elements.\<close>

lemma dots_then_proper_split: "dots_then_proper es \<Longrightarrow> \<exists>k ps. es = replicate k ''..'' @ ps \<and> list_all proper_elem ps"
proof -
  assume "dots_then_proper es"
  moreover have "takeWhile (\<lambda>e. e = ''..'') es = replicate (length (takeWhile (\<lambda>e. e = ''..'') es)) ''..''"
    by (intro replicate_eqI) (auto dest: set_takeWhileD)
  ultimately show ?thesis unfolding dots_then_proper_def by (metis takeWhile_dropWhile_id)
qed

lemma clean_relative_elems:
  assumes "path_clean p = p" and "\<not> has_prefix p ''/''" and "p \<noteq> ''.''"
  shows "\<exists>k ps. path_elems p = replicate k ''..'' @ ps \<and> list_all proper_elem ps"
proof -
  let ?es = "clean_elems False [] (split_on CHR ''/'' p)"
  have p: "p = join_with CHR ''/'' ?es" "?es \<noteq> []" using assms by (auto simp: path_clean_def Let_def split: if_splits)
  have "\<forall>e \<in> set ?es. CHR ''/'' \<notin> set e"
    using clean_elems_subset [of False "[]" "split_on CHR ''/'' p"] by (auto dest: split_on_no_sep)
  then have s: "split_on CHR ''/'' p = ?es" using split_join [OF p(2)] p(1) by metis
  have "dots_then_proper ?es" by (rule clean_elems_relative) (simp add: dots_then_proper_def)
  then obtain k ps where k: "?es = replicate k ''..'' @ ps" "list_all proper_elem ps" using dots_then_proper_split by blast
  have "p \<noteq> ''''" using assms(1) by (auto simp: path_clean_def Let_def split: if_splits)
  moreover have "p \<noteq> ''/''" using assms(2) by (auto simp: has_prefix_def)
  ultimately show ?thesis using s k by (auto simp: path_elems_def)
qed

lemma join_parent: "r = join_with CHR ''/'' (''..'' # ts) \<Longrightarrow> r = ''..'' \<or> has_prefix r ''../''"
  by (cases ts) (auto simp: has_prefix_def)

lemma Rel_below:
  assumes "\<not> escapes (Rel d p)" and "path_clean d = d" and "path_clean p = p"
  shows "below d p"
proof (cases "p = d")
  case True
  then show ?thesis by (simp add: below_def)
next
  case False
  let ?b = "if d = ''.'' then '''' else d"
  obtain bs ts where s: "strip_common (path_elems ?b) (path_elems p) = (bs, ts)" by fastforce
  have same: "has_prefix ?b ''/'' = has_prefix p ''/''" and rel: "\<not> escapes (Some (join_with CHR ''/'' (replicate (length bs) ''..'' @ ts)))"
    using assms False s by (auto simp: Rel_def escapes_def Let_def split: if_splits)
  have "bs = []" using rel join_parent by (cases bs) (auto simp: escapes_def)
  with strip_common_eq [OF s] have e: "path_elems p = path_elems ?b @ ts" by auto
  have hd: "ts = [] \<or> hd ts \<noteq> ''..''" using rel \<open>bs = []\<close> join_parent by (cases ts) (auto simp: escapes_def)
  have "list_all proper_elem ts"
  proof (cases "has_prefix p ''/''")
    case True
    have ne: "path_elems ?b \<noteq> []" using same True by (auto simp: path_elems_def has_prefix_def)
    show ?thesis
    proof (cases "p = ''/''")
      case True
      then have "path_elems p = [[]]" by (simp add: path_elems_def)
      with e ne show ?thesis by (cases "path_elems ?b") auto
    next
      case nr: False
      obtain es where es: "split_on CHR ''/'' p = [] # es" "list_all proper_elem es" using path_clean_fixed_rooted [OF assms(3) True nr] by blast
      have "p \<noteq> ''''" using True by (auto simp: has_prefix_def)
      then have pe: "path_elems p = [] # es" using es nr by (simp add: path_elems_def)
      from ne obtain x xs where x: "path_elems ?b = x # xs" by (cases "path_elems ?b") auto
      then show ?thesis using e pe es(2) by auto
    qed
  next
    case rl: False
    show ?thesis
    proof (cases "p = ''.''")
      case True
      have "d \<noteq> ''.''" "d \<noteq> []" using False True assms(2) by (auto simp: path_clean_def has_prefix_def)
      then have "path_elems ?b \<noteq> []" by (simp add: path_elems_def)
      moreover have "path_elems p = [''.'']" by (simp add: True path_elems_def)
      ultimately show ?thesis using e by (cases "path_elems ?b") auto
    next
      case nd: False
      then obtain k ps where k: "path_elems p = replicate k ''..'' @ ps" "list_all proper_elem ps" using clean_relative_elems [OF assms(3) rl] by blast
      then have "replicate k ''..'' @ ps = path_elems ?b @ ts" using e by simp
      then obtain us where "path_elems ?b = replicate k ''..'' @ us \<and> ps = us @ ts \<or> replicate k ''..'' = path_elems ?b @ us \<and> ts = us @ ps"
        unfolding append_eq_append_conv2 by metis
      moreover have "us = [] \<or> hd us = ''..''" if "replicate k ''..'' = path_elems ?b @ us"
        using that by (cases us) (metis, metis in_set_conv_decomp in_set_replicate list.sel(1))
      ultimately show ?thesis using k(2) hd by (cases us) auto
    qed
  qed
  then show ?thesis using e by (auto simp: below_def path_elems_def)
qed
text \<open>C38: A preamble file never leaves the grants directory. Where a profile's preamble is read
  from a file, that file is the resolved one, and it lies below the resolved directory of the
  grants file, whatever the configured name says and whatever symbolic links it passes. What
  \<open>EvalSymlinks\<close> returns is a cleaned path, as its documentation says.\<close>

theorem preamble_stays_inside:
  assumes "load_preamble w path pc = Inr js" and "pc_PreambleFile pc \<noteq> ''''"
    and "\<And>p q. lw_EvalSymlinks w p = Some q \<Longrightarrow> path_clean q = q"
  shows "\<exists>dir pf. lw_EvalSymlinks w (dir_of path) = Some dir \<and>
    lw_EvalSymlinks w (join_path (dir_of path) (pc_PreambleFile pc)) = Some pf \<and>
    lw_ReadFile w pf = Some js \<and> below dir pf"
proof -
  obtain dir pf where l: "lw_EvalSymlinks w (dir_of path) = Some dir"
      "lw_EvalSymlinks w (join_path (dir_of path) (pc_PreambleFile pc)) = Some pf"
      "lw_ReadFile w pf = Some js" "\<not> escapes (Rel dir pf)"
    using assms(1,2) by (auto simp: load_preamble_def Let_def split: if_splits option.splits)
  with Rel_below [OF l(4) assms(3) [OF l(1)] assms(3) [OF l(2)]] show ?thesis by blast
qed

subsection \<open>One file\<close>

definition demo_profile :: profile_config where
  "demo_profile = \<lparr>pc_BaseURL = ''https://api.example.com'', pc_Allow = [''post /v1/run'', ''GET /v1/items/*'', ''GET /v1/items''], pc_Scopes = [''run''],
     pc_AllowedCallers = ['' alice ''], pc_Catalog = [], pc_BatchOf = [(''GET /v1/items'', [''GET /v1/items/*''])], pc_Global = '''', pc_Advice = ''caller'',
     pc_AdviceRetention = '''', pc_Token = Some \<lparr>tc_Type = ''jwt'', tc_Env = '''', tc_SecretEnv = ''KEY'', tc_TTLSec = 0, tc_Issuer = '''',
       tc_Audience = ''api'', tc_KeyID = ''''\<rparr>, pc_Preamble = '''', pc_HealthCheck = '''', pc_MaxCalls = 0,
     pc_RouteMaxCalls = [(''POST /v1/run'', 2)], pc_AllowInSessions = False, pc_PreambleFile = ''sdk/run.js'', pc_PassHeaders = [],
     pc_SetHeaders = [], pc_SDKEnv = [], pc_RouteMaxRequestBytes = [], pc_RouteContentTypes = [], pc_MaxRequestBytes = 0\<rparr>"

definition demo_links :: "string \<Rightarrow> string option" where
  "demo_links p = (if p = ''/etc/plimsoll'' then Some ''/srv/grants'' else if p = ''/etc/plimsoll/sdk/run.js'' then Some ''/srv/grants/v2/run.js'' else None)"

definition demo_files :: "string \<Rightarrow> string option" where
  "demo_files p = (if p = ''/etc/plimsoll/grants.json'' then Some ''{}'' else if p = ''/srv/grants/v2/run.js'' then Some ''sdk'' else None)"

definition demo_world :: load_world where
  "demo_world = \<lparr>lw_Getenv = (\<lambda>n. if n = ''KEY'' then replicate 32 CHR ''k'' else ''''), lw_EvalSymlinks = demo_links, lw_ReadFile = demo_files,
     lw_hmac = (\<lambda>_ _. ''sum''), lw_now = 0, lw_jti = Some ''00''\<rparr>"

definition demo_decode :: "string \<Rightarrow> (string, profile_config) gomap option" where
  "demo_decode raw = Some [(''run'', demo_profile)]"

theorem loaded_registry_is_well_formed_witness:
  "\<exists>r p. Load demo_net demo_world demo_decode ''/etc/plimsoll/grants.json'' = Inr r \<and> registry_wf demo_net demo_world r \<and>
     map_of r ''run'' = Some p \<and> gp_allowedCallers p = [''alice'']"
proof -
  have "case Load demo_net demo_world demo_decode ''/etc/plimsoll/grants.json'' of
      Inr r \<Rightarrow> (case map_of r ''run'' of Some p \<Rightarrow> gp_allowedCallers p = [''alice''] | None \<Rightarrow> False) | Inl _ \<Rightarrow> False"
    by code_simp
  then obtain r p where r: "Load demo_net demo_world demo_decode ''/etc/plimsoll/grants.json'' = Inr r" "map_of r ''run'' = Some p" "gp_allowedCallers p = [''alice'']"
    by (auto split: sum.splits option.splits)
  with loaded_registry_is_well_formed [OF r(1)] show ?thesis by blast
qed

theorem preamble_stays_inside_witness:
  "load_preamble demo_world ''/etc/plimsoll/grants.json'' demo_profile = Inr ''sdk'' \<and> below ''/srv/grants'' ''/srv/grants/v2/run.js''"
proof -
  have l: "load_preamble demo_world ''/etc/plimsoll/grants.json'' demo_profile = Inr ''sdk''" by code_simp
  have c: "path_clean ''/srv/grants'' = ''/srv/grants''" "path_clean ''/srv/grants/v2/run.js'' = ''/srv/grants/v2/run.js''" by code_simp+
  have d: "lw_EvalSymlinks demo_world (dir_of ''/etc/plimsoll/grants.json'') = Some ''/srv/grants''"
    "lw_EvalSymlinks demo_world (join_path (dir_of ''/etc/plimsoll/grants.json'') (pc_PreambleFile demo_profile)) = Some ''/srv/grants/v2/run.js''" by code_simp+
  have n: "pc_PreambleFile demo_profile \<noteq> ''''" by (simp add: demo_profile_def)
  have "path_clean q = q" if "lw_EvalSymlinks demo_world p = Some q" for p q
    using that c by (auto simp: demo_world_def demo_links_def split: if_splits)
  from preamble_stays_inside [OF l n this] d l show ?thesis by auto
qed

text \<open>Two lines for one route: either limit can be the one that is enforced.\<close>

theorem route_limits_follow_the_file_witness:
  "parseRouteKeyed [(''POST /v1/run'', 2 :: int), (''post /v1/run'', 100)] = Inr [(\<lparr>hr_Method = ''POST'', hr_Path = ''/v1/run''\<rparr>, 100)] \<and>
   (\<exists>m' out'. mset m' = mset [(''POST /v1/run'', 2), (''post /v1/run'', 100)] \<and> parseRouteKeyed m' = Inr out' \<and>
     map_of out' \<noteq> map_of [(\<lparr>hr_Method = ''POST'', hr_Path = ''/v1/run''\<rparr>, 100 :: int)])"
proof -
  have p: "parseRouteKeyed [(''POST /v1/run'', 2 :: int), (''post /v1/run'', 100)] = Inr [(\<lparr>hr_Method = ''POST'', hr_Path = ''/v1/run''\<rparr>, 100)]"
    by code_simp
  have e: "parseRoute ''POST /v1/run'' = parseRoute ''post /v1/run''" by code_simp
  have "(''POST /v1/run'', 2 :: int) \<in> set [(''POST /v1/run'', 2 :: int), (''post /v1/run'', 100)]"
    "(''post /v1/run'', 100 :: int) \<in> set [(''POST /v1/run'', 2 :: int), (''post /v1/run'', 100)]" by simp_all
  then have "\<not> (\<forall>(l, v) \<in> set [(''POST /v1/run'', 2 :: int), (''post /v1/run'', 100)].
      \<forall>(l', v') \<in> set [(''POST /v1/run'', 2 :: int), (''post /v1/run'', 100)]. parseRoute l = parseRoute l' \<longrightarrow> v = v')"
    using e by auto
  then have "\<not> (\<forall>m' out'. mset m' = mset [(''POST /v1/run'', 2), (''post /v1/run'', 100)] \<longrightarrow> parseRouteKeyed m' = Inr out' \<longrightarrow>
      map_of out' = map_of [(\<lparr>hr_Method = ''POST'', hr_Path = ''/v1/run''\<rparr>, 100 :: int)])"
    unfolding route_limits_follow_the_file [OF p] .
  with p show ?thesis by blast
qed

end
