(* ===== verification/Pipeline.thy ===== *)
theory Pipeline
  imports Scan_Gate Module_Runs Cell_Runs Grants_File
begin

text \<open>
  The daemon's request pipeline, \<open>internal/rpc/sandbox_service.go\<close> and \<open>internal/rpc/pipeline.go\<close>:
  the envelope, the payload kinds, the grant a caller may select, the ship scan
  (\<open>internal/rpc/withheld.go\<close>) and the order of the checks. Log lines and the text of messages
  are left out; what a provider
  answers, when a context ends and what the scan of a part finds are inputs.
\<close>

subsection \<open>The envelope\<close>

definition Number :: nat where "Number = 5"

text \<open>\<open>time.Duration(ms) * time.Millisecond\<close> of an int32 does not overflow 64 bits.\<close>

definition clampTimeoutMs :: "32 word \<Rightarrow> duration" where
  "clampTimeoutMs ms =
     (let d = sint ms * 1000000; d = (if d < 0 then 0 else d)
      in if d > maxRunTimeout then maxRunTimeout else d)"

definition parseMinimumIsolation :: "string \<Rightarrow> goerr + isolation_class" where
  "parseMinimumIsolation raw =
     (if raw = '''' then Inr IsolationUnknown
      else let minimum = ParseIsolationClass raw
           in if minimum < IsolationProcess \<or> minimum > IsolationVM then Inl invalid_request else Inr minimum)"

definition strongerFloor :: "isolation_class \<Rightarrow> isolation_class \<Rightarrow> isolation_class" where
  "strongerFloor a b = max a b"

definition checkProtocol :: "nat \<Rightarrow> connect_error option" where
  "checkProtocol p =
     (if p = 0 then Some (refuse CodeInvalidArgument RefusalProtocol (Opaque 0))
      else if p \<noteq> Number then Some (refuse CodeUnimplemented RefusalProtocol (Opaque 0))
      else None)"

record envelope =
  ep_minimum :: isolation_class
  ep_timeout :: duration
  ep_traceID :: string
  ep_software :: software_rule

definition parseEnvelope :: "string \<Rightarrow> isolation_class \<Rightarrow> nat \<Rightarrow> string \<Rightarrow> 32 word \<Rightarrow> string \<Rightarrow> software_rule \<Rightarrow> connect_error + envelope" where
  "parseEnvelope eid Floor proto asked timeoutMs traceID rule =
     (case checkProtocol proto of
        Some e \<Rightarrow> Inl e
      | None \<Rightarrow>
          (case parseMinimumIsolation asked of
             Inl e \<Rightarrow> Inl (refuse CodeInvalidArgument RefusalRequest e)
           | Inr minimum \<Rightarrow>
               (case software_Validate rule of
                  Some e \<Rightarrow> Inl (mapSandboxErr eid e)
                | None \<Rightarrow> Inr \<lparr>ep_minimum = strongerFloor minimum Floor, ep_timeout = clampTimeoutMs timeoutMs,
                             ep_traceID = traceID, ep_software = rule\<rparr>)))"

definition checkEnvelope :: "string \<Rightarrow> isolation_class \<Rightarrow> wire_request \<Rightarrow> connect_error + envelope" where
  "checkEnvelope eid Floor q =
     parseEnvelope eid Floor (wq_Protocol q) (wq_Floor q) (word_of_int (wq_TimeoutMs q)) (wq_TraceId q) (wq_Rule q)"

subsection \<open>Payload kinds\<close>

datatype prov_request = RqJavaScript request | RqProject project_request | RqModule module_request | RqCell cell_request

definition file_of :: "wire_file \<Rightarrow> project_file" where
  "file_of f = \<lparr>f_Path = wf_Path f, f_Content = wf_Content f\<rparr>"

definition cell_of :: "envelope \<Rightarrow> string \<Rightarrow> string \<Rightarrow> wire_file list \<Rightarrow> cell_request" where
  "cell_of env language code files = \<lparr>cr_Language = language, cr_Code = code, cr_Files = map file_of files,
     cr_Timeout = ep_timeout env, cr_MinimumIsolation = ep_minimum env, cr_Software = ep_software env\<rparr>"

text \<open>What each kind's \<open>check\<close> builds, and how it validates it.\<close>

definition build_req :: "envelope \<Rightarrow> wire_payload \<Rightarrow> prov_request option" where
  "build_req env p = (case p of
     PJavaScript code profile \<Rightarrow> Some (RqJavaScript \<lparr>rq_Code = code, rq_Timeout = ep_timeout env,
        rq_MinimumIsolation = ep_minimum env, rq_Software = ep_software env\<rparr>)
   | PProject profile files steps artifacts \<Rightarrow> Some (RqProject \<lparr>pr_Files = map file_of files, pr_Steps = steps,
        pr_Timeout = ep_timeout env, pr_Artifacts = artifacts, pr_MinimumIsolation = ep_minimum env, pr_Software = ep_software env\<rparr>)
   | PModule model endTime step rows \<Rightarrow> Some (RqModule \<lparr>mr_Model = model, mr_Rows = rows, mr_EndTime = endTime, mr_Step = step,
        mr_Timeout = ep_timeout env, mr_MinimumIsolation = ep_minimum env, mr_Software = ep_software env\<rparr>)
   | PCell language code files \<Rightarrow> Some (RqCell (cell_of env language code files))
   | PNone \<Rightarrow> None)"

definition check_req :: "prov_request \<Rightarrow> goerr option" where
  "check_req r = (case r of RqJavaScript q \<Rightarrow> ValidateRequest q | RqProject q \<Rightarrow> ValidateProjectRequest q
     | RqModule q \<Rightarrow> ValidateModuleRequest q | RqCell q \<Rightarrow> ValidateCellRequest q)"

definition kind_profile :: "wire_payload \<Rightarrow> string" where
  "kind_profile p = (case p of PJavaScript _ profile \<Rightarrow> profile | PProject profile _ _ _ \<Rightarrow> profile | _ \<Rightarrow> '''')"

definition kind_environment :: "environments \<Rightarrow> prov_request \<Rightarrow> pay_env" where
  "kind_environment e r = (case r of RqJavaScript _ \<Rightarrow> en_JavaScript e | RqModule _ \<Rightarrow> en_Module e | _ \<Rightarrow> en_Project e)"

record ship_part =
  pt_Where :: string
  pt_Data :: string
  pt_Whole :: bool

fun filesShipped :: "nat \<Rightarrow> project_file list \<Rightarrow> ship_part list" where
  "filesShipped i [] = []"
| "filesShipped i (f # fs) =
     \<lparr>pt_Where = ''files['' @ dec_nat i @ ''].path'', pt_Data = f_Path f, pt_Whole = False\<rparr> #
     \<lparr>pt_Where = ''files['' @ dec_nat i @ ''].content'', pt_Data = f_Content f, pt_Whole = True\<rparr> # filesShipped (i + 1) fs"

definition numbered :: "string \<Rightarrow> string list \<Rightarrow> ship_part list" where
  "numbered name xs = map (\<lambda>(i, x). \<lparr>pt_Where = name @ ''['' @ dec_nat i @ '']'', pt_Data = x, pt_Whole = False\<rparr>) (enumerate 0 xs)"

definition shipped :: "prov_request \<Rightarrow> ship_part list option" where
  "shipped r = (case r of
     RqJavaScript q \<Rightarrow> Some [\<lparr>pt_Where = ''code'', pt_Data = rq_Code q, pt_Whole = True\<rparr>]
   | RqProject q \<Rightarrow> Some (filesShipped 0 (pr_Files q) @ numbered ''steps'' (pr_Steps q) @ numbered ''artifacts'' (pr_Artifacts q))
   | RqModule q \<Rightarrow> None
   | RqCell q \<Rightarrow> Some (\<lparr>pt_Where = ''code'', pt_Data = cr_Code q, pt_Whole = True\<rparr> # filesShipped 0 (cr_Files q)))"

subsection \<open>Grants a caller may select\<close>

definition permission_refusal :: connect_error where
  "permission_refusal = refuse CodePermissionDenied RefusalPermission (Opaque 0)"

definition grantFor :: "grant_registry option \<Rightarrow> principal_id option \<Rightarrow> string \<Rightarrow> connect_error + grant option" where
  "grantFor reg who profile =
     (if profile = '''' then Inr None
      else if length profile > MaxProfileNameBytes then Inl (refuse CodeInvalidArgument RefusalRequest (Opaque 0))
      else case mintingSubject who of (caller, authenticated) \<Rightarrow>
             (case Get reg profile of
                None \<Rightarrow> Inl permission_refusal
              | Some p \<Rightarrow> if \<not> authenticated \<or> \<not> Allows p caller then Inl permission_refusal else Inr (Some (gp_Grant p))))"

text \<open>The subject put on the context.\<close>

definition applyGrantSubject :: "principal_id option \<Rightarrow> grant \<Rightarrow> connect_error + string" where
  "applyGrantSubject who g =
     (case mintingSubject who of (subj, ok) \<Rightarrow>
        if RequiresSubject (Some g) \<and> \<not> ok then Inl permission_refusal else Inr subj)"

subsection \<open>The ship scan\<close>

record scan_finding =
  fi_Label :: string
  fi_Refuse :: bool

record withheld_set =
  wh_Exempt :: "string \<Rightarrow> bool"
  wh_Refuses :: bool
  wh_Scan :: "ship_part list \<Rightarrow> scan_finding list \<times> string list"

datatype scan_status = WithheldScanned | WithheldExempt | WithheldNotScanned | WithheldIncomplete

record ship_result =
  sp_status :: scan_status
  sp_found :: "scan_finding list"
  sp_incomplete :: "string list"
  sp_charged :: bool

definition rateCharged :: "ship_result option \<Rightarrow> bool" where
  "rateCharged r = (case r of None \<Rightarrow> False | Some r \<Rightarrow> sp_charged r)"

text \<open>How the call's context fares: it ends while the call waits for its caller's slots, or for the
  daemon's, or during the scan, or not at all.\<close>

datatype ctx_fate = EndsAtCaller sentinel | EndsAtAll sentinel | EndsInScan sentinel | Lives

definition capacity_refusal :: connect_error where
  "capacity_refusal = refuse CodeResourceExhausted RefusalCapacity (Opaque 0)"

definition scan_slots :: "scan_gate \<Rightarrow> scan_turn \<Rightarrow> scan_gate \<times> scan_turn" where
  "scan_slots g t = (add_slots 1 t g\<lparr>sg_all := sg_all g + 1\<rparr>, t\<lparr>st_phase := Scanning\<rparr>)"

definition scan_release :: "scan_gate \<Rightarrow> scan_turn \<Rightarrow> scan_gate" where
  "scan_release g t = (case free_all g t of (g, t) \<Rightarrow> case free_caller g t of (g, t) \<Rightarrow> fst (turn_leave g t))"

definition gave_up :: "string \<Rightarrow> sentinel \<Rightarrow> connect_error" where
  "gave_up eid e = mapSandboxErr eid (refuse_gave_up e)"

text \<open>The verdict on a finished scan: refused on a find in refuse mode, or on a part not read whole
  under a set that refuses.\<close>

definition scan_verdict :: "withheld_set \<Rightarrow> scan_finding list \<Rightarrow> string list \<Rightarrow> bool \<Rightarrow> connect_error + ship_result option" where
  "scan_verdict w found incomplete charged =
     (let r = \<lparr>sp_status = (if incomplete \<noteq> [] then WithheldIncomplete else WithheldScanned), sp_found = found,
               sp_incomplete = incomplete, sp_charged = charged\<rparr>;
          refused = filter fi_Refuse found; unread = (if wh_Refuses w then incomplete else [])
      in if refused = [] \<and> unread = [] then Inr (Some r) else Inl permission_refusal)"

text \<open>A scan as one step: it enters the gate, takes the rate token, waits for its two slots, reads and
  leaves. How scans wait for each other's slots is the gate's own step relation, in the scan
  gate's theory.\<close>

definition shipScan :: "string \<Rightarrow> withheld_set option \<Rightarrow> principal_id option \<Rightarrow> gotime \<Rightarrow> ctx_fate \<Rightarrow> prov_request \<Rightarrow>
    scan_gate \<Rightarrow> limiter option \<Rightarrow> (connect_error + ship_result option) \<times> scan_gate \<times> limiter option" where
  "shipScan eid wh who now fate r g lm =
     (case wh of
        None \<Rightarrow> (Inr None, g, lm)
      | Some w \<Rightarrow>
          if (case mintingSubject who of (caller, authenticated) \<Rightarrow> authenticated \<and> wh_Exempt w caller)
            then (Inr (Some \<lparr>sp_status = WithheldExempt, sp_found = [], sp_incomplete = [], sp_charged = False\<rparr>), g, lm)
          else (case shipped r of
            None \<Rightarrow> (Inr (Some \<lparr>sp_status = WithheldNotScanned, sp_found = [], sp_incomplete = [], sp_charged = False\<rparr>), g, lm)
          | Some parts \<Rightarrow>
              let caller = auditCaller who
              in case gate_enter caller (scanWaitBound lm) g of
                   (Inl e, g) \<Rightarrow> (Inl e, g, lm)
                 | (Inr turn, g) \<Rightarrow>
                     (case (case lm of None \<Rightarrow> (None, None) | Some l \<Rightarrow> (case Charge caller now l of (err, l) \<Rightarrow> (err, Some l))) of
                        (Some _, lm) \<Rightarrow> (Inl capacity_refusal, fst (turn_leave g turn), lm)
                      | (None, lm) \<Rightarrow>
                          (case fate of
                             EndsAtCaller e \<Rightarrow> (Inl (gave_up eid e), fst (turn_leave g turn), lm)
                           | EndsAtAll e \<Rightarrow>
                               (Inl (gave_up eid e), (case free_caller (add_slots 1 turn g) turn of (g, turn) \<Rightarrow> fst (turn_leave g turn)), lm)
                           | EndsInScan e \<Rightarrow>
                               (case scan_slots g turn of (g, turn) \<Rightarrow> (Inl (gave_up eid e), scan_release g turn, lm))
                           | Lives \<Rightarrow>
                               (case scan_slots g turn of (g, turn) \<Rightarrow>
                                  case wh_Scan w parts of (found, incomplete) \<Rightarrow>
                                    (scan_verdict w found incomplete (lm \<noteq> None), scan_release g turn, lm))))))"

subsection \<open>The checks, in order\<close>

record run_target =
  tg_tier :: isolation_class
  tg_teardown :: duration
  tg_software :: environments
  tg_session :: bool

record service =
  sx_Floor :: isolation_class
  sx_Grants :: "grant_registry option"
  sx_Withheld :: "withheld_set option"

record checked_call =
  ck_grant :: "grant option"
  ck_subject :: string
  ck_scan :: "ship_result option"

definition pipeline_check :: "string \<Rightarrow> service \<Rightarrow> principal_id option \<Rightarrow> gotime \<Rightarrow> ctx_fate \<Rightarrow> envelope \<Rightarrow> string \<Rightarrow> prov_request \<Rightarrow>
    run_target \<Rightarrow> scan_gate \<Rightarrow> limiter option \<Rightarrow> (connect_error + checked_call) \<times> scan_gate \<times> limiter option" where
  "pipeline_check eid s who now fate env profile r t g lm =
     (case check_req r of
        Some e \<Rightarrow> (Inl (refuse CodeInvalidArgument RefusalRequest e), g, lm)
      | None \<Rightarrow>
        (case grantFor (sx_Grants s) who profile of
           Inl e \<Rightarrow> (Inl e, g, lm)
         | Inr grant \<Rightarrow>
           (case (if tg_session t then CheckSessionGrant grant else None) of
              Some e \<Rightarrow> (Inl (mapSandboxErr eid e), g, lm)
            | None \<Rightarrow>
              (case (case grant of None \<Rightarrow> Inr '''' | Some gr \<Rightarrow> applyGrantSubject who gr) of
                 Inl e \<Rightarrow> (Inl e, g, lm)
               | Inr subject \<Rightarrow>
                 (case CheckMinimumIsolation (tg_tier t) (ep_minimum env) of
                    Some e \<Rightarrow> (Inl (mapSandboxErr eid e), g, lm)
                  | None \<Rightarrow>
                    (case software_Check (ep_software env) (pv_SoftwareIdentity (kind_environment (tg_software t) r)) of
                       Some e \<Rightarrow> (Inl (mapSandboxErr eid e), g, lm)
                     | None \<Rightarrow>
                       (case shipScan eid (sx_Withheld s) who now fate r g lm of
                          (Inl e, g, lm) \<Rightarrow> (Inl e, g, lm)
                        | (Inr scan, g, lm) \<Rightarrow> (Inr \<lparr>ck_grant = grant, ck_subject = subject, ck_scan = scan\<rparr>, g, lm))))))))"

text \<open>\<open>Run\<close> up to the run itself.\<close>

definition Run_checks :: "string \<Rightarrow> service \<Rightarrow> provider \<Rightarrow> principal_id option \<Rightarrow> gotime \<Rightarrow> ctx_fate \<Rightarrow> wire_request \<Rightarrow> bool \<Rightarrow>
    run_target \<Rightarrow> scan_gate \<Rightarrow> limiter option \<Rightarrow>
    (connect_error + envelope \<times> prov_request \<times> checked_call) \<times> scan_gate \<times> limiter option" where
  "Run_checks eid s p who now fate q preferWarm t g lm =
     (case checkEnvelope eid (sx_Floor s) q of
        Inl e \<Rightarrow> (Inl e, g, lm)
      | Inr env \<Rightarrow>
        (case build_req env (wq_Payload q) of
           None \<Rightarrow> (Inl (refuse CodeInvalidArgument RefusalRequest (Opaque 0)), g, lm)
         | Some r \<Rightarrow>
           (case (case r of RqCell c \<Rightarrow> CheckRunCell p c | _ \<Rightarrow> None) of
              Some e \<Rightarrow> (Inl (mapSandboxErr eid e), g, lm)
            | None \<Rightarrow>
              if preferWarm \<and> (case r of RqCell _ \<Rightarrow> False | _ \<Rightarrow> True)
              then (Inl (refuse CodeInvalidArgument RefusalRequest invalid_request), g, lm)
              else
                (case pipeline_check eid s who now fate env (kind_profile (wq_Payload q)) r t g lm of
                   (Inl e, g, lm) \<Rightarrow> (Inl e, g, lm)
                 | (Inr c, g, lm) \<Rightarrow> (Inr (env, r, c), g, lm)))))"

subsection \<open>Every refusal of a check is marked\<close>

definition ce_marked :: "connect_error \<Rightarrow> bool" where
  "ce_marked e \<longleftrightarrow> notDispatchedOf e \<noteq> None"

lemma refuse_is_marked [simp]: "ce_marked (refuse code reason err)"
  by (simp add: ce_marked_def)

lemma mapped_marked: "as_not_dispatched err \<noteq> None \<Longrightarrow> ce_marked (mapSandboxErr eid err)"
  by (auto simp: ce_marked_def mapSandboxErr_def notDispatchedOf_def withNotDispatched_def Let_def split: option.splits)

lemma checks_marked:
  "CheckMinimumIsolation a m = Some e \<Longrightarrow> as_not_dispatched e \<noteq> None"
  "software_Validate rule = Some e \<Longrightarrow> as_not_dispatched e \<noteq> None"
  "software_Check rule i = Some e \<Longrightarrow> as_not_dispatched e \<noteq> None"
  "CheckSessionGrant gr = Some e \<Longrightarrow> as_not_dispatched e \<noteq> None"
proof -
  have ids: "check_identities seen is = Some e \<Longrightarrow> as_not_dispatched e \<noteq> None" for seen "is" e
    by (induction seen "is" rule: check_identities.induct) (auto simp: not_dispatched_def split: if_splits)
  show v: "software_Validate rule = Some e \<Longrightarrow> as_not_dispatched e \<noteq> None" for e
    using ids by (auto simp: software_Validate_def not_dispatched_def split: if_splits)
  show "software_Check rule i = Some e \<Longrightarrow> as_not_dispatched e \<noteq> None"
    using v by (auto simp: software_Check_def not_dispatched_def split: if_splits option.splits)
  show "CheckMinimumIsolation a m = Some e \<Longrightarrow> as_not_dispatched e \<noteq> None"
    by (auto simp: CheckMinimumIsolation_def validateMinimumIsolation_def refused_def not_dispatched_def split: if_splits option.splits)
  show "CheckSessionGrant gr = Some e \<Longrightarrow> as_not_dispatched e \<noteq> None"
    by (auto simp: CheckSessionGrant_def not_dispatched_def split: if_splits option.splits)
qed

lemma cell_check_marked: "CheckRunCell p c = Some e \<Longrightarrow> as_not_dispatched e \<noteq> None"
proof -
  have "ValidateCellRequest c = Some x \<Longrightarrow> as_not_dispatched x \<noteq> None" for x
    using validation_errors_marked [of undefined c undefined] by (auto simp: not_dispatched_reason_def split: option.splits)
  then show "CheckRunCell p c = Some e \<Longrightarrow> as_not_dispatched e \<noteq> None"
    by (auto simp: CheckRunCell_def or_err_def guard_err_def split: option.splits if_splits prod.splits)
qed

lemma permission_marked [simp]: "ce_marked permission_refusal" "ce_marked capacity_refusal"
  "ce_marked (gave_up eid e)"
  by (auto simp: permission_refusal_def capacity_refusal_def gave_up_def refuse_gave_up_def intro!: mapped_marked)

lemma envelope_marked: "checkEnvelope eid fl q = Inl e \<Longrightarrow> ce_marked e"
  using mapped_marked checks_marked(2)
  by (fastforce simp: checkEnvelope_def parseEnvelope_def checkProtocol_def split: sum.splits option.splits if_splits)

lemma grant_marked:
  "grantFor reg who profile = Inl e \<Longrightarrow> ce_marked e"
  "applyGrantSubject who gr = Inl e \<Longrightarrow> ce_marked e"
  by (auto simp: grantFor_def applyGrantSubject_def split: if_splits prod.splits option.splits)

lemma enter_marked: "gate_enter caller b g = (Inl e, g') \<Longrightarrow> ce_marked e"
  by (auto simp: gate_enter_def Let_def split: if_splits option.splits prod.splits)

subsection \<open>The scan\<close>

text \<open>What the scan on a checked call says: exempt, nothing to read, or every part read and nothing
  in refuse mode.\<close>

definition scan_ok :: "withheld_set \<Rightarrow> principal_id option \<Rightarrow> prov_request \<Rightarrow> ship_result \<Rightarrow> bool" where
  "scan_ok w who r sr = (case sp_status sr of
     WithheldExempt \<Rightarrow> snd (mintingSubject who) \<and> wh_Exempt w (fst (mintingSubject who))
   | WithheldNotScanned \<Rightarrow> shipped r = None
   | st \<Rightarrow> (case shipped r of None \<Rightarrow> False | Some parts \<Rightarrow> wh_Scan w parts = (sp_found sr, sp_incomplete sr)) \<and>
       list_all (\<lambda>f. \<not> fi_Refuse f) (sp_found sr) \<and> (wh_Refuses w \<longrightarrow> sp_incomplete sr = []) \<and>
       (st = WithheldIncomplete \<longleftrightarrow> sp_incomplete sr \<noteq> []))"

lemma scan_verdict_ok:
  assumes "scan_verdict w found incomplete charged = res" and "shipped r = Some parts" and "wh_Scan w parts = (found, incomplete)"
  shows "case res of Inl e \<Rightarrow> ce_marked e | Inr None \<Rightarrow> False | Inr (Some sr) \<Rightarrow> scan_ok w who r sr"
  using assms
  by (auto simp: scan_verdict_def scan_ok_def Let_def filter_empty_conv list_all_iff split: if_splits)

lemma shipScan_verdict:
  assumes "shipScan eid wh who now fate r g lm = (res, g', lm')"
  shows "case res of Inl e \<Rightarrow> ce_marked e
    | Inr None \<Rightarrow> wh = None | Inr (Some sr) \<Rightarrow> (\<exists>w. wh = Some w \<and> scan_ok w who r sr)"
proof (cases wh)
  case None
  with assms show ?thesis by (auto simp: shipScan_def)
next
  case (Some w)
  show ?thesis
  proof (cases "snd (mintingSubject who) \<and> wh_Exempt w (fst (mintingSubject who))")
    case True
    with assms Some show ?thesis by (auto simp: shipScan_def scan_ok_def split: prod.splits)
  next
    case notex: False
    show ?thesis
    proof (cases "shipped r")
      case None
      with assms Some notex show ?thesis by (auto simp: shipScan_def scan_ok_def split: prod.splits if_splits)
    next
      case parts: (Some parts)
      obtain en g1 where en: "gate_enter (auditCaller who) (scanWaitBound lm) g = (en, g1)" by force
      show ?thesis
      proof (cases en)
        case (Inl e)
        with assms Some notex parts en enter_marked show ?thesis
          by (auto simp: shipScan_def Let_def split: prod.splits if_splits)
      next
        case (Inr turn)
        obtain ch lm1 where ch: "(case lm of None \<Rightarrow> (None, None) | Some l \<Rightarrow> (case Charge (auditCaller who) now l of (err, l) \<Rightarrow> (err, Some l))) = (ch, lm1)"
          by force
        obtain found incomplete where sc: "wh_Scan w parts = (found, incomplete)" by force
        show ?thesis
        proof (cases "ch = None \<and> fate = Lives")
          case True
          with assms Some notex parts en Inr ch sc have "res = scan_verdict w found incomplete (lm1 \<noteq> None)"
            by (auto simp: shipScan_def Let_def split: prod.splits if_splits)
          then show ?thesis using scan_verdict_ok [OF _ parts sc, of _ res who] Some by (auto split: sum.splits option.splits)
        next
          case False
          with assms Some notex parts en Inr ch have "\<exists>e. res = Inl e \<and> (e = capacity_refusal \<or> (\<exists>x. e = gave_up eid x))"
            by (cases ch; cases fate) (auto simp: shipScan_def Let_def split: prod.splits if_splits)
          then show ?thesis by auto
        qed
      qed
    qed
  qed
qed

lemma shipScan_gives_back:
  assumes "shipScan eid wh who now fate r g lm = (res, g', lm')"
  shows "sg_users g' = sg_users g \<and> sg_all g' = sg_all g"
proof -
  have u: "sg_users g1 = sg_users g + 1 \<and> sg_all g1 = sg_all g" if "gate_enter caller b g = (Inr t, g1)" for caller b t g1
    using gate_enter_effect [OF that] by auto
  have l: "sg_users (fst (turn_leave x t)) = sg_users x - 1 \<and> sg_all (fst (turn_leave x t)) = sg_all x" for x t
    by (simp add: turn_leave_def Let_def)
  have rel: "sg_users (scan_release x t) = sg_users x - 1 \<and> sg_all (scan_release x t) = sg_all x - 1" for x t
    using l by (simp add: scan_release_def free_all_def free_caller_def add_slots_def)
  have r: "sg_users g1 = sg_users g \<and> sg_all g1 = sg_all g" if "gate_enter caller b g = (Inl e, g1)" for caller b e g1
    using gate_refuse_same [OF that] by simp
  show ?thesis
    using assms
    by (auto simp: shipScan_def Let_def l rel free_caller_def add_slots_def scan_slots_def dest: u r
          split: option.splits if_splits prod.splits sum.splits ctx_fate.splits)
qed


subsection \<open>What a checked call is\<close>

lemma envelope_facts:
  assumes "checkEnvelope eid fl q = Inr env"
  shows "wq_Protocol q = Number" and "ep_software env = wq_Rule q" and "fl \<le> ep_minimum env"
    and "wq_Floor q \<noteq> [] \<Longrightarrow> ParseIsolationClass (wq_Floor q) \<le> ep_minimum env"
    and "0 \<le> ep_timeout env \<and> ep_timeout env \<le> maxRunTimeout"
    and "0 < wq_TimeoutMs q \<Longrightarrow> wq_TimeoutMs q < 2 ^ 31 \<Longrightarrow> ep_timeout env = min (wq_TimeoutMs q * 1000000) maxRunTimeout"
proof -
  note d = checkEnvelope_def parseEnvelope_def checkProtocol_def
  show "wq_Protocol q = Number" "ep_software env = wq_Rule q" "fl \<le> ep_minimum env"
    using assms by (auto simp: d strongerFloor_def split: sum.splits option.splits if_splits)
  show "ParseIsolationClass (wq_Floor q) \<le> ep_minimum env" if "wq_Floor q \<noteq> []"
    using assms that by (auto simp: d strongerFloor_def parseMinimumIsolation_def Let_def split: sum.splits option.splits if_splits)
  have t: "ep_timeout env = clampTimeoutMs (word_of_int (wq_TimeoutMs q))"
    using assms by (auto simp: d split: sum.splits option.splits if_splits)
  then show "0 \<le> ep_timeout env \<and> ep_timeout env \<le> maxRunTimeout"
    by (auto simp: clampTimeoutMs_def Let_def maxRunTimeout_def time_defs)
  assume "0 < wq_TimeoutMs q" "wq_TimeoutMs q < 2 ^ 31"
  then have "sint (word_of_int (wq_TimeoutMs q) :: 32 word) = wq_TimeoutMs q"
    by (simp add: sint_sbintrunc' signed_take_bit_int_eq_self_iff)
  then show "ep_timeout env = min (wq_TimeoutMs q * 1000000) maxRunTimeout"
    using \<open>0 < wq_TimeoutMs q\<close> by (auto simp: t clampTimeoutMs_def Let_def)
qed

text \<open>The grant on a checked call: none for a payload that names no profile; otherwise one of the
  operator's profiles, selected by an authenticated caller that is on it.\<close>

definition grant_ok :: "grant_registry option \<Rightarrow> principal_id option \<Rightarrow> string \<Rightarrow> bool \<Rightarrow> checked_call \<Rightarrow> bool" where
  "grant_ok reg who profile session c = (case ck_grant c of
     None \<Rightarrow> profile = []
   | Some gr \<Rightarrow> profile \<noteq> [] \<and> length profile \<le> MaxProfileNameBytes \<and> mintingSubject who = (ck_subject c, True) \<and>
       (case Get reg profile of None \<Rightarrow> False | Some p \<Rightarrow> gr = gp_Grant p \<and> Allows p (ck_subject c)) \<and>
       (session \<longrightarrow> g_AllowInSessions gr \<and> \<not> WantsLoopback (Some gr)))"

lemma pipeline_check_facts:
  assumes "pipeline_check eid s who now fate env profile r t g lm = (res, g', lm')"
  shows "case res of Inl e \<Rightarrow> ce_marked e
    | Inr c \<Rightarrow> check_req r = None \<and> grant_ok (sx_Grants s) who profile (tg_session t) c \<and>
        CheckMinimumIsolation (tg_tier t) (ep_minimum env) = None \<and>
        software_Check (ep_software env) (pv_SoftwareIdentity (kind_environment (tg_software t) r)) = None \<and>
        (case ck_scan c of None \<Rightarrow> sx_Withheld s = None | Some sr \<Rightarrow> (\<exists>w. sx_Withheld s = Some w \<and> scan_ok w who r sr))"
proof (cases res)
  case (Inl e)
  have "ce_marked e"
    using assms Inl mapped_marked checks_marked grant_marked shipScan_verdict
    unfolding pipeline_check_def
    by (auto split: option.splits sum.splits if_splits prod.splits) (fastforce split: sum.splits)+
  then show ?thesis by (simp add: Inl)
next
  case (Inr c)
  obtain scan where f: "check_req r = None" "grantFor (sx_Grants s) who profile = Inr (ck_grant c)"
      "tg_session t \<Longrightarrow> CheckSessionGrant (ck_grant c) = None"
      "(case ck_grant c of None \<Rightarrow> Inr [] | Some gr \<Rightarrow> applyGrantSubject who gr) = Inr (ck_subject c)"
      "CheckMinimumIsolation (tg_tier t) (ep_minimum env) = None"
      "software_Check (ep_software env) (pv_SoftwareIdentity (kind_environment (tg_software t) r)) = None"
      "shipScan eid (sx_Withheld s) who now fate r g lm = (Inr (ck_scan c), g', lm')"
    using assms unfolding pipeline_check_def Inr by (auto split: option.splits sum.splits if_splits prod.splits)
  have "grant_ok (sx_Grants s) who profile (tg_session t) c"
    using f(2,3,4)
    by (auto simp: grant_ok_def grantFor_def applyGrantSubject_def CheckSessionGrant_def not_dispatched_def
        split: option.splits if_splits prod.splits)
  then show ?thesis using f shipScan_verdict [OF f(7)] by (auto simp: Inr split: option.splits)
qed

text \<open>C30: The checks of the pipeline. A request that \<open>Run\<close> goes on to run speaks the daemon's
  protocol; its payload passed its kind's validation; its timeout is at most five minutes; its
  floor is at least the daemon's and at least its own, and the provider's tier meets it; its
  software rule allows what the provider states; it carries a grant only when it named one of the
  operator's profiles and its authenticated caller is on it, and in a session only where the
  profile allows sessions; the ship scan found nothing the operator refuses. Every request that is
  turned away carries the mark that nothing of it ran, and no place at the scan gate is kept.\<close>

theorem run_is_checked:
  assumes "Run_checks eid s p who now fate q preferWarm t g lm = (res, g', lm')"
  shows "(case res of
      Inl e \<Rightarrow> ce_marked e
    | Inr (env, r, c) \<Rightarrow>
        wq_Protocol q = Number \<and> build_req env (wq_Payload q) = Some r \<and> check_req r = None \<and>
        0 \<le> ep_timeout env \<and> ep_timeout env \<le> maxRunTimeout \<and>
        sx_Floor s \<le> ep_minimum env \<and> (wq_Floor q \<noteq> [] \<longrightarrow> ParseIsolationClass (wq_Floor q) \<le> ep_minimum env) \<and>
        (ep_minimum env = IsolationUnknown \<or> Meets (tg_tier t) (ep_minimum env)) \<and>
        software_Allows (wq_Rule q) (pv_SoftwareIdentity (kind_environment (tg_software t) r)) \<and>
        grant_ok (sx_Grants s) who (kind_profile (wq_Payload q)) (tg_session t) c \<and>
        (case ck_scan c of None \<Rightarrow> sx_Withheld s = None | Some sr \<Rightarrow> (\<exists>w. sx_Withheld s = Some w \<and> scan_ok w who r sr)))
    \<and> sg_users g' = sg_users g \<and> sg_all g' = sg_all g"
proof -
  have same: "sg_users g' = sg_users g \<and> sg_all g' = sg_all g"
    using assms shipScan_gives_back unfolding Run_checks_def pipeline_check_def
    by (auto split: option.splits sum.splits if_splits prod.splits prov_request.splits)
  show ?thesis
  proof (cases res)
    case (Inl e)
    have "ce_marked e"
      using assms Inl envelope_marked mapped_marked cell_check_marked pipeline_check_facts
      unfolding Run_checks_def
      by (auto split: option.splits sum.splits if_splits prod.splits prov_request.splits) (fastforce split: sum.splits)+
    then show ?thesis using same by (simp add: Inl)
  next
    case (Inr x)
    obtain env r c where x: "x = (env, r, c)" by (cases x)
    have f: "checkEnvelope eid (sx_Floor s) q = Inr env" "build_req env (wq_Payload q) = Some r"
        "pipeline_check eid s who now fate env (kind_profile (wq_Payload q)) r t g lm = (Inr c, g', lm')"
      using assms unfolding Run_checks_def Inr x
      by (auto split: option.splits sum.splits if_splits prod.splits prov_request.splits)
    note e = envelope_facts [OF f(1)]
    note c = pipeline_check_facts [OF f(3), simplified]
    have m: "ep_minimum env = IsolationUnknown \<or> Meets (tg_tier t) (ep_minimum env)"
      using c by (auto simp: CheckMinimumIsolation_def refused_def not_dispatched_def split: option.splits if_splits)
    have a: "software_Allows (wq_Rule q) (pv_SoftwareIdentity (kind_environment (tg_software t) r))"
      using c e(2) by (auto simp: software_Check_def not_dispatched_def split: option.splits if_splits)
    show ?thesis unfolding Inr x using e c m a f(2) same by simp
  qed
qed

subsection \<open>One request\<close>

definition demo_who :: principal_id where
  "demo_who = \<lparr>pr_UserID = ''alice'', pr_Scopes = [''code:run''], pr_PaidSecondsPerDay = 0\<rparr>"

definition demo_service :: service where
  "demo_service = \<lparr>sx_Floor = IsolationContainer,
     sx_Grants = Some [(''orders'', \<lparr>gp_Grant = demo_grant, gp_allowedCallers = [''alice''], gp_advice = AdviceOff, gp_adviceRetention = RetentionNone,
       gp_catalog = [], gp_batchOf = []\<rparr>)],
     sx_Withheld = Some \<lparr>wh_Exempt = (\<lambda>_. False), wh_Refuses = True, wh_Scan = (\<lambda>parts. ([\<lparr>fi_Label = ''note'', fi_Refuse = False\<rparr>], []))\<rparr>\<rparr>"

definition demo_ask :: wire_request where
  "demo_ask = \<lparr>wq_Protocol = 5, wq_Floor = ''process'', wq_TimeoutMs = 600000, wq_Rule = no_software_rule, wq_TraceId = '''',
     wq_Payload = PJavaScript ''1+1'' ''orders''\<rparr>"

definition demo_target :: run_target where
  "demo_target = \<lparr>tg_tier = IsolationKernel, tg_teardown = 0, tg_software = demo_envs, tg_session = False\<rparr>"

theorem run_is_checked_witness:
  "\<exists>env r c g'. Run_checks ''e1'' demo_service demo_provider (Some demo_who) 0 Lives demo_ask False demo_target (newScanGate 2) None
       = (Inr (env, r, c), g', None) \<and> ep_minimum env = IsolationContainer \<and> ep_timeout env = maxRunTimeout \<and>
     grant_ok (sx_Grants demo_service) (Some demo_who) ''orders'' False c \<and> sg_users g' = 0"
proof -
  let ?r = "Run_checks ''e1'' demo_service demo_provider (Some demo_who) 0 Lives demo_ask False demo_target (newScanGate 2) None"
  have "case fst ?r of Inl e \<Rightarrow> False | Inr (env, r, c) \<Rightarrow> ep_minimum env = IsolationContainer \<and> ep_timeout env = maxRunTimeout"
    by code_simp
  moreover have "snd (snd ?r) = None" by code_simp
  ultimately obtain env r c g' where r: "?r = (Inr (env, r, c), g', None)" "ep_minimum env = IsolationContainer" "ep_timeout env = maxRunTimeout"
    by (cases ?r) (auto split: sum.splits)
  from run_is_checked [OF r(1)] r show ?thesis
    by (auto simp: demo_ask_def kind_profile_def demo_target_def newScanGate_def)
qed

text \<open>C40: A loaded profile is open to exactly its callers, and hidden from everyone else. Every
  profile of a registry that loads can be selected, by each authenticated caller its ACL names or,
  where the ACL is the star, by each authenticated caller; whoever may not select it gets the very
  refusal an unknown name gets, so no answer tells a caller which profiles exist.\<close>

theorem profiles_open_to_their_callers:
  assumes "Load nl w decode path = Inr reg"
  shows "(\<forall>name p. map_of reg name = Some p \<longrightarrow>
      (\<forall>who. grantFor (Some reg) (Some who) name =
        (if pr_UserID who \<noteq> '''' \<and> (''*'' \<in> set (gp_allowedCallers p) \<or> pr_UserID who \<in> set (gp_allowedCallers p))
         then Inr (Some (gp_Grant p)) else Inl permission_refusal)) \<and>
      grantFor (Some reg) None name = Inl permission_refusal \<and> gp_allowedCallers p \<noteq> [] \<and> Validate nl (gp_Grant p) = None) \<and>
    (\<forall>name who. map_of reg name = None \<longrightarrow> name \<noteq> '''' \<longrightarrow> length name \<le> MaxProfileNameBytes \<longrightarrow>
      grantFor (Some reg) who name = Inl permission_refusal)"
proof -
  obtain ps where "load_profiles nl w path [] ps = Inr reg" using assms by (auto simp: Load_def split: option.splits)
  then have wf: "registry_wf nl w reg" by (rule load_profiles_wf) (simp add: registry_wf_def gomap_ok_def)
  have p: "name \<noteq> ''''" "\<not> MaxProfileNameBytes < length name" "gp_allowedCallers p \<noteq> []" "Validate nl (gp_Grant p) = None"
    if "map_of reg name = Some p" for name p
    using wf map_of_SomeD [OF that] by (auto simp: registry_wf_def profile_wf_def)
  show ?thesis
    using p by (auto simp: grantFor_def Get_def Allows_def mintingSubject_def split: prod.splits option.splits)
qed

theorem profiles_open_to_their_callers_witness:
  "\<exists>reg p. Load demo_net demo_world demo_decode ''/etc/plimsoll/grants.json'' = Inr reg \<and> map_of reg ''run'' = Some p \<and>
     grantFor (Some reg) (Some demo_who) ''run'' = Inr (Some (gp_Grant p)) \<and>
     grantFor (Some reg) (Some (demo_who\<lparr>pr_UserID := ''bob''\<rparr>)) ''run'' = grantFor (Some reg) (Some demo_who) ''other''"
proof -
  have "case Load demo_net demo_world demo_decode ''/etc/plimsoll/grants.json'' of
      Inr r \<Rightarrow> (case map_of r ''run'' of Some p \<Rightarrow> gp_allowedCallers p = [''alice''] | None \<Rightarrow> False) \<and> map_of r ''other'' = None | Inl _ \<Rightarrow> False"
    by code_simp
  then obtain r p where r: "Load demo_net demo_world demo_decode ''/etc/plimsoll/grants.json'' = Inr r" "map_of r ''run'' = Some p"
      "gp_allowedCallers p = [''alice'']" "map_of r ''other'' = None"
    by (auto split: sum.splits option.splits)
  from profiles_open_to_their_callers [OF r(1)] r show ?thesis
    by (auto simp: demo_who_def MaxProfileNameBytes_def)
qed

end
