(* ===== verification/Paid_Runs.thy ===== *)
theory Paid_Runs
  imports Pipeline
begin

text \<open>
  The second half of the pipeline, \<open>run\<close> of \<open>internal/rpc/pipeline.go\<close>: on a metered provider a
  checked call reserves its whole possible cost, is admitted, dispatched and settled, on every
  path, panics included. Runs of one daemon share the books of \<open>Spend\<close>, and so do the meters of
  its sessions, whose reservations are held by number. Also what an answer states about where it
  ran.
\<close>

subsection \<open>What is reserved\<close>

definition reservation :: "duration \<Rightarrow> duration \<Rightarrow> duration \<Rightarrow> duration" where
  "reservation requested longest teardown =
     (let longest = (if longest \<le> 0 \<or> longest > maxRunTimeout then maxRunTimeout else longest);
          requested = (if requested \<le> 0 \<or> requested > longest then longest else requested)
      in requested + teardown)"

text \<open>The optional interfaces of a provider; \<open>None\<close> where it does not implement one.\<close>

record capabilities =
  cb_Grants :: "(bool \<times> bool) option"
  cb_Projects :: "bool option"
  cb_Modules :: "bool option"

definition supports :: "capabilities \<Rightarrow> prov_request \<Rightarrow> grant option \<Rightarrow> bool" where
  "supports cb r g = (case r of
     RqJavaScript _ \<Rightarrow> g = None \<or> (case cb_Grants cb of None \<Rightarrow> False | Some (js, _) \<Rightarrow> js)
   | RqProject _ \<Rightarrow> cb_Projects cb = Some True \<and> (g = None \<or> (case cb_Grants cb of None \<Rightarrow> False | Some (_, pj) \<Rightarrow> pj))
   | RqModule _ \<Rightarrow> cb_Modules cb = Some True
   | RqCell _ \<Rightarrow> True)"

subsection \<open>What an answer states\<close>

definition ranSoftware :: "run_target \<Rightarrow> string \<Rightarrow> string \<Rightarrow> string" where
  "ranSoftware t reported opened = (if reported \<noteq> '''' \<or> \<not> tg_session t then reported else opened)"

definition describedEnvironment :: "string \<Rightarrow> string \<Rightarrow> string" where
  "describedEnvironment actual described = (if actual \<noteq> '''' then actual else described)"

definition recordPolicy :: "evidence \<Rightarrow> environments option \<Rightarrow> string" where
  "recordPolicy ev envs = (if ev_policy ev \<noteq> '''' then ev_policy ev else (case envs of None \<Rightarrow> '''' | Some e \<Rightarrow> en_Policy e))"

subsection \<open>A run\<close>

datatype paid_phase = RunChecked | RunReserved | RunAdmitted | RunEnded

record paid_run =
  pu_caller :: string
  pu_perCaller :: int
  pu_whole :: duration
  pu_metered :: bool
  pu_phase :: paid_phase
  pu_reserved :: gotime
  pu_st :: "settlement option"
  pu_charged :: float64

definition new_paid_run :: "bool \<Rightarrow> capabilities \<Rightarrow> principal_id option \<Rightarrow> envelope \<Rightarrow> run_target \<Rightarrow> prov_request \<Rightarrow> grant option \<Rightarrow> paid_run" where
  "new_paid_run hasSpend cb who env t r g = \<lparr>pu_caller = auditCaller who,
     pu_perCaller = (case who of None \<Rightarrow> 0 | Some p \<Rightarrow> pr_PaidSecondsPerDay p),
     pu_whole = reservation (ep_timeout env) (pv_MaxTimeout (kind_environment (tg_software t) r)) (tg_teardown t),
     pu_metered = (tg_teardown t > 0 \<and> hasSpend \<and> supports cb r g), pu_phase = RunChecked, pu_reserved = 0, pu_st = None, pu_charged = 0\<rparr>"

text \<open>\<open>settle\<close> is the function \<open>run\<close> holds: nothing before a reservation.\<close>

definition run_settle :: "gotime \<Rightarrow> duration \<Rightarrow> gotime \<Rightarrow> spend_cap \<Rightarrow> paid_run \<Rightarrow> spend_cap \<times> paid_run" where
  "run_settle now took billsUntil c u = (case pu_st u of
     None \<Rightarrow> (c, u\<lparr>pu_charged := 0\<rparr>)
   | Some st \<Rightarrow> (case settle now took billsUntil st c of (x, st, c) \<Rightarrow> (c, u\<lparr>pu_st := Some st, pu_charged := x\<rparr>)))"

text \<open>The deferred settlement of every way out, after which the run has returned.\<close>

definition run_return :: "gotime \<Rightarrow> spend_cap \<times> paid_run \<Rightarrow> spend_cap \<times> paid_run" where
  "run_return now x = (case x of (c, u) \<Rightarrow>
     case run_settle now (time_sub now (pu_reserved u)) zero_time c u of (c', u') \<Rightarrow>
       (c', u'\<lparr>pu_phase := RunEnded, pu_charged := pu_charged u\<rparr>))"

definition run_reserve :: "gotime \<Rightarrow> spend_cap \<Rightarrow> paid_run \<Rightarrow> spend_cap \<times> paid_run" where
  "run_reserve now c u =
     (if \<not> pu_metered u then (c, u\<lparr>pu_phase := RunReserved\<rparr>)
      else (case reserve now (pu_caller u) (pu_perCaller u) (pu_whole u) c of
              (Inl _, c) \<Rightarrow> (c, u\<lparr>pu_phase := RunEnded\<rparr>)
            | (Inr st, c) \<Rightarrow> (c, u\<lparr>pu_phase := RunReserved, pu_reserved := now, pu_st := Some st\<rparr>)))"

definition run_admit :: "bool \<Rightarrow> gotime \<Rightarrow> spend_cap \<Rightarrow> paid_run \<Rightarrow> spend_cap \<times> paid_run" where
  "run_admit admitted now c u =
     (if admitted then (c, u\<lparr>pu_phase := RunAdmitted\<rparr>) else run_return now (run_settle now 0 zero_time c u))"

text \<open>The end of the dispatch, whatever the provider answered: \<open>took\<close> by the handler's clock, and
  what \<open>WatchTeardownUntil\<close> saw.\<close>

definition run_dispatched :: "duration \<Rightarrow> bool \<Rightarrow> gotime \<Rightarrow> gotime \<Rightarrow> spend_cap \<Rightarrow> paid_run \<Rightarrow> spend_cap \<times> paid_run" where
  "run_dispatched took gaveUp billsUntil now c u =
     (let whole = (if pu_metered u then pu_whole u else 0);
          leaked = (whole > 0 \<and> gaveUp);
          billed = (if leaked then whole else took);
          billsUntil = (if leaked then billsUntil else zero_time)
      in run_return now (run_settle now billed billsUntil c u))"

lemmas paid_defs = run_settle_def run_return_def run_reserve_def run_admit_def run_dispatched_def

text \<open>The runs of a daemon, and the reservations its session meters hold; \<open>p_owe\<close> is the debt that a
  session's open or end leaves.\<close>

type_synonym paid_state = "spend_cap \<times> paid_run list \<times> nat set"

inductive paid_step :: "paid_state \<Rightarrow> paid_state \<Rightarrow> bool" where
  p_check: "u = new_paid_run True cb who env t r g \<Longrightarrow> 0 \<le> tg_teardown t \<Longrightarrow> paid_step (c, us, ms) (c, us @ [u], ms)"
| p_reserve: "k < length us \<Longrightarrow> pu_phase (us ! k) = RunChecked \<Longrightarrow> run_reserve now c (us ! k) = (c', u) \<Longrightarrow>
    paid_step (c, us, ms) (c', us[k := u], ms)"
| p_admit: "k < length us \<Longrightarrow> pu_phase (us ! k) = RunReserved \<Longrightarrow> run_admit admitted now c (us ! k) = (c', u) \<Longrightarrow>
    paid_step (c, us, ms) (c', us[k := u], ms)"
| p_dispatched: "k < length us \<Longrightarrow> pu_phase (us ! k) = RunAdmitted \<Longrightarrow> run_dispatched took gaveUp until now c (us ! k) = (c', u) \<Longrightarrow>
    paid_step (c, us, ms) (c', us[k := u], ms)"
| p_panic: "k < length us \<Longrightarrow> pu_phase (us ! k) \<in> {RunReserved, RunAdmitted} \<Longrightarrow> run_return now (c, us ! k) = (c', u) \<Longrightarrow>
    paid_step (c, us, ms) (c', us[k := u], ms)"
| p_meter_take: "take_spend now who n (go_seconds d) c = (Inr i, c') \<Longrightarrow> 0 \<le> d \<Longrightarrow> paid_step (c, us, ms) (c', us, insert i ms)"
| p_meter_shed: "take_spend now who n (go_seconds d) c = (Inl e, c') \<Longrightarrow> 0 \<le> d \<Longrightarrow> paid_step (c, us, ms) (c', us, ms)"
| p_meter_book: "book now who (go_seconds d) (day_of now) (today now c) = (i, c') \<Longrightarrow> 0 \<le> d \<Longrightarrow> paid_step (c, us, ms) (c', us, insert i ms)"
| p_meter_give: "i \<in> ms \<Longrightarrow> give now i took c = (x, c') \<Longrightarrow> paid_step (c, us, ms) (c', us, ms - {i})"
| p_owe: "paid_step (c, us, ms) (snd (owe now who until c), us, ms)"
| p_read: "paid_step (c, us, ms) (snd (spent now who c), us, ms)"

definition paid_init :: "paid_state \<Rightarrow> bool" where
  "paid_init x \<longleftrightarrow> (\<exists>t. x = (NewSpendCap t, [], {}))"

subsection \<open>Live reservations\<close>

text \<open>The reservations still running: who holds each, and for how much. A debt is not one.\<close>

definition resv_of :: "spend_cap \<Rightarrow> nat \<Rightarrow> (string \<times> float64) option" where
  "resv_of c i = (case map_of (sc_open c) i of None \<Rightarrow> None
     | Some h \<Rightarrow> if h_owed h then None else Some (h_principal h, h_want h))"

lemma resv_of_cong: "map_of (sc_open c) = map_of (sc_open c') \<Longrightarrow> resv_of c = resv_of c'"
  by (simp add: resv_of_def fun_eq_iff)

lemma resv_of_today [simp]:
  assumes "books_ok c"
  shows "resv_of (today now c) = resv_of c"
proof (cases "Some (day_of now) = sc_day c")
  case True
  then show ?thesis by (simp add: today_def)
next
  case False
  have g: "gomap_ok (sc_open c)" using assms by (simp add: books_ok_def)
  have "resv_of (today now c) i = resv_of c i" for i
  proof -
    have n: "i \<notin> fst ` set (sc_open c) \<longleftrightarrow> map_of (sc_open c) i = None" by (simp add: map_of_eq_None_iff)
    show ?thesis
      using carry_open [OF g, of "c\<lparr>sc_day := Some (day_of now), sc_total := 0, sc_caller := []\<rparr>" "day_of now" i] False n
      by (auto simp: resv_of_def today_def Let_def split: option.splits)
  qed
  then show ?thesis by (rule ext)
qed

lemma resv_of_next: "books_ok c \<Longrightarrow> resv_of c i \<noteq> None \<Longrightarrow> i < sc_next c"
  by (auto simp: resv_of_def books_ok_def dest: map_of_SomeD split: option.splits)

lemma resv_of_book:
  assumes "books_ok c" and "0 \<le> want" and "book now p want d c = (i, c')"
  shows "resv_of c' = (resv_of c)(i \<mapsto> (p, want))" and "i = sc_next c" and "books_ok c'" and "sc_next c' = sc_next c + 1"
  using book_facts [OF assms] by (auto simp: resv_of_def fun_eq_iff)

lemma resv_of_take:
  assumes "books_ok c" and "0 \<le> want" and "take_spend now p n want c = (r, c')"
  shows "books_ok c'"
    and "r = Inr i \<Longrightarrow> resv_of c' = (resv_of c)(i \<mapsto> (p, want)) \<and> i = sc_next c \<and> sc_next c' = sc_next c + 1"
    and "r = Inl e \<Longrightarrow> resv_of c' = resv_of c \<and> sc_next c' = sc_next c"
proof -
  note t = take_facts [OF assms]
  show "books_ok c'" by (rule t(1))
  have b: "books_ok (today now c)" "sc_next (today now c) = sc_next c" using books_today [OF assms(1)] by simp_all
  show "resv_of c' = (resv_of c)(i \<mapsto> (p, want)) \<and> i = sc_next c \<and> sc_next c' = sc_next c + 1" if "r = Inr i"
    using t(3) [OF that] resv_of_book [OF b(1) assms(2)] b(2) resv_of_today [OF assms(1)] by auto
  show "resv_of c' = resv_of c \<and> sc_next c' = sc_next c" if "r = Inl e"
    using t(4) [OF that] resv_of_cong [of c' "today now c"] resv_of_today [OF assms(1)] by auto
qed

lemma resv_of_owe:
  assumes "books_ok c"
  shows "resv_of (snd (owe now who until c)) = resv_of c" and "books_ok (snd (owe now who until c))"
proof -
  show "books_ok (snd (owe now who until c))" by (rule books_owe [OF assms])
  let ?t = "today now c"
  have "resv_of ?t (sc_next ?t) = None" using resv_of_next [OF books_today(1) [OF assms], of now "sc_next ?t"] by blast
  then have "resv_of (snd (owe now who until c)) = resv_of ?t"
    by (auto simp: owe_def Let_def add_spend_def resv_of_def fun_eq_iff update_conv' split: option.splits if_splits)
  then show "resv_of (snd (owe now who until c)) = resv_of c" using resv_of_today [OF assms] by simp
qed

lemma resv_of_give:
  assumes "books_ok c" and "give now i took c = (x, c')"
  shows "resv_of c' = (resv_of c)(i := None)" and "books_ok c'" and "sc_next c' = sc_next c"
proof -
  let ?t = "today now c"
  note bt = books_today [OF assms(1), of now]
  have l: "resv_of ?t = resv_of c" by (rule resv_of_today [OF assms(1)])
  show "books_ok c'" using books_give [OF assms(1), of now i took] assms(2) by simp
  have "resv_of c' = (resv_of ?t)(i := None) \<and> sc_next c' = sc_next ?t"
  proof (cases "map_of (sc_open ?t) i")
    case None
    with assms(2) have "c' = ?t" by (simp add: give_def Let_def)
    with None show ?thesis by (auto simp: resv_of_def fun_eq_iff)
  next
    case (Some h)
    let ?d = "AList.delete i (sc_open ?t)" let ?f = "h_start h + of_seconds (h_want h)"
    have "sc_next c' = sc_next ?t \<and>
        (sc_open c' = ?d \<or> sc_open c' = AList.update i (h\<lparr>h_owed := True, h_until := ?f\<rparr>) ?d)"
      using assms(2) Some by (auto simp: give_def Let_def split: if_splits prod.splits)
    then show ?thesis by (auto simp: resv_of_def fun_eq_iff update_conv' delete_conv')
  qed
  with l bt(3) show "resv_of c' = (resv_of c)(i := None)" "sc_next c' = sc_next c" by auto
qed

lemma resv_of_leak:
  assumes "books_ok c" and "leak now i h bills c = (x, c')" and "resv_of c i = None" and "i < sc_next c" and "0 \<le> h_want h"
  shows "resv_of c' = resv_of c" and "books_ok c'" and "sc_next c' = sc_next c"
proof -
  show "books_ok c'" using books_leak [OF assms(1,4,5), of now bills] assms(2) by simp
  note bt = books_today [OF assms(1), of now]
  have "c' = c \<or> sc_next c' = sc_next (today now c) \<and>
      sc_open c' = AList.update i (h\<lparr>h_owed := True, h_until := bills\<rparr>) (sc_open (today now c))"
    using assms(2) by (auto simp: leak_def Let_def split: if_splits)
  then have "c' = c \<or> sc_next c' = sc_next (today now c) \<and> resv_of c' = (resv_of (today now c))(i := None)"
    by (auto simp: resv_of_def fun_eq_iff update_conv')
  then have "resv_of c' = resv_of c \<and> sc_next c' = sc_next c"
    using assms(3) bt(3) resv_of_today [OF assms(1), of now] by auto
  then show "resv_of c' = resv_of c" "sc_next c' = sc_next c" by simp_all
qed

lemma resv_of_settle:
  assumes "books_ok c" and "settle now took bills st c = (x, st', c')" and "\<not> st_done st \<Longrightarrow> resv_of c (st_held st) \<noteq> None"
  shows "books_ok c'" and "sc_next c' = sc_next c" and "st_done st'" and "st_held st' = st_held st"
    and "resv_of c' = (if st_done st then resv_of c else (resv_of c)(st_held st := None))"
proof -
  have "books_ok c' \<and> sc_next c' = sc_next c \<and> st_done st' \<and> st_held st' = st_held st \<and>
    resv_of c' = (if st_done st then resv_of c else (resv_of c)(st_held st := None))"
  proof (cases "st_done st")
    case True
    with assms show ?thesis by (auto simp: settle_def)
  next
    case False
    obtain charged ho c1 where g: "give now (st_held st) took c = ((charged, ho), c1)" by (metis prod.exhaust)
    obtain h where h: "map_of (sc_open c) (st_held st) = Some h" "\<not> h_owed h"
      using assms(3) [OF False] by (auto simp: resv_of_def split: option.splits if_splits)
    note gl = resv_of_give [OF assms(1) g]
    obtain h2 where h2: "ho = Some h2" "h_want h2 = h_want h" using give_facts(8) [OF assms(1) h g] by blast
    have w: "0 \<le> h_want h" "st_held st < sc_next c1"
      using assms(1) h(1) gl(3) by (auto simp: books_ok_def dest: map_of_SomeD)
    show ?thesis
    proof (cases "charged \<ge> h_want h2")
      case True
      obtain e c2 where l: "leak now (st_held st) h2 bills c1 = (e, c2)" by force
      have "resv_of c1 (st_held st) = None" using gl(1) by simp
      note ll = resv_of_leak [OF gl(2) l this w(2)] 
      show ?thesis using assms(2) False g h2 True l ll w gl by (auto simp: settle_def Let_def)
    next
      case nl: False
      then show ?thesis using assms(2) False g h2 gl by (auto simp: settle_def Let_def)
    qed
  qed
  then show "books_ok c'" "sc_next c' = sc_next c" "st_done st'" "st_held st' = st_held st"
    "resv_of c' = (if st_done st then resv_of c else (resv_of c)(st_held st := None))" by simp_all
qed

subsection \<open>Who holds a reservation\<close>

definition run_holds :: "paid_run \<Rightarrow> nat \<Rightarrow> bool" where
  "run_holds u i \<longleftrightarrow> (case pu_st u of None \<Rightarrow> False | Some st \<Rightarrow> \<not> st_done st \<and> st_held st = i)"

lemma run_holds_upd [simp]:
  "run_holds (u\<lparr>pu_phase := ph\<rparr>) i = run_holds u i" "run_holds (u\<lparr>pu_charged := x\<rparr>) i = run_holds u i"
  by (simp_all add: run_holds_def)

definition paid_ok :: "spend_cap \<Rightarrow> paid_run \<Rightarrow> bool" where
  "paid_ok c u \<longleftrightarrow> 0 \<le> pu_whole u \<and>
     (\<forall>i. run_holds u i \<longrightarrow> resv_of c i = Some (pu_caller u, go_seconds (pu_whole u)) \<and> pu_phase u \<in> {RunReserved, RunAdmitted}) \<and>
     (pu_phase u = RunChecked \<longrightarrow> pu_st u = None)"

text \<open>The holders of a reservation: runs by their place, meters by the number itself.\<close>

definition paid_inv :: "paid_state \<Rightarrow> bool" where
  "paid_inv x = (case x of (c, us, ms) \<Rightarrow> books_ok c \<and> (\<forall>u \<in> set us. paid_ok c u) \<and>
     (\<forall>i. resv_of c i \<noteq> None \<longleftrightarrow> i \<in> ms \<or> (\<exists>u \<in> set us. run_holds u i)) \<and>
     (\<forall>j < length us. \<forall>k < length us. \<forall>i. run_holds (us ! j) i \<and> run_holds (us ! k) i \<longrightarrow> j = k) \<and>
     (\<forall>u \<in> set us. \<forall>i. run_holds u i \<longrightarrow> i \<notin> ms))"

lemma paid_invD:
  assumes "paid_inv (c, us, ms)"
  shows "books_ok c" "\<And>u. u \<in> set us \<Longrightarrow> paid_ok c u" "\<And>i. resv_of c i \<noteq> None \<longleftrightarrow> i \<in> ms \<or> (\<exists>u \<in> set us. run_holds u i)"
    "\<And>j k i. j < length us \<Longrightarrow> k < length us \<Longrightarrow> run_holds (us ! j) i \<Longrightarrow> run_holds (us ! k) i \<Longrightarrow> j = k"
    "\<And>u i. u \<in> set us \<Longrightarrow> run_holds u i \<Longrightarrow> i \<notin> ms"
  using assms unfolding paid_inv_def by (simp, blast+)

lemma paid_invI:
  assumes "books_ok c" "\<And>u. u \<in> set us \<Longrightarrow> paid_ok c u" "\<And>i. resv_of c i \<noteq> None \<longleftrightarrow> i \<in> ms \<or> (\<exists>u \<in> set us. run_holds u i)"
    "\<And>j k i. j < length us \<Longrightarrow> k < length us \<Longrightarrow> run_holds (us ! j) i \<Longrightarrow> run_holds (us ! k) i \<Longrightarrow> j = k"
    "\<And>u i. u \<in> set us \<Longrightarrow> run_holds u i \<Longrightarrow> i \<notin> ms"
  shows "paid_inv (c, us, ms)"
  unfolding paid_inv_def prod.case using assms by blast

lemma paid_ok_cong: "paid_ok c u \<Longrightarrow> (\<And>i. run_holds u i \<Longrightarrow> resv_of c' i = resv_of c i) \<Longrightarrow> paid_ok c' u"
  by (simp add: paid_ok_def)

text \<open>One run's step: its own reservation may be made or ended, every other stays.\<close>

lemma paid_inv_move:
  assumes inv: "paid_inv (c, us, ms)" and k: "k < length us" and b: "books_ok c'" and u: "paid_ok c' u"
    and l: "\<And>i. \<not> run_holds (us ! k) i \<Longrightarrow> \<not> run_holds u i \<Longrightarrow> resv_of c' i = resv_of c i"
    and new: "\<And>i. run_holds u i \<Longrightarrow> \<not> run_holds (us ! k) i \<Longrightarrow> resv_of c i = None"
    and gone: "\<And>i. run_holds (us ! k) i \<Longrightarrow> \<not> run_holds u i \<Longrightarrow> resv_of c' i = None"
  shows "paid_inv (c', us[k := u], ms)"
proof -
  note d = paid_invD [OF inv]
  have other: "\<not> run_holds (us ! k) i \<and> \<not> run_holds u i" if "j < length us" "j \<noteq> k" "run_holds (us ! j) i" for i j
    proof -
    have "\<not> run_holds (us ! k) i" using d(4) [OF that(1) k that(3)] that(2) by blast
    moreover have "resv_of c i \<noteq> None" using d(3) [of i] nth_mem [OF that(1)] that(3) by blast
    ultimately show ?thesis using new [of i] by auto
  qed
  have m: "\<not> run_holds (us ! k) i \<and> \<not> run_holds u i" if "i \<in> ms" for i
    proof -
    have "\<not> run_holds (us ! k) i" using d(5) [of "us ! k" i] k that by auto
    moreover have "resv_of c i \<noteq> None" using d(3) [of i] that by blast
    ultimately show ?thesis using new [of i] by auto
  qed
  have ok: "paid_ok c' v" if "v \<in> set (us[k := u])" for v
  proof -
    from that obtain j where j: "j < length us" "v = us[k := u] ! j" by (metis in_set_conv_nth length_list_update)
    show ?thesis
    proof (cases "j = k")
      case True
      with j u show ?thesis by simp
    next
      case False
      then have v: "v = us ! j" using j by simp
      show ?thesis
        using paid_ok_cong [of c v c'] d(2) [of v] nth_mem [OF j(1)] v other [OF j(1) False] l by auto
    qed
  qed
  have resv_of: "resv_of c' i \<noteq> None \<longleftrightarrow> i \<in> ms \<or> (\<exists>v \<in> set (us[k := u]). run_holds v i)" for i
  proof (cases "run_holds (us ! k) i \<or> run_holds u i")
    case True
    then have only: "i \<notin> ms" "\<And>j. j < length us \<Longrightarrow> j \<noteq> k \<Longrightarrow> \<not> run_holds (us ! j) i" using m other by blast+
    have "(\<exists>v \<in> set (us[k := u]). run_holds v i) \<longleftrightarrow> run_holds u i"
    proof
      assume "\<exists>v \<in> set (us[k := u]). run_holds v i"
      then obtain j where "j < length us" "run_holds (us[k := u] ! j) i" by (auto simp: in_set_conv_nth)
      then show "run_holds u i" using only(2) [of j] by (cases "j = k") auto
    next
      assume "run_holds u i"
      then show "\<exists>v \<in> set (us[k := u]). run_holds v i" using set_update_memI [OF k, of u] by blast
    qed
    moreover have "resv_of c' i \<noteq> None \<longleftrightarrow> run_holds u i" using u gone [of i] True by (cases "run_holds u i") (auto simp: paid_ok_def)
    ultimately show ?thesis using only(1) by blast
  next
    case False
    then have "(\<exists>v \<in> set (us[k := u]). run_holds v i) \<longleftrightarrow> (\<exists>v \<in> set us. run_holds v i)"
    proof (intro iffI)
      assume "\<exists>v \<in> set (us[k := u]). run_holds v i"
      then show "\<exists>v \<in> set us. run_holds v i" using False set_update_subset_insert [of us k u] by blast
    next
      assume "\<exists>v \<in> set us. run_holds v i"
      then obtain j where j: "j < length us" "run_holds (us ! j) i" by (auto simp: in_set_conv_nth)
      then have "us[k := u] ! j = us ! j" using False by (cases "j = k") auto
      then show "\<exists>v \<in> set (us[k := u]). run_holds v i" using j nth_mem [of j "us[k := u]"] by force
    qed
    then show ?thesis using False l [of i] d(3) [of i] by simp
  qed
  have uniq: "j = j'" if "j < length us" "j' < length us" "run_holds (us[k := u] ! j) i" "run_holds (us[k := u] ! j') i" for i j j'
  proof (rule ccontr)
    assume ne: "j \<noteq> j'"
    have n: "run_holds (us ! x) i \<and> \<not> run_holds u i" if "x < length us" "x \<noteq> k" "run_holds (us[k := u] ! x) i" for x
      using that other [of x i] by simp
    show False
    proof (cases "j = k")
      case True
      then show ?thesis using n [of j'] that ne by simp
    next
      case False
      then have "j' \<noteq> k" using n [of j] that by auto
      then show ?thesis using n [of j] n [of j'] False that d(4) [of j j' i] ne by blast
    qed
  qed
  have meters: "i \<notin> ms" if "v \<in> set (us[k := u])" "run_holds v i" for v i
    using that m d(5) by (auto dest: set_update_subset_insert [THEN subsetD])
  show ?thesis by (rule paid_invI) (use b ok resv_of uniq meters in \<open>simp_all del: not_None_eq\<close>)
qed

lemma settle_run:
  assumes "paid_ok c u" and "books_ok c" and "run_settle now took bills c u = (c', u')"
  shows "books_ok c'" and "\<not> run_holds u' i" and "resv_of c' i = (if run_holds u i then None else resv_of c i)"
    and "pu_whole u' = pu_whole u" "pu_caller u' = pu_caller u" "pu_phase u' = pu_phase u" "pu_st u' = None \<longleftrightarrow> pu_st u = None"
    "pu_reserved u' = pu_reserved u"
proof -
  have "books_ok c' \<and> (\<forall>i. \<not> run_holds u' i \<and> resv_of c' i = (if run_holds u i then None else resv_of c i)) \<and>
    pu_whole u' = pu_whole u \<and> pu_caller u' = pu_caller u \<and> pu_phase u' = pu_phase u \<and> (pu_st u' = None \<longleftrightarrow> pu_st u = None) \<and>
    pu_reserved u' = pu_reserved u"
  proof (cases "pu_st u")
    case None
    with assms show ?thesis by (auto simp: run_settle_def run_holds_def)
  next
    case (Some st)
    obtain x st' c1 where s: "settle now took bills st c = (x, st', c1)" by (metis prod.exhaust)
    have "\<not> st_done st \<Longrightarrow> resv_of c (st_held st) \<noteq> None" using assms(1) Some by (auto simp: paid_ok_def run_holds_def)
    note l = resv_of_settle [OF assms(2) s this]
    show ?thesis using assms(3) Some s l by (auto simp: run_settle_def run_holds_def)
  qed
  then show "books_ok c'" "\<not> run_holds u' i" "resv_of c' i = (if run_holds u i then None else resv_of c i)"
    "pu_whole u' = pu_whole u" "pu_caller u' = pu_caller u" "pu_phase u' = pu_phase u" "pu_st u' = None \<longleftrightarrow> pu_st u = None"
    "pu_reserved u' = pu_reserved u"
    by simp_all
qed

lemma return_run:
  assumes "paid_ok c u" and "books_ok c" and "run_return now (c, u) = (c', u')"
  shows "books_ok c' \<and> paid_ok c' u' \<and> (\<forall>i. \<not> run_holds u' i \<and> resv_of c' i = (if run_holds u i then None else resv_of c i)) \<and> pu_phase u' = RunEnded"
proof -
  obtain c1 u1 where s: "run_settle now (time_sub now (pu_reserved u)) zero_time c u = (c1, u1)" by force
  note f = settle_run [OF assms(1,2) s]
  have u': "u' = u1\<lparr>pu_phase := RunEnded, pu_charged := pu_charged u\<rparr>" "c' = c1" using assms(3) s by (auto simp: run_return_def)
  have h: "run_holds u' i = run_holds u1 i" for i by (simp add: u' run_holds_def)
  have "paid_ok c' u'" using f assms(1) by (auto simp: paid_ok_def h u')
  then show ?thesis using f by (auto simp: h u')
qed

lemma settle_return:
  assumes "paid_ok c u" and "books_ok c" and "run_return now (run_settle now' took bills c u) = (c', u')"
  shows "books_ok c' \<and> paid_ok c' u' \<and> (\<forall>i. \<not> run_holds u' i \<and> resv_of c' i = (if run_holds u i then None else resv_of c i)) \<and> pu_phase u' = RunEnded"
proof -
  obtain c1 u1 where s: "run_settle now' took bills c u = (c1, u1)" by force
  note f = settle_run [OF assms(1,2) s]
  have "paid_ok c1 u1" using assms(1) f by (auto simp: paid_ok_def)
  from return_run [OF this f(1)] assms(3) s f show ?thesis by simp
qed

text \<open>A run that returns keeps no reservation, and no other run's is touched.\<close>

lemma paid_inv_end:
  assumes "paid_inv (c, us, ms)" and "k < length us"
    and "books_ok c' \<and> paid_ok c' u \<and> (\<forall>i. \<not> run_holds u i \<and> resv_of c' i = (if run_holds (us ! k) i then None else resv_of c i)) \<and> pu_phase u = RunEnded"
  shows "paid_inv (c', us[k := u], ms)"
  using assms(3) by (intro paid_inv_move [OF assms(1,2)]) auto

lemma reserve_run:
  assumes inv: "paid_inv (c, us, ms)" and k: "k < length us" "pu_phase (us ! k) = RunChecked"
    and r: "run_reserve now c (us ! k) = (c', u)"
  shows "paid_inv (c', us[k := u], ms)"
proof -
  note d = paid_invD [OF inv]
  have ok: "paid_ok c (us ! k)" using d(2) k(1) by simp
  then have st: "pu_st (us ! k) = None" "0 \<le> pu_whole (us ! k)" using k(2) by (auto simp: paid_ok_def)
  have nh: "\<not> run_holds (us ! k) i" for i using st by (simp add: run_holds_def)
  show ?thesis
  proof (cases "pu_metered (us ! k)")
    case False
    with r have u: "c' = c" "u = (us ! k)\<lparr>pu_phase := RunReserved\<rparr>" by (auto simp: run_reserve_def)
    have "\<not> run_holds u i" for i using st by (simp add: run_holds_def u)
    then show ?thesis using ok st nh d(1) by (intro paid_inv_move [OF inv k(1)]) (auto simp: u paid_ok_def)
  next
    case True
    let ?u = "us ! k"
    obtain res c1 where t: "take_spend now (pu_caller ?u) (pu_perCaller ?u) (go_seconds (pu_whole ?u)) c = (res, c1)" by force
    note l = resv_of_take [OF d(1) go_seconds_nonneg [OF st(2)] t]
    show ?thesis
    proof (cases res)
      case (Inl e)
      with r True t have u: "c' = c1" "u = ?u\<lparr>pu_phase := RunEnded\<rparr>" by (auto simp: run_reserve_def reserve_def)
      have "\<not> run_holds u i" for i using st by (simp add: run_holds_def u)
      then show ?thesis using ok st nh l(1) l(3) [OF Inl] by (intro paid_inv_move [OF inv k(1)]) (auto simp: u paid_ok_def)
    next
      case (Inr i)
      with r True t have u: "c' = c1" "u = ?u\<lparr>pu_phase := RunReserved, pu_reserved := now, pu_st := Some \<lparr>st_held = i, st_done = False, st_charged = 0\<rparr>\<rparr>"
        by (auto simp: run_reserve_def reserve_def)
      have h: "run_holds u j \<longleftrightarrow> j = i" for j by (auto simp: run_holds_def u)
      have i: "resv_of c i = None" using l(2) [OF Inr] resv_of_next [OF d(1), of i] by (cases "resv_of c i") auto
      show ?thesis
        using l(1) l(2) [OF Inr] i st nh h
        by (intro paid_inv_move [OF inv k(1)]) (auto simp: u paid_ok_def h [unfolded u])
    qed
  qed
qed

lemma paid_inv_books:
  assumes "paid_inv (c, us, ms)" and "books_ok c'" and "resv_of c' = resv_of c"
  shows "paid_inv (c', us, ms)"
  using assms by (auto simp: paid_inv_def paid_ok_def)

lemma meter_new:
  assumes inv: "paid_inv (c, us, ms)" and b: "books_ok c'" and l: "resv_of c' = (resv_of c)(i \<mapsto> x)" and i: "i = sc_next c"
  shows "paid_inv (c', us, insert i ms)"
proof -
  note d = paid_invD [OF inv]
  have n: "resv_of c i = None" using resv_of_next [OF d(1), of i] i by (cases "resv_of c i") auto
  then have h: "\<not> run_holds u i" if "u \<in> set us" for u using d(3) [of i] that by auto
  have "paid_ok c' u" if "u \<in> set us" for u
    by (rule paid_ok_cong [OF d(2) [OF that]]) (use h [OF that] in \<open>auto simp: l\<close>)
  moreover have "resv_of c' j \<noteq> None \<longleftrightarrow> j \<in> insert i ms \<or> (\<exists>u \<in> set us. run_holds u j)" for j
    using d(3) [of j] by (auto simp: l simp del: not_None_eq)
  moreover have "j \<notin> insert i ms" if "u \<in> set us" "run_holds u j" for u j using d(5) [OF that] h [OF that(1)] that(2) by auto
  ultimately show ?thesis using b d(4) by (intro paid_invI) blast+
qed

lemma meter_gone:
  assumes inv: "paid_inv (c, us, ms)" and i: "i \<in> ms" and b: "books_ok c'" and l: "resv_of c' = (resv_of c)(i := None)"
  shows "paid_inv (c', us, ms - {i})"
proof -
  note d = paid_invD [OF inv]
  have h: "\<not> run_holds u i" if "u \<in> set us" for u using d(5) [OF that] i by auto
  have "paid_ok c' u" if "u \<in> set us" for u
    by (rule paid_ok_cong [OF d(2) [OF that]]) (use h [OF that] in \<open>auto simp: l\<close>)
  moreover have "resv_of c' j \<noteq> None \<longleftrightarrow> j \<in> ms - {i} \<or> (\<exists>u \<in> set us. run_holds u j)" for j
    using d(3) [of j] h by (auto simp: l simp del: not_None_eq)
  ultimately show ?thesis using b d(4,5) by (intro paid_invI) blast+
qed

lemma reservation_bounds:
  "0 \<le> teardown \<Longrightarrow> 0 < reservation requested longest teardown \<and> reservation requested longest teardown \<le> maxRunTimeout + teardown"
  by (auto simp: reservation_def Let_def maxRunTimeout_def time_defs)

lemma new_paid_run_ok:
  assumes "u = new_paid_run b cb who env t r g" and "0 \<le> tg_teardown t"
  shows "paid_ok c u" "\<not> run_holds u i"
  using assms reservation_bounds [OF assms(2), of "ep_timeout env" "pv_MaxTimeout (kind_environment (tg_software t) r)"]
  by (auto simp: paid_ok_def new_paid_run_def run_holds_def)

lemma paid_inv_new:
  assumes inv: "paid_inv (c, us, ms)" and u: "paid_ok c u" "\<And>i. \<not> run_holds u i"
  shows "paid_inv (c, us @ [u], ms)"
proof -
  note d = paid_invD [OF inv]
  have "j = k" if "j < length (us @ [u])" "k < length (us @ [u])" "run_holds ((us @ [u]) ! j) i" "run_holds ((us @ [u]) ! k) i" for i j k
    using that u(2) d(4) [of j k i] by (auto simp: nth_append split: if_splits)
  then show ?thesis using d(1,2,3,5) u by (intro paid_invI) (auto simp del: not_None_eq)
qed

lemma paid_inv_step: "paid_step x y \<Longrightarrow> paid_inv x \<Longrightarrow> paid_inv y"
proof (induction rule: paid_step.induct)
  case (p_check u cb who env t r g c us ms)
  then show ?case using new_paid_run_ok [OF p_check(1,2)] by (intro paid_inv_new) auto
next
  case (p_reserve k us now c c' u ms)
  then show ?case by (intro reserve_run)
next
  case (p_admit k us admitted now c c' u ms)
  have ok: "paid_ok c (us ! k)" "books_ok c" using paid_invD(1,2) [OF p_admit(4)] p_admit(1) by auto
  show ?case
  proof (cases admitted)
    case True
    with p_admit(3) have u: "c' = c" "u = (us ! k)\<lparr>pu_phase := RunAdmitted\<rparr>" by (auto simp: run_admit_def)
    show ?thesis using ok p_admit(2) by (intro paid_inv_move [OF p_admit(4,1)]) (auto simp: u paid_ok_def)
  next
    case False
    with p_admit(3) have "run_return now (run_settle now 0 zero_time c (us ! k)) = (c', u)" by (simp add: run_admit_def)
    then show ?thesis by (intro paid_inv_end [OF p_admit(4,1)] settle_return [OF ok])
  qed
next
  case (p_dispatched k us took gaveUp bills now c c' u ms)
  have ok: "paid_ok c (us ! k)" "books_ok c" using paid_invD(1,2) [OF p_dispatched(4)] p_dispatched(1) by auto
  show ?case
    using p_dispatched(3) unfolding run_dispatched_def Let_def
    by (intro paid_inv_end [OF p_dispatched(4,1)] settle_return [OF ok])
next
  case (p_panic k us now c c' u ms)
  have ok: "paid_ok c (us ! k)" "books_ok c" using paid_invD(1,2) [OF p_panic(4)] p_panic(1) by auto
  show ?case by (intro paid_inv_end [OF p_panic(4,1)] return_run [OF ok p_panic(3)])
next
  case (p_meter_take now who n d c i c' us ms)
  note l = resv_of_take [OF paid_invD(1) [OF p_meter_take(3)] go_seconds_nonneg [OF p_meter_take(2)] p_meter_take(1)]
  show ?case using l(1) l(2) [OF refl] by (intro meter_new [OF p_meter_take(3)]) auto
next
  case (p_meter_shed now who n d c e c' us ms)
  note l = resv_of_take [OF paid_invD(1) [OF p_meter_shed(3)] go_seconds_nonneg [OF p_meter_shed(2)] p_meter_shed(1)]
  show ?case using l(1) l(3) [OF refl] by (intro paid_inv_books [OF p_meter_shed(3)]) auto
next
  case (p_meter_book now who d c i c' us ms)
  note b = paid_invD(1) [OF p_meter_book(3)]
  note t = books_today [OF b, of now]
  note l = resv_of_book [OF t(1) go_seconds_nonneg [OF p_meter_book(2)] p_meter_book(1)]
  show ?case using l resv_of_today [OF b, of now] t(3) by (intro meter_new [OF p_meter_book(3)]) auto
next
  case (p_meter_give i ms now took c x c' us)
  note l = resv_of_give [OF paid_invD(1) [OF p_meter_give(3)] p_meter_give(2)]
  show ?case using l by (intro meter_gone [OF p_meter_give(3,1)]) auto
next
  case (p_owe c us ms now who until)
  note l = resv_of_owe [OF paid_invD(1) [OF p_owe], of now who until]
  show ?case by (intro paid_inv_books [OF p_owe] l)
next
  case (p_read c us ms now who)
  note b = paid_invD(1) [OF p_read]
  have "snd (spent now who c) = today now c" by (simp add: spent_def Let_def)
  then show ?case using books_today(1) [OF b, of now] resv_of_today [OF b, of now] by (intro paid_inv_books [OF p_read]) auto
qed

interpretation paid: inductive_invariant paid_init paid_step paid_inv
proof unfold_locales
  show "paid_init x \<Longrightarrow> paid_inv x" for x
    by (auto simp: paid_init_def paid_inv_def NewSpendCap_def books_ok_def resv_of_def gomap_ok_def)
  show "paid_step x y \<Longrightarrow> paid_inv x \<Longrightarrow> paid_inv y" for x y by (rule paid_inv_step)
qed

text \<open>C31: No reservation is forgotten. Under every interleaving of a daemon's runs, refused,
  admitted or not, ended by an answer, an error or a panic, and of its session meters: each
  reservation in the books that is not a debt belongs to a meter or to exactly one run that is
  still in flight, for that run's caller and for its whole possible cost; and a run in flight that
  reserved has its reservation in the books.
  Once every run has returned, the books hold only what meters hold and debts.\<close>

theorem no_reservation_forgotten:
  assumes "reach paid_init paid_step (c, us, ms)"
  shows "(\<forall>i. resv_of c i \<noteq> None \<longleftrightarrow> i \<in> ms \<or> (\<exists>u \<in> set us. run_holds u i)) \<and>
    (\<forall>u \<in> set us. \<forall>i. run_holds u i \<longrightarrow> i \<notin> ms \<and> resv_of c i = Some (pu_caller u, go_seconds (pu_whole u)) \<and> pu_phase u \<in> {RunReserved, RunAdmitted}) \<and>
    (\<forall>j k i. j < length us \<longrightarrow> k < length us \<longrightarrow> run_holds (us ! j) i \<longrightarrow> run_holds (us ! k) i \<longrightarrow> j = k) \<and>
    (list_all (\<lambda>u. pu_phase u = RunEnded) us \<longrightarrow> (\<forall>i. resv_of c i \<noteq> None \<longleftrightarrow> i \<in> ms))"
proof -
  note d = paid_invD [OF paid.reach_inv [OF assms]]
  have o: "resv_of c i = Some (pu_caller u, go_seconds (pu_whole u)) \<and> pu_phase u \<in> {RunReserved, RunAdmitted}"
    if "u \<in> set us" "run_holds u i" for u i
    using d(2) [OF that(1)] that(2) by (auto simp: paid_ok_def)
  have "list_all (\<lambda>u. pu_phase u = RunEnded) us \<longrightarrow> (\<forall>i. resv_of c i \<noteq> None \<longleftrightarrow> i \<in> ms)"
    using d(3) o by (fastforce simp: list_all_iff simp del: not_None_eq)
  then show ?thesis using d(3,4,5) o by blast
qed

subsection \<open>One reserved run\<close>

definition demo_paid_env :: envelope where
  "demo_paid_env = \<lparr>ep_minimum = IsolationUnknown, ep_timeout = 30 * second, ep_traceID = '''', ep_software = no_software_rule\<rparr>"

definition demo_paid :: paid_run where
  "demo_paid = new_paid_run True \<lparr>cb_Grants = None, cb_Projects = Some True, cb_Modules = None\<rparr> (Some demo_who) demo_paid_env
     (demo_target\<lparr>tg_teardown := 40 * second\<rparr>) (RqJavaScript \<lparr>rq_Code = ''1'', rq_Timeout = 0, rq_MinimumIsolation = 0, rq_Software = no_software_rule\<rparr>) None"

theorem no_reservation_forgotten_witness:
  "\<exists>c u. run_reserve second (NewSpendCap 1000) demo_paid = (c, u) \<and> run_holds u 0 \<and> resv_of c 0 = Some (''alice'', 70)"
proof -
  obtain c u where r: "run_reserve second (NewSpendCap 1000) demo_paid = (c, u)" by force
  note step = reach.reach_step [of paid_init paid_step]
  have "reach paid_init paid_step (NewSpendCap 1000, [], {})" by (rule reach.reach_init) (auto simp: paid_init_def)
  from step [OF this p_check [OF refl]] have "reach paid_init paid_step (NewSpendCap 1000, [demo_paid], {})"
    by (simp add: demo_paid_def second_def)
  from step [OF this p_reserve [of 0 "[demo_paid]" second "NewSpendCap 1000" c u "{}"]] r
  have reached: "reach paid_init paid_step (c, [u], {})" by (simp add: demo_paid_def new_paid_run_def)
  have "run_holds (snd (run_reserve second (NewSpendCap 1000) demo_paid)) 0" by code_simp
  moreover have "pu_caller (snd (run_reserve second (NewSpendCap 1000) demo_paid)) = ''alice''" by code_simp
  moreover have "go_seconds (pu_whole (snd (run_reserve second (NewSpendCap 1000) demo_paid))) = 70" by code_simp
  ultimately have h: "run_holds u 0" "pu_caller u = ''alice''" "go_seconds (pu_whole u) = 70" by (simp_all add: r)
  have "resv_of c 0 = Some (pu_caller u, go_seconds (pu_whole u))" using no_reservation_forgotten [OF reached] h(1) by simp
  with r h show ?thesis by simp
qed

end
