(* ===== verification/Spec2Isabelle.thy ===== *)
theory Spec2Isabelle
  imports Broker_Session Limiter Warm_Pool Admission Placement Session_Registry Session_Chain Session_Table
    Paid_Runs
begin

text \<open>
  Plimsoll runs untrusted code: a daemon (\<open>cmd/plimsolld\<close>, served by \<open>internal/rpc\<close>) takes
  snippets, projects, modules and session calls over RPC and runs each in a sandbox of a
  provider (\<open>sandbox\<close>: docker, hosted machines, WebAssembly). A run may carry a host API
  grant; its calls then go through a broker in the daemon, the only holder of the credential.
  Callers may place requests over several daemons (\<open>placement\<close>). This development models the
  parts that decide: what may run, where, how often, against which budget, what a refusal
  proves, and what is gone when the code says it is gone.

  \<^bold>\<open>Conventions.\<close> A struct is a record, an enumeration a datatype, a Go map an association list
  with distinct keys whose order stands for Go's iteration order, an error a value of
  \<open>goerr\<close> (its chain of sentinels and marks, without texts). Go's \<open>int\<close> and
  \<open>time.Duration\<close> are integers; where the code depends on the width (the breaker's generation,
  the \<open>Retry-After\<close> product, float64 spend) the width is kept. Concurrent code is cut at its
  critical sections: each is a definition, goroutines are records with a phase, and an
  inductive step relation lets every enabled section run next, so a theorem about reachable
  states holds for every schedule. What the world answers (an HTTP transport, an exec, a
  hook of a provider, a clock) is an argument of the step that asks. Fields that only count
  or remember for a theorem are named as such where they are declared.

  \<^bold>\<open>Theories.\<close>

  \<^item> \<open>Go_Prelude\<close>, \<open>Go_Strings\<close>, \<open>Go_Float\<close>: early returns, Go maps, clock values, reachability and
    the locale \<open>inductive_invariant\<close> every state machine instantiates; byte strings, paths and
    URL escapes as \<open>strings\<close>, \<open>path\<close> and \<open>net/url\<close> have them; float64 rounding.
  \<^item> \<open>Go_Json\<close>: strings as \<open>json.Marshal\<close> writes them and unpadded base64, each exact against a reader.
  \<^item> \<open>Refusals\<close>, \<open>Requests\<close> (\<open>sandbox/dispatch.go\<close>, \<open>sandbox.go\<close>, \<open>software.go\<close>,
    \<open>validation.go\<close>, \<open>cell.go\<close>): the mark that nothing ran, isolation tiers, software rules, request
    validation. Shown: what is marked, that merging rules is intersection, that a valid
    project stays inside its directory.
  \<^item> \<open>Grant\<close>, \<open>Routes\<close>, \<open>Grant_Valid\<close> (\<open>sandbox/capability.go\<close>): the grant, matching of routes in
    every spelling, validation, headers, the minted credential. Shown: a matched request is
    exactly the entry, caps cover every spelling, no owned header, bounds.
  \<^item> \<open>Route_Budget\<close>, \<open>Call_Trace\<close>, \<open>Upload\<close>, \<open>Breaker\<close>, \<open>Broker_Wire\<close>, \<open>Broker\<close>, \<open>Broker_Inv\<close>,
    \<open>Broker_Safety\<close>, \<open>Broker_Session\<close> (\<open>sandbox/route_budget.go\<close>, \<open>calltrace.go\<close>, \<open>broker.go\<close>): the broker
    as stages of \<open>Call\<close>, any number of calls side by side with reads of their bodies, health probes
    and \<open>End\<close>; then the brokers of one session over one route budget. Shown: the budgets hold
    under every interleaving for what calls send, with one probe at most for a call beside them;
    the caps of routes hold over a whole session; only approved requests and probes, with only
    the run's credential, go out; \<open>End\<close> revokes, up to a probe already under way; the trace is
    complete; every call answers and gives its unsent bytes back. A call has at most 18 stages;
    \<open>Call\<close> runs 20 rounds, and \<open>call_answers_and_gives_back\<close> shows they suffice.
  \<^item> \<open>Spend\<close>, \<open>Limiter\<close> (\<open>internal/rpc/spend.go\<close>, \<open>limiter.go\<close>): the daily allowances with midnight,
    debts and the session meter; concurrency caps and the token bucket. Shown: reservations
    stay within the allowances, settlement happens once, caps hold, eviction is invisible.
  \<^item> \<open>Warm_Pool\<close> (\<open>sandbox/internal/poolkit/pool.go\<close>): the pool of waiting sandboxes and its filler.
    Shown: the size bound, exclusive hand-over, the closest member is claimed, a closed pool
    stays empty.
  \<^item> \<open>Capacity\<close>, \<open>Admission\<close> (\<open>sandbox/capacity.go\<close>, \<open>admission.go\<close>): shares that outlive a call, the
    concurrency and memory budget. Shown: a share is given back once, when its last holder
    is done; the budget holds for sandboxes and not only for calls.
  \<^item> \<open>Placement\<close> (\<open>placement/placement.go\<close>): choice of a backend and retries. Shown: nothing that may
    have run is sent again, a request runs only where it fits, a late description never
    replaces a newer one.
  \<^item> \<open>Interp\<close> (\<open>sandbox/internal/sessionkit/interp.go\<close>, \<open>relay.go\<close>): a session's interpreters and the
    two steps of a cell; two turns of the preparing loop, as in the code. Shown: refused cells
    were not sent, code goes only to the interpreter started for it, a new interpreter is
    always announced.
  \<^item> \<open>Session_Life\<close>, \<open>Session_Registry\<close> (\<open>sandbox/internal/sessionkit/life.go\<close>, \<open>sandbox/session.go\<close>): the
    lifecycle of a session and a provider's registry with its drain. Shown: calls run one at a
    time, each after the boundary of the call before, the first end stays and lets no call in, a
    marked cell never ran, a drained provider leaves no session (a container whose removal failed
    is quarantined, and the daemon's sweep owns it).
  \<^item> \<open>Record_Encoding\<close>, \<open>Run_Record\<close> (\<open>record/record.go\<close>, \<open>runRecord\<close> in
    \<open>internal/rpc/sandbox_service.go\<close>): the encodings under every digest, the record of a run, its
    stamping and every check of it. Shown: the encodings are injective, a stamped record passes
    the check, a digest names one exchange.
  \<^item> \<open>Session_Chain\<close> (\<open>SessionRun\<close>, \<open>unanswered\<close> and \<open>CloseSession\<close> in \<open>internal/rpc/sessions.go\<close>,
    \<open>client/session.go\<close>): the chain of records the daemon and the client keep of one session.
    Shown: a verified close proves that both hold the same chain, an honest session verifies, a
    call cannot widen the rule of the open.
  \<^item> \<open>Session_Table\<close> (\<open>sessionRegistry\<close> in \<open>internal/rpc/sessions.go\<close>): the daemon's places and
    sessions under the caps of the daemon, a caller and an owner. Shown: what a reservation
    decides, that the caps hold outside one window, and a run in which they do not.
  \<^item> \<open>Wire_Answers\<close> (\<open>internal/wireenum\<close>, \<open>internal/rpc/refuse.go\<close>, \<open>answer.go\<close>, \<open>client/answer.go\<close>,
    \<open>restoreSandboxError\<close>): errors as Connect answers and back. Shown: which sentinels, marks and
    ends survive the wire and when, and that a mark a client believes is its daemon's.
  \<^item> \<open>Http_Edge\<close> (\<open>internal/clientconfig\<close>, \<open>internal/rpc/clients.go\<close>, \<open>auth.go\<close>, \<open>guardRPC\<close>): the clients
    file, tokens, scopes and body limits. Shown: the edge fails closed.
  \<^item> \<open>Scan_Gate\<close>, \<open>Module_Runs\<close>, \<open>Cell_Runs\<close> (\<open>internal/rpc/withheld.go\<close>, \<open>sandbox/module.go\<close>,
    \<open>sandbox/cell_fresh.go\<close>, \<open>internal/rpc/onecall.go\<close>): the gate of the ship scan, module requests
    and the record a worker writes, one-call cells in a waiting member or a fresh sandbox. Shown:
    scans and waiters stay within their bounds, the decoder reads exactly what the encoding
    writes, a cell is started at most once and its member is closed before its slot returns.
  \<^item> \<open>Jwt_Minter\<close>, \<open>Grants_File\<close> (\<open>internal/grants/jwt.go\<close>, \<open>grants.go\<close>): the per-run token and the
    operator's profiles. Shown: a token names its caller and expires with the run, a loaded
    registry is well formed, a preamble is read only below its directory.
  \<^item> \<open>Pipeline\<close>, \<open>Paid_Runs\<close> (\<open>internal/rpc/sandbox_service.go\<close>, \<open>pipeline.go\<close>): the checks of a run
    in their order, then reservation, admission, dispatch and settlement. Shown: what is
    dispatched passed every check and what is refused carries the mark, profiles open only to
    their callers, no reservation is forgotten on any path.

  \<^bold>\<open>How the parts meet.\<close> \<open>Broker\<close> runs on \<open>Grant_Valid\<close>'s matching and headers, charges
  \<open>Route_Budget\<close>, writes \<open>Call_Trace\<close> and reads bodies through \<open>Upload\<close>; \<open>Admission\<close> gives shares
  back through \<open>Capacity\<close>; \<open>Session_Life\<close> keeps \<open>Interp\<close>'s interpreters and turns its errors into
  the marks of \<open>Refusals\<close>, on which \<open>Placement\<close> decides whether to try another backend;
  \<open>Session_Registry\<close> drives \<open>Session_Life\<close>'s ends; \<open>Session_Chain\<close> stamps and checks with
  \<open>Run_Record\<close> and merges rules with \<open>Requests\<close>. \<open>Http_Edge\<close> gives \<open>Pipeline\<close> its principal;
  \<open>Pipeline\<close> selects a profile of \<open>Grants_File\<close>, whose grants passed \<open>Grant_Valid\<close> and whose
  credentials \<open>Jwt_Minter\<close> mints, scans behind \<open>Scan_Gate\<close>, runs modules and cells through
  \<open>Module_Runs\<close> and \<open>Cell_Runs\<close>, and refuses through \<open>Wire_Answers\<close>; \<open>Paid_Runs\<close> runs what \<open>Pipeline\<close>
  let through on the books of \<open>Spend\<close>.

  \<^bold>\<open>Not modelled.\<close> The providers' own container, machine and gateway operations, whose
  results are inputs here; the programs that run inside a sandbox (JavaScript, Python, shell);
  \<open>crypto\<close>, \<open>net/http\<close>, \<open>encoding/json\<close>, regular expressions other than the one of
  identities; generated code under \<open>gen\<close>; command line tools, clients in other languages,
  examples and measurements. Texts of errors and log lines. Of the daemon: \<open>Describe\<close>, audit
  lines, advice and statistics of host calls, the matcher and archives of the withheld set, the
  egress guard's registry, attestation, and the idle timers of a session entry.
\<close>

end
